(* ===== verification/Prelude.thy ===== *)
theory Prelude
  imports Complex_Main "HOL-Library.AList" "HOL-Library.Sublist"
begin

text \<open>
  Shared vocabulary of the development: type synonyms for the quantities the four
  containers exchange, Python's float-to-int conversions, the row operations the
  recorder and the router apply to their SQLite tables, and the exponential
  backoff contract that four different retry loops of the program follow.

  A Python float is modelled by a \<open>real\<close>: rounding of float arithmetic and the
  special values NaN and infinity are outside the model.
\<close>

section \<open>Types and collections\<close>

type_synonym seconds = real
type_synonym millis = int

text \<open>
  \<open>clock\<close> is the sequence of \<open>time.time()\<close> readings that one handler takes: the
  i-th call of the handler reads \<open>tm i\<close>. Nothing forces two readings to be equal.
\<close>

type_synonym clock = "nat \<Rightarrow> seconds"

named_theorems row_simps "rewriting of SELECT, UPDATE, DELETE and INSERT on rows"
named_theorems frame_simps "fields an operation leaves alone"

section \<open>Python's numeric conversions\<close>

text \<open>\<open>int(x)\<close> on a float truncates towards zero.\<close>

definition py_int_of_float :: "real \<Rightarrow> int" where
  "py_int_of_float x = (if 0 \<le> x then \<lfloor>x\<rfloor> else \<lceil>x\<rceil>)"

text \<open>\<open>round(x)\<close> rounds half to even.\<close>

definition py_round :: "real \<Rightarrow> int" where
  "py_round x =
     (let f = \<lfloor>x\<rfloor>; d = x - of_int f in
      if d < 1 / 2 then f
      else if 1 / 2 < d then f + 1
      else if even f then f else f + 1)"

text \<open>\<open>int(round(x * 1000))\<close>, the conversion to milliseconds.\<close>

definition to_ms :: "seconds \<Rightarrow> millis" where
  "to_ms x = py_round (x * 1000)"

lemma py_round_close: "\<bar>of_int (py_round x) - x\<bar> \<le> 1 / 2"
proof -
  have lo: "of_int \<lfloor>x\<rfloor> \<le> x" by (rule of_int_floor_le)
  have hi: "x < of_int \<lfloor>x\<rfloor> + 1" by linarith
  show ?thesis
    using lo hi by (auto simp: py_round_def Let_def abs_le_iff field_simps)
qed

lemma py_round_of_int [simp]: "py_round (of_int n) = n"
  by (simp add: py_round_def)

lemma py_int_of_float_of_int [simp]: "py_int_of_float (of_int n) = n"
  by (simp add: py_int_of_float_def)

lemma py_int_of_float_nonneg: "0 \<le> x \<Longrightarrow> 0 \<le> py_int_of_float x"
  by (simp add: py_int_of_float_def)

lemma py_int_of_float_less: "x < of_int n \<Longrightarrow> 0 \<le> x \<Longrightarrow> py_int_of_float x < n"
  by (simp add: py_int_of_float_def floor_less_iff)

section \<open>Error answers\<close>

text \<open>An HTTP error answer; an exception no handler catches becomes FastAPI's 500.\<close>

datatype http_error = HttpError (http_status: nat) (http_detail: string) (retry_after: "string option")

definition internal_error :: http_error where
  "internal_error = HttpError 500 ''Internal Server Error'' None"

section \<open>Rows of a table\<close>

text \<open>
  A table is the list of its rows in insertion order. \<open>select_one\<close> is
  \<open>SELECT ... WHERE key = ?\<close> with \<open>fetchone\<close>; \<open>update_where\<close>, \<open>delete_where\<close> and
  \<open>row_count\<close> are UPDATE, DELETE and the number of rows a statement matches
  (\<open>cursor.rowcount\<close> of an UPDATE or DELETE with the same condition).
\<close>

definition select_one :: "('r \<Rightarrow> 'k) \<Rightarrow> 'k \<Rightarrow> 'r list \<Rightarrow> 'r option" where
  "select_one key k rows = find (\<lambda>r. key r = k) rows"

definition update_where :: "('r \<Rightarrow> bool) \<Rightarrow> ('r \<Rightarrow> 'r) \<Rightarrow> 'r list \<Rightarrow> 'r list" where
  "update_where p f rows = map (\<lambda>r. if p r then f r else r) rows"

definition delete_where :: "('r \<Rightarrow> bool) \<Rightarrow> 'r list \<Rightarrow> 'r list" where
  "delete_where p rows = filter (\<lambda>r. \<not> p r) rows"

definition row_count :: "('r \<Rightarrow> bool) \<Rightarrow> 'r list \<Rightarrow> nat" where
  "row_count p rows = length (filter p rows)"

definition unique_by :: "('r \<Rightarrow> 'k) \<Rightarrow> 'r list \<Rightarrow> bool" where
  "unique_by key rows \<longleftrightarrow> distinct (map key rows)"

lemma select_one_Nil [row_simps, simp]: "select_one key k [] = None"
  by (simp add: select_one_def)

lemma select_one_Cons [row_simps, simp]:
  "select_one key k (r # rows) = (if key r = k then Some r else select_one key k rows)"
  by (simp add: select_one_def)

lemma select_one_append [row_simps]:
  "select_one key k (xs @ ys) =
     (case select_one key k xs of Some r \<Rightarrow> Some r | None \<Rightarrow> select_one key k ys)"
  by (induction xs) auto

lemma select_one_Some: "select_one key k rows = Some r \<Longrightarrow> r \<in> set rows \<and> key r = k"
  by (auto simp: select_one_def find_Some_iff)

lemma select_one_None: "select_one key k rows = None \<longleftrightarrow> k \<notin> key ` set rows"
  by (auto simp: select_one_def find_None_iff)

lemma select_one_unique:
  "unique_by key rows \<Longrightarrow> r \<in> set rows \<Longrightarrow> select_one key (key r) rows = Some r"
  by (induction rows) (force simp: unique_by_def)+

lemma set_delete_where [simp]: "set (delete_where p rows) = {r \<in> set rows. \<not> p r}"
  by (auto simp: delete_where_def)

lemma set_update_where: "set (update_where p f rows) = (\<lambda>r. if p r then f r else r) ` set rows"
  by (simp add: update_where_def)

lemma unique_by_delete [row_simps]: "unique_by key rows \<Longrightarrow> unique_by key (delete_where p rows)"
  by (simp add: unique_by_def delete_where_def distinct_map_filter)

lemma select_one_delete:
  "unique_by key rows \<Longrightarrow>
   select_one key k (delete_where p rows) =
     (case select_one key k rows of Some r \<Rightarrow> (if p r then None else Some r) | None \<Rightarrow> None)"
proof (induction rows)
  case Nil
  then show ?case by (simp add: delete_where_def)
next
  case (Cons r rows)
  have IH: "select_one key k (delete_where p rows) =
      (case select_one key k rows of Some r \<Rightarrow> (if p r then None else Some r) | None \<Rightarrow> None)"
    using Cons by (simp add: unique_by_def)
  have "key r = k \<Longrightarrow> select_one key k rows = None"
    using Cons.prems by (auto simp: unique_by_def select_one_None)
  with IH show ?case by (auto simp: delete_where_def)
qed

lemma row_count_zero: "row_count p rows = 0 \<longleftrightarrow> (\<forall>r \<in> set rows. \<not> p r)"
  by (auto simp: row_count_def filter_empty_conv)

lemma length_delete_where: "length (delete_where p rows) + row_count p rows = length rows"
  using sum_length_filter_compl[of p rows] by (simp add: delete_where_def row_count_def)

section \<open>Updates that keep the key column\<close>

text \<open>
  Every UPDATE of the program leaves the unique column of its table alone. The
  locale states that law once; its lemmas say what a lookup returns afterwards and
  that uniqueness of the column is kept.
\<close>

locale keyed_update =
  fixes key :: "'r \<Rightarrow> 'k" and f :: "'r \<Rightarrow> 'r"
  assumes key_kept: "key (f r) = key r"
begin

lemma select_update:
  "select_one key k (update_where p f rows) =
     map_option (\<lambda>r. if p r then f r else r) (select_one key k rows)"
  by (induction rows) (auto simp: update_where_def key_kept)

lemma keys_update: "map key (update_where p f rows) = map key rows"
  by (induction rows) (auto simp: update_where_def key_kept)

lemma unique_update: "unique_by key (update_where p f rows) = unique_by key rows"
  by (simp add: unique_by_def keys_update)

end

section \<open>Exponential backoff\<close>

text \<open>
  The retry loops of the streamer (\<open>startup_apply\<close>, the MediaMTX supervisor), of the
  recorder (segment recorder) and of the analyzer (watchdog) all wait \<open>delay\<close> and
  then replace it by \<open>min(delay * 2, cap)\<close>. The contract: every delay lies between
  the base and the cap, delays never shrink, and the cap is reached.
\<close>

locale backoff =
  fixes base cap :: real and next_delay :: "real \<Rightarrow> real"
  assumes base_pos: "0 < base" and base_le_cap: "base \<le> cap"
    and next_delay: "next_delay d = min (d * 2) cap"
begin

lemma next_in_range: "base \<le> d \<Longrightarrow> d \<le> cap \<Longrightarrow> base \<le> next_delay d \<and> next_delay d \<le> cap"
  using base_pos base_le_cap by (auto simp: next_delay)

lemma next_grows: "base \<le> d \<Longrightarrow> d \<le> cap \<Longrightarrow> d \<le> next_delay d"
  using base_pos by (auto simp: next_delay)

lemma delay_closed: "(next_delay ^^ n) base = min (base * 2 ^ n) cap"
proof (induction n)
  case 0
  show ?case using base_le_cap by simp
next
  case (Suc n)
  have "next_delay (min (base * 2 ^ n) cap) = min (base * 2 ^ Suc n) cap"
    using base_pos base_le_cap by (auto simp: next_delay min_def)
  with Suc show ?case by simp
qed

lemma delay_in_range: "base \<le> (next_delay ^^ n) base \<and> (next_delay ^^ n) base \<le> cap"
proof -
  have "base * 1 \<le> base * 2 ^ n"
    using base_pos by (intro mult_left_mono) auto
  then show ?thesis using base_le_cap by (simp add: delay_closed)
qed

lemma delay_reaches_cap: "cap \<le> base * 2 ^ n \<Longrightarrow> (next_delay ^^ n) base = cap"
  by (simp add: delay_closed)

end

section \<open>Runs of a component\<close>

text \<open>
  A component is a state and a step function over its requests; a run folds the step over
  the requests in the order they arrive. \<open>keeps\<close> is the contract "every step keeps the
  invariant", \<open>moves\<close> the contract "every step moves along a reflexive and transitive
  relation" (an epoch that only grows, an event list that is only extended).
\<close>

locale keeps =
  fixes inv :: "'s \<Rightarrow> bool" and step :: "'a \<Rightarrow> 's \<Rightarrow> 's"
  assumes step_keeps: "inv s \<Longrightarrow> inv (step a s)"
begin

lemma run_keeps: "inv s \<Longrightarrow> inv (fold step as s)"
  by (induction as arbitrary: s) (simp_all add: step_keeps)

end

locale moves =
  fixes rel :: "'s \<Rightarrow> 's \<Rightarrow> bool" and step :: "'a \<Rightarrow> 's \<Rightarrow> 's"
  assumes rel_refl: "rel s s"
    and rel_trans: "rel s t \<Longrightarrow> rel t u \<Longrightarrow> rel s u"
    and step_rel: "rel s (step a s)"
begin

lemma run_rel: "rel s (fold step as s)"
proof (induction as arbitrary: s)
  case Nil
  show ?case by (simp add: rel_refl)
next
  case (Cons a as)
  have "rel (step a s) (fold step as (step a s))" by (rule Cons)
  then show ?case using step_rel rel_trans by (auto intro: rel_trans)
qed

end

section \<open>Lists\<close>

lemma map_filter_key_eq: "map f (filter p xs) = map f xs \<longleftrightarrow> filter p xs = xs"
  by (metis length_filter_less length_map less_irrefl filter_True)

lemma takeWhile_all: "c \<in> set (takeWhile p xs) \<Longrightarrow> p c"
  by (rule set_takeWhileD[THEN conjunct2])

lemma find_append: "find p (xs @ ys) = (case find p xs of Some x \<Rightarrow> Some x | None \<Rightarrow> find p ys)"
  by (induction xs) auto

text \<open>
  A simulation: seen through \<open>view\<close>, every step of the program that starts in its invariant is a
  step of the abstract machine \<open>rel\<close>. Then a run of the program, seen through \<open>view\<close>, is a run
  of the machine, and what the machine keeps holds at its end.
\<close>

fun states :: "('a \<Rightarrow> 's \<Rightarrow> 's) \<Rightarrow> 'a list \<Rightarrow> 's \<Rightarrow> 's list" where
  "states step [] s = [s]"
| "states step (a # as) s = s # states step as (step a s)"

lemma states_nonempty [simp]: "states step as s \<noteq> []"
  by (cases as) simp_all

lemma hd_states [simp]: "hd (states step as s) = s"
  by (cases as) simp_all

locale simulation =
  fixes view :: "'s \<Rightarrow> 't" and inv :: "'s \<Rightarrow> bool" and step :: "'a \<Rightarrow> 's \<Rightarrow> 's" and rel :: "'t \<Rightarrow> 't \<Rightarrow> bool"
  assumes square: "inv s \<Longrightarrow> rel (view s) (view (step a s))"
    and inv_step: "inv s \<Longrightarrow> inv (step a s)"
begin

lemma run_is_trace: "inv s \<Longrightarrow> successively rel (map view (states step as s))"
proof (induction as arbitrary: s)
  case (Cons a as)
  have "successively rel (map view (states step as (step a s)))"
    using Cons by (simp add: inv_step)
  then show ?case
    using square[OF Cons.prems] by (cases as) (simp_all add: successively_Cons)
qed simp

lemma run_keeps_abstract:
  assumes "\<And>t t'. rel t t' \<Longrightarrow> P t \<Longrightarrow> P t'" and "inv s" and "P (view s)"
  shows "P (view (fold step as s))"
  using assms(2,3)
proof (induction as arbitrary: s)
  case (Cons a as)
  then show ?case using assms(1)[OF square] inv_step by simp
qed simp

end

end
