(* ===== verification/Py_Values.thy ===== *)
theory Py_Values
  imports Prelude
begin

text \<open>
  The part of Python's built-in types the containers exchange: strings with the
  \<open>str\<close> methods the code calls, decimal conversion, and JSON documents as
  \<open>json.loads\<close> returns them.

  A \<open>str\<close> is a \<open>string\<close> whose characters are the code points below 256 (Latin-1); on
  these the character classes and case mapping below are Python's own tables.
\<close>

section \<open>Characters\<close>

definition ord :: "char \<Rightarrow> nat" where
  "ord c = of_char c"

definition chr :: "nat \<Rightarrow> char" where
  "chr n = char_of n"

text \<open>\<open>str.isspace\<close>, \<open>str.isdigit\<close> (superscript digits included), decimal digits.\<close>

definition is_space :: "char \<Rightarrow> bool" where
  "is_space c \<longleftrightarrow> (let n = ord c in
     (9 \<le> n \<and> n \<le> 13) \<or> (28 \<le> n \<and> n \<le> 32) \<or> n = 133 \<or> n = 160)"

definition is_decimal :: "char \<Rightarrow> bool" where
  "is_decimal c \<longleftrightarrow> 48 \<le> ord c \<and> ord c \<le> 57"

definition is_digit_char :: "char \<Rightarrow> bool" where
  "is_digit_char c \<longleftrightarrow> is_decimal c \<or> ord c = 178 \<or> ord c = 179 \<or> ord c = 185"

definition lower_char :: "char \<Rightarrow> char" where
  "lower_char c = (let n = ord c in
     if (65 \<le> n \<and> n \<le> 90) \<or> (192 \<le> n \<and> n \<le> 214) \<or> (216 \<le> n \<and> n \<le> 222)
     then chr (n + 32) else c)"

lemma ord_chr [simp]: "n < 256 \<Longrightarrow> ord (chr n) = n"
  by (simp add: ord_def chr_def)

lemma chr_ord [simp]: "chr (ord c) = c"
  by (simp add: ord_def chr_def)

lemma ord_less [simp]: "ord c < 256"
  unfolding ord_def by (rule nat_of_char_less_256)

lemma ord_inject: "ord c = ord d \<longleftrightarrow> c = d"
  by (metis chr_ord)

lemma lower_char_idem [simp]: "lower_char (lower_char c) = lower_char c"
  by (simp add: lower_char_def Let_def)

section \<open>Methods of str\<close>

definition py_lower :: "string \<Rightarrow> string" where
  "py_lower s = map lower_char s"

definition lstrip :: "string \<Rightarrow> string" where
  "lstrip s = dropWhile is_space s"

definition rstrip :: "string \<Rightarrow> string" where
  "rstrip s = rev (dropWhile is_space (rev s))"

definition strip :: "string \<Rightarrow> string" where
  "strip s = rstrip (lstrip s)"

definition starts_with :: "string \<Rightarrow> string \<Rightarrow> bool" where
  "starts_with p s \<longleftrightarrow> take (length p) s = p"

definition ends_with :: "string \<Rightarrow> string \<Rightarrow> bool" where
  "ends_with p s \<longleftrightarrow> length p \<le> length s \<and> drop (length s - length p) s = p"

text \<open>\<open>p in s\<close>, and \<open>s.find(p)\<close> (\<open>None\<close> for -1).\<close>

fun contains :: "string \<Rightarrow> string \<Rightarrow> bool" where
  "contains p [] \<longleftrightarrow> p = []"
| "contains p (c # s) \<longleftrightarrow> starts_with p (c # s) \<or> contains p s"

fun find_sub :: "string \<Rightarrow> string \<Rightarrow> nat option" where
  "find_sub p [] = (if p = [] then Some 0 else None)"
| "find_sub p (c # s) =
     (if starts_with p (c # s) then Some 0 else map_option Suc (find_sub p s))"

text \<open>\<open>s.split(c)\<close> with a one-character separator, and \<open>c.join(ws)\<close>.\<close>

fun split_on :: "char \<Rightarrow> string \<Rightarrow> string list" where
  "split_on c [] = [[]]"
| "split_on c (x # xs) =
     (if x = c then [] # split_on c xs
      else (case split_on c xs of [] \<Rightarrow> [[x]] | w # ws \<Rightarrow> (x # w) # ws))"

fun join_with :: "char \<Rightarrow> string list \<Rightarrow> string" where
  "join_with c [] = []"
| "join_with c [w] = w"
| "join_with c (w # w' # ws) = w @ c # join_with c (w' # ws)"

text \<open>\<open>len(s.encode())\<close>: code points from 128 on take two bytes in UTF-8.\<close>

definition utf8_length :: "string \<Rightarrow> nat" where
  "utf8_length s = sum_list (map (\<lambda>c. if ord c < 128 then 1 else 2) s)"

lemma starts_with_prefix: "starts_with p s \<longleftrightarrow> prefix p s"
  by (metis append_eq_conv_conj prefix_def starts_with_def)

lemma contains_sublist: "contains p s \<longleftrightarrow> sublist p s"
proof (induction s)
  case Nil
  then show ?case by simp
next
  case (Cons c s)
  then show ?case by (simp add: starts_with_prefix sublist_Cons_right)
qed

lemma find_sub_None: "find_sub p s = None \<longleftrightarrow> \<not> contains p s"
  by (induction s) auto

lemma find_sub_Some:
  "find_sub p s = Some i \<Longrightarrow> i + length p \<le> length s \<and> take (length p) (drop i s) = p"
proof (induction s arbitrary: i)
  case Nil
  then show ?case by (simp split: if_splits)
next
  case (Cons c s)
  show ?case
  proof (cases "starts_with p (c # s)")
    case True
    then have "length p \<le> length (c # s)"
      by (metis starts_with_prefix prefix_length_le)
    with True Cons.prems show ?thesis by (simp add: starts_with_def)
  next
    case False
    with Cons show ?thesis by (auto split: if_splits)
  qed
qed

lemma py_lower_idem [simp]: "py_lower (py_lower s) = py_lower s"
  by (simp add: py_lower_def)

lemma length_py_lower [simp]: "length (py_lower s) = length s"
  by (simp add: py_lower_def)

lemma split_on_not_Nil [simp]: "split_on c s \<noteq> []"
  by (cases s) (auto split: list.splits)

lemma join_split [simp]: "join_with c (split_on c s) = s"
proof (induction s)
  case Nil
  then show ?case by simp
next
  case (Cons x s)
  show ?case
  proof (cases "split_on c s")
    case Nil
    then show ?thesis by simp
  next
    case (Cons w ws)
    with \<open>join_with c (split_on c s) = s\<close> show ?thesis
      by (cases ws) (auto split: list.splits)
  qed
qed

lemma split_on_no_sep: "w \<in> set (split_on c s) \<Longrightarrow> c \<notin> set w"
  by (induction s arbitrary: w) (auto split: list.splits if_splits)

lemma split_on_free: "c \<notin> set s \<Longrightarrow> split_on c s = [s]"
  by (induction s) auto

lemma split_on_append: "c \<notin> set w \<Longrightarrow> split_on c (w @ c # s) = w # split_on c s"
  by (induction w) auto

lemma split_join:
  "ws \<noteq> [] \<Longrightarrow> (\<And>w. w \<in> set ws \<Longrightarrow> c \<notin> set w) \<Longrightarrow> split_on c (join_with c ws) = ws"
proof (induction ws rule: induct_list012)
  case (3 w w' ws)
  then show ?case by (simp add: split_on_append)
qed (auto simp: split_on_free)

lemma rstrip_prefix: "prefix (rstrip s) s"
proof -
  have "suffix (dropWhile is_space (rev s)) (rev s)" by (rule suffix_dropWhile)
  then show ?thesis by (simp add: rstrip_def suffix_to_prefix)
qed

lemma strip_sublist: "sublist (strip s) s"
proof -
  have "sublist (rstrip (lstrip s)) (lstrip s)"
    by (rule prefix_imp_sublist[OF rstrip_prefix])
  moreover have "sublist (lstrip s) s"
    unfolding lstrip_def by (rule suffix_imp_sublist[OF suffix_dropWhile])
  ultimately show ?thesis unfolding strip_def by (rule sublist_order.order.trans)
qed

lemma strip_subset: "set (strip s) \<subseteq> set s"
  using strip_sublist by (rule set_mono_sublist)

lemma dropWhile_head: "dropWhile p s = [] \<or> \<not> p (hd (dropWhile p s))"
  by (metis hd_dropWhile)

lemma lstrip_idem: "s = [] \<or> \<not> is_space (hd s) \<Longrightarrow> lstrip s = s"
  by (cases s) (auto simp: lstrip_def)

lemma rstrip_idem: "s = [] \<or> \<not> is_space (last s) \<Longrightarrow> rstrip s = s"
  by (cases s rule: rev_cases) (auto simp: rstrip_def)

lemma rstrip_last: "rstrip s = [] \<or> \<not> is_space (last (rstrip s))"
proof -
  have "dropWhile is_space (rev s) = [] \<or> \<not> is_space (hd (dropWhile is_space (rev s)))"
    by (rule dropWhile_head)
  then show ?thesis by (auto simp: rstrip_def last_rev)
qed

lemma strip_head: "strip s = [] \<or> \<not> is_space (hd (strip s))"
proof -
  obtain t where "lstrip s = strip s @ t"
    using rstrip_prefix[of "lstrip s"] by (auto simp: strip_def prefix_def)
  moreover have "lstrip s = [] \<or> \<not> is_space (hd (lstrip s))"
    unfolding lstrip_def by (rule dropWhile_head)
  ultimately show ?thesis by (cases "strip s") auto
qed

lemma strip_idem [simp]: "strip (strip s) = strip s"
proof -
  have "lstrip (strip s) = strip s" by (rule lstrip_idem[OF strip_head])
  moreover have "rstrip (strip s) = strip s"
    unfolding strip_def by (rule rstrip_idem[OF rstrip_last])
  ultimately show ?thesis by (simp add: strip_def)
qed

section \<open>Decimal numbers\<close>

definition digit_char :: "nat \<Rightarrow> char" where
  "digit_char d = chr (48 + d)"

definition digit_val :: "char \<Rightarrow> nat" where
  "digit_val c = ord c - 48"

function nat_str :: "nat \<Rightarrow> string" where
  "nat_str n = (if n < 10 then [digit_char n] else nat_str (n div 10) @ [digit_char (n mod 10)])"
  by pat_completeness auto
termination by (relation "measure id") auto

declare nat_str.simps [simp del]

definition int_str :: "int \<Rightarrow> string" where
  "int_str n = (if n < 0 then CHR ''-'' # nat_str (nat (- n)) else nat_str (nat n))"

definition digits_val :: "string \<Rightarrow> nat" where
  "digits_val s = foldl (\<lambda>n c. 10 * n + digit_val c) 0 s"

text \<open>\<open>f"{n:0wd}"\<close> for a natural number: padded with zeros to width \<open>w\<close>.\<close>

definition pad_str :: "nat \<Rightarrow> nat \<Rightarrow> string" where
  "pad_str w n = (let s = nat_str n in replicate (w - length s) (CHR ''0'') @ s)"

lemma digit_char_decimal [simp]: "d < 10 \<Longrightarrow> is_decimal (digit_char d)"
  by (simp add: is_decimal_def digit_char_def)

lemma digit_val_char [simp]: "d < 10 \<Longrightarrow> digit_val (digit_char d) = d"
  by (simp add: digit_val_def digit_char_def)

lemma nat_str_not_Nil [simp]: "nat_str n \<noteq> []"
  by (subst nat_str.simps) simp

lemma nat_str_decimal: "c \<in> set (nat_str n) \<Longrightarrow> is_decimal c"
proof (induction n rule: nat_str.induct)
  case (1 n)
  show ?case
  proof (cases "n < 10")
    case True
    with "1.prems" show ?thesis by (simp add: nat_str.simps[of n])
  next
    case False
    with 1 show ?thesis by (auto simp: nat_str.simps[of n])
  qed
qed

lemma digits_val_nat_str [simp]: "digits_val (nat_str n) = n"
proof (induction n rule: nat_str.induct)
  case (1 n)
  show ?case
  proof (cases "n < 10")
    case True
    then show ?thesis by (simp add: nat_str.simps[of n] digits_val_def)
  next
    case False
    with 1 have "digits_val (nat_str (n div 10)) = n div 10" by simp
    with False show ?thesis by (simp add: nat_str.simps[of n] digits_val_def)
  qed
qed

text \<open>
  \<open>int(s)\<close> on a string: surrounding white space is stripped, one sign is allowed, and
  single underscores may separate digits. \<open>None\<close> is ValueError.
\<close>

fun digit_groups :: "bool \<Rightarrow> string \<Rightarrow> string option" where
  "digit_groups after_digit [] = (if after_digit then Some [] else None)"
| "digit_groups after_digit (c # s) =
     (if is_decimal c then map_option ((#) c) (digit_groups True s)
      else if c = CHR ''_'' \<and> after_digit then digit_groups False s
      else None)"

definition py_int_of_str :: "string \<Rightarrow> int option" where
  "py_int_of_str s =
     (case strip s of
        [] \<Rightarrow> None
      | c # cs \<Rightarrow>
          if c = CHR ''-'' then map_option (\<lambda>d. - int (digits_val d)) (digit_groups False cs)
          else if c = CHR ''+'' then map_option (\<lambda>d. int (digits_val d)) (digit_groups False cs)
          else map_option (\<lambda>d. int (digits_val d)) (digit_groups False (c # cs)))"

lemma digit_groups_decimal:
  "(\<And>c. c \<in> set s \<Longrightarrow> is_decimal c) \<Longrightarrow> s \<noteq> [] \<or> b \<Longrightarrow> digit_groups b s = Some s"
  by (induction s arbitrary: b) auto

lemma decimal_not_space: "is_decimal c \<Longrightarrow> \<not> is_space c"
  by (auto simp: is_decimal_def is_space_def Let_def)

lemma decimal_not_sign: "is_decimal c \<Longrightarrow> c \<noteq> CHR ''-'' \<and> c \<noteq> CHR ''+''"
  by (auto simp: is_decimal_def ord_def)

lemma strip_decimal: "(\<And>c. c \<in> set s \<Longrightarrow> is_decimal c) \<Longrightarrow> strip s = s"
proof -
  assume d: "\<And>c. c \<in> set s \<Longrightarrow> is_decimal c"
  have "lstrip s = s"
    by (rule lstrip_idem) (metis d decimal_not_space hd_in_set)
  moreover have "rstrip s = s"
    by (rule rstrip_idem) (metis d decimal_not_space last_in_set)
  ultimately show ?thesis by (simp add: strip_def)
qed

lemma py_int_of_decimal:
  assumes "s \<noteq> []" and d: "\<And>c. c \<in> set s \<Longrightarrow> is_decimal c"
  shows "py_int_of_str s = Some (int (digits_val s))"
proof -
  obtain c cs where s: "s = c # cs" using assms(1) by (cases s) auto
  have "digit_groups False (c # cs) = Some (c # cs)"
    by (rule digit_groups_decimal) (use d s in auto)
  moreover have "c \<noteq> CHR ''-'' \<and> c \<noteq> CHR ''+''"
    using d s by (intro decimal_not_sign) simp
  ultimately show ?thesis
    using strip_decimal[of s] d s by (simp add: py_int_of_str_def)
qed

lemma py_int_of_nat_str [simp]: "py_int_of_str (nat_str n) = Some (int n)"
  by (simp add: py_int_of_decimal nat_str_decimal)

section \<open>JSON values\<close>

datatype json =
  JNull
| JBool bool
| JInt int
| JFloat real
| JStr string
| JList "json list"
| JObj "(string \<times> json) list"

type_synonym dict = "(string \<times> json) list"

text \<open>
  A dict is the association list of its items in insertion order; \<open>d.get(k)\<close> is
  \<open>map_of d k\<close>, \<open>d[k] = v\<close> and \<open>d.update\<close> are \<open>AList.update\<close>, which keeps the place of
  a key that is already there. \<open>get_null\<close> is \<open>d.get(k)\<close> with Python's default
  \<open>None\<close>, so an absent key and a JSON null read the same.
\<close>

definition get_null :: "dict \<Rightarrow> string \<Rightarrow> json" where
  "get_null d k = (case map_of d k of Some v \<Rightarrow> v | None \<Rightarrow> JNull)"

definition has_key :: "dict \<Rightarrow> string \<Rightarrow> bool" where
  "has_key d k \<longleftrightarrow> map_of d k \<noteq> None"

definition set_key :: "string \<Rightarrow> json \<Rightarrow> dict \<Rightarrow> dict" where
  "set_key k v d = AList.update k v d"

fun update_all :: "dict \<Rightarrow> dict \<Rightarrow> dict" where
  "update_all d [] = d"
| "update_all d ((k, v) # kvs) = update_all (set_key k v d) kvs"

fun truthy :: "json \<Rightarrow> bool" where
  "truthy JNull = False"
| "truthy (JBool b) = b"
| "truthy (JInt n) = (n \<noteq> 0)"
| "truthy (JFloat x) = (x \<noteq> 0)"
| "truthy (JStr s) = (s \<noteq> [])"
| "truthy (JList l) = (l \<noteq> [])"
| "truthy (JObj d) = (d \<noteq> [])"

text \<open>
  \<open>str(v)\<close>. The text of a float, a list or a dict is Python's \<open>repr\<close>, passed in.
\<close>

fun py_str :: "(json \<Rightarrow> string) \<Rightarrow> json \<Rightarrow> string" where
  "py_str rp JNull = ''None''"
| "py_str rp (JBool b) = (if b then ''True'' else ''False'')"
| "py_str rp (JInt n) = int_str n"
| "py_str rp (JStr s) = s"
| "py_str rp v = rp v"

text \<open>\<open>int(v)\<close>: \<open>None\<close> is a TypeError or a ValueError.\<close>

fun py_int :: "json \<Rightarrow> int option" where
  "py_int (JBool b) = Some (if b then 1 else 0)"
| "py_int (JInt n) = Some n"
| "py_int (JFloat x) = Some (py_int_of_float x)"
| "py_int (JStr s) = py_int_of_str s"
| "py_int v = None"

text \<open>\<open>float(v)\<close>; how a string reads as a float is passed in.\<close>

fun py_float :: "(string \<Rightarrow> real option) \<Rightarrow> json \<Rightarrow> real option" where
  "py_float rd (JBool b) = Some (if b then 1 else 0)"
| "py_float rd (JInt n) = Some (of_int n)"
| "py_float rd (JFloat x) = Some x"
| "py_float rd (JStr s) = rd s"
| "py_float rd v = None"

fun is_str :: "json \<Rightarrow> bool" where
  "is_str (JStr _) = True"
| "is_str _ = False"

fun str_of :: "json \<Rightarrow> string" where
  "str_of (JStr s) = s"
| "str_of _ = []"

lemma map_of_set_key [simp]: "map_of (set_key k v d) = (map_of d)(k \<mapsto> v)"
  by (simp add: set_key_def update_conv')

lemma get_null_set_key [simp]: "get_null (set_key k v d) k' = (if k = k' then v else get_null d k')"
  by (simp add: get_null_def)

lemma has_key_set_key [simp]: "has_key (set_key k v d) k' \<longleftrightarrow> k = k' \<or> has_key d k'"
  by (simp add: has_key_def)

lemma map_of_update_all: "distinct (map fst e) \<Longrightarrow> map_of (update_all d e) = map_of d ++ map_of e"
proof (induction d e rule: update_all.induct)
  case (2 d k v kvs)
  have "map_of kvs k = None" using "2.prems" by (auto simp: map_of_eq_None_iff)
  then have "(map_of d)(k \<mapsto> v) ++ map_of kvs = map_of d ++ (map_of kvs)(k \<mapsto> v)"
    by (auto simp: fun_eq_iff map_add_def split: option.splits)
  moreover have "map_of (update_all (set_key k v d) kvs) = (map_of d)(k \<mapsto> v) ++ map_of kvs"
    using 2 by (simp add: fun_upd_def)
  ultimately show ?case by (simp only: update_all.simps map_of.simps fst_conv snd_conv)
qed simp

lemma update_all_other: "k \<notin> fst ` set e \<Longrightarrow> map_of (update_all d e) k = map_of d k"
  by (induction d e rule: update_all.induct) simp_all

end
