(* ===== verification/Py_Json.thy ===== *)
theory Py_Json
  imports Py_Values
begin

text \<open>
  \<open>json.dumps\<close> and \<open>json.loads\<close> of Python's standard library, as far as the code uses
  them: the default separators, \<open>ensure_ascii\<close> on and off, and the full grammar of
  documents on the way back. The text of a float is Python's \<open>repr\<close>, a parameter of
  \<open>dumps\<close>; a decimal fraction is read as its exact value. Escapes that denote code points
  from 256 on, and the three constants NaN, Infinity and -Infinity, are outside the model
  and read as errors.
\<close>

section \<open>Printing\<close>

definition hex_char :: "nat \<Rightarrow> char" where
  "hex_char n = (if n < 10 then chr (48 + n) else chr (87 + n))"

definition hex_val :: "char \<Rightarrow> nat option" where
  "hex_val c = (let n = ord c in
     if 48 \<le> n \<and> n \<le> 57 then Some (n - 48)
     else if 97 \<le> n \<and> n \<le> 102 then Some (n - 87)
     else if 65 \<le> n \<and> n \<le> 70 then Some (n - 55)
     else None)"

abbreviation quote_char :: char where "quote_char \<equiv> CHR 0x22"
abbreviation backslash :: char where "backslash \<equiv> CHR 0x5C"

definition esc_char :: "bool \<Rightarrow> char \<Rightarrow> string" where
  "esc_char ascii c = (let n = ord c in
     if n = 34 then [backslash, quote_char]
     else if n = 92 then [backslash, backslash]
     else if n = 10 then [backslash, CHR ''n'']
     else if n = 13 then [backslash, CHR ''r'']
     else if n = 9 then [backslash, CHR ''t'']
     else if n = 12 then [backslash, CHR ''f'']
     else if n = 8 then [backslash, CHR ''b'']
     else if n < 32 \<or> (ascii \<and> 127 \<le> n)
       then [backslash, CHR ''u'', CHR ''0'', CHR ''0'', hex_char (n div 16), hex_char (n mod 16)]
     else [c])"

fun esc_string :: "bool \<Rightarrow> string \<Rightarrow> string" where
  "esc_string ascii [] = []"
| "esc_string ascii (c # s) = esc_char ascii c @ esc_string ascii s"

definition dumps_str :: "bool \<Rightarrow> string \<Rightarrow> string" where
  "dumps_str ascii s = quote_char # esc_string ascii s @ [quote_char]"

fun dumps :: "(real \<Rightarrow> string) \<Rightarrow> bool \<Rightarrow> json \<Rightarrow> string"
  and dumps_items :: "(real \<Rightarrow> string) \<Rightarrow> bool \<Rightarrow> json list \<Rightarrow> string"
  and dumps_members :: "(real \<Rightarrow> string) \<Rightarrow> bool \<Rightarrow> (string \<times> json) list \<Rightarrow> string" where
  "dumps rp ascii JNull = ''null''"
| "dumps rp ascii (JBool b) = (if b then ''true'' else ''false'')"
| "dumps rp ascii (JInt n) = int_str n"
| "dumps rp ascii (JFloat x) = rp x"
| "dumps rp ascii (JStr s) = dumps_str ascii s"
| "dumps rp ascii (JList l) = CHR ''['' # dumps_items rp ascii l @ '']''"
| "dumps rp ascii (JObj d) = CHR ''{'' # dumps_members rp ascii d @ ''}''"
| "dumps_items rp ascii [] = []"
| "dumps_items rp ascii [v] = dumps rp ascii v"
| "dumps_items rp ascii (v # w # l) = dumps rp ascii v @ '', '' @ dumps_items rp ascii (w # l)"
| "dumps_members rp ascii [] = []"
| "dumps_members rp ascii [(k, v)] = dumps_str ascii k @ '': '' @ dumps rp ascii v"
| "dumps_members rp ascii ((k, v) # m # d) =
     dumps_str ascii k @ '': '' @ dumps rp ascii v @ '', '' @ dumps_members rp ascii (m # d)"

section \<open>Parsing\<close>

definition is_json_space :: "char \<Rightarrow> bool" where
  "is_json_space c \<longleftrightarrow> ord c = 32 \<or> ord c = 9 \<or> ord c = 10 \<or> ord c = 13"

definition skip_ws :: "string \<Rightarrow> string" where
  "skip_ws s = dropWhile is_json_space s"

definition hex4 :: "string \<Rightarrow> (char \<times> string) option" where
  "hex4 s = (case s of
     a # b # c # d # rest \<Rightarrow>
       (case (hex_val a, hex_val b, hex_val c, hex_val d) of
          (Some x, Some y, Some z, Some w) \<Rightarrow>
            (let n = 4096 * x + 256 * y + 16 * z + w in
             if n < 256 then Some (chr n, rest) else None)
        | _ \<Rightarrow> None)
   | _ \<Rightarrow> None)"

fun parse_string_body :: "string \<Rightarrow> (string \<times> string) option" where
  "parse_string_body [] = None"
| "parse_string_body (c # s) =
     (if c = quote_char then Some ([], s)
      else if c \<noteq> backslash then
        (if ord c < 32 then None
         else map_option (\<lambda>(t, r). (c # t, r)) (parse_string_body s))
      else case s of
          [] \<Rightarrow> None
        | e # s' \<Rightarrow>
            (if e = CHR ''u'' then
               (case s' of
                  h1 # h2 # h3 # h4 # s'' \<Rightarrow>
                    (case hex4 [h1, h2, h3, h4] of
                       None \<Rightarrow> None
                     | Some (x, _) \<Rightarrow>
                         map_option (\<lambda>(t, r). (x # t, r)) (parse_string_body s''))
                | _ \<Rightarrow> None)
             else
               (case map_of [(quote_char, quote_char), (backslash, backslash),
                   (CHR ''/'', CHR ''/''), (CHR ''b'', CHR 0x08), (CHR ''f'', CHR 0x0C),
                   (CHR ''n'', CHR 0x0A), (CHR ''r'', CHR 0x0D), (CHR ''t'', CHR 0x09)] e of
                  None \<Rightarrow> None
                | Some x \<Rightarrow> map_option (\<lambda>(t, r). (x # t, r)) (parse_string_body s'))))"

text \<open>
  A number is \<open>-?(0|[1-9][0-9]*)\<close>, optionally a fraction and an exponent; without either
  it is an int.
\<close>

definition take_digits :: "string \<Rightarrow> string \<times> string" where
  "take_digits s = (takeWhile is_decimal s, dropWhile is_decimal s)"

definition parse_frac :: "string \<Rightarrow> (string \<times> string) option" where
  "parse_frac s = (case s of
     c # s' \<Rightarrow> (if c = CHR ''.'' then
                 (case take_digits s' of (ds, r) \<Rightarrow> if ds = [] then None else Some (ds, r))
               else None)
   | [] \<Rightarrow> None)"

definition parse_exp :: "string \<Rightarrow> (int \<times> string) option" where
  "parse_exp s = (case s of
     c # s' \<Rightarrow>
       (if c = CHR ''e'' \<or> c = CHR ''E'' then
          (let (neg, s'') = (case s' of
                 x # y \<Rightarrow> if x = CHR ''-'' then (True, y) else if x = CHR ''+'' then (False, y) else (False, s')
               | [] \<Rightarrow> (False, s'));
               (ds, r) = take_digits s''
           in if ds = [] then None
              else Some (if neg then - int (digits_val ds) else int (digits_val ds), r))
        else None)
   | [] \<Rightarrow> None)"

definition number_value :: "bool \<Rightarrow> string \<Rightarrow> string \<Rightarrow> int \<Rightarrow> real" where
  "number_value neg ds fs e =
     (let x = (of_nat (digits_val ds) + of_nat (digits_val fs) / 10 ^ length fs) *
              (if 0 \<le> e then 10 ^ nat e else 1 / 10 ^ nat (- e))
      in if neg then - x else x)"

definition split_sign :: "string \<Rightarrow> bool \<times> string" where
  "split_sign s = (case s of
     c # r \<Rightarrow> if c = CHR ''-'' then (True, r) else (False, s)
   | [] \<Rightarrow> (False, s))"

definition int_digits :: "string \<Rightarrow> string \<times> string" where
  "int_digits s = (case s of
     c # r \<Rightarrow> if c = CHR ''0'' then ([c], r) else take_digits s
   | [] \<Rightarrow> ([], []))"

definition number_rest :: "bool \<Rightarrow> string \<Rightarrow> string \<Rightarrow> (json \<times> string) option" where
  "number_rest neg ds s =
     (if ds = [] then None
      else case parse_frac s of
          None \<Rightarrow>
            (case parse_exp s of
               None \<Rightarrow> Some (JInt (if neg then - int (digits_val ds) else int (digits_val ds)), s)
             | Some (e, r) \<Rightarrow> Some (JFloat (number_value neg ds [] e), r))
        | Some (fs, s') \<Rightarrow>
            (case parse_exp s' of
               None \<Rightarrow> Some (JFloat (number_value neg ds fs 0), s')
             | Some (e, r) \<Rightarrow> Some (JFloat (number_value neg ds fs e), r)))"

definition parse_number :: "string \<Rightarrow> (json \<times> string) option" where
  "parse_number s =
     (case split_sign s of (neg, s1) \<Rightarrow>
        (case int_digits s1 of (ds, s2) \<Rightarrow> number_rest neg ds s2))"

definition parse_word :: "string \<Rightarrow> json \<Rightarrow> string \<Rightarrow> (json \<times> string) option" where
  "parse_word w v s = (if starts_with w s then Some (v, drop (length w) s) else None)"

text \<open>
  The recursive scanner. Fuel bounds the nesting and the number of items; the length of
  the text is enough (\<open>loads_dumps\<close> below shows it for every printed document).
\<close>

fun parse_value :: "nat \<Rightarrow> string \<Rightarrow> (json \<times> string) option"
  and parse_items :: "nat \<Rightarrow> string \<Rightarrow> (json list \<times> string) option"
  and parse_members :: "nat \<Rightarrow> string \<Rightarrow> (dict \<times> string) option" where
  "parse_value 0 s = None"
| "parse_value (Suc n) [] = None"
| "parse_value (Suc n) (c # s) =
     (if c = quote_char then map_option (\<lambda>(t, r). (JStr t, r)) (parse_string_body s)
      else if c = CHR ''['' then
        (case skip_ws s of
           [] \<Rightarrow> None
         | x # r \<Rightarrow> if x = CHR '']'' then Some (JList [], r)
                  else map_option (\<lambda>(l, r). (JList l, r)) (parse_items n (x # r)))
      else if c = CHR ''{'' then
        (case skip_ws s of
           [] \<Rightarrow> None
         | x # r \<Rightarrow> if x = CHR ''}'' then Some (JObj [], r)
                  else map_option (\<lambda>(d, r). (JObj (update_all [] d), r)) (parse_members n (x # r)))
      else if c = CHR ''n'' then parse_word ''null'' JNull (c # s)
      else if c = CHR ''t'' then parse_word ''true'' (JBool True) (c # s)
      else if c = CHR ''f'' then parse_word ''false'' (JBool False) (c # s)
      else parse_number (c # s))"
| "parse_items 0 s = None"
| "parse_items (Suc n) s =
     (case parse_value n s of
        None \<Rightarrow> None
      | Some (v, r) \<Rightarrow>
          (case skip_ws r of
             [] \<Rightarrow> None
           | x # r' \<Rightarrow>
               if x = CHR '']'' then Some ([v], r')
               else if x = CHR '','' then
                 map_option (\<lambda>(l, r). (v # l, r)) (parse_items n (skip_ws r'))
               else None))"
| "parse_members 0 s = None"
| "parse_members (Suc n) s =
     (case s of
        [] \<Rightarrow> None
      | q # s0 \<Rightarrow>
          if q \<noteq> quote_char then None
          else case parse_string_body s0 of
              None \<Rightarrow> None
            | Some (k, s1) \<Rightarrow>
                (case skip_ws s1 of
                   [] \<Rightarrow> None
                 | x # s2 \<Rightarrow>
                     if x \<noteq> CHR '':'' then None
                     else case parse_value n (skip_ws s2) of
                         None \<Rightarrow> None
                       | Some (v, r) \<Rightarrow>
                           (case skip_ws r of
                              [] \<Rightarrow> None
                            | y # r' \<Rightarrow>
                                if y = CHR ''}'' then Some ([(k, v)], r')
                                else if y = CHR '','' then
                                  map_option (\<lambda>(d, r). ((k, v) # d, r)) (parse_members n (skip_ws r'))
                                else None)))"

definition loads :: "string \<Rightarrow> json option" where
  "loads s =
     (case parse_value (Suc (length s)) (skip_ws s) of
        None \<Rightarrow> None
      | Some (v, r) \<Rightarrow> if skip_ws r = [] then Some v else None)"

section \<open>Reading back what was printed\<close>

text \<open>
  \<open>P\<close> are the floats whose text reads back; a plain document has none.
\<close>

fun printable :: "(real \<Rightarrow> bool) \<Rightarrow> json \<Rightarrow> bool" where
  "printable P (JFloat x) = P x"
| "printable P (JList l) = (\<forall>v \<in> set l. printable P v)"
| "printable P (JObj d) = (distinct (map fst d) \<and> (\<forall>m \<in> set d. printable P (snd m)))"
| "printable P v = True"

abbreviation plain_json :: "json \<Rightarrow> bool" where
  "plain_json \<equiv> printable (\<lambda>_. False)"

definition ends_number :: "string \<Rightarrow> bool" where
  "ends_number r \<longleftrightarrow> (case r of [] \<Rightarrow> True
     | c # _ \<Rightarrow> \<not> is_decimal c \<and> c \<noteq> CHR ''.'' \<and> c \<noteq> CHR ''e'' \<and> c \<noteq> CHR ''E'')"

lemma hex_val_char [simp]: "k < 16 \<Longrightarrow> hex_val (hex_char k) = Some k"
  by (auto simp: hex_val_def hex_char_def Let_def)

lemma hex4_char: "hex4 [CHR ''0'', CHR ''0'', hex_char (ord c div 16), hex_char (ord c mod 16)] = Some (c, [])"
proof -
  have "hex_val (CHR ''0'') = Some 0" by (simp add: hex_val_def ord_def)
  moreover have "ord c div 16 < 16" using ord_less[of c] by linarith
  ultimately show ?thesis by (simp add: hex4_def Let_def)
qed

lemma parse_esc_char:
  "parse_string_body (esc_char ascii c @ t) =
     map_option (\<lambda>(u, r). (c # u, r)) (parse_string_body t)"
proof -
  have quoted: "parse_string_body (backslash # e # t) =
      map_option (\<lambda>(u, r). (x # u, r)) (parse_string_body t)"
    if "e \<noteq> CHR ''u''" and "map_of [(quote_char, quote_char), (backslash, backslash),
       (CHR ''/'', CHR ''/''), (CHR ''b'', CHR 0x08), (CHR ''f'', CHR 0x0C),
       (CHR ''n'', CHR 0x0A), (CHR ''r'', CHR 0x0D), (CHR ''t'', CHR 0x09)] e = Some x" for e x
    using that by simp
  consider (q) "ord c = 34" | (b) "ord c = 92" | (n) "ord c = 10" | (r) "ord c = 13"
    | (t) "ord c = 9" | (f) "ord c = 12" | (bs) "ord c = 8"
    | (u) "ord c \<notin> {34, 92, 10, 13, 9, 12, 8}" "ord c < 32 \<or> ascii \<and> 127 \<le> ord c"
    | (p) "ord c \<notin> {34, 92, 10, 13, 9, 12, 8}" "\<not> (ord c < 32 \<or> ascii \<and> 127 \<le> ord c)"
    by blast
  then show ?thesis
  proof cases
    case q
    then have "ord c = ord (quote_char)" by (simp add: ord_def)
    then have "c = quote_char" by (simp add: ord_inject)
    with q show ?thesis by (simp add: esc_char_def)
  next
    case b
    then have "ord c = ord (backslash)" by (simp add: ord_def)
    then have "c = backslash" by (simp add: ord_inject)
    with b show ?thesis by (simp add: esc_char_def)
  next
    case n
    then have "ord c = ord (CHR 0x0A)" by (simp add: ord_def)
    then have "c = CHR 0x0A" by (simp add: ord_inject)
    with n show ?thesis by (simp add: esc_char_def)
  next
    case r
    then have "ord c = ord (CHR 0x0D)" by (simp add: ord_def)
    then have "c = CHR 0x0D" by (simp add: ord_inject)
    with r show ?thesis by (simp add: esc_char_def)
  next
    case t
    then have "ord c = ord (CHR 0x09)" by (simp add: ord_def)
    then have "c = CHR 0x09" by (simp add: ord_inject)
    with t show ?thesis by (simp add: esc_char_def)
  next
    case f
    then have "ord c = ord (CHR 0x0C)" by (simp add: ord_def)
    then have "c = CHR 0x0C" by (simp add: ord_inject)
    with f show ?thesis by (simp add: esc_char_def)
  next
    case bs
    then have "ord c = ord (CHR 0x08)" by (simp add: ord_def)
    then have "c = CHR 0x08" by (simp add: ord_inject)
    with bs show ?thesis by (simp add: esc_char_def)
  next
    case u
    then show ?thesis by (simp add: esc_char_def Let_def hex4_char)
  next
    case p
    then have "c \<noteq> quote_char" "c \<noteq> backslash" by (auto simp: ord_def)
    with p show ?thesis by (auto simp: esc_char_def Let_def)
  qed
qed

lemma parse_esc_string: "parse_string_body (esc_string ascii s @ quote_char # r) = Some (s, r)"
  by (induction s) (simp_all add: parse_esc_char)

lemma parse_dumps_str:
  "parse_value (Suc n) (dumps_str ascii s @ r) = Some (JStr s, r)"
  by (simp add: dumps_str_def parse_esc_string)

lemma nat_str_head: "hd (nat_str n) = CHR ''0'' \<Longrightarrow> n = 0"
proof (induction n rule: nat_str.induct)
  case (1 n)
  show ?case
  proof (cases "n < 10")
    case True
    with "1.prems" have "ord (digit_char n) = ord (CHR ''0'')" by (simp add: nat_str.simps[of n])
    with True show ?thesis by (simp add: digit_char_def) (simp add: ord_def)
  next
    case False
    with 1 have "n div 10 = 0" by (simp add: nat_str.simps[of n])
    with False show ?thesis by simp
  qed
qed

lemma take_digits_nat_str:
  assumes "r = [] \<or> \<not> is_decimal (hd r)"
  shows "take_digits (nat_str n @ r) = (nat_str n, r)"
proof -
  have "takeWhile is_decimal r = []" "dropWhile is_decimal r = r"
    using assms by (cases r; simp)+
  then show ?thesis
    by (simp add: take_digits_def nat_str_decimal)
qed

lemma ends_number_hd: "ends_number r \<Longrightarrow> r = [] \<or> \<not> is_decimal (hd r)"
  by (cases r) (simp_all add: ends_number_def)

lemma no_fraction: "ends_number r \<Longrightarrow> parse_frac r = None \<and> parse_exp r = None"
  by (cases r) (auto simp: ends_number_def parse_frac_def parse_exp_def)

lemma nat_str_0: "nat_str 0 = ''0''"
proof -
  have "ord (digit_char 0) = ord (CHR ''0'')" by (simp add: digit_char_def) (simp add: ord_def)
  then show ?thesis by (simp add: nat_str.simps[of 0] ord_inject)
qed

lemma nat_str_Cons: "\<exists>c s. nat_str n = c # s \<and> is_decimal c"
  using nat_str_decimal[of _ n] nat_str_not_Nil[of n] by (cases "nat_str n") auto

lemma int_digits_nat_str:
  assumes "r = [] \<or> \<not> is_decimal (hd r)"
  shows "int_digits (nat_str n @ r) = (nat_str n, r)"
proof (cases "n = 0")
  case True
  then show ?thesis by (simp add: nat_str_0 int_digits_def)
next
  case False
  obtain c s where cs: "nat_str n = c # s" using nat_str_Cons by blast
  with False nat_str_head[of n] have "c \<noteq> CHR ''0''" by auto
  with cs take_digits_nat_str[OF assms, of n] show ?thesis by (simp add: int_digits_def)
qed

lemma split_sign_int_str:
  "split_sign (int_str n @ r) = (n < 0, nat_str (nat \<bar>n\<bar>) @ r)"
proof (cases "n < 0")
  case True
  then show ?thesis by (simp add: split_sign_def int_str_def)
next
  case False
  obtain c s where cs: "nat_str (nat n) = c # s" "is_decimal c" using nat_str_Cons by blast
  then have "c \<noteq> CHR ''-''" using decimal_not_sign by blast
  with False cs(1) show ?thesis by (simp add: split_sign_def int_str_def)
qed

lemma parse_number_int_str:
  assumes "ends_number r"
  shows "parse_number (int_str n @ r) = Some (JInt n, r)"
  using no_fraction[OF assms] int_digits_nat_str[OF ends_number_hd[OF assms], of "nat \<bar>n\<bar>"]
  by (auto simp: parse_number_def split_sign_int_str number_rest_def)

lemma int_str_head: "\<exists>c s. int_str n = c # s \<and> (is_decimal c \<or> c = CHR ''-'')"
  using nat_str_Cons[of "nat n"] by (auto simp: int_str_def)

definition value_head :: "char \<Rightarrow> bool" where
  "value_head c \<longleftrightarrow> \<not> is_json_space c \<and> c \<noteq> CHR '']'' \<and> c \<noteq> CHR ''}''"

lemma decimal_head: "is_decimal c \<or> c = CHR ''-'' \<Longrightarrow> value_head c \<and>
    c \<noteq> quote_char \<and> c \<noteq> CHR ''['' \<and> c \<noteq> CHR ''{'' \<and> c \<noteq> CHR ''n'' \<and> c \<noteq> CHR ''t'' \<and> c \<noteq> CHR ''f''"
  by (auto simp: is_decimal_def value_head_def is_json_space_def ord_def)

text \<open>
  What the reader relies on in the text of a float: it starts like a number, reads back as
  the float wherever a number may end, and has no control character.
\<close>

locale float_text =
  fixes rp :: "real \<Rightarrow> string" and P :: "real \<Rightarrow> bool"
  assumes starts_number: "P x \<Longrightarrow> \<exists>c s. rp x = c # s \<and> (is_decimal c \<or> c = CHR ''-'')"
    and reads_back: "P x \<Longrightarrow> ends_number r \<Longrightarrow> parse_number (rp x @ r) = Some (JFloat x, r)"
    and no_control: "P x \<Longrightarrow> c \<in> set (rp x) \<Longrightarrow> 32 \<le> ord c"

lemma dumps_head: "float_text rp P \<Longrightarrow> printable P v \<Longrightarrow> \<exists>c s. dumps rp ascii v = c # s \<and> value_head c"
proof (cases v)
  case (JInt n)
  then show ?thesis using int_str_head[of n] decimal_head by fastforce
next
  case (JFloat x)
  assume "float_text rp P" "printable P v"
  then show ?thesis using float_text.starts_number[of rp P x] decimal_head JFloat by fastforce
qed (auto simp: dumps_str_def value_head_def is_json_space_def ord_def)

lemma skip_ws_head: "value_head c \<Longrightarrow> skip_ws (c # s) = c # s"
  by (simp add: skip_ws_def value_head_def)

lemma skip_ws_dumps: "float_text rp P \<Longrightarrow> printable P v \<Longrightarrow> skip_ws (dumps rp ascii v @ r) = dumps rp ascii v @ r"
  using dumps_head[of rp P v ascii] by (auto simp: skip_ws_head)

lemma skip_ws_punct [simp]:
  "skip_ws (CHR '']'' # r) = CHR '']'' # r" "skip_ws (CHR ''}'' # r) = CHR ''}'' # r"
  "skip_ws (CHR '','' # r) = CHR '','' # r" "skip_ws (CHR '':'' # r) = CHR '':'' # r"
  "skip_ws (CHR '' '' # r) = skip_ws r" "skip_ws [] = []" "skip_ws (quote_char # r) = quote_char # r"
  by (simp_all add: skip_ws_def is_json_space_def ord_def)

lemma ends_number_punct [simp]:
  "ends_number []" "ends_number (CHR '']'' # r)" "ends_number (CHR ''}'' # r)"
  "ends_number (CHR '','' # r)"
  by (simp_all add: ends_number_def is_decimal_def ord_def)

lemma update_fresh: "k \<notin> fst ` set d \<Longrightarrow> set_key k v d = d @ [(k, v)]"
  unfolding set_key_def by (induction d) auto

lemma update_all_fresh: "distinct (map fst (d @ e)) \<Longrightarrow> update_all d e = d @ e"
proof (induction e arbitrary: d)
  case (Cons m e)
  obtain k v where m: "m = (k, v)" by (cases m)
  with Cons.prems have "set_key k v d = d @ [m]" by (auto intro!: update_fresh)
  with Cons.IH[of "d @ [m]"] Cons.prems m show ?case by simp
qed simp

lemma dumps_items_Cons: "\<exists>t. dumps_items rp ascii (v # l) = dumps rp ascii v @ t"
  by (cases l) auto

lemma dumps_members_Cons: "\<exists>t. dumps_members rp ascii (m # d) = quote_char # t"
  by (cases m; cases d) (auto simp: dumps_str_def)

lemma dumps_nonempty: "float_text rp P \<Longrightarrow> printable P v \<Longrightarrow> 0 < length (dumps rp ascii v)"
  using dumps_head[of rp P v ascii] by auto

lemma parse_list_start:
  assumes "float_text rp P" "printable P v"
    and "parse_items n (dumps_items rp ascii (v # l) @ CHR '']'' # r) = Some (v # l, r)"
  shows "parse_value (Suc n) (CHR ''['' # dumps_items rp ascii (v # l) @ CHR '']'' # r) =
    Some (JList (v # l), r)"
proof -
  obtain t where t: "dumps_items rp ascii (v # l) = dumps rp ascii v @ t"
    using dumps_items_Cons by blast
  obtain c s where c: "dumps rp ascii v = c # s" "value_head c" using dumps_head[OF assms(1,2)] by blast
  then have "c \<noteq> CHR '']''" by (simp add: value_head_def)
  with assms(3) c t show ?thesis by (simp add: skip_ws_head)
qed

lemma parse_dumps:
  shows parse_dumps_value: "float_text rp P \<Longrightarrow> printable P v \<Longrightarrow> ends_number r \<Longrightarrow> length (dumps rp ascii v) < n \<Longrightarrow>
      parse_value n (dumps rp ascii v @ r) = Some (v, r)"
    and parse_dumps_items: "float_text rp P \<Longrightarrow> l \<noteq> [] \<Longrightarrow> \<forall>v \<in> set l. printable P v \<Longrightarrow>
      length (dumps_items rp ascii l) + 1 < n \<Longrightarrow>
      parse_items n (dumps_items rp ascii l @ CHR '']'' # r) = Some (l, r)"
    and parse_dumps_members: "float_text rp P \<Longrightarrow> d \<noteq> [] \<Longrightarrow> \<forall>m \<in> set d. printable P (snd m) \<Longrightarrow>
      length (dumps_members rp ascii d) + 1 < n \<Longrightarrow>
      parse_members n (dumps_members rp ascii d @ CHR ''}'' # r) = Some (d, r)"
proof (induction rp ascii v and rp ascii l and rp ascii d arbitrary: n r and n r and n r
    rule: dumps_dumps_items_dumps_members.induct)
  case (1 rp ascii)
  then show ?case by (cases n) (simp_all add: parse_word_def starts_with_def)
next
  case (2 rp ascii b)
  then show ?case by (cases n) (auto simp: parse_word_def starts_with_def)
next
  case (3 rp ascii k)
  obtain c s where "int_str k = c # s" "is_decimal c \<or> c = CHR ''-''" using int_str_head by blast
  with 3 show ?case
    using decimal_head[of c] parse_number_int_str[of r k] by (cases n) auto
next
  case (4 rp ascii x)
  obtain c s where "rp x = c # s" "is_decimal c \<or> c = CHR ''-''"
    using float_text.starts_number[OF "4.prems"(1), of x] "4.prems"(2) by force
  with 4 show ?case
    using decimal_head[of c] float_text.reads_back[OF "4.prems"(1), of x r] by (cases n) auto
next
  case (5 rp ascii s)
  then show ?case by (cases n) (simp_all add: dumps_str_def parse_esc_string)
next
  case (6 rp ascii l)
  show ?case
  proof (cases l)
    case Nil
    with 6 show ?thesis by (cases n) auto
  next
    case (Cons v l')
    obtain m where "n = Suc m" using "6.prems" by (cases n) auto
    with 6 Cons parse_list_start[of rp P v m ascii l' r] show ?thesis by simp
  qed
next
  case (7 rp ascii d)
  show ?case
  proof (cases d)
    case Nil
    with 7 show ?thesis by (cases n) auto
  next
    case (Cons e d')
    obtain m where n: "n = Suc m" using "7.prems" by (cases n) auto
    obtain t where t: "dumps_members rp ascii d = quote_char # t"
      using dumps_members_Cons Cons by blast
    have "parse_members m (dumps_members rp ascii d @ CHR ''}'' # r) = Some (d, r)"
      using 7 Cons n by simp
    moreover have "update_all [] d = d" using "7.prems" update_all_fresh[of "[]" d] by simp
    ultimately show ?thesis using n t by simp
  qed
next
  case (9 rp ascii v)
  then obtain m where n: "n = Suc m" by (cases n) auto
  have "parse_value m (dumps rp ascii v @ CHR '']'' # r) = Some (v, CHR '']'' # r)"
    using 9 n by simp
  with n show ?case by simp
next
  case (10 rp ascii v w l)
  then obtain m where n: "n = Suc m" by (cases n) auto
  let ?rest = "dumps_items rp ascii (w # l) @ CHR '']'' # r"
  have "parse_value m (dumps rp ascii v @ '', '' @ ?rest) = Some (v, '', '' @ ?rest)"
    using 10 n by simp
  moreover have "parse_items m ?rest = Some (w # l, r)"
    using 10 n dumps_nonempty[of rp P v ascii] by simp
  moreover have "skip_ws ?rest = ?rest"
    using dumps_items_Cons[of rp ascii w l] skip_ws_dumps[of rp P w ascii] "10.prems" by auto
  ultimately show ?case using n by simp
next
  case (12 rp ascii k v)
  then obtain m where n: "n = Suc m" by (cases n) auto
  have "parse_value m (dumps rp ascii v @ CHR ''}'' # r) = Some (v, CHR ''}'' # r)"
    using 12 n by simp
  with n "12.prems" show ?case
    by (simp add: dumps_str_def parse_esc_string skip_ws_dumps[of rp P])
next
  case (13 rp ascii k v e d)
  then obtain m where n: "n = Suc m" by (cases n) auto
  let ?rest = "dumps_members rp ascii (e # d) @ CHR ''}'' # r"
  have "parse_value m (dumps rp ascii v @ '', '' @ ?rest) = Some (v, '', '' @ ?rest)"
    using 13 n by simp
  moreover have "parse_members m ?rest = Some (e # d, r)"
    using 13 n dumps_nonempty[of rp P v ascii] by simp
  moreover have "skip_ws ?rest = ?rest"
    using dumps_members_Cons[of rp ascii e d] by auto
  ultimately show ?case using n "13.prems"
    by (simp add: dumps_str_def parse_esc_string skip_ws_dumps[of rp P])
qed simp_all

lemma hex_char_printing: "k < 16 \<Longrightarrow> 32 \<le> ord (hex_char k)"
  by (simp add: hex_char_def)

lemma esc_printing: "c \<in> set (esc_char ascii d) \<Longrightarrow> 32 \<le> ord c"
proof -
  assume c: "c \<in> set (esc_char ascii d)"
  have "ord d div 16 < 16" using ord_less[of d] by linarith
  then show ?thesis
    using c hex_char_printing[of "ord d div 16"] hex_char_printing[of "ord d mod 16"]
    by (auto simp: esc_char_def Let_def ord_def split: if_splits)
qed

lemma dumps_str_printing: "c \<in> set (dumps_str ascii s) \<Longrightarrow> 32 \<le> ord c"
proof -
  have "c \<in> set (esc_string ascii s) \<Longrightarrow> 32 \<le> ord c" by (induction s) (auto dest: esc_printing)
  then show "c \<in> set (dumps_str ascii s) \<Longrightarrow> 32 \<le> ord c" by (auto simp: dumps_str_def ord_def)
qed

lemma decimal_printing: "is_decimal c \<Longrightarrow> 32 \<le> ord c"
  by (simp add: is_decimal_def)

lemma int_str_printing: "c \<in> set (int_str n) \<Longrightarrow> 32 \<le> ord c"
  using nat_str_decimal decimal_printing by (auto simp: int_str_def ord_def split: if_splits)

lemma punct_printing: "c \<in> set ''null, :truefalse[]{}.-'' \<Longrightarrow> 32 \<le> ord c"
  by (auto simp: ord_def)

text \<open>No line break in a printed document: one message is one line.\<close>

lemma dumps_printing:
  shows "float_text rp P \<Longrightarrow> printable P v \<Longrightarrow> \<forall>c\<in>set (dumps rp ascii v). 32 \<le> ord c"
    and "float_text rp P \<Longrightarrow> \<forall>v\<in>set l. printable P v \<Longrightarrow> \<forall>c\<in>set (dumps_items rp ascii l). 32 \<le> ord c"
    and "float_text rp P \<Longrightarrow> \<forall>m\<in>set d. printable P (snd m) \<Longrightarrow> \<forall>c\<in>set (dumps_members rp ascii d). 32 \<le> ord c"
proof (induction rp ascii v and rp ascii l and rp ascii d rule: dumps_dumps_items_dumps_members.induct)
  case (4 rp ascii x)
  then show ?case using float_text.no_control[of rp P x] by auto
qed (simp_all add: ball_Un int_str_printing dumps_str_printing punct_printing)

context float_text begin

lemma loads_printed: "printable P v \<Longrightarrow> loads (dumps rp ascii v) = Some v"
  using parse_dumps_value[OF float_text_axioms, of v "[]" ascii "Suc (length (dumps rp ascii v))"]
    skip_ws_dumps[OF float_text_axioms, of v ascii "[]"]
  by (simp add: loads_def)

end

interpretation no_floats: float_text rp "\<lambda>_. False" for rp
  by unfold_locales simp_all

theorem loads_dumps: "plain_json v \<Longrightarrow> loads (dumps rp ascii v) = Some v"
  by (rule no_floats.loads_printed)

section \<open>Tenths\<close>

text \<open>
  The floats the components publish are rounded to one decimal: what \<open>repr\<close> makes of \<open>k / 10\<close>
  (below 10 ^ 16, and with no negative zero).
\<close>

definition tenth_text :: "int \<Rightarrow> string" where
  "tenth_text k = (if k < 0 then ''-'' else []) @ nat_str (nat \<bar>k\<bar> div 10) @ CHR ''.'' # nat_str (nat \<bar>k\<bar> mod 10)"

definition is_tenth :: "real \<Rightarrow> bool" where
  "is_tenth x \<longleftrightarrow> (\<exists>k. x = of_int k / 10)"

definition tenth_repr :: "real \<Rightarrow> string" where
  "tenth_repr x = tenth_text \<lfloor>x * 10\<rfloor>"

lemma tenth_head: "\<exists>c s. tenth_text k = c # s \<and> (is_decimal c \<or> c = CHR ''-'')"
  using nat_str_Cons[of "nat \<bar>k\<bar> div 10"] by (auto simp: tenth_text_def)

lemma tenth_sign: "split_sign (tenth_text k @ r) =
  (k < 0, nat_str (nat \<bar>k\<bar> div 10) @ CHR ''.'' # nat_str (nat \<bar>k\<bar> mod 10) @ r)"
proof (cases "k < 0")
  case True
  then show ?thesis by (simp add: split_sign_def tenth_text_def)
next
  case False
  obtain c s where "nat_str (nat \<bar>k\<bar> div 10) = c # s" "is_decimal c" using nat_str_Cons by blast
  moreover from this have "c \<noteq> CHR ''-''" using decimal_not_sign by blast
  ultimately show ?thesis using False by (simp add: split_sign_def tenth_text_def)
qed

lemma tenth_value:
  "number_value (k < 0) (nat_str (nat \<bar>k\<bar> div 10)) (nat_str (nat \<bar>k\<bar> mod 10)) 0 = of_int k / 10"
proof -
  let ?n = "nat \<bar>k\<bar>"
  have len: "length (nat_str (?n mod 10)) = 1" by (simp add: nat_str.simps[of "?n mod 10"])
  have "real ?n = real (?n div 10) * 10 + real (?n mod 10)"
    by (metis div_mult_mod_eq of_nat_add of_nat_mult of_nat_numeral)
  then have "real (?n div 10) + real (?n mod 10) / 10 = real ?n / 10" by simp
  moreover have "real ?n = (if k < 0 then - of_int k else of_int k)" by simp
  ultimately show ?thesis unfolding number_value_def Let_def digits_val_nat_str len by (cases "k < 0") simp_all
qed

lemma tenth_reads_back: "ends_number r \<Longrightarrow> parse_number (tenth_text k @ r) = Some (JFloat (of_int k / 10), r)"
proof -
  assume r: "ends_number r"
  have dot: "\<not> is_decimal (CHR ''.'')" by (simp add: is_decimal_def ord_def)
  have frac: "parse_frac (CHR ''.'' # nat_str m @ r) = Some (nat_str m, r)" for m
    using take_digits_nat_str[OF ends_number_hd[OF r], of m] by (simp add: parse_frac_def nat_str_not_Nil)
  show ?thesis
    using int_digits_nat_str[of "CHR ''.'' # nat_str (nat \<bar>k\<bar> mod 10) @ r" "nat \<bar>k\<bar> div 10"] no_fraction[OF r] tenth_value[of k]
    by (simp add: parse_number_def tenth_sign number_rest_def frac dot nat_str_not_Nil)
qed

lemma tenths_readable:
  assumes "\<And>k. rp (of_int k / 10) = tenth_text k"
  shows "float_text rp is_tenth"
proof
  fix x assume "is_tenth x"
  then obtain k where "x = of_int k / 10" by (auto simp only: is_tenth_def)
  then have x: "rp x = tenth_text k" "x = of_int k / 10" by (simp_all only: assms)
  show "\<exists>c s. rp x = c # s \<and> (is_decimal c \<or> c = CHR ''-'')" unfolding x(1) by (rule tenth_head)
  fix r assume "ends_number r"
  then show "parse_number (rp x @ r) = Some (JFloat x, r)" unfolding x(1) unfolding x(2) by (rule tenth_reads_back)
next
  fix x c assume "is_tenth x" "c \<in> set (rp x)"
  then obtain k where "c \<in> set (tenth_text k)" using assms by (auto simp only: is_tenth_def)
  then show "32 \<le> ord c"
    using nat_str_decimal decimal_printing by (auto simp: tenth_text_def ord_def split: if_splits)
qed

interpretation tenths: float_text tenth_repr is_tenth
  by (rule tenths_readable) (simp add: tenth_repr_def)

end
