(* ===== verification/Router_Tokens.thy ===== *)
theory Router_Tokens
  imports Py_Json
begin

text \<open>
  Access tokens of the router (\<open>router/auth.py\<close>): the unpadded URL-safe base64 of the
  three token parts, minting (\<open>create_token\<close>) and verification (\<open>verify_token\<close>). The
  keyed hash and the password hashes of Python's hashlib and hmac are the functions of
  the \<open>auth_env\<close> record; nothing is assumed about them. Byte strings are \<open>string\<close>s, one
  character per byte.
\<close>

section \<open>The environment of the router's authentication\<close>

record auth_env =
  hmac_sha256 :: "string \<Rightarrow> string \<Rightarrow> string"   \<comment> \<open>key, message to digest (raw bytes)\<close>
  sha256_hex :: "string \<Rightarrow> string"
  pbkdf2_hex :: "string \<Rightarrow> string \<Rightarrow> string"     \<comment> \<open>password, salt\<close>
  jwt_secret :: string
  jwt_expiry :: int
  refresh_expiry :: int

section \<open>UTF-8\<close>

definition utf8_encode :: "string \<Rightarrow> string" where
  "utf8_encode s = concat (map (\<lambda>c.
     if ord c < 128 then [c] else [chr (192 + ord c div 64), chr (128 + ord c mod 64)]) s)"

text \<open>\<open>bytes.decode()\<close>; sequences for code points from 256 on read as an error.\<close>

fun utf8_decode :: "string \<Rightarrow> string option" where
  "utf8_decode [] = Some []"
| "utf8_decode (b # bs) =
     (if ord b < 128 then map_option ((#) b) (utf8_decode bs)
      else case bs of
          [] \<Rightarrow> None
        | b' # bs' \<Rightarrow>
            if (ord b = 194 \<or> ord b = 195) \<and> 128 \<le> ord b' \<and> ord b' < 192
            then map_option ((#) (chr ((ord b - 192) * 64 + (ord b' - 128)))) (utf8_decode bs')
            else None)"

definition ascii :: "string \<Rightarrow> bool" where
  "ascii s \<longleftrightarrow> (\<forall>c \<in> set s. ord c < 128)"

lemma ascii_simps [simp]:
  "ascii []" "ascii (c # s) \<longleftrightarrow> ord c < 128 \<and> ascii s" "ascii (s @ t) \<longleftrightarrow> ascii s \<and> ascii t"
  by (auto simp: ascii_def)

lemma utf8_encode_ascii: "ascii s \<Longrightarrow> utf8_encode s = s"
  by (induction s) (auto simp: utf8_encode_def)

lemma utf8_decode_ascii: "ascii s \<Longrightarrow> utf8_decode s = Some s"
  by (induction s) auto

section \<open>Unpadded URL-safe base64\<close>

definition b64_char :: "nat \<Rightarrow> char" where
  "b64_char v =
     (if v < 26 then chr (65 + v)
      else if v < 52 then chr (71 + v)
      else if v < 62 then chr (v - 4)
      else if v = 62 then CHR ''-'' else CHR ''_'')"

text \<open>
  \<open>urlsafe_b64decode\<close> first maps \<open>-\<close> and \<open>_\<close> to \<open>+\<close> and \<open>/\<close>, so all four characters
  have a value.
\<close>

definition b64_val :: "char \<Rightarrow> nat option" where
  "b64_val c = (let n = ord c in
     if 65 \<le> n \<and> n \<le> 90 then Some (n - 65)
     else if 97 \<le> n \<and> n \<le> 122 then Some (n - 71)
     else if 48 \<le> n \<and> n \<le> 57 then Some (n + 4)
     else if n = 43 \<or> n = 45 then Some 62
     else if n = 47 \<or> n = 95 then Some 63
     else None)"

fun urlsafe_b64encode :: "string \<Rightarrow> string" where
  "urlsafe_b64encode [] = []"
| "urlsafe_b64encode [a] =
     [b64_char (ord a div 4), b64_char (16 * (ord a mod 4)), CHR ''='', CHR ''='']"
| "urlsafe_b64encode [a, b] =
     [b64_char (ord a div 4), b64_char (16 * (ord a mod 4) + ord b div 16),
      b64_char (4 * (ord b mod 16)), CHR ''='']"
| "urlsafe_b64encode (a # b # c # s) =
     b64_char (ord a div 4) # b64_char (16 * (ord a mod 4) + ord b div 16) #
     b64_char (4 * (ord b mod 16) + ord c div 64) # b64_char (ord c mod 64) #
     urlsafe_b64encode s"

text \<open>
  The decoder of \<open>binascii.a2b_base64\<close> in its lenient mode: \<open>q\<close> is the position in the
  group of four, \<open>l\<close> the bits carried over, \<open>p\<close> the padding characters seen. Characters
  outside the alphabet are skipped; a group left unfinished is an error.
\<close>

fun a2b_base64 :: "nat \<Rightarrow> nat \<Rightarrow> nat \<Rightarrow> string \<Rightarrow> string option" where
  "a2b_base64 q l p [] = (if q = 0 then Some [] else None)"
| "a2b_base64 q l p (c # s) =
     (if c = CHR ''='' then
        (if 2 \<le> q \<and> 4 \<le> q + (p + 1) then Some []
         else a2b_base64 q l (if 2 \<le> q then p + 1 else p) s)
      else case b64_val c of
          None \<Rightarrow> a2b_base64 q l p s
        | Some v \<Rightarrow>
            if q = 0 then a2b_base64 1 v 0 s
            else if q = 1 then map_option ((#) (chr (4 * l + v div 16))) (a2b_base64 2 (v mod 16) 0 s)
            else if q = 2 then map_option ((#) (chr (16 * l + v div 4))) (a2b_base64 3 (v mod 4) 0 s)
            else map_option ((#) (chr (64 * l + v))) (a2b_base64 0 0 0 s))"

definition rstrip_char :: "char \<Rightarrow> string \<Rightarrow> string" where
  "rstrip_char c s = rev (dropWhile (\<lambda>x. x = c) (rev s))"

definition b64url_encode :: "string \<Rightarrow> string" where
  "b64url_encode s = rstrip_char (CHR ''='') (urlsafe_b64encode s)"

definition b64url_decode :: "string \<Rightarrow> string option" where
  "b64url_decode s =
     (let padding = 4 - length s mod 4; t = s @ replicate padding (CHR ''='') in
      if \<not> ascii t then None else a2b_base64 0 0 0 t)"

text \<open>What stripping leaves, as a function of its own for the proofs.\<close>

fun b64_core :: "string \<Rightarrow> string" where
  "b64_core [] = []"
| "b64_core [a] = [b64_char (ord a div 4), b64_char (16 * (ord a mod 4))]"
| "b64_core [a, b] =
     [b64_char (ord a div 4), b64_char (16 * (ord a mod 4) + ord b div 16), b64_char (4 * (ord b mod 16))]"
| "b64_core (a # b # c # s) =
     b64_char (ord a div 4) # b64_char (16 * (ord a mod 4) + ord b div 16) #
     b64_char (4 * (ord b mod 16) + ord c div 64) # b64_char (ord c mod 64) # b64_core s"

lemma ord_b64_char: "v < 64 \<Longrightarrow> ord (b64_char v) =
    (if v < 26 then 65 + v else if v < 52 then 71 + v else if v < 62 then v - 4
     else if v = 62 then 45 else 95)"
  by (auto simp: b64_char_def) (simp_all add: ord_def)

lemma b64_val_char [simp]: "v < 64 \<Longrightarrow> b64_val (b64_char v) = Some v"
  by (auto simp: b64_val_def Let_def ord_b64_char)

lemma b64_char_plain: "v < 64 \<Longrightarrow> b64_char v \<noteq> CHR ''='' \<and> b64_char v \<noteq> CHR ''.'' \<and> ord (b64_char v) < 128"
proof -
  assume "v < 64"
  then have "ord (b64_char v) \<noteq> 61 \<and> ord (b64_char v) \<noteq> 46 \<and> ord (b64_char v) < 128"
    unfolding ord_b64_char[OF \<open>v < 64\<close>] by arith
  moreover have "ord (CHR ''='') = 61" "ord (CHR ''.'') = 46" by (simp_all add: ord_def)
  ultimately show ?thesis by metis
qed

text \<open>The six-bit pieces of three bytes are in range, and the bytes are put together again.\<close>

lemma sextet_bounds:
  fixes a b c :: nat
  assumes "a < 256" "b < 256" "c < 256"
  shows "a div 4 < 64" "16 * (a mod 4) < 64" "16 * (a mod 4) + b div 16 < 64"
    "4 * (b mod 16) < 64" "4 * (b mod 16) + c div 64 < 64" "c mod 64 < 64"
proof -
  have m: "a mod 4 < 4" "b mod 16 < 16" by simp_all
  have d: "a div 4 < 64" "b div 16 < 16" "c div 64 < 4"
    using assms by (simp_all add: less_mult_imp_div_less)
  show "a div 4 < 64" by (rule d)
  show "16 * (a mod 4) < 64" "4 * (b mod 16) < 64" using m by simp_all
  show "16 * (a mod 4) + b div 16 < 64" "4 * (b mod 16) + c div 64 < 64" using m d by linarith+
  show "c mod 64 < 64" by simp
qed

lemma byte_join:
  fixes a b c :: nat
  assumes "b < 256" "c < 256"
  shows "4 * (a div 4) + 16 * (a mod 4) div 16 = a"
    "4 * (a div 4) + (16 * (a mod 4) + b div 16) div 16 = a"
    "16 * ((16 * (a mod 4) + b div 16) mod 16) + 4 * (b mod 16) div 4 = b"
    "16 * ((16 * (a mod 4) + b div 16) mod 16) + (4 * (b mod 16) + c div 64) div 4 = b"
    "64 * ((4 * (b mod 16) + c div 64) mod 4) + c mod 64 = c"
proof -
  have d: "b div 16 < 16" "c div 64 < 4" using assms by (simp_all add: less_mult_imp_div_less)
  show "4 * (a div 4) + 16 * (a mod 4) div 16 = a"
    "4 * (a div 4) + (16 * (a mod 4) + b div 16) div 16 = a"
    "16 * ((16 * (a mod 4) + b div 16) mod 16) + 4 * (b mod 16) div 4 = b"
    "16 * ((16 * (a mod 4) + b div 16) mod 16) + (4 * (b mod 16) + c div 64) div 4 = b"
    "64 * ((4 * (b mod 16) + c div 64) mod 4) + c mod 64 = c"
    using d by simp_all
qed

lemma b64_core_plain: "c \<in> set (b64_core s) \<Longrightarrow> c \<noteq> CHR ''='' \<and> c \<noteq> CHR ''.'' \<and> ord c < 128"
  using sextet_bounds[OF ord_less ord_less ord_less]
  by (induction s rule: b64_core.induct) (auto simp: b64_char_plain)

lemma dropWhile_replicate: "dropWhile (\<lambda>x. x = c) (replicate n c @ t) = dropWhile (\<lambda>x. x = c) t"
  by (induction n) auto

lemma rstrip_char_append_replicate:
  "c \<notin> set s \<Longrightarrow> rstrip_char c (s @ replicate n c) = s"
proof -
  assume "c \<notin> set s"
  then have "dropWhile (\<lambda>x. x = c) (rev s) = rev s"
    by (cases s rule: rev_cases) auto
  then show ?thesis
    by (simp add: rstrip_char_def dropWhile_replicate)
qed

lemma urlsafe_b64encode_core: "\<exists>n. urlsafe_b64encode s = b64_core s @ replicate n (CHR ''='')"
proof (induction s rule: b64_core.induct)
  case 1
  show ?case by (rule exI[of _ 0]) simp
next
  case (2 a)
  show ?case by (rule exI[of _ 2]) (simp add: numeral_2_eq_2)
next
  case (3 a b)
  show ?case by (rule exI[of _ 1]) simp
qed auto

lemma b64url_encode_core: "b64url_encode s = b64_core s"
proof -
  obtain n where "urlsafe_b64encode s = b64_core s @ replicate n (CHR ''='')"
    using urlsafe_b64encode_core by blast
  moreover have "CHR ''='' \<notin> set (b64_core s)" using b64_core_plain by blast
  ultimately show ?thesis by (simp add: b64url_encode_def rstrip_char_append_replicate)
qed

lemma b64url_encode_plain:
  "ascii (b64url_encode s) \<and> CHR ''.'' \<notin> set (b64url_encode s)"
  using b64_core_plain[of _ s] by (auto simp: ascii_def b64url_encode_core)

lemma replicate_pad: "replicate 4 x = [x, x, x, x]" "replicate 2 x = [x, x]"
  by (simp_all add: numeral_eq_Suc)

lemma a2b_core_pad:
  "a2b_base64 0 0 0 (b64_core s @ replicate (4 - length (b64_core s) mod 4) (CHR ''='')) = Some s"
proof (induction s rule: b64_core.induct)
  case 1
  show ?case by (simp add: replicate_pad)
next
  case (2 a)
  note v = sextet_bounds[OF ord_less[of a] ord_less[of a] ord_less[of a]]
  show ?case
    using v(1,2) byte_join(1)[OF ord_less[of a] ord_less[of a], of "ord a"]
      v(1,2)[THEN b64_char_plain]
    by (simp add: replicate_pad)
next
  case (3 a b)
  note v = sextet_bounds[OF ord_less[of a] ord_less[of b] ord_less[of b]]
  show ?case
    using v(1,3,4) byte_join(2,3)[OF ord_less[of b] ord_less[of b], of "ord a"]
      v(1,3,4)[THEN b64_char_plain]
    by simp
next
  case (4 a b c s)
  note v = sextet_bounds[OF ord_less[of a] ord_less[of b] ord_less[of c]]
  show ?case
    using 4 v(1,3,5,6) byte_join(2,4)[OF ord_less[of b] ord_less[of c], of "ord a"]
      byte_join(5)[OF ord_less[of b] ord_less[of c]]
      v(1,3,5,6)[THEN b64_char_plain]
    by simp
qed

lemma b64url_roundtrip: "b64url_decode (b64url_encode s) = Some s"
proof -
  have "ascii (b64_core s @ replicate n (CHR ''=''))" for n
    using b64_core_plain[of _ s] by (auto simp: ascii_def ord_def)
  then show ?thesis
    by (simp add: b64url_decode_def b64url_encode_core a2b_core_pad Let_def)
qed

section \<open>Access tokens\<close>

definition jwt_header :: json where
  "jwt_header = JObj [(''alg'', JStr ''HS256''), (''typ'', JStr ''JWT'')]"

definition jwt_claims :: "string \<Rightarrow> int \<Rightarrow> int \<Rightarrow> int \<Rightarrow> dict" where
  "jwt_claims username iat expires epoch =
     [(''sub'', JStr username), (''iat'', JInt iat), (''exp'', JInt expires), (''epoch'', JInt epoch)]"

text \<open>\<open>json.dumps(...).encode()\<close>; no float occurs, so the float text is irrelevant.\<close>

definition dumps_ascii :: "json \<Rightarrow> string" where
  "dumps_ascii v = utf8_encode (dumps (\<lambda>_. []) True v)"

definition sign_parts :: "auth_env \<Rightarrow> string \<Rightarrow> string \<Rightarrow> string" where
  "sign_parts env header payload =
     hmac_sha256 env (utf8_encode (jwt_secret env)) (utf8_encode (header @ CHR ''.'' # payload))"

text \<open>\<open>create_token\<close> reads the clock twice: for \<open>iat\<close> (\<open>t0\<close>) and for \<open>exp\<close> (\<open>t1\<close>).\<close>

definition create_token :: "auth_env \<Rightarrow> seconds \<Rightarrow> seconds \<Rightarrow> string \<Rightarrow> int \<Rightarrow> string" where
  "create_token env t0 t1 username epoch =
     (let header = b64url_encode (dumps_ascii jwt_header);
          payload = b64url_encode (dumps_ascii (JObj
            (jwt_claims username (py_int_of_float t0) (py_int_of_float t1 + jwt_expiry env) epoch)));
          signature = sign_parts env header payload
      in header @ CHR ''.'' # payload @ CHR ''.'' # b64url_encode signature)"

text \<open>
  The number a claim compares as; comparing any other value with a float is a TypeError,
  which \<open>verify_token\<close> answers with \<open>None\<close>.
\<close>

fun as_number :: "json \<Rightarrow> real option" where
  "as_number (JBool b) = Some (if b then 1 else 0)"
| "as_number (JInt n) = Some (of_int n)"
| "as_number (JFloat x) = Some x"
| "as_number v = None"

definition check_claims :: "json option \<Rightarrow> seconds \<Rightarrow> dict option" where
  "check_claims data now =
     (case data of
        Some (JObj d) \<Rightarrow>
          (case as_number (case map_of d ''exp'' of Some v \<Rightarrow> v | None \<Rightarrow> JInt 0) of
             None \<Rightarrow> None
           | Some x \<Rightarrow> if x < now then None else Some d)
      | _ \<Rightarrow> None)"

definition verify_token :: "auth_env \<Rightarrow> seconds \<Rightarrow> string \<Rightarrow> dict option" where
  "verify_token env now token =
     (case split_on (CHR ''.'') token of
        [header, payload, sig] \<Rightarrow>
          (case b64url_decode sig of
             None \<Rightarrow> None
           | Some s \<Rightarrow>
               if s \<noteq> sign_parts env header payload then None
               else case b64url_decode payload of
                   None \<Rightarrow> None
                 | Some bytes \<Rightarrow>
                     check_claims (Option.bind (utf8_decode bytes) loads) now)
      | _ \<Rightarrow> None)"

subsection \<open>What is printed is ASCII\<close>

lemma hex_char_ascii: "k < 16 \<Longrightarrow> ord (hex_char k) < 128"
  by (simp add: hex_char_def)

lemma esc_char_ascii: "ascii (esc_char True c)"
proof -
  have "ord c div 16 < 16" using ord_less[of c] by (simp add: less_mult_imp_div_less)
  then have h: "ord (hex_char (ord c div 16)) < 128" "ord (hex_char (ord c mod 16)) < 128"
    by (simp_all add: hex_char_ascii)
  have k: "ord backslash < 128" "ord quote_char < 128" "ord (CHR ''n'') < 128" "ord (CHR ''r'') < 128"
    "ord (CHR ''t'') < 128" "ord (CHR ''f'') < 128" "ord (CHR ''b'') < 128" "ord (CHR ''u'') < 128"
    "ord (CHR ''0'') < 128" by (simp_all add: ord_def)
  show ?thesis using h k by (auto simp: esc_char_def Let_def)
qed

lemma dumps_str_ascii: "ascii (dumps_str True s)"
proof -
  have "ascii (esc_string True s)" by (induction s) (simp_all add: esc_char_ascii)
  then show ?thesis by (simp add: dumps_str_def) (simp add: ord_def)
qed

lemma int_str_ascii: "ascii (int_str n)"
  using nat_str_decimal[of _ "nat n"] nat_str_decimal[of _ "nat (- n)"]
  by (fastforce simp: int_str_def ascii_def is_decimal_def ord_def)

definition claims_bytes :: "string \<Rightarrow> int \<Rightarrow> int \<Rightarrow> int \<Rightarrow> string" where
  "claims_bytes username iat expires epoch =
     dumps (\<lambda>_. []) True (JObj (jwt_claims username iat expires epoch))"

lemma claims_bytes_ascii: "ascii (claims_bytes username iat expires epoch)"
  by (simp add: claims_bytes_def jwt_claims_def dumps_str_ascii int_str_ascii) (simp add: ord_def)

lemma claims_decoded:
  "Option.bind (utf8_decode (dumps_ascii (JObj (jwt_claims u i x e)))) loads = Some (JObj (jwt_claims u i x e))"
proof -
  have "plain_json (JObj (jwt_claims u i x e))" by (simp add: jwt_claims_def)
  then have "loads (claims_bytes u i x e) = Some (JObj (jwt_claims u i x e))"
    unfolding claims_bytes_def by (rule loads_dumps)
  moreover have "dumps_ascii (JObj (jwt_claims u i x e)) = claims_bytes u i x e"
    using claims_bytes_ascii[of u i x e]
    by (simp only: dumps_ascii_def claims_bytes_def utf8_encode_ascii)
  ultimately show ?thesis
    using claims_bytes_ascii[of u i x e] by (simp add: utf8_decode_ascii)
qed

subsection \<open>Minted tokens verify, and only signed ones do\<close>

lemma split_three_parts:
  assumes "c \<notin> set a" "c \<notin> set b" "c \<notin> set d"
  shows "split_on c (a @ c # b @ c # d) = [a, b, d]"
  using assms by (simp add: split_on_append split_on_free)

lemma verify_create:
  "verify_token env now (create_token env t0 t1 username epoch) =
     check_claims (Some (JObj (jwt_claims username (py_int_of_float t0)
       (py_int_of_float t1 + jwt_expiry env) epoch))) now"
  using b64url_encode_plain
  by (simp add: verify_token_def create_token_def Let_def split_three_parts b64url_roundtrip
      claims_decoded)

lemma check_jwt_claims:
  "check_claims (Some (JObj (jwt_claims u i x e))) now = (if of_int x < now then None else Some (jwt_claims u i x e))"
  by (simp add: check_claims_def jwt_claims_def)

text \<open>
  A token minted by \<open>create_token\<close> is accepted by \<open>verify_token\<close> exactly until its
  expiry, whole seconds of the minting clock plus JWT_EXPIRY, and what comes back are the
  claims that went in: subject, issue time, expiry and epoch.
\<close>

theorem token_valid_until_expiry:
  "verify_token env now (create_token env t0 t1 username epoch) =
     (if of_int (py_int_of_float t1 + jwt_expiry env) < now then None
      else Some (jwt_claims username (py_int_of_float t0) (py_int_of_float t1 + jwt_expiry env) epoch))"
  by (simp add: verify_create check_jwt_claims)


definition sample_env :: auth_env where
  "sample_env = \<lparr>hmac_sha256 = (\<lambda>key msg. key @ msg), sha256_hex = (\<lambda>t. CHR ''h'' # t),
     pbkdf2_hex = (\<lambda>password salt. salt @ password), jwt_secret = ''k'',
     jwt_expiry = 600, refresh_expiry = 2592000\<rparr>"


end
