(* ===== verification/Router_Auth.thy ===== *)
theory Router_Auth
  imports Router_Tokens
begin

text \<open>
  The account database of the router and the functions of \<open>router/auth.py\<close> over it:
  password check, login limiter, epochs, refresh tokens, password change, and the
  per-request authentication \<open>require_auth\<close>. Every function takes the database and
  returns the database as committed when it ends. Fresh random values (salts and refresh
  tokens) are arguments. The columns \<open>id\<close> and \<open>created_at\<close> of users and refresh tokens,
  which the code never reads, are left out.
\<close>

section \<open>Tables\<close>

record user_row =
  user_name :: string
  password_hash :: string
  salt :: string
  password_changed :: bool
  token_epoch :: int
  failed_count :: int
  locked_until :: seconds

record refresh_row =
  token_hash :: string
  rt_username :: string
  expires_at :: int
  revoked :: bool

record whep_row =
  session_path :: string
  whep_username :: string
  whep_created :: int

record storage_row =
  st_username :: string
  st_key :: string
  st_data :: string

record router_db =
  users :: "user_row list"
  refresh_tokens :: "refresh_row list"
  whep_sessions :: "whep_row list"
  client_storage :: "storage_row list"

abbreviation find_user :: "string \<Rightarrow> router_db \<Rightarrow> user_row option" where
  "find_user username db \<equiv> select_one user_name username (users db)"

abbreviation find_refresh :: "string \<Rightarrow> router_db \<Rightarrow> refresh_row option" where
  "find_refresh h db \<equiv> select_one token_hash h (refresh_tokens db)"

section \<open>Passwords\<close>

definition hash_password :: "auth_env \<Rightarrow> string \<Rightarrow> string \<Rightarrow> string" where
  "hash_password env password slt = pbkdf2_hex env password slt"

definition verify_password :: "auth_env \<Rightarrow> string \<Rightarrow> string \<Rightarrow> string \<Rightarrow> bool" where
  "verify_password env password slt pw_hash \<longleftrightarrow> hash_password env password slt = pw_hash"

definition new_user :: "auth_env \<Rightarrow> string \<Rightarrow> string \<Rightarrow> string \<Rightarrow> user_row" where
  "new_user env name password slt =
     \<lparr>user_name = name, password_hash = hash_password env password slt, salt = slt,
      password_changed = False, token_epoch = 0, failed_count = 0, locked_until = 0\<rparr>"

definition seed_default_user :: "auth_env \<Rightarrow> string \<Rightarrow> string \<Rightarrow> string \<Rightarrow> router_db \<Rightarrow> router_db" where
  "seed_default_user env default_user default_pass slt db =
     (case find_user default_user db of
        Some _ \<Rightarrow> db
      | None \<Rightarrow> db\<lparr>users := users db @ [new_user env default_user default_pass slt]\<rparr>)"

section \<open>Epochs\<close>

definition get_epoch :: "string \<Rightarrow> router_db \<Rightarrow> int option" where
  "get_epoch username db = map_option token_epoch (find_user username db)"

definition incr_epoch :: "user_row \<Rightarrow> user_row" where
  "incr_epoch u = u\<lparr>token_epoch := token_epoch u + 1\<rparr>"

definition bump_epoch :: "string \<Rightarrow> router_db \<Rightarrow> router_db" where
  "bump_epoch username db =
     db\<lparr>users := update_where (\<lambda>u. user_name u = username) incr_epoch (users db)\<rparr>"

text \<open>Python's \<open>==\<close> between a JSON claim and the stored epoch.\<close>

fun claim_eq :: "json \<Rightarrow> int option \<Rightarrow> bool" where
  "claim_eq (JInt n) (Some e) = (n = e)"
| "claim_eq (JBool b) (Some e) = ((if b then 1 else 0) = e)"
| "claim_eq (JFloat x) (Some e) = (x = of_int e)"
| "claim_eq JNull None = True"
| "claim_eq _ _ = False"

text \<open>
  \<open>claims.get("sub", "")\<close>; tokens carry a string here, any other value names no account.
\<close>

definition claim_sub :: "dict \<Rightarrow> string" where
  "claim_sub claims = (case map_of claims ''sub'' of Some (JStr s) \<Rightarrow> s | _ \<Rightarrow> [])"

definition epoch_current :: "dict \<Rightarrow> router_db \<Rightarrow> bool" where
  "epoch_current claims db \<longleftrightarrow>
     claim_eq (case map_of claims ''epoch'' of Some v \<Rightarrow> v | None \<Rightarrow> JInt (-1))
       (get_epoch (claim_sub claims) db)"

section \<open>Per-request authentication\<close>

definition bearer_token :: "string \<Rightarrow> string option" where
  "bearer_token header = (if starts_with ''Bearer '' header then Some (drop 7 header) else None)"

definition require_auth ::
  "auth_env \<Rightarrow> seconds \<Rightarrow> string \<Rightarrow> string option \<Rightarrow> router_db \<Rightarrow> http_error + dict" where
  "require_auth env now auth_header query_token db =
     (let token = (case bearer_token auth_header of Some t \<Rightarrow> Some t | None \<Rightarrow> query_token) in
      case token of
        None \<Rightarrow> Inl (HttpError 401 ''missing token'' None)
      | Some t \<Rightarrow>
          if t = [] then Inl (HttpError 401 ''missing token'' None)
          else (case verify_token env now t of
              None \<Rightarrow> Inl (HttpError 401 ''invalid or expired token'' None)
            | Some payload \<Rightarrow>
                if epoch_current payload db then Inr payload
                else Inl (HttpError 401 ''token revoked'' None)))"

section \<open>Login limiter\<close>

definition lockout_threshold :: int where "lockout_threshold = 10"
definition lockout_seconds :: int where "lockout_seconds = 1800"
definition whep_session_max_age :: int where "whep_session_max_age = 24 * 3600"

definition check_lockout :: "user_row \<Rightarrow> seconds \<Rightarrow> int" where
  "check_lockout u now =
     (let remaining = locked_until u - now in
      if 0 < remaining then py_int_of_float remaining + 1 else 0)"

definition set_failures :: "int \<Rightarrow> user_row \<Rightarrow> user_row" where
  "set_failures n u = u\<lparr>failed_count := n\<rparr>"

definition set_lock :: "int \<Rightarrow> seconds \<Rightarrow> user_row \<Rightarrow> user_row" where
  "set_lock n until u = u\<lparr>failed_count := n, locked_until := until\<rparr>"

definition record_failure :: "string \<Rightarrow> seconds \<Rightarrow> router_db \<Rightarrow> int \<times> router_db" where
  "record_failure username now db =
     (case find_user username db of
        None \<Rightarrow> (0, db)
      | Some u \<Rightarrow>
          (let count = failed_count u + 1 in
           if lockout_threshold \<le> count then
             (lockout_seconds, db\<lparr>users := update_where (\<lambda>u. user_name u = username)
                (set_lock 0 (now + of_int lockout_seconds)) (users db)\<rparr>)
           else
             (0, db\<lparr>users := update_where (\<lambda>u. user_name u = username)
                (set_failures count) (users db)\<rparr>)))"

section \<open>Refresh tokens\<close>

definition hash_refresh :: "auth_env \<Rightarrow> string \<Rightarrow> string" where
  "hash_refresh env token = sha256_hex env (utf8_encode token)"

text \<open>The INSERT fails on a hash that is already stored (UNIQUE): \<open>None\<close>.\<close>

definition issue_refresh_token ::
  "auth_env \<Rightarrow> string \<Rightarrow> seconds \<Rightarrow> string \<Rightarrow> router_db \<Rightarrow> router_db option" where
  "issue_refresh_token env username now fresh db =
     (case find_refresh (hash_refresh env fresh) db of
        Some _ \<Rightarrow> None
      | None \<Rightarrow> Some (db\<lparr>refresh_tokens := refresh_tokens db @
          [\<lparr>token_hash = hash_refresh env fresh, rt_username = username,
            expires_at = py_int_of_float now + refresh_expiry env, revoked = False\<rparr>]\<rparr>))"

definition purge_expired :: "seconds \<Rightarrow> router_db \<Rightarrow> router_db" where
  "purge_expired t db =
     (let now = py_int_of_float t in
      db\<lparr>refresh_tokens := delete_where (\<lambda>r. expires_at r < now \<or> revoked r) (refresh_tokens db),
         whep_sessions := delete_where (\<lambda>w. whep_created w < now - whep_session_max_age) (whep_sessions db)\<rparr>)"

definition set_revoked :: "refresh_row \<Rightarrow> refresh_row" where
  "set_revoked r = r\<lparr>revoked := True\<rparr>"

definition live_hash :: "string \<Rightarrow> refresh_row \<Rightarrow> bool" where
  "live_hash h r \<longleftrightarrow> token_hash r = h \<and> \<not> revoked r"

text \<open>
  \<open>rotate_refresh_token\<close>: the inner option is the code's \<open>None\<close>, the outer one a
  constraint failure of the INSERT, after which the uncommitted revocation is rolled back.
\<close>

definition rotate_refresh_token ::
  "auth_env \<Rightarrow> clock \<Rightarrow> string \<Rightarrow> string \<Rightarrow> router_db \<Rightarrow> (string \<times> string) option option \<times> router_db" where
  "rotate_refresh_token env tm fresh token db =
     (let db1 = purge_expired (tm 0) db; h = hash_refresh env token in
      case find_refresh h db1 of
        None \<Rightarrow> (Some None, db1)
      | Some row \<Rightarrow>
          if revoked row \<or> expires_at row < py_int_of_float (tm 1) then (Some None, db1)
          else if row_count (live_hash h) (refresh_tokens db1) = 0 then (Some None, db1)
          else
            let db2 = db1\<lparr>refresh_tokens := update_where (live_hash h) set_revoked (refresh_tokens db1)\<rparr> in
            case issue_refresh_token env (rt_username row) (tm 2) fresh db2 of
              None \<Rightarrow> (None, db1)
            | Some db3 \<Rightarrow> (Some (Some (rt_username row, fresh)), db3))"

definition revoke_refresh_token :: "auth_env \<Rightarrow> string \<Rightarrow> router_db \<Rightarrow> string option \<times> router_db" where
  "revoke_refresh_token env token db =
     (let h = hash_refresh env token;
          row = find_refresh h db;
          n = row_count (live_hash h) (refresh_tokens db);
          db' = db\<lparr>refresh_tokens := update_where (live_hash h) set_revoked (refresh_tokens db)\<rparr>
      in (case row of Some r \<Rightarrow> if 0 < n then Some (rt_username r) else None | None \<Rightarrow> None, db'))"

definition live_of :: "string \<Rightarrow> refresh_row \<Rightarrow> bool" where
  "live_of username r \<longleftrightarrow> rt_username r = username \<and> \<not> revoked r"

definition revoke_all_refresh_tokens :: "string \<Rightarrow> router_db \<Rightarrow> nat \<times> router_db" where
  "revoke_all_refresh_tokens username db =
     (row_count (live_of username) (refresh_tokens db),
      db\<lparr>refresh_tokens := update_where (live_of username) set_revoked (refresh_tokens db)\<rparr>)"

section \<open>Login and password change\<close>

record login_result =
  lr_token :: string
  lr_must_change :: bool
  lr_refresh :: "string option"

definition too_many_attempts :: "int \<Rightarrow> http_error" where
  "too_many_attempts s =
     HttpError 429 (''too many attempts, retry after '' @ int_str s @ ''s'') (Some (int_str s))"

text \<open>
  \<open>replace_session\<close> is the critical section of \<open>authenticate\<close> (under SESSION_LOCK).
\<close>

definition replace_session ::
  "auth_env \<Rightarrow> clock \<Rightarrow> string \<Rightarrow> string \<Rightarrow> user_row \<Rightarrow> bool \<Rightarrow> router_db \<Rightarrow>
     (http_error + login_result option) \<times> router_db" where
  "replace_session env tm fresh username row remember_me db =
     (let db1 = bump_epoch username (snd (revoke_all_refresh_tokens username db));
          token = create_token env (tm 3) (tm 4) username
            (case get_epoch username db1 of Some e \<Rightarrow> e | None \<Rightarrow> 0)
      in if remember_me then
           (case issue_refresh_token env username (tm 5) fresh db1 of
              None \<Rightarrow> (Inl internal_error, db1)
            | Some db2 \<Rightarrow> (Inr (Some \<lparr>lr_token = token, lr_must_change = \<not> password_changed row,
                lr_refresh = Some fresh\<rparr>), db2))
         else (Inr (Some \<lparr>lr_token = token, lr_must_change = \<not> password_changed row,
                lr_refresh = None\<rparr>), db1))"

definition authenticate ::
  "auth_env \<Rightarrow> clock \<Rightarrow> string \<Rightarrow> string \<Rightarrow> string \<Rightarrow> bool \<Rightarrow> router_db \<Rightarrow>
     (http_error + login_result option) \<times> router_db" where
  "authenticate env tm fresh username password remember_me db =
     (let db1 = purge_expired (tm 0) db;
          row = find_user username db1;
          remaining = (case row of Some u \<Rightarrow> check_lockout u (tm 1) | None \<Rightarrow> 0)
      in if 0 < remaining then (Inl (too_many_attempts remaining), db1)
         else case (case row of Some u \<Rightarrow>
                      if verify_password env password (salt u) (password_hash u) then Some u else None
                    | None \<Rightarrow> None) of
             None \<Rightarrow>
               (case record_failure username (tm 2) db1 of
                  (locked_for, db2) \<Rightarrow>
                    (if locked_for \<noteq> 0 then Inl (too_many_attempts locked_for) else Inr None, db2))
           | Some u \<Rightarrow>
               replace_session env tm fresh username u remember_me
                 (db1\<lparr>users := update_where (\<lambda>u. user_name u = username) (set_lock 0 0) (users db1)\<rparr>))"

definition set_password :: "string \<Rightarrow> string \<Rightarrow> user_row \<Rightarrow> user_row" where
  "set_password h slt u = u\<lparr>password_hash := h, salt := slt, password_changed := True\<rparr>"

definition change_password ::
  "auth_env \<Rightarrow> string \<Rightarrow> string \<Rightarrow> string \<Rightarrow> string \<Rightarrow> router_db \<Rightarrow> bool \<times> router_db" where
  "change_password env new_salt username current_password new_password db =
     (case find_user username db of
        None \<Rightarrow> (False, db)
      | Some u \<Rightarrow>
          if \<not> verify_password env current_password (salt u) (password_hash u) then (False, db)
          else
            let db1 = db\<lparr>users := update_where (\<lambda>u. user_name u = username)
                  (set_password (hash_password env new_password new_salt) new_salt) (users db)\<rparr>
            in (True, bump_epoch username (snd (revoke_all_refresh_tokens username db1))))"

section \<open>Lookups after an update\<close>

interpretation incr: keyed_update user_name incr_epoch
  by unfold_locales (simp add: incr_epoch_def)

interpretation failures: keyed_update user_name "set_failures n" for n
  by unfold_locales (simp add: set_failures_def)

interpretation lock: keyed_update user_name "set_lock n until" for n until
  by unfold_locales (simp add: set_lock_def)

interpretation passwd: keyed_update user_name "set_password h slt" for h slt
  by unfold_locales (simp add: set_password_def)

interpretation revoke: keyed_update token_hash set_revoked
  by unfold_locales (simp add: set_revoked_def)

lemmas account_updates = incr.select_update failures.select_update lock.select_update
  passwd.select_update revoke.select_update

lemmas account_unique = incr.unique_update failures.unique_update lock.unique_update
  passwd.unique_update revoke.unique_update

lemma select_one_key: "select_one key k rows = Some r \<Longrightarrow> key r = k"
  by (auto dest: select_one_Some)

lemma users_frame [frame_simps]:
  "users (purge_expired t db) = users db"
  "users (snd (revoke_all_refresh_tokens username db)) = users db"
  "users (snd (revoke_refresh_token env token db)) = users db"
  by (simp_all add: purge_expired_def revoke_all_refresh_tokens_def revoke_refresh_token_def Let_def)

lemma issue_Some:
  "issue_refresh_token env username now fresh db = Some db' \<Longrightarrow>
     find_refresh (hash_refresh env fresh) db = None \<and>
     db' = db\<lparr>refresh_tokens := refresh_tokens db @
       [\<lparr>token_hash = hash_refresh env fresh, rt_username = username,
         expires_at = py_int_of_float now + refresh_expiry env, revoked = False\<rparr>]\<rparr>"
  by (auto simp: issue_refresh_token_def split: option.splits)

lemma refresh_frame [frame_simps]:
  "refresh_tokens (bump_epoch username db) = refresh_tokens db"
  "whep_sessions (bump_epoch username db) = whep_sessions db"
  by (simp_all add: bump_epoch_def)

lemma get_epoch_bump [row_simps]:
  "get_epoch v (bump_epoch username db) =
     (if v = username then map_option (\<lambda>e. e + 1) (get_epoch v db) else get_epoch v db)"
proof (cases "find_user v db")
  case None
  then show ?thesis by (auto simp: get_epoch_def bump_epoch_def incr.select_update)
next
  case (Some r)
  then have "user_name r = v" by (rule select_one_key)
  with Some show ?thesis
    by (auto simp: get_epoch_def bump_epoch_def incr.select_update incr_epoch_def)
qed

lemma get_epoch_users: "users db' = users db \<Longrightarrow> get_epoch v db' = get_epoch v db"
  by (simp add: get_epoch_def)

section \<open>Epochs only grow\<close>

definition epoch_le :: "router_db \<Rightarrow> router_db \<Rightarrow> bool" where
  "epoch_le db db' \<longleftrightarrow>
     (\<forall>u e. get_epoch u db = Some e \<longrightarrow> (\<exists>e'. get_epoch u db' = Some e' \<and> e \<le> e'))"

lemma epoch_le_refl [simp, intro]: "epoch_le db db"
  by (auto simp: epoch_le_def)

lemma epoch_le_trans [trans]: "epoch_le a b \<Longrightarrow> epoch_le b c \<Longrightarrow> epoch_le a c"
  by (fastforce simp: epoch_le_def)

lemma epoch_le_users [intro]: "users db' = users db \<Longrightarrow> epoch_le db db'"
  by (auto simp: epoch_le_def get_epoch_def)

lemma epoch_le_bump: "epoch_le db (bump_epoch username db)"
  by (auto simp: epoch_le_def get_epoch_bump)

text \<open>An UPDATE of a user row that leaves the epoch column alone.\<close>

lemma epoch_update_where:
  assumes "\<And>u. user_name (f u) = user_name u" and "\<And>u. token_epoch (f u) = token_epoch u"
  shows "get_epoch v (db\<lparr>users := update_where p f (users db)\<rparr>) = get_epoch v db"
proof -
  have upd: "select_one user_name v (update_where p f rows) =
      map_option (\<lambda>r. if p r then f r else r) (select_one user_name v rows)" for rows
    by (rule keyed_update.select_update) (unfold_locales, rule assms(1))
  show ?thesis
    by (cases "find_user v db") (simp_all add: get_epoch_def upd assms(2))
qed

end
