(* ===== verification/Router_Storage.thy ===== *)
theory Router_Storage
  imports Router_Auth
begin

text \<open>
  The per-account document store of \<open>router/main.py\<close> (\<open>GET\<close> and \<open>PUT\<close>
  \<open>/client/storage/{key}\<close>). A document is stored as the text \<open>json.dumps\<close> prints, one row
  per account and key. \<open>rp\<close> is the text Python prints for a float. The column
  \<open>updated_at\<close>, which the code writes and never reads, is left out.
\<close>

definition st_id :: "storage_row \<Rightarrow> string \<times> string" where
  "st_id r = (st_username r, st_key r)"

abbreviation find_storage :: "string \<Rightarrow> string \<Rightarrow> router_db \<Rightarrow> storage_row option" where
  "find_storage username k db \<equiv> select_one st_id (username, k) (client_storage db)"

text \<open>\<open>user["sub"]\<close> of the claims \<open>require_auth\<close> returned; a missing key is a KeyError.\<close>

definition user_sub :: "dict \<Rightarrow> http_error + string" where
  "user_sub claims = (case map_of claims ''sub'' of Some (JStr s) \<Rightarrow> Inr s | _ \<Rightarrow> Inl internal_error)"

definition storage_key_char :: "char \<Rightarrow> bool" where
  "storage_key_char c \<longleftrightarrow> (97 \<le> ord c \<and> ord c \<le> 122) \<or> (48 \<le> ord c \<and> ord c \<le> 57) \<or>
     c = CHR ''_'' \<or> c = CHR ''-''"

definition valid_storage_key :: "string \<Rightarrow> bool" where
  "valid_storage_key k \<longleftrightarrow> 1 \<le> length k \<and> length k \<le> 64 \<and> list_all storage_key_char k"

definition client_storage_max_bytes :: nat where
  "client_storage_max_bytes = 512 * 1024"

definition validate_storage_key :: "string \<Rightarrow> http_error + unit" where
  "validate_storage_key k =
     (if valid_storage_key k then Inr () else Inl (HttpError 400 ''invalid storage key'' None))"

definition get_client_storage :: "string \<Rightarrow> dict \<Rightarrow> router_db \<Rightarrow> http_error + json" where
  "get_client_storage k user db =
     (case validate_storage_key k of
        Inl e \<Rightarrow> Inl e
      | Inr _ \<Rightarrow>
          (case user_sub user of
             Inl e \<Rightarrow> Inl e
           | Inr username \<Rightarrow>
               (case find_storage username k db of
                  None \<Rightarrow> Inr (JObj [])
                | Some row \<Rightarrow>
                    (case loads (st_data row) of Some v \<Rightarrow> Inr v | None \<Rightarrow> Inr (JObj [])))))"

definition set_data :: "string \<Rightarrow> storage_row \<Rightarrow> storage_row" where
  "set_data d r = r\<lparr>st_data := d\<rparr>"

text \<open>\<open>INSERT ... ON CONFLICT(username, key) DO UPDATE\<close>.\<close>

definition upsert_storage :: "string \<Rightarrow> string \<Rightarrow> string \<Rightarrow> router_db \<Rightarrow> router_db" where
  "upsert_storage username k data db =
     (case find_storage username k db of
        Some _ \<Rightarrow> db\<lparr>client_storage :=
          update_where (\<lambda>r. st_id r = (username, k)) (set_data data) (client_storage db)\<rparr>
      | None \<Rightarrow> db\<lparr>client_storage := client_storage db @
          [\<lparr>st_username = username, st_key = k, st_data = data\<rparr>]\<rparr>)"

definition put_client_storage ::
  "(real \<Rightarrow> string) \<Rightarrow> string \<Rightarrow> dict \<Rightarrow> dict \<Rightarrow> router_db \<Rightarrow> (http_error + unit) \<times> router_db" where
  "put_client_storage rp k document user db =
     (case validate_storage_key k of
        Inl e \<Rightarrow> (Inl e, db)
      | Inr _ \<Rightarrow>
          (let data = dumps rp False (JObj document) in
           if client_storage_max_bytes < utf8_length data
           then (Inl (HttpError 413 ''document too large'' None), db)
           else (case user_sub user of
                   Inl e \<Rightarrow> (Inl e, db)
                 | Inr username \<Rightarrow> (Inr (), upsert_storage username k data db))))"

interpretation storage: keyed_update st_id "set_data d" for d
  by unfold_locales (simp add: set_data_def st_id_def)

lemma upsert_lookup [row_simps]:
  "find_storage v k' (upsert_storage u k data db) =
     (if (v, k') = (u, k) then Some \<lparr>st_username = u, st_key = k, st_data = data\<rparr> else find_storage v k' db)"
proof (cases "find_storage u k db")
  case None
  then show ?thesis
    by (auto simp: upsert_storage_def select_one_append st_id_def split: option.splits)
next
  case (Some r)
  then have "st_id r = (u, k)" by (rule select_one_key)
  then have "set_data data r = \<lparr>st_username = u, st_key = k, st_data = data\<rparr>"
    by (cases r) (simp add: set_data_def st_id_def)
  moreover have "map_option (\<lambda>r. if st_id r = (u, k) then set_data data r else r) (find_storage v k' db)
      = find_storage v k' db" if "(v, k') \<noteq> (u, k)"
    using that by (cases "find_storage v k' db") (auto dest: select_one_key)
  ultimately show ?thesis
    using Some \<open>st_id r = (u, k)\<close> by (auto simp: upsert_storage_def storage.select_update)
qed

lemma upsert_unique: "unique_by st_id (client_storage db) \<Longrightarrow>
    unique_by st_id (client_storage (upsert_storage u k data db))"
proof (cases "find_storage u k db")
  case None
  assume "unique_by st_id (client_storage db)"
  moreover have "(u, k) \<notin> st_id ` set (client_storage db)"
    using None by (simp only: select_one_None not_False_eq_True)
  ultimately show ?thesis using None by (simp add: upsert_storage_def unique_by_def) (simp add: st_id_def)
next
  case (Some r)
  assume "unique_by st_id (client_storage db)"
  then show ?thesis using Some by (simp add: upsert_storage_def storage.unique_update)
qed

lemma upsert_frame [frame_simps]:
  "users (upsert_storage u k data db) = users db"
  "refresh_tokens (upsert_storage u k data db) = refresh_tokens db"
  "whep_sessions (upsert_storage u k data db) = whep_sessions db"
  by (simp_all add: upsert_storage_def split: option.split)

lemma put_result:
  assumes "put_client_storage rp k document user db = (Inr (), db')"
  obtains u where "valid_storage_key k" "user_sub user = Inr u"
    "db' = upsert_storage u k (dumps rp False (JObj document)) db"
    "utf8_length (dumps rp False (JObj document)) \<le> client_storage_max_bytes"
  using assms
  by (auto simp: put_client_storage_def validate_storage_key_def Let_def not_less
      split: sum.splits if_splits)

text \<open>
  Documents come back as they were stored: after an accepted PUT, a GET of the same
  account and key returns the document, and every GET of another account or another key
  answers what it answered before.
\<close>

theorem storage_put_get:
  assumes put: "put_client_storage rp k document user db = (Inr (), db')"
    and plain: "plain_json (JObj document)"
  shows "get_client_storage k user db' = Inr (JObj document) \<and>
    (\<forall>k' user'. (k', user_sub user') \<noteq> (k, user_sub user) \<longrightarrow>
      get_client_storage k' user' db' = get_client_storage k' user' db)"
proof -
  from put obtain u where u: "valid_storage_key k" "user_sub user = Inr u"
    "db' = upsert_storage u k (dumps rp False (JObj document)) db"
    by (rule put_result)
  have "loads (dumps rp False (JObj document)) = Some (JObj document)"
    using plain by (rule loads_dumps)
  with u have "get_client_storage k user db' = Inr (JObj document)"
    by (simp add: get_client_storage_def validate_storage_key_def upsert_lookup)
  moreover have "get_client_storage k' user' db' = get_client_storage k' user' db"
    if "(k', user_sub user') \<noteq> (k, user_sub user)" for k' user'
    using that u by (auto simp: get_client_storage_def upsert_lookup split: sum.split)
  ultimately show ?thesis by blast
qed

text \<open>
  The document store rejects before it writes: a bad key is 400, a document of more than
  512 KiB of UTF-8 is 413, and a PUT that is not accepted leaves the database as it was.
\<close>

theorem storage_put_rejects:
  "(\<not> valid_storage_key k \<longrightarrow>
      put_client_storage rp k document user db = (Inl (HttpError 400 ''invalid storage key'' None), db)) \<and>
   (valid_storage_key k \<and> 524288 < utf8_length (dumps rp False (JObj document)) \<longrightarrow>
      put_client_storage rp k document user db = (Inl (HttpError 413 ''document too large'' None), db)) \<and>
   (\<forall>e db'. put_client_storage rp k document user db = (Inl e, db') \<longrightarrow> db' = db)"
  by (auto simp: put_client_storage_def validate_storage_key_def client_storage_max_bytes_def Let_def
      split: sum.splits if_splits)

definition empty_db :: router_db where
  "empty_db = \<lparr>users = [], refresh_tokens = [], whep_sessions = [], client_storage = []\<rparr>"

lemma sample_text: "utf8_length (dumps (\<lambda>_. []) False (JObj [(''n'', JInt 2)])) = 8"
  by code_simp

lemma sample_key: "valid_storage_key ''pets''"
  by code_simp

theorem storage_put_get_witness:
  "\<exists>db'. put_client_storage (\<lambda>_. []) ''pets'' [(''n'', JInt 2)] [(''sub'', JStr ''ann'')] empty_db = (Inr (), db') \<and>
     get_client_storage ''pets'' [(''sub'', JStr ''ann'')] db' = Inr (JObj [(''n'', JInt 2)])"
proof -
  let ?db = "upsert_storage ''ann'' ''pets'' (dumps (\<lambda>_. []) False (JObj [(''n'', JInt 2)])) empty_db"
  have put: "put_client_storage (\<lambda>_. []) ''pets'' [(''n'', JInt 2)] [(''sub'', JStr ''ann'')] empty_db = (Inr (), ?db)"
    by (simp add: put_client_storage_def validate_storage_key_def sample_key
        client_storage_max_bytes_def user_sub_def sample_text Let_def del: dumps.simps)
  have plain: "plain_json (JObj [(''n'', JInt 2)])" by simp
  show ?thesis using put storage_put_get[OF put plain] by blast
qed

theorem storage_put_rejects_witness:
  "put_client_storage (\<lambda>_. []) ''Bad Key'' [] [] empty_db = (Inl (HttpError 400 ''invalid storage key'' None), empty_db)"
proof -
  have "\<not> valid_storage_key ''Bad Key''" by code_simp
  then show ?thesis
    using storage_put_rejects[of "''Bad Key''" "\<lambda>_. []" "[]" "[]" empty_db] by blast
qed

end
