(* ===== verification/Router_Sessions.thy ===== *)
theory Router_Sessions
  imports Router_Storage
begin

text \<open>
  The session handlers of \<open>router/main.py\<close>: the WHEP registry, login, refresh, logout,
  password change, WHEP setup and teardown, and runs of them over one account database.
  A handler that closes WHEP sessions returns the list of session paths it sends an HTTP
  DELETE for; the answers to those requests are only logged. A handler is one step here;
  the interleavings the code leaves open are in \<open>Router_Races\<close>.
\<close>

section \<open>WHEP registry\<close>

definition register_whep_session :: "string \<Rightarrow> string \<Rightarrow> int \<Rightarrow> router_db \<Rightarrow> router_db" where
  "register_whep_session username path now db =
     db\<lparr>whep_sessions := delete_where (\<lambda>w. session_path w = path) (whep_sessions db) @
       [\<lparr>session_path = path, whep_username = username, whep_created = now\<rparr>]\<rparr>"

definition unregister_whep_session :: "string \<Rightarrow> string \<Rightarrow> router_db \<Rightarrow> router_db" where
  "unregister_whep_session username path db =
     db\<lparr>whep_sessions :=
       delete_where (\<lambda>w. session_path w = path \<and> whep_username w = username) (whep_sessions db)\<rparr>"

definition terminate_whep_sessions :: "string \<Rightarrow> router_db \<Rightarrow> string list \<times> router_db" where
  "terminate_whep_sessions username db =
     (map session_path (filter (\<lambda>w. whep_username w = username) (whep_sessions db)),
      db\<lparr>whep_sessions := delete_where (\<lambda>w. whep_username w = username) (whep_sessions db)\<rparr>)"

definition register_whep_and_recheck ::
  "string \<Rightarrow> json \<Rightarrow> string \<Rightarrow> int \<Rightarrow> router_db \<Rightarrow> string list \<times> router_db" where
  "register_whep_and_recheck username epoch path now db =
     (let db1 = register_whep_session username path now db in
      if claim_eq epoch (get_epoch username db1) then ([], db1)
      else terminate_whep_sessions username db1)"

section \<open>Handlers\<close>

record token_out =
  to_token :: string
  to_expires_in :: int
  to_must_change :: bool
  to_refresh :: "string option"
  to_refresh_expires :: "int option"

definition login ::
  "auth_env \<Rightarrow> clock \<Rightarrow> string \<Rightarrow> string \<Rightarrow> string \<Rightarrow> bool \<Rightarrow> router_db \<Rightarrow>
     (http_error + token_out) \<times> router_db \<times> string list" where
  "login env tm fresh username password remember_me db =
     (case authenticate env tm fresh username password remember_me db of
        (Inl e, db1) \<Rightarrow> (Inl e, db1, [])
      | (Inr None, db1) \<Rightarrow> (Inl (HttpError 401 ''invalid credentials'' None), db1, [])
      | (Inr (Some r), db1) \<Rightarrow>
          (case terminate_whep_sessions username db1 of
             (ended, db2) \<Rightarrow>
               (Inr \<lparr>to_token = lr_token r, to_expires_in = jwt_expiry env,
                  to_must_change = lr_must_change r, to_refresh = lr_refresh r,
                  to_refresh_expires = (case lr_refresh r of
                     Some t \<Rightarrow> if t = [] then None else Some (refresh_expiry env) | None \<Rightarrow> None)\<rparr>,
                db2, ended)))"

definition refresh ::
  "auth_env \<Rightarrow> clock \<Rightarrow> string \<Rightarrow> string \<Rightarrow> router_db \<Rightarrow> (http_error + token_out) \<times> router_db" where
  "refresh env tm fresh token db =
     (case rotate_refresh_token env tm fresh token db of
        (None, db1) \<Rightarrow> (Inl internal_error, db1)
      | (Some None, db1) \<Rightarrow> (Inl (HttpError 401 ''invalid or expired refresh token'' None), db1)
      | (Some (Some (username, new_token)), db1) \<Rightarrow>
          (Inr \<lparr>to_token = create_token env (tm 3) (tm 4) username
                  (case get_epoch username db1 of Some e \<Rightarrow> e | None \<Rightarrow> 0),
                to_expires_in = jwt_expiry env, to_must_change = False,
                to_refresh = Some new_token, to_refresh_expires = Some (refresh_expiry env)\<rparr>, db1))"

text \<open>The account a logout identifies; an empty name counts as none.\<close>

definition logout_user ::
  "auth_env \<Rightarrow> seconds \<Rightarrow> string \<Rightarrow> string option \<Rightarrow> router_db \<Rightarrow> string option \<times> router_db" where
  "logout_user env now auth_header refresh_token db =
     (let (by_refresh, db1) =
            (case refresh_token of
               Some t \<Rightarrow> if t = [] then (None, db) else revoke_refresh_token env t db
             | None \<Rightarrow> (None, db))
      in case by_refresh of
           Some u \<Rightarrow> if u = [] then (None, db1) else (Some u, db1)
         | None \<Rightarrow>
             (case bearer_token auth_header of
                None \<Rightarrow> (None, db1)
              | Some t \<Rightarrow>
                  (case verify_token env now t of
                     None \<Rightarrow> (None, db1)
                   | Some claims \<Rightarrow>
                       if claims \<noteq> [] \<and> epoch_current claims db1 \<and> claim_sub claims \<noteq> []
                       then (Some (claim_sub claims), db1) else (None, db1))))"

definition logout ::
  "auth_env \<Rightarrow> seconds \<Rightarrow> string \<Rightarrow> string option \<Rightarrow> router_db \<Rightarrow> router_db \<times> string list" where
  "logout env now auth_header refresh_token db =
     (case logout_user env now auth_header refresh_token db of
        (None, db1) \<Rightarrow> (db1, [])
      | (Some u, db1) \<Rightarrow>
          (case terminate_whep_sessions u (bump_epoch u db1) of (ended, db2) \<Rightarrow> (db2, ended)))"

definition api_change_password ::
  "auth_env \<Rightarrow> seconds \<Rightarrow> string \<Rightarrow> string \<Rightarrow> string option \<Rightarrow> string \<Rightarrow> string \<Rightarrow> router_db \<Rightarrow>
     (http_error + unit) \<times> router_db \<times> string list" where
  "api_change_password env now new_salt auth_header query current_password new_password db =
     (case require_auth env now auth_header query db of
        Inl e \<Rightarrow> (Inl e, db, [])
      | Inr user \<Rightarrow>
          (case user_sub user of
             Inl e \<Rightarrow> (Inl e, db, [])
           | Inr username \<Rightarrow>
               (case change_password env new_salt username current_password new_password db of
                  (False, db1) \<Rightarrow> (Inl (HttpError 400 ''current password is incorrect'' None), db1, [])
                | (True, db1) \<Rightarrow>
                    (case terminate_whep_sessions username db1 of (ended, db2) \<Rightarrow> (Inr (), db2, ended)))))"

text \<open>
  \<open>whep_open\<close>: \<open>answer\<close> is the relayed MediaMTX answer, its status and Location header.
  The token is checked once, before the relay; \<open>user["epoch"]\<close> of a token without that
  claim is a KeyError.
\<close>

definition whep_open ::
  "auth_env \<Rightarrow> clock \<Rightarrow> string \<Rightarrow> string option \<Rightarrow> nat \<times> string option \<Rightarrow> router_db \<Rightarrow>
     (http_error + nat) \<times> router_db \<times> string list" where
  "whep_open env tm auth_header query answer db =
     (case require_auth env (tm 0) auth_header query db of
        Inl e \<Rightarrow> (Inl e, db, [])
      | Inr user \<Rightarrow>
          (case answer of
             (status, Some location) \<Rightarrow>
               if status = 201 \<and> location \<noteq> [] then
                 (case (user_sub user, map_of user ''epoch'') of
                    (Inr u, Some epoch) \<Rightarrow>
                      (case register_whep_and_recheck u epoch location (py_int_of_float (tm 1)) db of
                         (ended, db1) \<Rightarrow> (Inr status, db1, ended))
                  | _ \<Rightarrow> (Inl internal_error, db, []))
               else (Inr status, db, [])
           | (status, None) \<Rightarrow> (Inr status, db, [])))"

definition whep_close ::
  "auth_env \<Rightarrow> seconds \<Rightarrow> string \<Rightarrow> string option \<Rightarrow> string \<Rightarrow> router_db \<Rightarrow> http_error option \<times> router_db" where
  "whep_close env now auth_header query session db =
     (case require_auth env now auth_header query db of
        Inl e \<Rightarrow> (Some e, db)
      | Inr user \<Rightarrow>
          (case user_sub user of
             Inl e \<Rightarrow> (Some e, db)
           | Inr u \<Rightarrow> (None, unregister_whep_session u (''/live/whep/'' @ session) db)))"

text \<open>\<open>PUT /client/storage/{key}\<close> behind its authentication.\<close>

definition api_put_storage ::
  "auth_env \<Rightarrow> (real \<Rightarrow> string) \<Rightarrow> seconds \<Rightarrow> string \<Rightarrow> string option \<Rightarrow> string \<Rightarrow> dict \<Rightarrow> router_db \<Rightarrow>
     (http_error + unit) \<times> router_db" where
  "api_put_storage env rp now auth_header query k document db =
     (case require_auth env now auth_header query db of
        Inl e \<Rightarrow> (Inl e, db)
      | Inr user \<Rightarrow> put_client_storage rp k document user db)"

section \<open>Runs\<close>

datatype request =
    Login string string bool
  | Refresh string
  | Logout string "string option"
  | ChangePassword string "string option" string string
  | WhepOpen string "string option" "nat \<times> string option"
  | WhepClose string "string option" string
  | PutStorage string "string option" string dict

text \<open>
  One request with what its handler reads from outside: the clock and the random string
  (refresh token or salt) it draws. \<open>serve\<close> is the database the handler leaves.
\<close>

record call =
  cl_clock :: clock
  cl_fresh :: string
  cl_request :: request

definition serve :: "auth_env \<Rightarrow> (real \<Rightarrow> string) \<Rightarrow> call \<Rightarrow> router_db \<Rightarrow> router_db" where
  "serve env rp c db =
     (let tm = cl_clock c; fresh = cl_fresh c in
      case cl_request c of
        Login u p m \<Rightarrow> fst (snd (login env tm fresh u p m db))
      | Refresh t \<Rightarrow> snd (refresh env tm fresh t db)
      | Logout h t \<Rightarrow> fst (logout env (tm 0) h t db)
      | ChangePassword h q cur new \<Rightarrow> fst (snd (api_change_password env (tm 0) fresh h q cur new db))
      | WhepOpen h q answer \<Rightarrow> fst (snd (whep_open env tm h q answer db))
      | WhepClose h q session \<Rightarrow> snd (whep_close env (tm 0) h q session db)
      | PutStorage h q k document \<Rightarrow> snd (api_put_storage env rp (tm 0) h q k document db))"

section \<open>What the building blocks change\<close>

lemma whep_frame [frame_simps]:
  "users (register_whep_session u p now db) = users db"
  "users (unregister_whep_session u p db) = users db"
  "users (snd (terminate_whep_sessions u db)) = users db"
  "users (snd (register_whep_and_recheck u e p now db)) = users db"
  "refresh_tokens (register_whep_session u p now db) = refresh_tokens db"
  "refresh_tokens (unregister_whep_session u p db) = refresh_tokens db"
  "refresh_tokens (snd (terminate_whep_sessions u db)) = refresh_tokens db"
  "refresh_tokens (snd (register_whep_and_recheck u e p now db)) = refresh_tokens db"
  "client_storage (register_whep_session u p now db) = client_storage db"
  "client_storage (unregister_whep_session u p db) = client_storage db"
  "client_storage (snd (terminate_whep_sessions u db)) = client_storage db"
  "client_storage (snd (register_whep_and_recheck u e p now db)) = client_storage db"
  by (simp_all add: register_whep_session_def unregister_whep_session_def terminate_whep_sessions_def
      register_whep_and_recheck_def Let_def)

lemma issue_users: "issue_refresh_token env u now fresh db = Some db' \<Longrightarrow> users db' = users db"
  by (auto dest: issue_Some)

lemma get_epoch_frames [row_simps]:
  "get_epoch v (purge_expired t db) = get_epoch v db"
  "get_epoch v (snd (revoke_all_refresh_tokens u db)) = get_epoch v db"
  "get_epoch v (snd (revoke_refresh_token env token db)) = get_epoch v db"
  "get_epoch v (register_whep_session u p now db) = get_epoch v db"
  "get_epoch v (unregister_whep_session u p db) = get_epoch v db"
  "get_epoch v (snd (terminate_whep_sessions u db)) = get_epoch v db"
  "get_epoch v (snd (register_whep_and_recheck u e p now db)) = get_epoch v db"
  "get_epoch v (upsert_storage u k d db) = get_epoch v db"
  by (rule get_epoch_users; simp add: frame_simps)+

lemma get_epoch_limiter [row_simps]:
  "get_epoch v (db\<lparr>users := update_where p (set_lock n until) (users db)\<rparr>) = get_epoch v db"
  "get_epoch v (db\<lparr>users := update_where p (set_failures n) (users db)\<rparr>) = get_epoch v db"
  "get_epoch v (db\<lparr>users := update_where p (set_password h slt) (users db)\<rparr>) = get_epoch v db"
  by (rule epoch_update_where; simp add: set_lock_def set_failures_def set_password_def)+

lemma get_epoch_record_failure [row_simps]:
  "get_epoch v (snd (record_failure u now db)) = get_epoch v db"
  by (simp add: record_failure_def Let_def row_simps split: option.split)

lemma get_epoch_issue: "issue_refresh_token env u now fresh db = Some db' \<Longrightarrow> get_epoch v db' = get_epoch v db"
  by (rule get_epoch_users) (rule issue_users)

lemma replace_session_ok:
  assumes "replace_session env tm fresh u row rem db = (Inr (Some r), db')"
  defines "swept \<equiv> bump_epoch u (snd (revoke_all_refresh_tokens u db))"
  shows "lr_token r = create_token env (tm 3) (tm 4) u (case get_epoch u swept of Some e \<Rightarrow> e | None \<Rightarrow> 0)"
    and "lr_refresh r = (if rem then Some fresh else None)"
    and "if rem then issue_refresh_token env u (tm 5) fresh swept = Some db' else db' = swept"
proof -
  have def: "replace_session env tm fresh u row rem db =
     (let token = create_token env (tm 3) (tm 4) u (case get_epoch u swept of Some e \<Rightarrow> e | None \<Rightarrow> 0)
      in if rem then
           (case issue_refresh_token env u (tm 5) fresh swept of
              None \<Rightarrow> (Inl internal_error, swept)
            | Some db2 \<Rightarrow> (Inr (Some \<lparr>lr_token = token, lr_must_change = \<not> password_changed row,
                lr_refresh = Some fresh\<rparr>), db2))
         else (Inr (Some \<lparr>lr_token = token, lr_must_change = \<not> password_changed row,
                lr_refresh = None\<rparr>), swept))"
    by (simp only: replace_session_def swept_def Let_def)
  have "lr_token r = create_token env (tm 3) (tm 4) u (case get_epoch u swept of Some e \<Rightarrow> e | None \<Rightarrow> 0) \<and>
    lr_refresh r = (if rem then Some fresh else None) \<and>
    (if rem then issue_refresh_token env u (tm 5) fresh swept = Some db' else db' = swept)"
    using assms(1) unfolding def
    by (cases rem; cases "issue_refresh_token env u (tm 5) fresh swept") auto
  then show "lr_token r = create_token env (tm 3) (tm 4) u (case get_epoch u swept of Some e \<Rightarrow> e | None \<Rightarrow> 0)"
    and "lr_refresh r = (if rem then Some fresh else None)"
    and "if rem then issue_refresh_token env u (tm 5) fresh swept = Some db' else db' = swept"
    by simp_all
qed

lemma revoke_all_live:
  assumes "r \<in> set (refresh_tokens (snd (revoke_all_refresh_tokens u db)))" "rt_username r = u"
  shows "revoked r"
proof -
  have "(\<exists>x. r = set_revoked x) \<or> \<not> live_of u r"
    using assms(1) by (simp add: revoke_all_refresh_tokens_def set_update_where image_iff) blast
  then show ?thesis using assms(2) by (auto simp: live_of_def set_revoked_def)
qed

lemma replaced_tokens:
  assumes "replace_session env tm fresh u row rem db = (Inr (Some r), db')"
    and "t \<in> set (refresh_tokens db')" "rt_username t = u" "\<not> revoked t"
  shows "rem \<and> token_hash t = hash_refresh env fresh"
proof -
  note ok = replace_session_ok[OF assms(1)]
  let ?swept = "bump_epoch u (snd (revoke_all_refresh_tokens u db))"
  have none: "t \<notin> set (refresh_tokens ?swept)"
    using assms(3,4) revoke_all_live[of t u db] by (auto simp: frame_simps)
  show ?thesis
  proof (cases rem)
    case True
    then have "refresh_tokens db' = refresh_tokens ?swept @
       [\<lparr>token_hash = hash_refresh env fresh, rt_username = u,
         expires_at = py_int_of_float (tm 5) + refresh_expiry env, revoked = False\<rparr>]"
      using ok(3) issue_Some[of env u "tm 5" fresh ?swept db'] by simp
    with assms(2) none True show ?thesis by auto
  next
    case False
    with ok(3) assms(2) none show ?thesis by simp
  qed
qed

lemma replaced_epoch:
  assumes "replace_session env tm fresh u row rem db = (Inr (Some r), db')"
  shows "get_epoch v db' = get_epoch v (bump_epoch u db)"
proof -
  note ok = replace_session_ok[OF assms(1)]
  let ?swept = "bump_epoch u (snd (revoke_all_refresh_tokens u db))"
  have "get_epoch v db' = get_epoch v ?swept"
    using ok(3) by (cases rem) (simp_all add: get_epoch_issue)
  then show ?thesis by (simp add: get_epoch_bump get_epoch_frames)
qed

lemma authenticate_ok:
  assumes "authenticate env tm fresh u p rem db = (Inr (Some r), db')"
  obtains row where "find_user u db = Some row" "check_lockout row (tm 1) \<le> 0"
    "verify_password env p (salt row) (password_hash row)"
    "replace_session env tm fresh u row rem
       ((purge_expired (tm 0) db)\<lparr>users := update_where (\<lambda>x. user_name x = u) (set_lock 0 0) (users db)\<rparr>)
       = (Inr (Some r), db')"
  using assms unfolding authenticate_def Let_def
  by (auto simp: users_frame split: if_splits option.split_asm prod.split_asm)

lemma terminate_facts:
  "w \<in> set (whep_sessions (snd (terminate_whep_sessions u db))) \<longleftrightarrow> w \<in> set (whep_sessions db) \<and> whep_username w \<noteq> u"
  "w \<in> set (whep_sessions db) \<Longrightarrow> whep_username w = u \<Longrightarrow> session_path w \<in> set (fst (terminate_whep_sessions u db))"
  by (auto simp: terminate_whep_sessions_def)

lemma replaced_whep:
  assumes "replace_session env tm fresh u row rem db = (Inr (Some r), db')"
  shows "whep_sessions db' = whep_sessions db"
proof -
  let ?swept = "bump_epoch u (snd (revoke_all_refresh_tokens u db))"
  have "whep_sessions ?swept = whep_sessions db"
    by (simp add: frame_simps) (simp add: revoke_all_refresh_tokens_def)
  then show ?thesis
    using replace_session_ok(3)[OF assms] issue_Some[of env u "tm 5" fresh ?swept db'] by (cases rem) auto
qed

section \<open>Tokens and the epoch\<close>

text \<open>The Authorization header a client sends with its token.\<close>

definition bearer :: "string \<Rightarrow> string" where
  "bearer t = ''Bearer '' @ t"

lemma bearer_prefix [simp]: "bearer_token (bearer t) = Some t"
  by (simp add: bearer_token_def bearer_def starts_with_def)

lemma create_token_not_empty [simp]: "create_token env t0 t1 u e \<noteq> []"
  by (simp add: create_token_def Let_def)

lemma epoch_current_claims [simp]:
  "epoch_current (jwt_claims u i x e) db \<longleftrightarrow> get_epoch u db = Some e"
  by (cases "get_epoch u db") (auto simp: epoch_current_def claim_sub_def jwt_claims_def)

text \<open>What \<open>require_auth\<close> answers to a minted token, whatever the database holds.\<close>

lemma require_auth_minted:
  "require_auth env now (bearer (create_token env t0 t1 u e)) q db =
     (if of_int (py_int_of_float t1 + jwt_expiry env) < now
      then Inl (HttpError 401 ''invalid or expired token'' None)
      else if get_epoch u db = Some e
      then Inr (jwt_claims u (py_int_of_float t0) (py_int_of_float t1 + jwt_expiry env) e)
      else Inl (HttpError 401 ''token revoked'' None))"
  by (simp add: require_auth_def verify_create check_jwt_claims)

lemma epoch_current_changes:
  assumes "epoch_current claims db" "get_epoch (claim_sub claims) db = Some e"
    "get_epoch (claim_sub claims) db' = Some e'" "e < e'"
  shows "\<not> epoch_current claims db'"
  using assms
  by (cases "case map_of claims ''epoch'' of Some v \<Rightarrow> v | None \<Rightarrow> JInt (-1)") (auto simp: epoch_current_def)

lemma require_auth_revoked:
  assumes "require_auth env now h q db = Inr claims" "\<not> epoch_current claims db'"
  shows "require_auth env now h q db' = Inl (HttpError 401 ''token revoked'' None)"
  using assms by (auto simp: require_auth_def Let_def split: option.splits if_splits)

lemma login_ok:
  assumes "login env tm fresh u p rem db = (Inr out, db', ended)"
  obtains row r db1 where "find_user u db = Some row" "check_lockout row (tm 1) \<le> 0"
    "verify_password env p (salt row) (password_hash row)"
    "replace_session env tm fresh u row rem
       ((purge_expired (tm 0) db)\<lparr>users := update_where (\<lambda>x. user_name x = u) (set_lock 0 0) (users db)\<rparr>)
       = (Inr (Some r), db1)"
    "to_token out = lr_token r" "to_refresh out = lr_refresh r"
    "db' = snd (terminate_whep_sessions u db1)" "ended = fst (terminate_whep_sessions u db1)"
proof -
  obtain r db1 where auth: "authenticate env tm fresh u p rem db = (Inr (Some r), db1)"
    and out: "to_token out = lr_token r" "to_refresh out = lr_refresh r"
      "db' = snd (terminate_whep_sessions u db1)" "ended = fst (terminate_whep_sessions u db1)"
    using assms unfolding login_def
    by (auto split: prod.splits sum.splits option.splits)
  from auth show thesis by (rule authenticate_ok) (erule (3) that[OF _ _ _ _ out])
qed

section \<open>Login replaces the session\<close>

lemma login_epoch:
  assumes "login env tm fresh u p rem db = (Inr out, db', ended)"
  shows "\<exists>e. get_epoch u db = Some e \<and> get_epoch u db' = Some (e + 1)"
    and "\<exists>e. get_epoch u db' = Some e \<and> to_token out = create_token env (tm 3) (tm 4) u e"
proof -
  obtain row r db1 where row: "find_user u db = Some row"
    and rep: "replace_session env tm fresh u row rem
       ((purge_expired (tm 0) db)\<lparr>users := update_where (\<lambda>x. user_name x = u) (set_lock 0 0) (users db)\<rparr>)
       = (Inr (Some r), db1)"
    and out: "to_token out = lr_token r" "db' = snd (terminate_whep_sessions u db1)"
    using assms by (rule login_ok)
  let ?db0 = "(purge_expired (tm 0) db)\<lparr>users := update_where (\<lambda>x. user_name x = u) (set_lock 0 0) (users db)\<rparr>"
  have e0: "get_epoch v ?db0 = get_epoch v db" for v
    using get_epoch_limiter(1)[where v = v and db = "purge_expired (tm 0) db" and p = "\<lambda>x. user_name x = u"
        and n = 0 and until = 0]
    by (simp add: users_frame get_epoch_frames)
  have e: "get_epoch u db = Some (token_epoch row)" using row by (simp add: get_epoch_def)
  have e1: "get_epoch u db' = Some (token_epoch row + 1)"
    using replaced_epoch[OF rep, of u] e by (simp add: out get_epoch_frames get_epoch_bump e0)
  with e show "\<exists>e. get_epoch u db = Some e \<and> get_epoch u db' = Some (e + 1)" by blast
  have "get_epoch u (bump_epoch u (snd (revoke_all_refresh_tokens u ?db0))) = Some (token_epoch row + 1)"
    using e by (simp add: get_epoch_bump get_epoch_frames e0)
  then show "\<exists>e. get_epoch u db' = Some e \<and> to_token out = create_token env (tm 3) (tm 4) u e"
    using e1 out(1) replace_session_ok(1)[OF rep] by simp
qed

text \<open>
  One login per account: a successful login revokes everything the account had before.
  Every access token the router accepted for it is answered "token revoked", every refresh
  token left alive for it is the one just issued (and only when remember_me asked for it),
  no WHEP session of it stays registered and every registered one younger than a day is
  closed; and the new access token is accepted until it expires.
\<close>

theorem login_replaces_session:
  assumes ok: "login env tm fresh u p rem db = (Inr out, db', ended)"
  shows "(\<forall>now h q claims. require_auth env now h q db = Inr claims \<and> claim_sub claims = u \<longrightarrow>
            require_auth env now h q db' = Inl (HttpError 401 ''token revoked'' None)) \<and>
    (\<forall>t\<in>set (refresh_tokens db'). rt_username t = u \<and> \<not> revoked t \<longrightarrow>
            rem \<and> token_hash t = hash_refresh env fresh) \<and>
    (\<forall>w\<in>set (whep_sessions db'). whep_username w \<noteq> u) \<and>
    (\<forall>w\<in>set (whep_sessions db). whep_username w = u \<and>
        py_int_of_float (tm 0) - whep_session_max_age \<le> whep_created w \<longrightarrow> session_path w \<in> set ended) \<and>
    (\<forall>now q. now \<le> of_int (py_int_of_float (tm 4) + jwt_expiry env) \<longrightarrow>
        (\<exists>claims. require_auth env now (bearer (to_token out)) q db' = Inr claims \<and> claim_sub claims = u))"
proof (intro conjI)
  obtain row r db1 where rep: "replace_session env tm fresh u row rem
       ((purge_expired (tm 0) db)\<lparr>users := update_where (\<lambda>x. user_name x = u) (set_lock 0 0) (users db)\<rparr>)
       = (Inr (Some r), db1)"
    and db': "db' = snd (terminate_whep_sessions u db1)" and ended: "ended = fst (terminate_whep_sessions u db1)"
    using ok by (rule login_ok)
  obtain e where e: "get_epoch u db = Some e" "get_epoch u db' = Some (e + 1)"
    using login_epoch(1)[OF ok] by blast
  show "\<forall>now h q claims. require_auth env now h q db = Inr claims \<and> claim_sub claims = u \<longrightarrow>
      require_auth env now h q db' = Inl (HttpError 401 ''token revoked'' None)"
  proof (intro allI impI, elim conjE)
    fix now h q claims
    assume acc: "require_auth env now h q db = Inr claims" and sub: "claim_sub claims = u"
    from acc have "epoch_current claims db"
      by (auto simp: require_auth_def Let_def split: option.splits if_splits)
    then have "\<not> epoch_current claims db'" by (rule epoch_current_changes) (use e sub in auto)
    with acc show "require_auth env now h q db' = Inl (HttpError 401 ''token revoked'' None)"
      by (rule require_auth_revoked)
  qed
  show "\<forall>t\<in>set (refresh_tokens db'). rt_username t = u \<and> \<not> revoked t \<longrightarrow>
      rem \<and> token_hash t = hash_refresh env fresh"
    using replaced_tokens[OF rep] by (simp add: db' frame_simps)
  show "\<forall>w\<in>set (whep_sessions db'). whep_username w \<noteq> u"
    by (simp add: db' terminate_facts)
  show "\<forall>w\<in>set (whep_sessions db). whep_username w = u \<and>
      py_int_of_float (tm 0) - whep_session_max_age \<le> whep_created w \<longrightarrow> session_path w \<in> set ended"
    using replaced_whep[OF rep] by (auto simp: ended purge_expired_def Let_def intro!: terminate_facts(2))
  show "\<forall>now q. now \<le> of_int (py_int_of_float (tm 4) + jwt_expiry env) \<longrightarrow>
      (\<exists>claims. require_auth env now (bearer (to_token out)) q db' = Inr claims \<and> claim_sub claims = u)"
    using login_epoch(2)[OF ok] by (auto simp: require_auth_minted claim_sub_def jwt_claims_def)
qed

section \<open>The database invariant\<close>

text \<open>
  The UNIQUE and PRIMARY KEY columns, and the login limiter's counter, which never reaches
  the threshold in the table because the failure that reaches it resets it.
\<close>

definition limiter_ok :: "user_row \<Rightarrow> bool" where
  "limiter_ok u \<longleftrightarrow> 0 \<le> failed_count u \<and> failed_count u < lockout_threshold"

definition router_inv :: "router_db \<Rightarrow> bool" where
  "router_inv db \<longleftrightarrow> unique_by user_name (users db) \<and> list_all limiter_ok (users db) \<and>
     unique_by token_hash (refresh_tokens db) \<and> unique_by session_path (whep_sessions db) \<and>
     unique_by st_id (client_storage db)"

lemma limiter_update:
  assumes "list_all limiter_ok rows" "\<And>u. limiter_ok u \<Longrightarrow> limiter_ok (f u)"
  shows "list_all limiter_ok (update_where p f rows)"
  using assms by (induction rows) (simp_all add: update_where_def)

lemma inv_users:
  assumes "router_inv db" "\<And>u. user_name (f u) = user_name u" "\<And>u. limiter_ok u \<Longrightarrow> limiter_ok (f u)"
  shows "router_inv (db\<lparr>users := update_where p f (users db)\<rparr>)"
proof -
  have "unique_by user_name (update_where p f (users db)) = unique_by user_name (users db)"
    by (rule keyed_update.unique_update) (unfold_locales, rule assms(2))
  then show ?thesis using assms(1) limiter_update[OF _ assms(3)] by (simp add: router_inv_def)
qed

lemma inv_bump: "router_inv db \<Longrightarrow> router_inv (bump_epoch u db)"
  unfolding bump_epoch_def by (rule inv_users) (simp_all add: incr_epoch_def limiter_ok_def)

lemma inv_lock: "router_inv db \<Longrightarrow> router_inv (db\<lparr>users := update_where p (set_lock 0 until) (users db)\<rparr>)"
  by (rule inv_users) (simp_all add: set_lock_def limiter_ok_def lockout_threshold_def)

lemma inv_password: "router_inv db \<Longrightarrow> router_inv (db\<lparr>users := update_where p (set_password h slt) (users db)\<rparr>)"
  by (rule inv_users) (simp_all add: set_password_def limiter_ok_def)

lemma inv_purge: "router_inv db \<Longrightarrow> router_inv (purge_expired t db)"
  by (simp add: router_inv_def purge_expired_def Let_def unique_by_delete)

lemma inv_revoke_all: "router_inv db \<Longrightarrow> router_inv (snd (revoke_all_refresh_tokens u db))"
  by (simp add: router_inv_def revoke_all_refresh_tokens_def revoke.unique_update)

lemma inv_revoke: "router_inv db \<Longrightarrow> router_inv (snd (revoke_refresh_token env t db))"
  by (simp add: router_inv_def revoke_refresh_token_def revoke.unique_update Let_def)

lemma inv_whep:
  assumes "router_inv db"
  shows "router_inv (register_whep_session u path now db)"
    and "router_inv (unregister_whep_session u path db)"
    and "router_inv (snd (terminate_whep_sessions u db))"
proof -
  have d: "unique_by session_path (delete_where p (whep_sessions db))" for p
    using assms by (simp add: router_inv_def unique_by_delete)
  have "unique_by session_path (delete_where (\<lambda>w. session_path w = path) (whep_sessions db) @
      [\<lparr>session_path = path, whep_username = u, whep_created = now\<rparr>])"
    using d[of "\<lambda>w. session_path w = path"] by (auto simp: unique_by_def)
  then show "router_inv (register_whep_session u path now db)"
    using assms by (simp add: router_inv_def register_whep_session_def)
  show "router_inv (unregister_whep_session u path db)" "router_inv (snd (terminate_whep_sessions u db))"
    using assms d by (simp_all add: router_inv_def unregister_whep_session_def terminate_whep_sessions_def)
qed

lemma inv_issue:
  assumes "router_inv db" "issue_refresh_token env u now fresh db = Some db'"
  shows "router_inv db'"
proof -
  have "hash_refresh env fresh \<notin> token_hash ` set (refresh_tokens db)"
    using issue_Some[OF assms(2)] by (auto simp: select_one_None)
  then show ?thesis
    using issue_Some[OF assms(2)] assms(1) by (simp add: router_inv_def unique_by_def)
qed

lemma inv_upsert: "router_inv db \<Longrightarrow> router_inv (upsert_storage u k d db)"
  by (simp add: router_inv_def frame_simps upsert_unique)

lemma inv_failure: "router_inv db \<Longrightarrow> router_inv (snd (record_failure u now db))"
proof (cases "find_user u db")
  case None
  then show "router_inv db \<Longrightarrow> ?thesis" by (simp add: record_failure_def)
next
  case (Some row)
  assume inv: "router_inv db"
  from Some have "row \<in> set (users db)" by (auto dest: select_one_Some)
  with inv have row: "limiter_ok row" by (auto simp: router_inv_def list_all_iff)
  show ?thesis
  proof (cases "lockout_threshold \<le> failed_count row + 1")
    case True
    then show ?thesis using Some inv_lock[OF inv] by (simp add: record_failure_def Let_def)
  next
    case False
    have "router_inv (db\<lparr>users := update_where (\<lambda>x. user_name x = u) (set_failures (failed_count row + 1)) (users db)\<rparr>)"
      using inv by (rule inv_users) (use row False in \<open>simp_all add: set_failures_def limiter_ok_def\<close>)
    then show ?thesis using Some False by (simp add: record_failure_def Let_def)
  qed
qed

section \<open>What every request keeps\<close>

text \<open>
  The contract between the building blocks and the handlers: a property of the database
  that every committed statement keeps is kept by every request. \<open>allowed\<close> restricts the
  random strings that may be drawn.
\<close>

locale account_steps =
  fixes env :: auth_env and good :: "router_db \<Rightarrow> bool" and allowed :: "string \<Rightarrow> bool"
  assumes purge: "good db \<Longrightarrow> good (purge_expired t db)"
    and bump: "good db \<Longrightarrow> good (bump_epoch u db)"
    and revoke_every: "good db \<Longrightarrow> good (snd (revoke_all_refresh_tokens u db))"
    and revoke_one: "good db \<Longrightarrow> good (snd (revoke_refresh_token env t' db))"
    and clear_lock: "good db \<Longrightarrow> good (db\<lparr>users := update_where p (set_lock 0 0) (users db)\<rparr>)"
    and new_password: "good db \<Longrightarrow> good (db\<lparr>users := update_where p (set_password h slt) (users db)\<rparr>)"
    and failure: "good db \<Longrightarrow> good (snd (record_failure u now db))"
    and issue: "good db \<Longrightarrow> allowed fresh \<Longrightarrow> issue_refresh_token env u now fresh db = Some db' \<Longrightarrow> good db'"
    and register: "good db \<Longrightarrow> good (register_whep_session u path i db)"
    and unregister: "good db \<Longrightarrow> good (unregister_whep_session u path db)"
    and terminate: "good db \<Longrightarrow> good (snd (terminate_whep_sessions u db))"
    and upsert: "good db \<Longrightarrow> good (upsert_storage u k d db)"
begin

lemma results_good:
  "record_failure u now db = (n, db') \<Longrightarrow> good db \<Longrightarrow> good db'"
  "revoke_refresh_token env t' db = (who, db') \<Longrightarrow> good db \<Longrightarrow> good db'"
  "terminate_whep_sessions u db = (ended, db') \<Longrightarrow> good db \<Longrightarrow> good db'"
  using failure[of db u now] revoke_one[of db t'] terminate[of db u] by simp_all

lemma replace_good:
  assumes "good db" "allowed fresh"
  shows "good (snd (replace_session env tm fresh u row rem db))"
  using assms by (auto simp: replace_session_def Let_def intro: bump revoke_every split: option.split dest: issue[rotated 2])

lemma authenticate_good:
  assumes "good db" "allowed fresh"
  shows "good (snd (authenticate env tm fresh u p rem db))"
  using assms
  by (auto simp: authenticate_def Let_def split: option.split prod.split
      intro: results_good(1) replace_good clear_lock purge)

lemma login_good:
  assumes "good db" "allowed fresh"
  shows "good (fst (snd (login env tm fresh u p rem db)))"
proof -
  have "good (snd (authenticate env tm fresh u p rem db))" using assms by (rule authenticate_good)
  then show ?thesis
    by (auto simp: login_def split: prod.split sum.split option.split intro: results_good(3))
qed

lemma rotate_good:
  assumes "good db" "allowed fresh"
  shows "good (snd (rotate_refresh_token env tm fresh t db))"
proof -
  let ?db1 = "purge_expired (tm 0) db"
  have 1: "good ?db1" using assms(1) by (rule purge)
  have "good (?db1\<lparr>refresh_tokens := update_where (live_hash (hash_refresh env t)) set_revoked (refresh_tokens ?db1)\<rparr>)"
    using revoke_one[OF 1, of t] by (simp add: revoke_refresh_token_def Let_def)
  then have "good db'" if "issue_refresh_token env v now fresh
      (?db1\<lparr>refresh_tokens := update_where (live_hash (hash_refresh env t)) set_revoked (refresh_tokens ?db1)\<rparr>) = Some db'"
    for v now db'
    using assms(2) that by (rule issue)
  with 1 show ?thesis by (auto simp: rotate_refresh_token_def Let_def split: option.split)
qed

lemma refresh_good:
  assumes "good db" "allowed fresh"
  shows "good (snd (refresh env tm fresh t db))"
  using rotate_good[OF assms, of tm t] by (auto simp: refresh_def split: prod.split option.split)

lemma logout_good:
  assumes "good db"
  shows "good (fst (logout env now header t db))"
proof -
  have "good (snd (logout_user env now header t db))"
    using assms
    by (auto simp: logout_user_def Let_def split: option.split prod.split intro: results_good(2))
  then show ?thesis
    by (auto simp: logout_def split: prod.split option.split intro: results_good(3)[OF _ bump])
qed

lemma change_good:
  assumes "good db"
  shows "good (fst (snd (api_change_password env now new_salt header q cur new db)))"
proof -
  have "good (snd (change_password env new_salt u cur new db))" for u
    using assms by (auto simp: change_password_def Let_def split: option.split
        intro: bump revoke_every new_password)
  then have "change_password env new_salt u cur new db = (b, db') \<Longrightarrow> good db'" for u b db'
    by (metis snd_conv)
  then show ?thesis
    using assms by (auto simp: api_change_password_def split: prod.split sum.split bool.split
        intro: results_good(3))
qed

lemma whep_good:
  assumes "good db"
  shows "good (fst (snd (whep_open env tm header q answer db)))"
    and "good (snd (whep_close env now header q session db))"
proof -
  have "good (snd (register_whep_and_recheck u e path i db))" for u e path i
    using assms by (simp add: register_whep_and_recheck_def Let_def register terminate)
  then have r: "register_whep_and_recheck u e path i db = (ended, db') \<Longrightarrow> good db'" for u e path i ended db'
    by (metis snd_conv)
  show "good (fst (snd (whep_open env tm header q answer db)))"
    using assms by (auto simp: whep_open_def split: prod.split sum.split option.split intro: r)
  show "good (snd (whep_close env now header q session db))"
    using assms by (auto simp: whep_close_def split: sum.split intro: unregister)
qed

lemma put_good:
  assumes "good db"
  shows "good (snd (api_put_storage env rp now header q k document db))"
  using assms by (auto simp: api_put_storage_def put_client_storage_def Let_def split: sum.split intro: upsert)

lemma serve_good:
  assumes "good db" "allowed (cl_fresh c)"
  shows "good (serve env rp c db)"
  using assms
  by (cases "cl_request c")
    (simp_all add: serve_def login_good refresh_good logout_good change_good whep_good put_good)

lemma run_good:
  assumes "good db" "list_all (\<lambda>c. allowed (cl_fresh c)) cs"
  shows "good (fold (serve env rp) cs db)"
  using assms by (induction cs arbitrary: db) (simp_all add: serve_good)

end

text \<open>The invariant, the growth of the epochs, and a dead refresh token are such properties.\<close>

interpretation inv: account_steps env router_inv "\<lambda>_. True" for env
  by unfold_locales (simp_all add: inv_bump inv_lock inv_password inv_purge inv_revoke_all inv_revoke
      inv_whep inv_upsert inv_failure inv_issue)

lemma epoch_le_same: "(\<And>v. get_epoch v db' = get_epoch v db) \<Longrightarrow> epoch_le start db \<Longrightarrow> epoch_le start db'"
  by (simp add: epoch_le_def)

interpretation epoch: account_steps env "epoch_le start" "\<lambda>_. True" for env start
proof unfold_locales
  show "epoch_le start db \<Longrightarrow> epoch_le start (bump_epoch u db)" for db u
    using epoch_le_bump by (rule epoch_le_trans[rotated])
  show "epoch_le start db \<Longrightarrow> issue_refresh_token env u now fresh db = Some db' \<Longrightarrow> epoch_le start db'"
    for db u now fresh db'
    by (rule epoch_le_same[OF get_epoch_issue])
qed (erule epoch_le_same[rotated]; simp add: row_simps)+

definition dead_refresh :: "string \<Rightarrow> router_db \<Rightarrow> bool" where
  "dead_refresh h db \<longleftrightarrow> (\<forall>r\<in>set (refresh_tokens db). token_hash r = h \<longrightarrow> revoked r)"

lemma dead_update: "dead_refresh h db \<Longrightarrow>
    dead_refresh h (db\<lparr>refresh_tokens := update_where p set_revoked (refresh_tokens db)\<rparr>)"
  by (auto simp: dead_refresh_def set_update_where set_revoked_def)

lemma dead_frame: "refresh_tokens db' = refresh_tokens db \<Longrightarrow> dead_refresh h db \<Longrightarrow> dead_refresh h db'"
  by (simp add: dead_refresh_def)

lemma failure_frame [frame_simps]:
  "refresh_tokens (snd (record_failure u now db)) = refresh_tokens db"
  "whep_sessions (snd (record_failure u now db)) = whep_sessions db"
  by (simp_all add: record_failure_def Let_def split: option.split)

interpretation dead: account_steps env "dead_refresh h" "\<lambda>fresh. hash_refresh env fresh \<noteq> h" for env h
proof unfold_locales
  show "dead_refresh h db \<Longrightarrow> dead_refresh h (purge_expired t db)" for db t
    by (auto simp: dead_refresh_def purge_expired_def Let_def)
  show "dead_refresh h db \<Longrightarrow> dead_refresh h (snd (revoke_all_refresh_tokens u db))" for db u
    using dead_update by (simp add: revoke_all_refresh_tokens_def)
  show "dead_refresh h db \<Longrightarrow> dead_refresh h (snd (revoke_refresh_token env t' db))" for db t'
    using dead_update by (simp add: revoke_refresh_token_def Let_def)
  show "dead_refresh h db \<Longrightarrow> hash_refresh env fresh \<noteq> h \<Longrightarrow>
      issue_refresh_token env u now fresh db = Some db' \<Longrightarrow> dead_refresh h db'" for db fresh u now db'
    by (auto simp: dead_refresh_def dest!: issue_Some)
qed (erule dead_frame[rotated]; simp add: frame_simps)+

interpretation run_epoch: moves epoch_le "serve env rp" for env rp
  by unfold_locales (auto intro: epoch_le_trans epoch.serve_good)

interpretation run_inv: keeps router_inv "serve env rp" for env rp
  by unfold_locales (simp add: inv.serve_good)


text \<open>
  C1. Revocation is for good: an access token minted under an epoch the account has left is
  refused after every later run of requests, however the account is used in between.
\<close>

theorem revoked_token_stays_revoked:
  assumes "get_epoch u db = Some n" "e < n"
  shows "\<exists>d. require_auth env now (bearer (create_token env t0 t1 u e)) q (fold (serve env rp) cs db)
    = Inl (HttpError 401 d None)"
proof -
  have "epoch_le db (fold (serve env rp) cs db)" by (rule run_epoch.run_rel)
  with assms obtain n' where "get_epoch u (fold (serve env rp) cs db) = Some n'" "n \<le> n'"
    by (auto simp: epoch_le_def)
  with assms(2) show ?thesis by (auto simp: require_auth_minted)
qed

lemma rotate_dead:
  assumes "dead_refresh (hash_refresh env t) db"
  shows "fst (rotate_refresh_token env tm fresh t db) = Some None"
proof -
  have "hash_refresh env t \<notin> token_hash ` set (refresh_tokens (purge_expired (tm 0) db))"
    using assms by (auto simp: dead_refresh_def purge_expired_def Let_def)
  then have "find_refresh (hash_refresh env t) (purge_expired (tm 0) db) = None"
    by (simp add: select_one_None)
  then show ?thesis by (simp add: rotate_refresh_token_def Let_def)
qed

lemma rotate_ok:
  assumes "rotate_refresh_token env tm fresh t db = (Some (Some (u, new)), db')"
  shows "new = fresh \<and> (\<exists>row db2. find_refresh (hash_refresh env t) (purge_expired (tm 0) db) = Some row \<and>
      u = rt_username row \<and> users db2 = users db \<and> dead_refresh (hash_refresh env t) db2 \<and>
      hash_refresh env t \<in> token_hash ` set (refresh_tokens db2) \<and>
      issue_refresh_token env u (tm 2) fresh db2 = Some db')"
proof -
  let ?h = "hash_refresh env t" and ?db1 = "purge_expired (tm 0) db"
  let ?db2 = "?db1\<lparr>refresh_tokens := update_where (live_hash ?h) set_revoked (refresh_tokens ?db1)\<rparr>"
  obtain row where row: "find_refresh ?h ?db1 = Some row" and u: "u = rt_username row" "new = fresh"
    and iss: "issue_refresh_token env (rt_username row) (tm 2) fresh ?db2 = Some db'"
    using assms by (auto simp: rotate_refresh_token_def Let_def split: option.splits if_splits)
  have dead: "dead_refresh ?h ?db2"
    by (auto simp: dead_refresh_def set_update_where live_hash_def set_revoked_def)
  have "find_refresh ?h ?db2 \<noteq> None" using row by (simp add: revoke.select_update)
  then have "?h \<in> token_hash ` set (refresh_tokens ?db2)" by (simp only: select_one_None not_not)
  then show ?thesis using row u iss dead users_frame(1)[of "tm 0" db]
    by (intro conjI exI[of _ row] exI[of _ ?db2]) simp_all
qed

text \<open>
  C10. A refresh token works once: after a successful refresh with it, every later refresh
  with it is 401, after any run of requests that does not happen to draw a random token
  with the same hash.
\<close>

theorem refresh_token_single_use:
  assumes ok: "refresh env tm fresh t db = (Inr out, db')"
    and fresh: "list_all (\<lambda>c. hash_refresh env (cl_fresh c) \<noteq> hash_refresh env t) cs"
  shows "fst (refresh env tm' fresh' t (fold (serve env rp) cs db'))
    = Inl (HttpError 401 ''invalid or expired refresh token'' None)"
proof -
  obtain u new where rot: "rotate_refresh_token env tm fresh t db = (Some (Some (u, new)), db')"
    using ok by (auto simp: refresh_def split: prod.splits option.splits)
  then obtain db2 where db2: "dead_refresh (hash_refresh env t) db2"
    "hash_refresh env t \<in> token_hash ` set (refresh_tokens db2)"
    and iss: "issue_refresh_token env u (tm 2) fresh db2 = Some db'"
    using rotate_ok by blast
  have "hash_refresh env fresh \<noteq> hash_refresh env t"
    using db2(2) issue_Some[OF iss] by (auto simp: select_one_None)
  then have "dead_refresh (hash_refresh env t) db'"
    by (rule dead.issue[OF db2(1) _ iss])
  then have "dead_refresh (hash_refresh env t) (fold (serve env rp) cs db')"
    using fresh by (rule dead.run_good)
  then have "fst (rotate_refresh_token env tm' fresh' t (fold (serve env rp) cs db')) = Some None"
    by (rule rotate_dead)
  then show ?thesis by (auto simp: refresh_def split: prod.split)
qed

section \<open>Logout and password change\<close>

lemma revoke_dead:
  "dead_refresh (hash_refresh env t) db \<Longrightarrow> fst (revoke_refresh_token env t db) = None"
  by (auto simp: revoke_refresh_token_def Let_def row_count_def dead_refresh_def live_hash_def
      filter_empty_conv split: option.split)

lemma revoke_live:
  assumes "unique_by token_hash (refresh_tokens db)" "r \<in> set (refresh_tokens db)"
    "token_hash r = hash_refresh env t" "\<not> revoked r"
  shows "fst (revoke_refresh_token env t db) = Some (rt_username r)"
proof -
  have "find_refresh (hash_refresh env t) db = Some r"
    using select_one_unique[OF assms(1,2)] assms(3) by simp
  moreover have "0 < row_count (live_hash (hash_refresh env t)) (refresh_tokens db)"
    using assms(2-4) row_count_zero[of "live_hash (hash_refresh env t)" "refresh_tokens db"]
    by (auto simp: live_hash_def)
  ultimately show ?thesis by (simp add: revoke_refresh_token_def Let_def)
qed

text \<open>
  A logout acts on the live session only. A refresh token that is not live together with
  a header whose token is missing, invalid or of an older epoch changes no epoch and ends no
  WHEP session; a live refresh token alone identifies its account, whose epoch then moves, so
  that every access token of it is refused, and whose WHEP sessions are all closed.
\<close>

theorem logout_acts_on_live_session:
  assumes inv: "router_inv db"
  shows "(dead_refresh (hash_refresh env t) db \<and>
      (bearer_token h = None \<or>
       (\<exists>a. bearer_token h = Some a \<and> (verify_token env now a = None \<or>
         (\<exists>claims. verify_token env now a = Some claims \<and> \<not> epoch_current claims db)))) \<longrightarrow>
      (\<forall>v. get_epoch v (fst (logout env now h (Some t) db)) = get_epoch v db) \<and>
      whep_sessions (fst (logout env now h (Some t) db)) = whep_sessions db \<and>
      snd (logout env now h (Some t) db) = []) \<and>
    (\<forall>r\<in>set (refresh_tokens db). t \<noteq> [] \<and> token_hash r = hash_refresh env t \<and> \<not> revoked r \<and> rt_username r \<noteq> [] \<longrightarrow>
      get_epoch (rt_username r) (fst (logout env now h (Some t) db)) =
        map_option (\<lambda>e. e + 1) (get_epoch (rt_username r) db) \<and>
      (\<forall>w\<in>set (whep_sessions (fst (logout env now h (Some t) db))). whep_username w \<noteq> rt_username r) \<and>
      (\<forall>w\<in>set (whep_sessions db). whep_username w = rt_username r \<longrightarrow>
         session_path w \<in> set (snd (logout env now h (Some t) db))))"
proof (intro conjI ballI impI)
  let ?db1 = "snd (revoke_refresh_token env t db)"
  have cur: "epoch_current c ?db1 = epoch_current c db" for c
    by (simp add: epoch_current_def get_epoch_frames)
  have whep: "whep_sessions ?db1 = whep_sessions db"
    by (simp add: revoke_refresh_token_def Let_def)
  {
    assume stale: "dead_refresh (hash_refresh env t) db \<and> (bearer_token h = None \<or>
       (\<exists>a. bearer_token h = Some a \<and> (verify_token env now a = None \<or>
         (\<exists>claims. verify_token env now a = Some claims \<and> \<not> epoch_current claims db))))"
    then have "fst (revoke_refresh_token env t db) = None" by (blast intro: revoke_dead)
    then have "logout_user env now h (Some t) db = (None, if t = [] then db else ?db1)"
      using stale cur by (cases "revoke_refresh_token env t db") (auto simp: logout_user_def)
    then have l: "logout env now h (Some t) db = (if t = [] then db else ?db1, [])"
      by (simp add: logout_def)
    show "\<forall>v. get_epoch v (fst (logout env now h (Some t) db)) = get_epoch v db"
      by (simp add: l get_epoch_frames)
    show "whep_sessions (fst (logout env now h (Some t) db)) = whep_sessions db"
      by (simp add: l whep)
    show "snd (logout env now h (Some t) db) = []" by (simp add: l)
  }
  {
    fix r
    assume r: "r \<in> set (refresh_tokens db)"
      and live: "t \<noteq> [] \<and> token_hash r = hash_refresh env t \<and> \<not> revoked r \<and> rt_username r \<noteq> []"
    have "fst (revoke_refresh_token env t db) = Some (rt_username r)"
      using inv r live by (intro revoke_live) (auto simp: router_inv_def)
    then have "logout_user env now h (Some t) db = (Some (rt_username r), ?db1)"
      using live by (cases "revoke_refresh_token env t db") (simp add: logout_user_def)
    then have l: "logout env now h (Some t) db =
        (snd (terminate_whep_sessions (rt_username r) (bump_epoch (rt_username r) ?db1)),
         fst (terminate_whep_sessions (rt_username r) (bump_epoch (rt_username r) ?db1)))"
      by (simp add: logout_def split: prod.split)
    show "get_epoch (rt_username r) (fst (logout env now h (Some t) db)) =
        map_option (\<lambda>e. e + 1) (get_epoch (rt_username r) db)"
      by (simp add: l get_epoch_frames get_epoch_bump)
    show "\<And>w. w \<in> set (whep_sessions (fst (logout env now h (Some t) db))) \<Longrightarrow> whep_username w \<noteq> rt_username r"
      by (simp add: l terminate_facts)
    show "\<And>w. w \<in> set (whep_sessions db) \<Longrightarrow> whep_username w = rt_username r \<Longrightarrow>
         session_path w \<in> set (snd (logout env now h (Some t) db))"
      by (simp add: l whep terminate_facts(2) frame_simps)
  }
qed

lemma change_ok:
  assumes "change_password env slt u cur new db = (True, db')"
  shows "\<exists>row. find_user u db = Some row \<and> verify_password env cur (salt row) (password_hash row) \<and>
    db' = bump_epoch u (snd (revoke_all_refresh_tokens u (db\<lparr>users := update_where (\<lambda>x. user_name x = u)
      (set_password (hash_password env new slt) slt) (users db)\<rparr>)))"
  using assms by (auto simp: change_password_def Let_def split: option.splits if_splits)

lemma change_refused: "change_password env slt u cur new db = (False, db') \<Longrightarrow> db' = db"
  by (auto simp: change_password_def Let_def split: option.splits if_splits)

lemma find_user_changed:
  assumes "find_user u db = Some row"
  shows "find_user u (bump_epoch u (snd (revoke_all_refresh_tokens u (db\<lparr>users :=
      update_where (\<lambda>x. user_name x = u) (set_password h slt) (users db)\<rparr>)))) =
    Some (incr_epoch (set_password h slt row))"
  using select_one_key[OF assms] assms
  by (simp add: bump_epoch_def revoke_all_refresh_tokens_def incr.select_update passwd.select_update)
    (simp add: set_password_def)


section \<open>The properties on a concrete database\<close>

definition sample_db :: router_db where
  "sample_db = \<lparr>
     users = [\<lparr>user_name = ''ann'', password_hash = ''spw'', salt = ''s'', password_changed = True,
               token_epoch = 4, failed_count = 0, locked_until = 0\<rparr>],
     refresh_tokens = [\<lparr>token_hash = ''hr1'', rt_username = ''ann'', expires_at = 5000, revoked = False\<rparr>],
     whep_sessions = [\<lparr>session_path = ''/live/whep/1'', whep_username = ''ann'', whep_created = 900\<rparr>],
     client_storage = []\<rparr>"

definition sample_clock :: clock where
  "sample_clock i = 1000"

lemma sample_hash: "hash_refresh sample_env ''r1'' = ''hr1''" "hash_refresh sample_env ''r2'' = ''hr2''"
  by (simp_all add: hash_refresh_def sample_env_def utf8_encode_def ord_def)

lemma sample_purged: "purge_expired 1000 sample_db = sample_db"
  by (simp add: purge_expired_def sample_db_def delete_where_def Let_def whep_session_max_age_def
      py_int_of_float_def)

lemma sample_login:
  "\<exists>out db' ended. login sample_env sample_clock ''r2'' ''ann'' ''pw'' True sample_db = (Inr out, db', ended)"
proof -
  have "hash_password sample_env ''pw'' ''s'' = ''spw''" by (simp add: hash_password_def sample_env_def)
  then show ?thesis
    by (simp add: login_def authenticate_def sample_clock_def sample_purged)
      (simp add: sample_db_def check_lockout_def verify_password_def replace_session_def Let_def
        issue_refresh_token_def bump_epoch_def revoke_all_refresh_tokens_def update_where_def
        sample_hash set_revoked_def set_lock_def live_of_def terminate_whep_sessions_def
        sample_clock_def)
qed

lemma sample_refresh:
  "\<exists>out db'. refresh sample_env sample_clock ''r2'' ''r1'' sample_db = (Inr out, db')"
  by (simp add: refresh_def rotate_refresh_token_def sample_clock_def sample_purged)
    (simp add: sample_db_def Let_def sample_hash row_count_def live_hash_def py_int_of_float_def
      issue_refresh_token_def update_where_def set_revoked_def sample_clock_def)

theorem login_replaces_session_witness:
  "\<exists>out db' ended. login sample_env sample_clock ''r2'' ''ann'' ''pw'' True sample_db = (Inr out, db', ended) \<and>
     (\<forall>w\<in>set (whep_sessions db'). whep_username w \<noteq> ''ann'') \<and> ''/live/whep/1'' \<in> set ended"
proof -
  obtain out db' ended where ok:
    "login sample_env sample_clock ''r2'' ''ann'' ''pw'' True sample_db = (Inr out, db', ended)"
    using sample_login by blast
  from login_replaces_session[OF ok] have "\<forall>w\<in>set (whep_sessions db'). whep_username w \<noteq> ''ann''"
    and "\<forall>w\<in>set (whep_sessions sample_db). whep_username w = ''ann'' \<and>
        py_int_of_float (sample_clock 0) - whep_session_max_age \<le> whep_created w \<longrightarrow> session_path w \<in> set ended"
    by blast+
  with ok show ?thesis
    by (simp add: sample_db_def sample_clock_def whep_session_max_age_def py_int_of_float_def)
qed


theorem revoked_token_stays_revoked_witness:
  "\<exists>d. require_auth sample_env 1001 (bearer (create_token sample_env 900 900 ''ann'' 3)) None
     (fold (serve sample_env (\<lambda>_. []))
       [\<lparr>cl_clock = sample_clock, cl_fresh = ''r2'', cl_request = Login ''ann'' ''pw'' True\<rparr>] sample_db)
     = Inl (HttpError 401 d None)"
proof (rule revoked_token_stays_revoked)
  show "get_epoch ''ann'' sample_db = Some 4" by (simp add: get_epoch_def sample_db_def)
qed simp

theorem refresh_token_single_use_witness:
  "\<exists>out db'. refresh sample_env sample_clock ''r2'' ''r1'' sample_db = (Inr out, db') \<and>
     fst (refresh sample_env sample_clock ''r3'' ''r1'' (fold (serve sample_env (\<lambda>_. []))
       [\<lparr>cl_clock = sample_clock, cl_fresh = ''r2'', cl_request = Logout ''Bearer x'' None\<rparr>] db'))
     = Inl (HttpError 401 ''invalid or expired refresh token'' None)"
proof -
  obtain out db' where ok: "refresh sample_env sample_clock ''r2'' ''r1'' sample_db = (Inr out, db')"
    using sample_refresh by blast
  have "list_all (\<lambda>c. hash_refresh sample_env (cl_fresh c) \<noteq> hash_refresh sample_env ''r1'')
      [\<lparr>cl_clock = sample_clock, cl_fresh = ''r2'', cl_request = Logout ''Bearer x'' None\<rparr>]"
    by (simp add: sample_hash)
  from refresh_token_single_use[OF ok this] ok show ?thesis by blast
qed

theorem logout_acts_on_live_session_witness:
  "get_epoch ''ann'' (fst (logout sample_env 1000 [] (Some ''r1'') sample_db)) = Some 5"
proof -
  have inv: "router_inv sample_db"
    by (simp add: router_inv_def sample_db_def unique_by_def limiter_ok_def lockout_threshold_def)
  have "\<forall>r\<in>set (refresh_tokens sample_db). ''r1'' \<noteq> [] \<and> token_hash r = hash_refresh sample_env ''r1'' \<and>
      \<not> revoked r \<and> rt_username r \<noteq> [] \<longrightarrow>
      get_epoch (rt_username r) (fst (logout sample_env 1000 [] (Some ''r1'') sample_db)) =
        map_option (\<lambda>e. e + 1) (get_epoch (rt_username r) sample_db)"
    using logout_acts_on_live_session[OF inv, where t = "''r1''" and h = "[]" and now = 1000 and env = sample_env]
    by blast
  moreover have "get_epoch ''ann'' sample_db = Some 4" by (simp add: get_epoch_def sample_db_def)
  ultimately show ?thesis
    by (simp add: sample_hash) (simp add: sample_db_def)
qed


end
