(* ===== verification/Router_Races.thy ===== *)
theory Router_Races
  imports Router_Sessions "HOL-Library.Multiset"
begin

text \<open>
  The login limiter over several attempts, and the two places where router handlers
  interleave below the level of a whole request: WHEP setup against a session replacement
  (\<open>_register_whep_and_recheck\<close> in \<open>router/main.py\<close>), and the failure counter, which
  \<open>_record_failure\<close> in \<open>router/auth.py\<close> reads and writes without a lock.
\<close>

section \<open>Consecutive failures\<close>

record attempt =
  at_clock :: clock
  at_fresh :: string
  at_password :: string
  at_remember :: bool

fun try_logins :: "auth_env \<Rightarrow> string \<Rightarrow> attempt list \<Rightarrow> router_db \<Rightarrow> (http_error + token_out) list \<times> router_db" where
  "try_logins env u [] db = ([], db)"
| "try_logins env u (a # as) db =
     (case login env (at_clock a) (at_fresh a) u (at_password a) (at_remember a) db of
        (r, db1, _) \<Rightarrow> (case try_logins env u as db1 of (rs, db2) \<Rightarrow> (r # rs, db2)))"

definition wrong_attempt :: "auth_env \<Rightarrow> user_row \<Rightarrow> attempt \<Rightarrow> bool" where
  "wrong_attempt env row a \<longleftrightarrow>
     \<not> verify_password env (at_password a) (salt row) (password_hash row) \<and>
     locked_until row \<le> at_clock a 1"

lemma wrong_attempt_count: "wrong_attempt env (row\<lparr>failed_count := n\<rparr>) = wrong_attempt env row"
  by (rule ext) (simp add: wrong_attempt_def)

lemma check_lockout_zero: "locked_until row \<le> now \<Longrightarrow> check_lockout row now = 0"
  by (simp add: check_lockout_def Let_def)

lemma login_wrong:
  assumes row: "find_user u db = Some row" and wrong: "wrong_attempt env row a"
  shows "login env (at_clock a) fresh u (at_password a) rem db =
    (if failed_count row + 1 < lockout_threshold
     then (Inl (HttpError 401 ''invalid credentials'' None),
       (purge_expired (at_clock a 0) db)\<lparr>users := update_where (\<lambda>x. user_name x = u)
         (set_failures (failed_count row + 1)) (users db)\<rparr>, [])
     else (Inl (too_many_attempts lockout_seconds),
       (purge_expired (at_clock a 0) db)\<lparr>users := update_where (\<lambda>x. user_name x = u)
         (set_lock 0 (at_clock a 2 + of_int lockout_seconds)) (users db)\<rparr>, []))"
proof -
  have lock: "check_lockout row (at_clock a 1) = 0"
    using wrong by (simp add: wrong_attempt_def check_lockout_zero)
  have pw: "\<not> verify_password env (at_password a) (salt row) (password_hash row)"
    using wrong by (simp add: wrong_attempt_def)
  have fail: "record_failure u (at_clock a 2) (purge_expired (at_clock a 0) db) =
      (if failed_count row + 1 < lockout_threshold
       then (0, (purge_expired (at_clock a 0) db)\<lparr>users := update_where (\<lambda>x. user_name x = u)
         (set_failures (failed_count row + 1)) (users db)\<rparr>)
       else (lockout_seconds, (purge_expired (at_clock a 0) db)\<lparr>users := update_where (\<lambda>x. user_name x = u)
         (set_lock 0 (at_clock a 2 + of_int lockout_seconds)) (users db)\<rparr>))"
    using row by (simp add: record_failure_def users_frame Let_def not_le)
  show ?thesis
    using row lock pw
    by (simp add: login_def authenticate_def users_frame Let_def fail lockout_seconds_def)
qed

lemma failures_count:
  assumes "find_user u db = Some row" "list_all (wrong_attempt env row) as"
    and "0 \<le> failed_count row" "failed_count row + int (length as) < lockout_threshold"
  shows "fst (try_logins env u as db) =
      replicate (length as) (Inl (HttpError 401 ''invalid credentials'' None)) \<and>
    find_user u (snd (try_logins env u as db)) =
      Some (row\<lparr>failed_count := failed_count row + int (length as)\<rparr>)"
  using assms
proof (induction as arbitrary: db row)
  case Nil
  then show ?case by simp
next
  case (Cons a as)
  let ?row = "row\<lparr>failed_count := failed_count row + 1\<rparr>"
  let ?db = "(purge_expired (at_clock a 0) db)\<lparr>users := update_where (\<lambda>x. user_name x = u)
       (set_failures (failed_count row + 1)) (users db)\<rparr>"
  have wrong: "wrong_attempt env row a" using Cons.prems(2) by simp
  have login: "login env (at_clock a) (at_fresh a) u (at_password a) (at_remember a) db =
      (Inl (HttpError 401 ''invalid credentials'' None), ?db, [])"
    using Cons.prems(4) by (simp add: login_wrong[OF Cons.prems(1) wrong])
  have found: "find_user u ?db = Some ?row"
    using Cons.prems(1) select_one_key[OF Cons.prems(1)]
    by (simp add: failures.select_update) (simp add: set_failures_def)
  have "list_all (wrong_attempt env ?row) as"
    using Cons.prems(2) by (simp add: wrong_attempt_count)
  from Cons.IH[OF found this] Cons.prems(3,4) login show ?case
    by (cases "try_logins env u as ?db") (simp add: add.assoc)
qed

lemma try_logins_append:
  "try_logins env u (as @ bs) db =
     (fst (try_logins env u as db) @ fst (try_logins env u bs (snd (try_logins env u as db))),
      snd (try_logins env u bs (snd (try_logins env u as db))))"
  by (induction as arbitrary: db) (simp_all split: prod.split)

text \<open>
  The tenth consecutive failure locks the account (FR-007): from a clean counter, nine
  wrong passwords are answered 401 and the tenth 429 with a Retry-After of 1800 seconds, and
  the account row is then locked for 1800 seconds from the tenth attempt.
\<close>

theorem tenth_failure_locks:
  assumes row: "find_user u db = Some row" and clean: "failed_count row = 0"
    and nine: "length as = 9" and wrong: "list_all (wrong_attempt env row) (as @ [a])"
  shows "fst (try_logins env u (as @ [a]) db) =
      replicate 9 (Inl (HttpError 401 ''invalid credentials'' None)) @
      [Inl (HttpError 429 ''too many attempts, retry after 1800s'' (Some ''1800''))] \<and>
    find_user u (snd (try_logins env u (as @ [a]) db)) =
      Some (row\<lparr>failed_count := 0, locked_until := at_clock a 2 + 1800\<rparr>)"
proof -
  let ?db = "snd (try_logins env u as db)" and ?row = "row\<lparr>failed_count := 9\<rparr>"
  have first: "fst (try_logins env u as db) = replicate 9 (Inl (HttpError 401 ''invalid credentials'' None))"
    and found: "find_user u ?db = Some ?row"
    using failures_count[OF row, of env as] clean nine wrong by (simp_all add: lockout_threshold_def)
  have "wrong_attempt env ?row a" using wrong by (simp add: wrong_attempt_def)
  from login_wrong[OF found this, of "at_fresh a" "at_remember a"]
  have login: "login env (at_clock a) (at_fresh a) u (at_password a) (at_remember a) ?db =
      (Inl (too_many_attempts lockout_seconds),
       (purge_expired (at_clock a 0) ?db)\<lparr>users := update_where (\<lambda>x. user_name x = u)
         (set_lock 0 (at_clock a 2 + of_int lockout_seconds)) (users ?db)\<rparr>, [])"
    by (simp add: lockout_threshold_def)
  have msg: "too_many_attempts lockout_seconds = HttpError 429 ''too many attempts, retry after 1800s'' (Some ''1800'')"
    by code_simp
  have "find_user u ((purge_expired (at_clock a 0) ?db)\<lparr>users := update_where (\<lambda>x. user_name x = u)
         (set_lock 0 (at_clock a 2 + of_int lockout_seconds)) (users ?db)\<rparr>) =
      Some (row\<lparr>failed_count := 0, locked_until := at_clock a 2 + 1800\<rparr>)"
    using found select_one_key[OF found]
    by (simp add: lock.select_update) (simp add: set_lock_def lockout_seconds_def)
  then show ?thesis
    by (simp add: try_logins_append first login msg)
qed

text \<open>
  A lock holds against the right password too: while the account is locked, every login
  for it is 429, the announced wait covers the remaining time by at most one extra second,
  and neither the account nor its tokens change beyond the purge of expired rows.
\<close>

theorem locked_account_refuses:
  assumes row: "find_user u db = Some row" and locked: "tm 1 < locked_until row"
  shows "\<exists>s. login env tm fresh u p rem db = (Inl (too_many_attempts s), purge_expired (tm 0) db, []) \<and>
    locked_until row - tm 1 \<le> of_int s \<and> of_int s \<le> locked_until row - tm 1 + 1"
proof -
  let ?d = "locked_until row - tm 1"
  have s: "check_lockout row (tm 1) = \<lfloor>?d\<rfloor> + 1"
    using locked by (simp add: check_lockout_def py_int_of_float_def)
  have "0 \<le> \<lfloor>?d\<rfloor>" using locked by simp
  then have pos: "0 < check_lockout row (tm 1)" unfolding s by linarith
  have "login env tm fresh u p rem db =
      (Inl (too_many_attempts (check_lockout row (tm 1))), purge_expired (tm 0) db, [])"
    using row pos by (simp add: login_def authenticate_def users_frame Let_def del: One_nat_def)
  moreover have "?d \<le> of_int (\<lfloor>?d\<rfloor> + 1)" "of_int (\<lfloor>?d\<rfloor> + 1) \<le> ?d + 1" by linarith+
  ultimately show ?thesis using s by auto
qed


section \<open>The failure counter under concurrent attempts\<close>

text \<open>
  \<open>_record_failure\<close> is a SELECT of the counter followed by an UPDATE that writes the value
  read plus one. Two requests run on two threads, each with its own connection.
\<close>

definition failure_read :: "string \<Rightarrow> router_db \<Rightarrow> int option" where
  "failure_read u db = map_option failed_count (find_user u db)"

definition failure_write :: "string \<Rightarrow> seconds \<Rightarrow> int option \<Rightarrow> router_db \<Rightarrow> router_db" where
  "failure_write u now seen db =
     (case seen of
        None \<Rightarrow> db
      | Some n \<Rightarrow>
          if lockout_threshold \<le> n + 1
          then db\<lparr>users := update_where (\<lambda>x. user_name x = u) (set_lock 0 (now + of_int lockout_seconds)) (users db)\<rparr>
          else db\<lparr>users := update_where (\<lambda>x. user_name x = u) (set_failures (n + 1)) (users db)\<rparr>)"

lemma record_failure_steps: "snd (record_failure u now db) = failure_write u now (failure_read u db) db"
  by (simp add: record_failure_def failure_write_def failure_read_def Let_def split: option.split)

lemma failure_write_found:
  assumes "find_user u db = Some row" "n + 1 < lockout_threshold"
  shows "find_user u (failure_write u now (Some n) db) = Some (row\<lparr>failed_count := n + 1\<rparr>)"
  using assms select_one_key[OF assms(1)]
  by (simp add: failure_write_def failures.select_update) (simp add: set_failures_def)

text \<open>
  The failure counter loses updates: two concurrent wrong passwords that both read the
  counter before either writes it count as one failure, while the same two one after the
  other count as two. Parallel guessing therefore gets more than ten tries before the lock.
\<close>

theorem concurrent_failures_lose_a_count:
  assumes row: "find_user u db = Some row" and below: "failed_count row + 2 < lockout_threshold"
  shows "find_user u (failure_write u t2 (failure_read u db) (failure_write u t1 (failure_read u db) db)) =
      Some (row\<lparr>failed_count := failed_count row + 1\<rparr>) \<and>
    find_user u (snd (record_failure u t2 (snd (record_failure u t1 db)))) =
      Some (row\<lparr>failed_count := failed_count row + 2\<rparr>)"
proof -
  have read: "failure_read u db = Some (failed_count row)" using row by (simp add: failure_read_def)
  have w1: "find_user u (failure_write u t1 (Some (failed_count row)) db) = Some (row\<lparr>failed_count := failed_count row + 1\<rparr>)"
    using row below by (intro failure_write_found) auto
  have "find_user u (failure_write u t2 (Some (failed_count row)) (failure_write u t1 (Some (failed_count row)) db))
      = Some (row\<lparr>failed_count := failed_count row + 1\<rparr>)"
    using failure_write_found[OF w1, of "failed_count row" t2] below by simp
  moreover have "find_user u (failure_write u t2 (Some (failed_count row + 1)) (failure_write u t1 (Some (failed_count row)) db))
      = Some (row\<lparr>failed_count := failed_count row + 2\<rparr>)"
    using failure_write_found[OF w1, of "failed_count row + 1" t2] below by simp
  moreover have "failure_read u (failure_write u t1 (Some (failed_count row)) db) = Some (failed_count row + 1)"
    using w1 by (simp add: failure_read_def)
  ultimately show ?thesis by (simp add: record_failure_steps read)
qed

section \<open>WHEP setup against a session replacement\<close>

text \<open>
  The threads of the race, cut at their database accesses: a WHEP setup that passed
  \<open>require_auth\<close> under epoch \<open>e\<close> registers its path, reads the epoch, and closes the
  account's sessions when the epoch moved; a replacement (login, logout, password change)
  bumps the epoch and then sweeps the account's sessions. \<open>race\<close> is the database, the epoch
  the setup read, and the paths closed so far.
\<close>

datatype race_action = Register | ReadEpoch | CloseIfStale | Bump | Sweep

record race =
  rc_db :: router_db
  rc_seen :: "int option"
  rc_closed :: "string list"

fun race_step :: "string \<Rightarrow> int \<Rightarrow> string \<Rightarrow> int \<Rightarrow> race_action \<Rightarrow> race \<Rightarrow> race" where
  "race_step u e path now Register r = r\<lparr>rc_db := register_whep_session u path now (rc_db r)\<rparr>"
| "race_step u e path now ReadEpoch r = r\<lparr>rc_seen := get_epoch u (rc_db r)\<rparr>"
| "race_step u e path now CloseIfStale r =
     (if rc_seen r = Some e then r
      else r\<lparr>rc_db := snd (terminate_whep_sessions u (rc_db r)),
             rc_closed := rc_closed r @ fst (terminate_whep_sessions u (rc_db r))\<rparr>)"
| "race_step u e path now Bump r = r\<lparr>rc_db := bump_epoch u (rc_db r)\<rparr>"
| "race_step u e path now Sweep r =
     r\<lparr>rc_db := snd (terminate_whep_sessions u (rc_db r)),
       rc_closed := rc_closed r @ fst (terminate_whep_sessions u (rc_db r))\<rparr>"

lemma race_without_replacement:
  "race_step u e path now CloseIfStale (race_step u e path now ReadEpoch (race_step u e path now Register
     \<lparr>rc_db = db, rc_seen = None, rc_closed = []\<rparr>)) =
   (let (ended, db') = register_whep_and_recheck u (JInt e) path now db in
      \<lparr>rc_db = db', rc_seen = get_epoch u db, rc_closed = ended\<rparr>)"
proof -
  have "claim_eq (JInt e) (get_epoch u db) \<longleftrightarrow> get_epoch u db = Some e"
    by (cases "get_epoch u db") auto
  then show ?thesis
    by (simp add: register_whep_and_recheck_def Let_def get_epoch_frames split: prod.split)
qed

lemma race_shuffles:
  assumes "tr \<in> shuffles [Register, ReadEpoch, CloseIfStale] [Bump, Sweep]"
  shows "tr \<in> set [[Register, ReadEpoch, CloseIfStale, Bump, Sweep], [Register, ReadEpoch, Bump, CloseIfStale, Sweep],
    [Register, ReadEpoch, Bump, Sweep, CloseIfStale], [Register, Bump, ReadEpoch, CloseIfStale, Sweep],
    [Register, Bump, ReadEpoch, Sweep, CloseIfStale], [Register, Bump, Sweep, ReadEpoch, CloseIfStale],
    [Bump, Register, ReadEpoch, CloseIfStale, Sweep], [Bump, Register, ReadEpoch, Sweep, CloseIfStale],
    [Bump, Register, Sweep, ReadEpoch, CloseIfStale], [Bump, Sweep, Register, ReadEpoch, CloseIfStale]]"
  using assms by (auto simp: Cons_in_shuffles_iff shuffles.simps)

text \<open>
  C20. No interleaving leaks a WHEP session (FR-047): however the setup of a session and the
  replacement of its account's session interleave, afterwards no session of the account is
  registered and the path that was set up has been closed.
\<close>

theorem whep_race_leaks_nothing:
  assumes epoch: "get_epoch u db = Some e"
    and tr: "tr \<in> shuffles [Register, ReadEpoch, CloseIfStale] [Bump, Sweep]"
  shows "let r = fold (race_step u e path now) tr \<lparr>rc_db = db, rc_seen = None, rc_closed = []\<rparr> in
    (\<forall>w\<in>set (whep_sessions (rc_db r)). whep_username w \<noteq> u) \<and> path \<in> set (rc_closed r)"
proof -
  have reg: "path \<in> set (fst (terminate_whep_sessions u (register_whep_session u path now db')))" for db'
    by (simp add: terminate_whep_sessions_def register_whep_session_def)
  have reg': "path \<in> set (fst (terminate_whep_sessions u (bump_epoch u (register_whep_session u path now db'))))" for db'
    by (simp add: terminate_whep_sessions_def register_whep_session_def frame_simps)
  show ?thesis
    using race_shuffles[OF tr] epoch
    by (auto simp: get_epoch_frames get_epoch_bump Let_def terminate_facts(1) reg reg')
qed

section \<open>A login against a password change\<close>

text \<open>
  \<open>authenticate\<close> checks the password before it takes SESSION_LOCK: the part before the lock,
  which answers refusals itself, and \<open>replace_session\<close>, the part under it. Another request can be
  served in between.
\<close>

definition check_credentials ::
  "auth_env \<Rightarrow> clock \<Rightarrow> string \<Rightarrow> string \<Rightarrow> router_db \<Rightarrow> ((http_error + login_result option) + user_row) \<times> router_db" where
  "check_credentials env tm u p db =
     (let db1 = purge_expired (tm 0) db;
          row = find_user u db1;
          remaining = (case row of Some x \<Rightarrow> check_lockout x (tm 1) | None \<Rightarrow> 0)
      in if 0 < remaining then (Inl (Inl (too_many_attempts remaining)), db1)
         else case (case row of Some x \<Rightarrow>
                      if verify_password env p (salt x) (password_hash x) then Some x else None
                    | None \<Rightarrow> None) of
             None \<Rightarrow>
               (case record_failure u (tm 2) db1 of
                  (locked_for, db2) \<Rightarrow>
                    (Inl (if locked_for \<noteq> 0 then Inl (too_many_attempts locked_for) else Inr None), db2))
           | Some x \<Rightarrow>
               (Inr x, db1\<lparr>users := update_where (\<lambda>x. user_name x = u) (set_lock 0 0) (users db1)\<rparr>))"

lemma authenticate_cut:
  "authenticate env tm fresh u p rem db =
     (case check_credentials env tm u p db of
        (Inl r, db1) \<Rightarrow> (r, db1)
      | (Inr row, db1) \<Rightarrow> replace_session env tm fresh u row rem db1)"
  by (simp add: authenticate_def check_credentials_def Let_def split: option.split prod.split)

lemma checked_row:
  assumes "check_credentials env tm u p db = (Inr row, db1)"
  shows "find_user u db = Some row" "verify_password env p (salt row) (password_hash row)"
  using assms by (auto simp: check_credentials_def Let_def users_frame split: option.splits if_splits prod.splits)

text \<open>
  A password change does not end a login that is under way: when it is served between the
  check of the old password and the section under the lock, the login gives out a session
  although the account no longer accepts the password it came with; its access token is
  accepted, and its refresh token, when it asked for one, is alive.
\<close>

theorem old_password_outlives_its_change:
  assumes chk: "check_credentials env tm u p db = (Inr row, db1)"
    and chg: "change_password env slt u cur new db1 = (True, db2)"
    and rep: "replace_session env tm fresh u row rem db2 = (Inr (Some r), db3)"
    and other: "pbkdf2_hex env p slt \<noteq> pbkdf2_hex env new slt"
    and now: "now \<le> of_int (py_int_of_float (tm 4) + jwt_expiry env)"
  shows "(\<exists>row'. find_user u db3 = Some row' \<and> \<not> verify_password env p (salt row') (password_hash row')) \<and>
    (\<exists>claims. require_auth env now (bearer (lr_token r)) q db3 = Inr claims \<and> claim_sub claims = u) \<and>
    (rem \<longrightarrow> (\<exists>t\<in>set (refresh_tokens db3). token_hash t = hash_refresh env fresh \<and> rt_username t = u \<and> \<not> revoked t))"
proof -
  obtain row1 where row1: "find_user u db1 = Some row1"
    and db2: "db2 = bump_epoch u (snd (revoke_all_refresh_tokens u (db1\<lparr>users := update_where (\<lambda>x. user_name x = u)
      (set_password (hash_password env new slt) slt) (users db1)\<rparr>)))"
    using change_ok[OF chg] by blast
  let ?row2 = "incr_epoch (set_password (hash_password env new slt) slt row1)"
  have row2: "find_user u db2 = Some ?row2" unfolding db2 by (rule find_user_changed[OF row1])
  let ?swept = "bump_epoch u (snd (revoke_all_refresh_tokens u db2))"
  note ok = replace_session_ok[OF rep]
  have users3: "users db3 = users ?swept"
    using ok(3) issue_users by (cases rem) auto
  have swept: "find_user u ?swept = Some (incr_epoch ?row2)"
    using select_one_key[OF row2] row2 by (simp add: bump_epoch_def revoke_all_refresh_tokens_def incr.select_update)
  then have row3: "find_user u db3 = Some (incr_epoch ?row2)" by (simp add: users3)
  moreover have "\<not> verify_password env p (salt (incr_epoch ?row2)) (password_hash (incr_epoch ?row2))"
    using other by (simp add: verify_password_def hash_password_def incr_epoch_def set_password_def)
  moreover have "get_epoch u db3 = get_epoch u ?swept" by (simp add: get_epoch_def users3)
  then have "\<exists>e. get_epoch u ?swept = Some e \<and> get_epoch u db3 = Some e" using swept by (simp add: get_epoch_def)
  then have "\<exists>claims. require_auth env now (bearer (lr_token r)) q db3 = Inr claims \<and> claim_sub claims = u"
    using ok(1) now by (auto simp: require_auth_minted) (simp add: claim_sub_def jwt_claims_def)
  moreover have "\<exists>t\<in>set (refresh_tokens db3). token_hash t = hash_refresh env fresh \<and> rt_username t = u \<and> \<not> revoked t" if rem
    using ok(3) that by (auto dest!: issue_Some)
  ultimately show ?thesis by blast
qed

section \<open>The properties on concrete accounts\<close>

definition wrong_guess :: attempt where
  "wrong_guess = \<lparr>at_clock = sample_clock, at_fresh = [], at_password = ''guess'', at_remember = False\<rparr>"

lemma wrong_guess: "wrong_attempt sample_env row wrong_guess"
  if "salt row = ''s''" "password_hash row = ''spw''" "locked_until row = 0" for row
  using that by (simp add: wrong_attempt_def wrong_guess_def sample_clock_def verify_password_def
      hash_password_def sample_env_def)

theorem tenth_failure_locks_witness:
  "last (fst (try_logins sample_env ''ann'' (replicate 9 wrong_guess @ [wrong_guess]) sample_db)) =
     Inl (HttpError 429 ''too many attempts, retry after 1800s'' (Some ''1800''))"
proof -
  let ?row = "hd (users sample_db)"
  have "find_user ''ann'' sample_db = Some ?row" "failed_count ?row = 0"
    by (simp_all add: sample_db_def)
  moreover have "list_all (wrong_attempt sample_env ?row) (replicate 9 wrong_guess @ [wrong_guess])"
    by (auto simp: list_all_iff intro!: wrong_guess) (simp_all add: sample_db_def)
  ultimately have "fst (try_logins sample_env ''ann'' (replicate 9 wrong_guess @ [wrong_guess]) sample_db) =
      replicate 9 (Inl (HttpError 401 ''invalid credentials'' None)) @
      [Inl (HttpError 429 ''too many attempts, retry after 1800s'' (Some ''1800''))]"
    by (intro tenth_failure_locks[THEN conjunct1]) auto
  then show ?thesis by simp
qed

theorem locked_account_refuses_witness:
  "\<exists>s. login sample_env sample_clock [] ''ann'' ''pw'' False
      (sample_db\<lparr>users := map (set_lock 0 2000) (users sample_db)\<rparr>)
    = (Inl (too_many_attempts s), purge_expired (sample_clock 0)
        (sample_db\<lparr>users := map (set_lock 0 2000) (users sample_db)\<rparr>), []) \<and> 1000 \<le> s"
proof -
  let ?db = "sample_db\<lparr>users := map (set_lock 0 2000) (users sample_db)\<rparr>" and ?row = "set_lock 0 2000 (hd (users sample_db))"
  have "find_user ''ann'' ?db = Some ?row" "sample_clock 1 < locked_until ?row"
    by (simp_all add: sample_db_def set_lock_def sample_clock_def)
  from locked_account_refuses[where tm = sample_clock, OF this, of sample_env "[]" "''pw''" False]
  show ?thesis by (auto simp: set_lock_def sample_clock_def)
qed

theorem concurrent_failures_lose_a_count_witness:
  "find_user ''ann'' (failure_write ''ann'' 7 (failure_read ''ann'' sample_db)
       (failure_write ''ann'' 6 (failure_read ''ann'' sample_db) sample_db)) =
     Some ((hd (users sample_db))\<lparr>failed_count := 1\<rparr>)"
proof -
  let ?row = "hd (users sample_db)"
  have "find_user ''ann'' sample_db = Some ?row" "failed_count ?row + 2 < lockout_threshold"
    by (simp_all add: sample_db_def lockout_threshold_def)
  from concurrent_failures_lose_a_count[OF this, of 7 6] show ?thesis by (simp add: sample_db_def)
qed

theorem whep_race_leaks_nothing_witness:
  "''/live/whep/2'' \<in> set (rc_closed (fold (race_step ''ann'' 4 ''/live/whep/2'' 950)
     [Register, Bump, ReadEpoch, Sweep, CloseIfStale] \<lparr>rc_db = sample_db, rc_seen = None, rc_closed = []\<rparr>))"
proof -
  have "get_epoch ''ann'' sample_db = Some 4" by (simp add: get_epoch_def sample_db_def)
  moreover have "[Register, Bump, ReadEpoch, Sweep, CloseIfStale] \<in> shuffles [Register, ReadEpoch, CloseIfStale] [Bump, Sweep]"
    by (simp add: Cons_in_shuffles_iff)
  ultimately show ?thesis
    using whep_race_leaks_nothing[of "''ann''" sample_db 4 _ "''/live/whep/2''" 950]
    by (simp only: Let_def)
qed

theorem old_password_outlives_its_change_witness:
  "\<exists>row db1 db2 r db3. check_credentials sample_env sample_clock ''ann'' ''pw'' sample_db = (Inr row, db1) \<and>
     change_password sample_env ''t'' ''ann'' ''pw'' ''new'' db1 = (True, db2) \<and>
     replace_session sample_env sample_clock ''r2'' ''ann'' row True db2 = (Inr (Some r), db3) \<and>
     (\<exists>t\<in>set (refresh_tokens db3). rt_username t = ''ann'' \<and> \<not> revoked t)"
proof -
  have "\<exists>row db1. check_credentials sample_env sample_clock ''ann'' ''pw'' sample_db = (Inr row, db1) \<and>
      refresh_tokens db1 = refresh_tokens sample_db \<and> find_user ''ann'' db1 = Some (hd (users sample_db))"
    by (simp add: check_credentials_def sample_clock_def sample_purged Let_def)
      (simp add: sample_db_def check_lockout_def verify_password_def hash_password_def sample_env_def Let_def
        update_where_def set_lock_def sample_clock_def)
  then obtain row db1 where chk: "check_credentials sample_env sample_clock ''ann'' ''pw'' sample_db = (Inr row, db1)"
    and db1: "refresh_tokens db1 = refresh_tokens sample_db" "find_user ''ann'' db1 = Some (hd (users sample_db))" by blast
  have "fst (change_password sample_env ''t'' ''ann'' ''pw'' ''new'' db1)"
    by (simp add: change_password_def db1(2) Let_def)
      (simp add: sample_db_def verify_password_def hash_password_def sample_env_def)
  then obtain db2 where chg: "change_password sample_env ''t'' ''ann'' ''pw'' ''new'' db1 = (True, db2)"
    by (cases "change_password sample_env ''t'' ''ann'' ''pw'' ''new'' db1") simp
  have hashes: "map token_hash (refresh_tokens db2) = [''hr1'']"
    using change_ok[OF chg] db1(1)
    by (auto simp: revoke_all_refresh_tokens_def update_where_def set_revoked_def frame_simps sample_db_def)
  have swept: "refresh_tokens (bump_epoch ''ann'' (snd (revoke_all_refresh_tokens ''ann'' db2))) =
      update_where (live_of ''ann'') set_revoked (refresh_tokens db2)"
    by (simp add: revoke_all_refresh_tokens_def frame_simps)
  have "issue_refresh_token sample_env ''ann'' (sample_clock 5) ''r2'' (bump_epoch ''ann'' (snd (revoke_all_refresh_tokens ''ann'' db2))) \<noteq> None"
    using hashes by (auto simp: issue_refresh_token_def swept select_one_None sample_hash set_update_where set_revoked_def
        split: option.split dest!: select_one_Some)
  then obtain r db3 where rep: "replace_session sample_env sample_clock ''r2'' ''ann'' row True db2 = (Inr (Some r), db3)"
    by (auto simp: replace_session_def Let_def)
  have "pbkdf2_hex sample_env ''pw'' ''t'' \<noteq> pbkdf2_hex sample_env ''new'' ''t''"
    "(1000 :: real) \<le> of_int (py_int_of_float (sample_clock 4) + jwt_expiry sample_env)"
    by (simp_all add: sample_env_def sample_clock_def py_int_of_float_def)
  from old_password_outlives_its_change[OF chk chg rep this] chk chg rep show ?thesis by blast
qed

end
