(* ===== verification/Router_Relay.thy ===== *)
theory Router_Relay
  imports Router_Sessions
begin

text \<open>
  What the router does between its clients and the other containers: \<open>router/proxy.py\<close>
  (query stripping, JSON forwarding, byte relays), the access-log mask, the fan-out of the
  streaming and analysis lifecycle and the guarded streams of \<open>router/main.py\<close>. The answer
  of an upstream is an argument.
\<close>

section \<open>Query strings\<close>

text \<open>
  \<open>urllib.parse.parse_qsl\<close> and \<open>urlencode\<close> over the UTF-8 bytes of a query, one character
  per byte; a query whose percent escapes are not valid UTF-8 is outside the model.
\<close>

definition is_unreserved :: "char \<Rightarrow> bool" where
  "is_unreserved c \<longleftrightarrow> (let n = ord c in (48 \<le> n \<and> n \<le> 57) \<or> (65 \<le> n \<and> n \<le> 90) \<or> (97 \<le> n \<and> n \<le> 122) \<or>
     n = 95 \<or> n = 46 \<or> n = 45 \<or> n = 126)"

definition upper_hex :: "nat \<Rightarrow> char" where
  "upper_hex n = (if n < 10 then chr (48 + n) else chr (55 + n))"

definition any_hex_val :: "char \<Rightarrow> nat option" where
  "any_hex_val c = (let n = ord c in
     if 48 \<le> n \<and> n \<le> 57 then Some (n - 48)
     else if 65 \<le> n \<and> n \<le> 70 then Some (n - 55)
     else if 97 \<le> n \<and> n \<le> 102 then Some (n - 87) else None)"

definition quote_char_plus :: "char \<Rightarrow> string" where
  "quote_char_plus c =
     (if is_unreserved c then [c] else if ord c = 32 then [CHR ''+'']
      else [CHR ''%'', upper_hex (ord c div 16), upper_hex (ord c mod 16)])"

definition quote_plus :: "string \<Rightarrow> string" where
  "quote_plus s = concat (map quote_char_plus s)"

fun unquote_plus :: "string \<Rightarrow> string" where
  "unquote_plus [] = []"
| "unquote_plus (c # s) =
     (if c = CHR ''+'' then CHR '' '' # unquote_plus s
      else if c = CHR ''%'' then
        (case s of
           a # b # r \<Rightarrow>
             (case (any_hex_val a, any_hex_val b) of
                (Some x, Some y) \<Rightarrow> chr (16 * x + y) # unquote_plus r
              | _ \<Rightarrow> c # unquote_plus s)
         | _ \<Rightarrow> c # unquote_plus s)
      else c # unquote_plus s)"

definition parse_field :: "string \<Rightarrow> string \<times> string" where
  "parse_field f =
     (unquote_plus (takeWhile (\<lambda>c. c \<noteq> CHR ''='') f), unquote_plus (drop 1 (dropWhile (\<lambda>c. c \<noteq> CHR ''='') f)))"

definition parse_qsl :: "string \<Rightarrow> (string \<times> string) list" where
  "parse_qsl q = map parse_field (filter (\<lambda>f. f \<noteq> []) (split_on (CHR ''&'') q))"

definition urlencode :: "(string \<times> string) list \<Rightarrow> string" where
  "urlencode kvs = join_with (CHR ''&'') (map (\<lambda>(k, v). quote_plus k @ CHR ''='' # quote_plus v) kvs)"

definition strip_token :: "string option \<Rightarrow> string option" where
  "strip_token query =
     (case query of
        None \<Rightarrow> None
      | Some q \<Rightarrow>
          if q = [] then None
          else (let s = urlencode (filter (\<lambda>kv. fst kv \<noteq> ''token'') (parse_qsl q)) in
                if s = [] then None else Some s))"

definition target_url :: "string \<Rightarrow> string \<Rightarrow> string option \<Rightarrow> string" where
  "target_url base path query =
     (case query of None \<Rightarrow> base @ path
      | Some q \<Rightarrow> if q = [] then base @ path else base @ path @ CHR ''?'' # q)"

lemma upper_hex_val: "n < 16 \<Longrightarrow> any_hex_val (upper_hex n) = Some n"
  by (auto simp: upper_hex_def any_hex_val_def Let_def)

lemma byte_rejoin: "chr (16 * (ord c div 16) + ord c mod 16) = c"
  by simp

lemma unreserved_plain: "is_unreserved c \<Longrightarrow> c \<noteq> CHR ''+'' \<and> c \<noteq> CHR ''%'' \<and> c \<noteq> CHR ''='' \<and> c \<noteq> CHR ''&''"
  by (auto simp: is_unreserved_def ord_def Let_def)

lemma unquote_quote_char: "unquote_plus (quote_char_plus c @ s) = c # unquote_plus s"
proof -
  have "ord c div 16 < 16" using ord_less[of c] by (simp add: less_mult_imp_div_less)
  then have hex: "any_hex_val (upper_hex (ord c div 16)) = Some (ord c div 16)"
    "any_hex_val (upper_hex (ord c mod 16)) = Some (ord c mod 16)"
    by (simp_all add: upper_hex_val)
  have space: "ord c = 32 \<Longrightarrow> c = CHR '' ''" using ord_inject[of c "CHR '' ''"] by (simp add: ord_def)
  show ?thesis
    using unreserved_plain[of c] hex space byte_rejoin[of c] by (auto simp: quote_char_plus_def)
qed

lemma unquote_quote [simp]: "unquote_plus (quote_plus s) = s"
  by (induction s) (simp_all add: quote_plus_def unquote_quote_char)

lemma upper_hex_plain: "n < 16 \<Longrightarrow> upper_hex n \<noteq> CHR ''='' \<and> upper_hex n \<noteq> CHR ''&''"
proof -
  assume "n < 16"
  then have "is_unreserved (upper_hex n)" by (auto simp: upper_hex_def is_unreserved_def Let_def)
  then show ?thesis using unreserved_plain by blast
qed

lemma quote_char_plain: "CHR ''='' \<notin> set (quote_char_plus c) \<and> CHR ''&'' \<notin> set (quote_char_plus c)"
proof -
  have "ord c div 16 < 16" using ord_less[of c] by (simp add: less_mult_imp_div_less)
  then show ?thesis
    using unreserved_plain[of c] upper_hex_plain[of "ord c div 16"] upper_hex_plain[of "ord c mod 16"]
    by (auto simp: quote_char_plus_def)
qed

lemma quote_plain: "CHR ''='' \<notin> set (quote_plus s)" "CHR ''&'' \<notin> set (quote_plus s)"
  using quote_char_plain by (auto simp: quote_plus_def)

lemma parse_quoted_field: "parse_field (quote_plus k @ CHR ''='' # quote_plus v) = (k, v)"
  using quote_plain(1)[of k]
  by (simp add: parse_field_def takeWhile_append dropWhile_append)

lemma parse_urlencode: "kvs \<noteq> [] \<Longrightarrow> parse_qsl (urlencode kvs) = kvs"
proof -
  let ?fs = "map (\<lambda>(k, v). quote_plus k @ CHR ''='' # quote_plus v) kvs"
  assume "kvs \<noteq> []"
  moreover have "\<forall>f\<in>set ?fs. CHR ''&'' \<notin> set f" using quote_plain(2) by auto
  ultimately have "split_on (CHR ''&'') (urlencode kvs) = ?fs"
    unfolding urlencode_def by (intro split_join) auto
  moreover have "filter (\<lambda>f. f \<noteq> []) ?fs = ?fs" by (simp add: filter_id_conv split_beta)
  moreover have "map parse_field ?fs = kvs" by (induction kvs) (auto simp: parse_quoted_field)
  ultimately show ?thesis by (simp add: parse_qsl_def)
qed

text \<open>
  The credential is dropped and nothing else is: what an upstream parses out of the
  relayed query is exactly the client's fields other than \<open>token\<close>, in order, so no token
  reaches an upstream log.
\<close>

theorem strip_token_exact:
  "(case strip_token (Some q) of None \<Rightarrow> [] | Some s \<Rightarrow> parse_qsl s) =
     filter (\<lambda>kv. fst kv \<noteq> ''token'') (parse_qsl q)"
proof (cases "filter (\<lambda>kv. fst kv \<noteq> ''token'') (parse_qsl q) = []")
  case True
  then show ?thesis by (simp add: strip_token_def urlencode_def)
next
  case False
  then have "urlencode (filter (\<lambda>kv. fst kv \<noteq> ''token'') (parse_qsl q)) \<noteq> []"
    using parse_urlencode[OF False] by (auto simp: parse_qsl_def)
  moreover have "q \<noteq> []" using False by (auto simp: parse_qsl_def)
  ultimately show ?thesis using parse_urlencode[OF False] by (simp add: strip_token_def)
qed

section \<open>JSON forwarding and byte relays\<close>

text \<open>
  What an internal request comes back with: an HTTP answer, or an exception of \<open>urlopen\<close>
  that is not an HTTP answer (refused, timed out), with its text.
\<close>

datatype upstream = Answered (up_status: nat) (up_headers: "(string \<times> string) list") (up_body: string) | Unreachable string

definition bad_gateway :: "string \<Rightarrow> http_error" where
  "bad_gateway d = HttpError 502 d None"

definition forward_json :: "upstream \<Rightarrow> http_error + nat \<times> json" where
  "forward_json up =
     (case up of
        Unreachable e \<Rightarrow> Inl (bad_gateway (''upstream error: '' @ e))
      | Answered status _ text \<Rightarrow>
          if 500 \<le> status then Inl (bad_gateway ''upstream error'')
          else Inr (status,
            if text = [] then JNull
            else case loads text of Some v \<Rightarrow> v | None \<Rightarrow> JObj [(''detail'', JStr text)]))"

definition skip_headers :: "string list" where
  "skip_headers = [''connection'', ''keep-alive'', ''transfer-encoding'', ''content-encoding'',
     ''content-length'', ''server'', ''date'']"

text \<open>Header lookup ignores case; the first match counts, and an empty value is not copied.\<close>

definition header :: "string \<Rightarrow> (string \<times> string) list \<Rightarrow> string option" where
  "header name hs = map_option snd (find (\<lambda>h. py_lower (fst h) = py_lower name) hs)"

definition relayed_headers :: "(string \<times> string) list \<Rightarrow> (string \<times> string) list" where
  "relayed_headers hs =
     concat (map (\<lambda>name. case header name hs of Some v \<Rightarrow> if v = [] then [] else [(name, v)] | None \<Rightarrow> [])
       [''Content-Type'', ''Range'', ''Accept'', ''If-Match''])"

text \<open>\<open>out_headers[name] = value\<close> for every header that is not hop-by-hop.\<close>

definition answered_headers :: "(string \<times> string) list \<Rightarrow> (string \<times> string) list" where
  "answered_headers hs =
     fold (\<lambda>h d. AList.update (fst h) (snd h) d)
       (filter (\<lambda>h. py_lower (fst h) \<notin> set skip_headers) hs) []"

record internal_request =
  ir_url :: string
  ir_method :: string
  ir_headers :: "(string \<times> string) list"
  ir_body :: "string option"

definition relay_raw ::
  "string \<Rightarrow> string \<Rightarrow> string \<Rightarrow> string option \<Rightarrow> (string \<times> string) list \<Rightarrow> string \<Rightarrow>
     (internal_request \<Rightarrow> upstream) \<Rightarrow> http_error + nat \<times> (string \<times> string) list \<times> string" where
  "relay_raw base path meth query hs body net =
     (case net \<lparr>ir_url = target_url base path (strip_token query), ir_method = meth,
                ir_headers = relayed_headers hs, ir_body = (if body = [] then None else Some body)\<rparr> of
        Unreachable e \<Rightarrow> Inl (bad_gateway (''upstream error: '' @ e))
      | Answered status headers text \<Rightarrow> Inr (status, answered_headers headers, text))"

text \<open>
  A forwarded JSON call keeps the upstream's meaning and hides its failures: an answer
  below 500 passes with its status and its parsed body, an answer from 500 on and an
  unreachable upstream become 502, and nothing else ever comes out.
\<close>

theorem forward_json_normalizes:
  "(case forward_json up of
      Inl e \<Rightarrow> http_status e = 502 \<and> (case up of Unreachable _ \<Rightarrow> True | Answered status _ _ \<Rightarrow> 500 \<le> status)
    | Inr (status, content) \<Rightarrow> status < 500 \<and> up_status up = status \<and>
        (\<exists>v. content = v \<and> (loads (up_body up) = Some v \<or> v = JNull \<or> v = JObj [(''detail'', JStr (up_body up))])))"
  by (auto simp: forward_json_def bad_gateway_def split: upstream.split option.split)

section \<open>Relayed endpoints\<close>

datatype component = Streamer | Analyzer | Recorder

text \<open>The endpoints whose handler is one \<open>forward_json\<close>, with the payload they carry.\<close>

datatype endpoint =
    GetCamera | SetCamera dict | ControlPtz dict | SetPrompt dict | SetPresets dict | SwitchVlm dict
  | StreamingStart | DeleteClips dict | DeleteAllClips | DeleteEvent int | DeleteEvents

record internal_rpc =
  ic_target :: component
  ic_method :: string
  ic_path :: string
  ic_payload :: "dict option"

fun internal_call :: "endpoint \<Rightarrow> internal_rpc" where
  "internal_call GetCamera = \<lparr>ic_target = Streamer, ic_method = ''GET'', ic_path = ''/profile'', ic_payload = None\<rparr>"
| "internal_call (SetCamera d) = \<lparr>ic_target = Streamer, ic_method = ''POST'', ic_path = ''/profile'', ic_payload = Some d\<rparr>"
| "internal_call (ControlPtz d) = \<lparr>ic_target = Streamer, ic_method = ''POST'', ic_path = ''/ptz'', ic_payload = Some d\<rparr>"
| "internal_call (SetPrompt d) = \<lparr>ic_target = Analyzer, ic_method = ''POST'', ic_path = ''/prompt'', ic_payload = Some d\<rparr>"
| "internal_call (SetPresets d) = \<lparr>ic_target = Analyzer, ic_method = ''POST'', ic_path = ''/presets'', ic_payload = Some d\<rparr>"
| "internal_call (SwitchVlm d) = \<lparr>ic_target = Analyzer, ic_method = ''POST'', ic_path = ''/vlm/switch'', ic_payload = Some d\<rparr>"
| "internal_call StreamingStart = \<lparr>ic_target = Streamer, ic_method = ''POST'', ic_path = ''/streaming/start'', ic_payload = Some []\<rparr>"
| "internal_call (DeleteClips d) = \<lparr>ic_target = Recorder, ic_method = ''DELETE'', ic_path = ''/clips'', ic_payload = Some d\<rparr>"
| "internal_call DeleteAllClips = \<lparr>ic_target = Recorder, ic_method = ''DELETE'', ic_path = ''/clips/all'', ic_payload = None\<rparr>"
| "internal_call (DeleteEvent i) = \<lparr>ic_target = Recorder, ic_method = ''DELETE'', ic_path = ''/events/'' @ int_str i, ic_payload = None\<rparr>"
| "internal_call DeleteEvents = \<lparr>ic_target = Recorder, ic_method = ''DELETE'', ic_path = ''/events'', ic_payload = None\<rparr>"

text \<open>A relayed request: its answer and the internal calls it made.\<close>

definition relayed_endpoint ::
  "auth_env \<Rightarrow> seconds \<Rightarrow> string \<Rightarrow> string option \<Rightarrow> (internal_rpc \<Rightarrow> upstream) \<Rightarrow> endpoint \<Rightarrow> router_db \<Rightarrow>
     (http_error + nat \<times> json) \<times> internal_rpc list" where
  "relayed_endpoint env now auth_header query net ep db =
     (case require_auth env now auth_header query db of
        Inl e \<Rightarrow> (Inl e, [])
      | Inr _ \<Rightarrow> (forward_json (net (internal_call ep)), [internal_call ep]))"

section \<open>Fan-out\<close>

type_synonym leg = "string \<times> component \<times> string"

text \<open>\<open>one\<close>: the outcome of a leg; a 502 from \<open>forward_json\<close> counts as status 502.\<close>

definition leg_outcome :: "(internal_rpc \<Rightarrow> upstream) \<Rightarrow> leg \<Rightarrow> string \<times> nat \<times> bool" where
  "leg_outcome net l =
     (case l of (name, target, path) \<Rightarrow>
        (case forward_json (net \<lparr>ic_target = target, ic_method = ''POST'', ic_path = path, ic_payload = Some []\<rparr>) of
           Inr (status, _) \<Rightarrow> (name, status, status < 400)
         | Inl _ \<Rightarrow> (name, 502, False)))"

definition fan_out :: "(internal_rpc \<Rightarrow> upstream) \<Rightarrow> leg list \<Rightarrow> (string \<times> nat) list \<times> string list" where
  "fan_out net targets =
     (let outcomes = map (leg_outcome net) targets in
      (fold (\<lambda>(name, status, _) d. AList.update name status d) outcomes [],
       map fst (filter (\<lambda>(name, status, good). \<not> good) outcomes)))"

fun join_comma :: "string list \<Rightarrow> string" where
  "join_comma [] = []"
| "join_comma [w] = w"
| "join_comma (w # ws) = w @ '', '' @ join_comma ws"

definition fan_out_reply :: "string \<Rightarrow> (internal_rpc \<Rightarrow> upstream) \<Rightarrow> leg list \<Rightarrow> http_error + (string \<times> nat) list" where
  "fan_out_reply verb net targets =
     (case fan_out net targets of (results, failures) \<Rightarrow>
        if failures \<noteq> [] then Inl (bad_gateway (verb @ '' not accepted by: '' @ join_comma failures))
        else Inr results)"

definition stop_streaming_legs :: "leg list" where
  "stop_streaming_legs = [(''streamer'', Streamer, ''/streaming/stop''), (''analyzer'', Analyzer, ''/stop''),
     (''recorder'', Recorder, ''/buffer/stop'')]"

definition start_analysis_legs :: "leg list" where
  "start_analysis_legs = [(''analyzer'', Analyzer, ''/start''), (''recorder'', Recorder, ''/buffer/start'')]"

definition stop_analysis_legs :: "leg list" where
  "stop_analysis_legs = [(''analyzer'', Analyzer, ''/stop''), (''recorder'', Recorder, ''/buffer/stop'')]"

definition streaming_stop :: "(internal_rpc \<Rightarrow> upstream) \<Rightarrow> http_error + (string \<times> nat) list" where
  "streaming_stop net = fan_out_reply ''stop'' net stop_streaming_legs"

definition analysis_stop :: "(internal_rpc \<Rightarrow> upstream) \<Rightarrow> http_error + (string \<times> nat) list" where
  "analysis_stop net = fan_out_reply ''stop'' net stop_analysis_legs"

text \<open>
  \<open>_streaming_active\<close>: \<open>urlopen\<close> raises on 4xx and 5xx, a body that is not JSON raises,
  a JSON value without \<open>get\<close> raises; each is \<open>None\<close>.
\<close>

definition streaming_active :: "upstream \<Rightarrow> bool option" where
  "streaming_active up =
     (case up of
        Unreachable _ \<Rightarrow> None
      | Answered status _ text \<Rightarrow>
          if 400 \<le> status then None
          else (case loads text of Some (JObj d) \<Rightarrow> Some (truthy (get_null d ''streaming_active'')) | _ \<Rightarrow> None))"

text \<open>\<open>analysis_start\<close>, with the list of legs it delivered to.\<close>

definition analysis_start ::
  "upstream \<Rightarrow> (internal_rpc \<Rightarrow> upstream) \<Rightarrow> (http_error + (string \<times> nat) list) \<times> leg list" where
  "analysis_start streamer_status net =
     (case streaming_active streamer_status of
        None \<Rightarrow> (Inl (bad_gateway ''cannot verify streaming state''), [])
      | Some False \<Rightarrow> (Inl (HttpError 409 ''live streaming is not active'' None), [])
      | Some True \<Rightarrow> (fan_out_reply ''start'' net start_analysis_legs, start_analysis_legs))"

definition leg_call :: "leg \<Rightarrow> internal_rpc" where
  "leg_call l = \<lparr>ic_target = fst (snd l), ic_method = ''POST'', ic_path = snd (snd l), ic_payload = Some []\<rparr>"

definition accepted :: "upstream \<Rightarrow> bool" where
  "accepted up \<longleftrightarrow> (case up of Answered status _ _ \<Rightarrow> status < 400 | Unreachable _ \<Rightarrow> False)"

definition reported_status :: "upstream \<Rightarrow> nat" where
  "reported_status up = (case up of Answered status _ _ \<Rightarrow> if 500 \<le> status then 502 else status | Unreachable _ \<Rightarrow> 502)"

lemma leg_outcome_eq: "leg_outcome net l = (fst l, reported_status (net (leg_call l)), accepted (net (leg_call l)))"
  by (cases l; cases "net (leg_call l)")
    (auto simp: leg_outcome_def forward_json_def leg_call_def accepted_def reported_status_def)

lemma fold_results:
  "distinct (map fst os) \<Longrightarrow> map_of (fold (\<lambda>(name, status, _) d. AList.update name status d) os d) n =
     (case map_of (map (\<lambda>(name, status, _). (name, status)) os) n of Some s \<Rightarrow> Some s | None \<Rightarrow> map_of d n)"
proof (induction os arbitrary: d)
  case (Cons x os)
  obtain m st g where x: "x = (m, st, g)" by (cases x)
  have "map_of (map (\<lambda>(name, status, _). (name, status)) os) m = None"
    using Cons.prems x by (force simp: map_of_eq_None_iff)
  with Cons x show ?case by (auto simp: update_conv' split: option.split)
qed simp

lemma fan_out_failures: "snd (fan_out net ls) = map fst (filter (\<lambda>l. \<not> accepted (net (leg_call l))) ls)"
  by (simp add: fan_out_def Let_def leg_outcome_eq filter_map comp_def)

text \<open>
  A fan-out succeeds only as a whole: it is answered with success exactly when every
  leg accepted, and then reports each leg's own status; otherwise the answer is 502 and names
  exactly the legs that were unreachable or answered an error, in order.
\<close>

theorem fan_out_all_or_nothing:
  assumes names: "distinct (map fst ls)"
  shows "fan_out_reply verb net ls =
      (if \<forall>l\<in>set ls. accepted (net (leg_call l)) then Inr (fst (fan_out net ls))
       else Inl (HttpError 502 (verb @ '' not accepted by: '' @
              join_comma (map fst (filter (\<lambda>l. \<not> accepted (net (leg_call l))) ls))) None)) \<and>
    (\<forall>l\<in>set ls. map_of (fst (fan_out net ls)) (fst l) = Some (reported_status (net (leg_call l))))"
proof (intro conjI ballI)
  have fails: "snd (fan_out net ls) \<noteq> [] \<longleftrightarrow> \<not> (\<forall>l\<in>set ls. accepted (net (leg_call l)))"
    by (auto simp: fan_out_failures filter_empty_conv)
  show "fan_out_reply verb net ls =
      (if \<forall>l\<in>set ls. accepted (net (leg_call l)) then Inr (fst (fan_out net ls))
       else Inl (HttpError 502 (verb @ '' not accepted by: '' @
              join_comma (map fst (filter (\<lambda>l. \<not> accepted (net (leg_call l))) ls))) None))"
    using fails fan_out_failures[of net ls]
    by (cases "fan_out net ls") (auto simp: fan_out_reply_def bad_gateway_def)
next
  fix l assume l: "l \<in> set ls"
  have d: "distinct (map fst (map (leg_outcome net) ls))"
    using names by (simp add: leg_outcome_eq comp_def)
  have m: "map ((\<lambda>(name, status, _). (name, status)) \<circ> leg_outcome net) ls =
      map (\<lambda>l. (fst l, reported_status (net (leg_call l)))) ls"
    by (simp add: leg_outcome_eq)
  have "map_of (map (\<lambda>l. (fst l, reported_status (net (leg_call l)))) ls) (fst l) =
      Some (reported_status (net (leg_call l)))"
    using names l by (intro map_of_is_SomeI) (auto simp: comp_def)
  then show "map_of (fst (fan_out net ls)) (fst l) = Some (reported_status (net (leg_call l)))"
    using fold_results[OF d, of "[]"] by (simp add: fan_out_def Let_def m)
qed

text \<open>
  Analysis starts only on a live stream (FR-050): no start request is sent unless the
  streamer answered that streaming is active; an unreachable or failing streamer is 502 and
  an inactive one 409; and success means that analyzer and recorder both accepted.
\<close>

theorem analysis_start_needs_stream:
  "(streaming_active st \<noteq> Some True \<longrightarrow> snd (analysis_start st net) = []) \<and>
   (case fst (analysis_start st net) of
      Inl e \<Rightarrow> (http_status e = 409 \<and> streaming_active st = Some False) \<or> http_status e = 502
    | Inr _ \<Rightarrow> streaming_active st = Some True \<and>
        accepted (net \<lparr>ic_target = Analyzer, ic_method = ''POST'', ic_path = ''/start'', ic_payload = Some []\<rparr>) \<and>
        accepted (net \<lparr>ic_target = Recorder, ic_method = ''POST'', ic_path = ''/buffer/start'', ic_payload = Some []\<rparr>))"
proof (cases "streaming_active st")
  case None
  then show ?thesis by (simp add: analysis_start_def bad_gateway_def)
next
  case (Some b)
  show ?thesis
  proof (cases b)
    case True
    then show ?thesis
      using Some fan_out_failures[of net start_analysis_legs]
      by (cases "fan_out net start_analysis_legs")
        (auto simp: analysis_start_def fan_out_reply_def bad_gateway_def start_analysis_legs_def leg_call_def
          split: if_splits)
  next
    case False
    then show ?thesis using Some by (simp add: analysis_start_def)
  qed
qed

text \<open>
  No request reaches an internal component without an accepted token: a relayed request
  that \<open>require_auth\<close> refuses is answered 401 and makes no internal call; an accepted one
  makes exactly the call its endpoint stands for.
\<close>

theorem relayed_only_when_authenticated:
  "(case require_auth env now h q db of
      Inl e \<Rightarrow> http_status e = 401 \<and> relayed_endpoint env now h q net ep db = (Inl e, [])
    | Inr _ \<Rightarrow> relayed_endpoint env now h q net ep db =
        (forward_json (net (internal_call ep)), [internal_call ep]))"
  by (auto simp: relayed_endpoint_def require_auth_def Let_def split: option.splits)

section \<open>Guarded streams\<close>

text \<open>
  \<open>_epoch_guarded\<close> and the loop of \<open>relay_stream\<close>: a chunk arrives at monotonic time
  \<open>now\<close>; when the last check is an interval old the stop condition is evaluated and, when it
  holds, the stream ends before the chunk. The first list holds the chunks still to come, each
  with its arrival time and the value of the condition at that moment.
\<close>

fun guarded :: "seconds \<Rightarrow> seconds \<Rightarrow> (seconds \<times> bool \<times> 'c) list \<Rightarrow> (seconds \<times> 'c) list" where
  "guarded interval last_check [] = []"
| "guarded interval last_check ((now, stop, c) # rest) =
     (if interval \<le> now - last_check then
        (if stop then [] else (now, c) # guarded interval now rest)
      else (now, c) # guarded interval last_check rest)"

lemma guarded_before:
  assumes "\<forall>(now, stop, c)\<in>set chunks. since \<le> now \<longrightarrow> stop" "last_check \<le> since"
    and "(now, c) \<in> set (guarded interval last_check chunks)" "0 \<le> interval"
  shows "now < since + interval"
  using assms
proof (induction interval last_check chunks rule: guarded.induct)
  case (2 interval last_check t stop d rest)
  show ?case
  proof (cases "interval \<le> t - last_check")
    case True
    show ?thesis
    proof (cases "since \<le> t")
      case True
      then show ?thesis using 2 \<open>interval \<le> t - last_check\<close> by simp
    next
      case False
      then have "(now, c) = (t, d) \<or> (now, c) \<in> set (guarded interval t rest)"
        using 2 True by (auto split: if_splits)
      then show ?thesis using 2 True False by (auto split: if_splits)
    qed
  next
    case False
    then show ?thesis using 2 by auto
  qed
qed simp

text \<open>
  A replaced session's stream ends within one check interval (FR-047): when the stop
  condition holds from some moment on, no chunk that arrives an interval or more after that
  moment is relayed.
\<close>

theorem guarded_stream_stops:
  assumes "\<forall>(now, stop, c)\<in>set chunks. revoked_at \<le> now \<longrightarrow> stop" "opened \<le> revoked_at"
    and "(now, c) \<in> set (guarded 2 opened chunks)"
  shows "now < revoked_at + 2"
  using guarded_before[OF assms] by simp

section \<open>Access log\<close>

text \<open>
  \<open>_TOKEN_QUERY_RE.sub\<close> on one argument: \<open>token=\<close> and the run of characters other than
  \<open>&\<close>, a double quote and white space behind it become \<open>token=***\<close>.
\<close>

definition token_char :: "char \<Rightarrow> bool" where
  "token_char c \<longleftrightarrow> c \<noteq> CHR ''&'' \<and> \<not> is_space c \<and> ord c \<noteq> 34"

function mask_tokens :: "string \<Rightarrow> string" where
  "mask_tokens [] = []"
| "mask_tokens (c # s) =
     (if starts_with ''token='' (c # s) \<and> takeWhile token_char (drop 5 s) \<noteq> []
      then ''token=***'' @ mask_tokens (dropWhile token_char (drop 5 s))
      else c # mask_tokens s)"
  by pat_completeness auto
termination
  by (relation "measure length")
    (auto intro: le_less_trans[OF length_dropWhile_le] simp: less_Suc_eq_le intro!: le_trans[OF length_dropWhile_le])

text \<open>A text leaks when \<open>token=\<close> is followed by a value that does not start with the mask.\<close>

fun leaks_token :: "string \<Rightarrow> bool" where
  "leaks_token [] = False"
| "leaks_token (c # s) \<longleftrightarrow>
     (starts_with ''token='' (c # s) \<and> takeWhile token_char (drop 5 s) \<noteq> [] \<and> \<not> starts_with ''***'' (drop 5 s))
     \<or> leaks_token s"

lemma mask_head: "d # r = mask_tokens s \<Longrightarrow> d \<noteq> CHR ''t'' \<Longrightarrow> \<exists>s'. s = d # s' \<and> r = mask_tokens s'"
  by (cases s) (auto split: if_splits)

lemma mask_tail:
  assumes "starts_with ''oken='' (mask_tokens s)"
  shows "\<exists>s'. s = ''oken='' @ s' \<and> mask_tokens s = ''oken='' @ mask_tokens s'"
proof -
  obtain r where r: "''oken='' @ r = mask_tokens s"
    using assms by (auto simp: starts_with_prefix prefix_def)
  obtain s1 where 1: "s = CHR ''o'' # s1" "''ken='' @ r = mask_tokens s1" using mask_head[of _ _ s] r by auto
  obtain s2 where 2: "s1 = CHR ''k'' # s2" "''en='' @ r = mask_tokens s2" using mask_head[of _ _ s1] 1(2) by auto
  obtain s3 where 3: "s2 = CHR ''e'' # s3" "''n='' @ r = mask_tokens s3" using mask_head[of _ _ s2] 2(2) by auto
  obtain s4 where 4: "s3 = CHR ''n'' # s4" "''='' @ r = mask_tokens s4" using mask_head[of _ _ s3] 3(2) by auto
  obtain s5 where 5: "s4 = CHR ''='' # s5" "r = mask_tokens s5" using mask_head[of _ _ s4] 4(2) by auto
  show ?thesis using 1(1) 2(1) 3(1) 4(1) 5 r[symmetric] by simp
qed

lemma mask_stop: "takeWhile token_char s = [] \<Longrightarrow> takeWhile token_char (mask_tokens s) = []"
proof (cases s)
  case (Cons c r)
  have "token_char (CHR ''t'')" by (simp add: token_char_def is_space_def ord_def)
  moreover assume "takeWhile token_char s = []"
  ultimately have "c \<noteq> CHR ''t''" "\<not> token_char c" using Cons by (auto split: if_splits)
  then show ?thesis using Cons by (auto simp: starts_with_def)
qed simp

lemma mask_no_leak: "\<not> leaks_token (mask_tokens s)"
proof (induction s rule: mask_tokens.induct)
  case (2 c s)
  show ?case
  proof (cases "starts_with ''token='' (c # s) \<and> takeWhile token_char (drop 5 s) \<noteq> []")
    case True
    then have "\<not> leaks_token (mask_tokens (dropWhile token_char (drop 5 s)))" using 2 by blast
    with True show ?thesis by (simp add: starts_with_def)
  next
    case False
    then have IH: "\<not> leaks_token (mask_tokens s)" using 2 by blast
    have "takeWhile token_char (drop 5 (mask_tokens s)) = []" if "starts_with ''token='' (c # mask_tokens s)"
    proof -
      from that have c: "c = CHR ''t''" and "starts_with ''oken='' (mask_tokens s)"
        by (simp_all add: starts_with_def)
      then obtain s' where s': "s = ''oken='' @ s'" "mask_tokens s = ''oken='' @ mask_tokens s'"
        using mask_tail by blast
      then have "takeWhile token_char s' = []" using False c by (simp add: starts_with_def)
      then show ?thesis using s'(2) mask_stop by simp
    qed
    then show ?thesis using False IH by auto
  qed
qed simp

lemma mask_id: "\<not> contains ''token='' s \<Longrightarrow> mask_tokens s = s"
  by (induction s rule: mask_tokens.induct) auto

text \<open>
  The access log carries no live token: after masking, no \<open>token=\<close> is followed by a
  value other than the mask, and a log argument without \<open>token=\<close> is left as it was.
\<close>

theorem access_log_masks_tokens:
  "\<not> leaks_token (mask_tokens arg) \<and> (\<not> contains ''token='' arg \<longrightarrow> mask_tokens arg = arg)"
  using mask_no_leak mask_id by blast

theorem access_log_masks_tokens_witness:
  "mask_tokens ''/health'' = ''/health'' \<and> leaks_token ''/stream?token=abc''"
proof -
  have "\<not> contains ''token='' ''/health''" by (simp add: starts_with_def)
  then show ?thesis
    using access_log_masks_tokens[of "''/health''"]
    by (simp add: starts_with_def token_char_def is_space_def ord_def)
qed

theorem fan_out_all_or_nothing_witness:
  "fan_out_reply ''stop'' (\<lambda>c. if ic_target c = Analyzer then Unreachable ''refused'' else Answered 200 [] [])
      stop_analysis_legs = Inl (HttpError 502 ''stop not accepted by: analyzer'' None)"
proof -
  have "distinct (map fst stop_analysis_legs)" by (simp add: stop_analysis_legs_def)
  from fan_out_all_or_nothing[OF this, of "''stop''"
      "\<lambda>c. if ic_target c = Analyzer then Unreachable ''refused'' else Answered 200 [] []"]
  show ?thesis by (simp add: stop_analysis_legs_def leg_call_def accepted_def)
qed

theorem analysis_start_needs_stream_witness:
  "snd (analysis_start (Unreachable ''timed out'') (\<lambda>_. Answered 200 [] [])) = []"
  using analysis_start_needs_stream[of "Unreachable ''timed out''" "\<lambda>_. Answered 200 [] []"]
  by (simp add: streaming_active_def)

theorem guarded_stream_stops_witness:
  "(4 :: real) < 3 + 2"
proof (rule guarded_stream_stops)
  show "\<forall>(now, stop, c)\<in>set [(1 :: real, False, ''a''), (4, True, ''b''), (6, True, ''c'')]. 3 \<le> now \<longrightarrow> stop" by simp
  show "(4, ''b'') \<in> set (guarded 2 3 [(1 :: real, False, ''a''), (4, True, ''b''), (6, True, ''c'')])" by simp
qed simp

end
