(* ===== verification/Router_Streams.thy ===== *)
theory Router_Streams
  imports Router_Sessions Router_Relay
begin

text \<open>
  What is left of \<open>router/main.py\<close> around the account and relay handlers: the two live streams
  (\<open>GET /state\<close>, \<open>GET /stream\<close>) that must end when their session is replaced, the read-only
  relays (clips, history, HLS, WHEP patch), the origins the CORS middleware is told to allow,
  and the signing secret made at the first start (\<open>router/auth.py\<close>).
\<close>

section \<open>Live streams\<close>

text \<open>
  While a stream is open, account requests change the database and chunks arrive: one
  sequence of events. \<open>watched\<close> reads, at each chunk, whether the stop condition holds.
\<close>

datatype 'c stream_event = Served call | Chunk seconds 'c

primrec watched ::
  "auth_env \<Rightarrow> (real \<Rightarrow> string) \<Rightarrow> (router_db \<Rightarrow> bool) \<Rightarrow> 'c stream_event list \<Rightarrow> router_db \<Rightarrow> (seconds \<times> bool \<times> 'c) list" where
  "watched env rp stop [] db = []"
| "watched env rp stop (e # es) db =
     (case e of
        Served c \<Rightarrow> watched env rp stop es (serve env rp c db)
      | Chunk t x \<Rightarrow> (t, stop db, x) # watched env rp stop es db)"

text \<open>The comparison \<open>_current_epoch(username) != epoch\<close> of a stream that opened with these claims.\<close>

definition current_epoch :: "string \<Rightarrow> router_db \<Rightarrow> int option" where
  "current_epoch username db = get_epoch username db"

definition session_over :: "string \<Rightarrow> json \<Rightarrow> router_db \<Rightarrow> bool" where
  "session_over username epoch db \<longleftrightarrow> \<not> claim_eq epoch (current_epoch username db)"

definition epoch_guarded ::
  "auth_env \<Rightarrow> (real \<Rightarrow> string) \<Rightarrow> string \<Rightarrow> json \<Rightarrow> seconds \<Rightarrow> 'c stream_event list \<Rightarrow> router_db \<Rightarrow> (seconds \<times> 'c) list" where
  "epoch_guarded env rp username epoch opened es db =
     guarded 2 opened (watched env rp (session_over username epoch) es db)"

definition stream_session :: "dict \<Rightarrow> http_error + string \<times> json" where
  "stream_session user =
     (case (user_sub user, map_of user ''epoch'') of
        (Inl e, _) \<Rightarrow> Inl e
      | (Inr u, None) \<Rightarrow> Inl internal_error
      | (Inr u, Some epoch) \<Rightarrow> Inr (u, epoch))"

definition state_stream ::
  "auth_env \<Rightarrow> (real \<Rightarrow> string) \<Rightarrow> seconds \<Rightarrow> string \<Rightarrow> string option \<Rightarrow> seconds \<Rightarrow> 'c stream_event list \<Rightarrow> router_db \<Rightarrow>
     http_error + (seconds \<times> 'c) list" where
  "state_stream env rp now h q opened es db =
     (case require_auth env now h q db of
        Inl e \<Rightarrow> Inl e
      | Inr user \<Rightarrow>
          (case stream_session user of
             Inl e \<Rightarrow> Inl e
           | Inr (u, epoch) \<Rightarrow> Inr (epoch_guarded env rp u epoch opened es db)))"

text \<open>\<open>relay_stream\<close>: opening the upstream fails with its status, or 502 when it cannot be reached.\<close>

definition open_upstream :: "upstream \<Rightarrow> http_error + unit" where
  "open_upstream up =
     (case up of
        Unreachable e \<Rightarrow> Inl (bad_gateway (''upstream error: '' @ e))
      | Answered status _ _ \<Rightarrow>
          if 200 \<le> status \<and> status < 300 then Inr () else Inl (HttpError status ''upstream rejected the request'' None))"

definition frame_stream ::
  "auth_env \<Rightarrow> (real \<Rightarrow> string) \<Rightarrow> seconds \<Rightarrow> string \<Rightarrow> string option \<Rightarrow> upstream \<Rightarrow> seconds \<Rightarrow> 'c stream_event list \<Rightarrow>
     router_db \<Rightarrow> http_error + (seconds \<times> 'c) list" where
  "frame_stream env rp now h q up opened es db =
     (case require_auth env now h q db of
        Inl e \<Rightarrow> Inl e
      | Inr user \<Rightarrow>
          (case stream_session user of
             Inl e \<Rightarrow> Inl e
           | Inr (u, epoch) \<Rightarrow>
               (case open_upstream up of
                  Inl e \<Rightarrow> Inl e
                | Inr _ \<Rightarrow> Inr (guarded 2 opened (watched env rp (session_over u epoch) es db)))))"

lemma frame_stream_state:
  "frame_stream env rp now h q up opened es db = Inr relayed \<Longrightarrow> state_stream env rp now h q opened es db = Inr relayed"
  by (auto simp: frame_stream_def state_stream_def epoch_guarded_def split: sum.splits)

section \<open>A replaced session's streams end\<close>

primrec db_after :: "auth_env \<Rightarrow> (real \<Rightarrow> string) \<Rightarrow> 'c stream_event list \<Rightarrow> router_db \<Rightarrow> router_db" where
  "db_after env rp [] db = db"
| "db_after env rp (e # es) db = db_after env rp es (case e of Served c \<Rightarrow> serve env rp c db | Chunk _ _ \<Rightarrow> db)"

lemma serve_epoch_le: "epoch_le db (serve env rp c db)"
  using run_epoch.run_rel[of db env rp "[c]"] by simp

lemma db_after_le: "epoch_le db (db_after env rp es db)"
proof (induction es arbitrary: db)
  case (Cons e es)
  show ?case
  proof (cases e)
    case (Served c)
    then show ?thesis using epoch_le_trans[OF serve_epoch_le[of db env rp c] Cons[of "serve env rp c db"]] by simp
  qed (simp add: Cons)
qed simp

lemma watched_append: "watched env rp stop (xs @ ys) db = watched env rp stop xs db @ watched env rp stop ys (db_after env rp xs db)"
  by (induction xs arbitrary: db) (simp_all split: stream_event.split)

lemma watched_times: "(t, b, x) \<in> set (watched env rp stop es db) \<Longrightarrow> Chunk t x \<in> set es"
  by (induction es arbitrary: db) (auto split: stream_event.splits)

lemma watched_stop:
  "(\<And>db'. epoch_le db db' \<Longrightarrow> stop db') \<Longrightarrow> (t, b, x) \<in> set (watched env rp stop es db) \<Longrightarrow> b"
proof (induction es arbitrary: db)
  case (Cons e es)
  show ?case
  proof (cases e)
    case (Served c)
    have "b" if "(t, b, x) \<in> set (watched env rp stop es (serve env rp c db))"
      using Cons.IH[OF _ that] Cons.prems(1) epoch_le_trans[OF serve_epoch_le] by blast
    then show ?thesis using Cons.prems(2) Served by simp
  next
    case (Chunk u y)
    then show ?thesis using Cons.prems Cons.IH[OF Cons.prems(1)] by auto
  qed
qed simp

lemma claim_eq_inj: "claim_eq v a \<Longrightarrow> claim_eq v b \<Longrightarrow> a = b"
  by (cases "(v, a)" rule: claim_eq.cases; cases "(v, b)" rule: claim_eq.cases) auto

lemma epoch_moved:
  assumes "epoch_le db1 db2" "epoch_le db2 db3" "epoch_le db3 db4" "get_epoch u db3 \<noteq> get_epoch u db2"
  shows "get_epoch u db4 \<noteq> get_epoch u db1"
  using assms by (cases "get_epoch u db1"; cases "get_epoch u db2"; cases "get_epoch u db3") (fastforce simp: epoch_le_def)+

text \<open>
  C21. A replaced session's live stream ends (FR-047). Whatever requests the router serves while
  the stream is open: once one of them (a login, a logout, a password change) has moved the
  account's epoch at moment \<open>over_at\<close>, no chunk that arrives two seconds later or more is
  relayed, and no request can bring the stream back; this holds for \<open>GET /state\<close> and for
  \<open>GET /stream\<close>.
\<close>

theorem replaced_session_stream_ends:
  fixes x :: "'c"
  assumes "state_stream env rp now h q opened (before @ Served c # after) db = Inr relayed \<or>
      frame_stream env rp now h q up opened (before @ Served c # after) db = Inr relayed"
    and "require_auth env now h q db = Inr user"
    and "get_epoch (claim_sub user) (serve env rp c (db_after env rp before db)) \<noteq> get_epoch (claim_sub user) (db_after env rp before db)"
    and "\<forall>t x. Chunk t x \<in> set before \<longrightarrow> t < over_at" and "opened \<le> over_at"
    and "(t, x) \<in> set relayed"
  shows "t < over_at + 2"
proof -
  let ?db1 = "db_after env rp before db" and ?es = "before @ Served c # after"
  have st: "state_stream env rp now h q opened ?es db = Inr relayed" using assms(1) frame_stream_state by blast
  then obtain u epoch where s: "stream_session user = Inr (u, epoch)"
    and r: "relayed = guarded 2 opened (watched env rp (session_over u epoch) ?es db)"
    using assms(2) by (auto simp: state_stream_def epoch_guarded_def split: sum.splits)
  have u: "u = claim_sub user" and ep: "map_of user ''epoch'' = Some epoch"
    using s by (auto simp: stream_session_def user_sub_def claim_sub_def split: option.splits json.splits)
  have "epoch_current user db" using assms(2) by (auto simp: require_auth_def Let_def split: option.splits if_splits)
  then have live: "claim_eq epoch (get_epoch u db)" using u ep by (simp add: epoch_current_def)
  have over: "session_over u epoch db'" if "epoch_le (serve env rp c ?db1) db'" for db'
    using epoch_moved[OF db_after_le serve_epoch_le that, of u] assms(3) u live claim_eq_inj
    by (auto simp: session_over_def current_epoch_def)
  have "\<forall>(now, stop, x)\<in>set (watched env rp (session_over u epoch) ?es db). over_at \<le> now \<longrightarrow> stop"
  proof (intro ballI, clarify)
    fix now stop and y :: 'c
    assume "(now, stop, y) \<in> set (watched env rp (session_over u epoch) ?es db)" and late: "over_at \<le> now"
    then consider "(now, stop, y) \<in> set (watched env rp (session_over u epoch) before db)"
      | "(now, stop, y) \<in> set (watched env rp (session_over u epoch) after (serve env rp c ?db1))"
      unfolding watched_append by auto
    then show stop
    proof cases
      case 1
      then show ?thesis using watched_times[OF 1] assms(4) late by fastforce
    next
      case 2
      show ?thesis by (rule watched_stop[OF over 2])
    qed
  qed
  then show ?thesis using guarded_before[where chunks = "watched env rp (session_over u epoch) ?es db" and since = over_at] assms(5,6) r by simp
qed

text \<open>A successful login is such a request.\<close>

lemma login_moves_epoch:
  "login env tm fresh u p m db = (Inr out, db', ended) \<Longrightarrow>
   get_epoch u (serve env rp \<lparr>cl_clock = tm, cl_fresh = fresh, cl_request = Login u p m\<rparr> db) \<noteq> get_epoch u db"
  using login_epoch(1)[of env tm fresh u p m db out db' ended] by (auto simp: serve_def)

theorem replaced_session_stream_ends_witness:
  "\<exists>relayed. state_stream sample_env (\<lambda>_. []) 1001 (bearer (create_token sample_env 900 900 ''ann'' 4)) None 10
      ([Chunk 11 ''a''] @ Served \<lparr>cl_clock = sample_clock, cl_fresh = ''r2'', cl_request = Login ''ann'' ''pw'' True\<rparr> # [Chunk 12 ''b'', Chunk 15 ''c''])
      sample_db = Inr relayed \<and> (\<forall>(t, x)\<in>set relayed. t < 14)"
proof -
  let ?h = "bearer (create_token sample_env 900 900 ''ann'' 4)" and ?call = "\<lparr>cl_clock = sample_clock, cl_fresh = ''r2'', cl_request = Login ''ann'' ''pw'' True\<rparr>"
  let ?es = "[Chunk 11 ''a''] @ Served ?call # [Chunk 12 ''b'', Chunk 15 ''c'']"
  let ?user = "jwt_claims ''ann'' 900 (900 + jwt_expiry sample_env) 4"
  have auth: "require_auth sample_env 1001 ?h None sample_db = Inr ?user"
    by (simp add: require_auth_minted get_epoch_def sample_db_def py_int_of_float_def) (simp add: sample_env_def)
  obtain out db' ended where "login sample_env sample_clock ''r2'' ''ann'' ''pw'' True sample_db = (Inr out, db', ended)"
    using sample_login by blast
  then have moved: "get_epoch (claim_sub ?user) (serve sample_env (\<lambda>_. []) ?call (db_after sample_env (\<lambda>_. []) [Chunk 11 ''a''] sample_db)) \<noteq>
      get_epoch (claim_sub ?user) (db_after sample_env (\<lambda>_. []) [Chunk 11 ''a''] sample_db)"
    using login_moves_epoch by (simp add: claim_sub_def jwt_claims_def)
  obtain relayed where r: "state_stream sample_env (\<lambda>_. []) 1001 ?h None 10 ?es sample_db = Inr relayed"
    by (simp add: state_stream_def auth) (simp add: stream_session_def user_sub_def jwt_claims_def)
  have "t < 12 + 2" if "(t, x) \<in> set relayed" for t x
    by (rule replaced_session_stream_ends[OF disjI1[OF r] auth moved _ _ that]) simp_all
  with r show ?thesis by auto
qed

section \<open>Read-only relays\<close>

datatype raw_endpoint =
    ListClips | GetClip string | ListEvents | ListInferences | GetSummary | HlsRelay string | WhepPatch string

record urls =
  recorder_url :: string
  hls_url :: string
  webrtc_url :: string

fun raw_route :: "urls \<Rightarrow> raw_endpoint \<Rightarrow> string \<times> string" where
  "raw_route us ListClips = (recorder_url us, ''/clips'')"
| "raw_route us (GetClip name) = (recorder_url us, ''/clips/'' @ name)"
| "raw_route us ListEvents = (recorder_url us, ''/events'')"
| "raw_route us ListInferences = (recorder_url us, ''/inferences'')"
| "raw_route us GetSummary = (recorder_url us, ''/summary'')"
| "raw_route us (HlsRelay path) = (hls_url us, ''/live/'' @ path)"
| "raw_route us (WhepPatch session) = (webrtc_url us, ''/live/whep/'' @ session)"

definition raw_endpoint_answer ::
  "auth_env \<Rightarrow> seconds \<Rightarrow> string \<Rightarrow> string option \<Rightarrow> urls \<Rightarrow> raw_endpoint \<Rightarrow> string \<Rightarrow> string option \<Rightarrow> (string \<times> string) list \<Rightarrow> string \<Rightarrow>
     (internal_request \<Rightarrow> upstream) \<Rightarrow> router_db \<Rightarrow> http_error + nat \<times> (string \<times> string) list \<times> string" where
  "raw_endpoint_answer env now h q us ep meth query hs body net db =
     (case require_auth env now h q db of
        Inl e \<Rightarrow> Inl e
      | Inr _ \<Rightarrow> (case raw_route us ep of (base, path) \<Rightarrow> relay_raw base path meth query hs body net))"

text \<open>
  An answer depends on the internal services only for an accepted token, and then only on the
  request whose query is the client's without its \<open>token\<close> fields and whose headers are the
  four relayed ones: the \<open>Authorization\<close> header stays in the router.
\<close>

lemma raw_needs_auth:
  "require_auth env now h q db = Inl e \<Longrightarrow> raw_endpoint_answer env now h q us ep meth query hs body net db = Inl e"
  by (simp add: raw_endpoint_answer_def)

lemma relayed_header_names: "fst ` set (relayed_headers hs) \<subseteq> {''Content-Type'', ''Range'', ''Accept'', ''If-Match''}"
  by (auto simp: relayed_headers_def split: option.splits if_splits)

section \<open>Origins of web clients\<close>

text \<open>
  A regular expression as the function from a text to the texts left over by its matches;
  \<open>re.fullmatch\<close> asks for a match that leaves nothing.
\<close>

type_synonym pattern = "string \<Rightarrow> string list"

definition lit :: "string \<Rightarrow> pattern" where
  "lit w s = (if starts_with w s then [drop (length w) s] else [])"

definition seq :: "pattern \<Rightarrow> pattern \<Rightarrow> pattern" where
  "seq p q s = concat (map q (p s))"

definition alt :: "pattern \<Rightarrow> pattern \<Rightarrow> pattern" where
  "alt p q s = p s @ q s"

text \<open>\<open>[lo-hi]\<close>, and \<open>\d{m,n}\<close>: between \<open>m\<close> and \<open>n\<close> decimal digits.\<close>

definition one_of :: "string \<Rightarrow> pattern" where
  "one_of cs s = (case s of [] \<Rightarrow> [] | c # r \<Rightarrow> if c \<in> set cs then [r] else [])"

definition decimals :: string where "decimals = ''0123456789''"

fun digits :: "nat \<Rightarrow> nat \<Rightarrow> pattern" where
  "digits m 0 s = (if m = 0 then [s] else [])"
| "digits m (Suc n) s = (if m = 0 then [s] else []) @ concat (map (digits (m - 1) n) (one_of decimals s))"

fun digit_run :: pattern where
  "digit_run [] = []"
| "digit_run (c # s) = (if c \<in> set decimals then s # digit_run s else [])"

fun times :: "nat \<Rightarrow> pattern \<Rightarrow> pattern" where
  "times 0 p = (\<lambda>s. [s])"
| "times (Suc n) p = seq p (times n p)"

definition octet :: pattern where
  "octet = seq (lit ''.'') (digits 1 3)"

definition host_pattern :: pattern where
  "host_pattern =
     alt (lit ''localhost'') (alt (lit ''127.0.0.1'')
       (alt (seq (lit ''10'') (times 3 octet))
         (alt (seq (lit ''172.'') (seq (alt (seq (lit ''1'') (one_of ''6789''))
                 (alt (seq (lit ''2'') (one_of decimals)) (seq (lit ''3'') (one_of ''01'')))) (times 2 octet)))
           (seq (lit ''192.168'') (times 2 octet)))))"

definition origin_pattern :: pattern where
  "origin_pattern =
     alt (seq (alt (lit ''http://'') (lit ''https://'')) (seq host_pattern (alt (seq (lit '':'') digit_run) (\<lambda>s. [s]))))
       (lit ''capacitor://localhost'')"

definition origin_allowed :: "string \<Rightarrow> bool" where
  "origin_allowed s \<longleftrightarrow> [] \<in> set (origin_pattern s)"

text \<open>\<open>CORS_EXTRA_ORIGINS\<close>.\<close>

definition extra_origins :: "string \<Rightarrow> string list" where
  "extra_origins env_text = filter (\<lambda>w. w \<noteq> []) (map strip (split_on (CHR '','') env_text))"

text \<open>The language of a pattern.\<close>

definition denotes :: "pattern \<Rightarrow> string set \<Rightarrow> bool" where
  "denotes p L \<longleftrightarrow> (\<forall>s r. r \<in> set (p s) \<longleftrightarrow> (\<exists>w\<in>L. s = w @ r))"

lemma denotes_lit: "denotes (lit w) {w}"
  unfolding denotes_def lit_def starts_with_def by (auto, metis append_take_drop_id)

lemma denotes_seq: "denotes p K \<Longrightarrow> denotes q L \<Longrightarrow> denotes (seq p q) {v @ w |v w. v \<in> K \<and> w \<in> L}"
  unfolding denotes_def seq_def by (simp add: Bex_def) (metis append_assoc)

lemma denotes_alt: "denotes p K \<Longrightarrow> denotes q L \<Longrightarrow> denotes (alt p q) (K \<union> L)"
  unfolding denotes_def alt_def by auto

lemma denotes_eps: "denotes (\<lambda>s. [s]) {[]}"
  by (auto simp: denotes_def)

lemma denotes_one_of: "denotes (one_of cs) {[c] |c. c \<in> set cs}"
  by (auto simp: denotes_def one_of_def split: list.splits)

definition octet_text :: "string \<Rightarrow> bool" where
  "octet_text w \<longleftrightarrow> 1 \<le> length w \<and> length w \<le> 3 \<and> set w \<subseteq> set decimals"

lemma denotes_digits: "denotes (digits m n) {w. m \<le> length w \<and> length w \<le> n \<and> set w \<subseteq> set decimals}"
proof (induction n arbitrary: m)
  case 0
  then show ?case by (auto simp: denotes_def)
next
  case (Suc n)
  have step: "r \<in> set (concat (map (digits (m - 1) n) (one_of decimals s))) \<longleftrightarrow>
      (\<exists>w. m - 1 < length w \<and> length w \<le> Suc n \<and> set w \<subseteq> set decimals \<and> s = w @ r)" for r s
  proof (cases s)
    case (Cons c t)
    have "r \<in> set (digits (m - 1) n t) \<longleftrightarrow> (\<exists>w. m - 1 \<le> length w \<and> length w \<le> n \<and> set w \<subseteq> set decimals \<and> t = w @ r)"
      using Suc[of "m - 1"] by (simp add: denotes_def)
    then show ?thesis using Cons
      by (auto simp: one_of_def Cons_eq_append_conv intro: exI[of _ "c # _"])
  qed (auto simp: one_of_def)
  show ?case unfolding denotes_def
  proof (intro allI)
    fix s r
    have "(\<exists>w. m \<le> length w \<and> length w \<le> Suc n \<and> set w \<subseteq> set decimals \<and> s = w @ r) \<longleftrightarrow>
        (m = 0 \<and> s = r) \<or> (\<exists>w. m - 1 < length w \<and> length w \<le> Suc n \<and> set w \<subseteq> set decimals \<and> s = w @ r)"
    proof (cases m)
      case 0
      have "s = r \<or> (\<exists>w. 0 < length w \<and> length w \<le> Suc n \<and> set w \<subseteq> set decimals \<and> s = w @ r)"
        if "length w \<le> Suc n" "set w \<subseteq> set decimals" "s = w @ r" for w
        using that by (cases w) auto
      then show ?thesis using 0 by auto
    qed (simp add: Suc_le_eq)
    then show "r \<in> set (digits m (Suc n) s) \<longleftrightarrow> (\<exists>w\<in>{w. m \<le> length w \<and> length w \<le> Suc n \<and> set w \<subseteq> set decimals}. s = w @ r)"
      using step[of r s] by auto
  qed
qed

lemma denotes_digit_run: "denotes digit_run {w. w \<noteq> [] \<and> set w \<subseteq> set decimals}"
proof -
  have "r \<in> set (digit_run s) \<longleftrightarrow> (\<exists>w. w \<noteq> [] \<and> set w \<subseteq> set decimals \<and> s = w @ r)" for r s
  proof (induction s rule: digit_run.induct)
    case (2 c s)
    show ?case
    proof (cases "c \<in> set decimals")
      case True
      have "(\<exists>w. w \<noteq> [] \<and> set w \<subseteq> set decimals \<and> c # s = w @ r) \<longleftrightarrow> s = r \<or> (\<exists>w. w \<noteq> [] \<and> set w \<subseteq> set decimals \<and> s = w @ r)"
        using True by (auto simp: Cons_eq_append_conv)
      then show ?thesis using True 2 by auto
    qed (auto simp: Cons_eq_append_conv)
  qed simp
  then show ?thesis by (simp add: denotes_def)
qed

lemma denotes_times: "denotes p L \<Longrightarrow> denotes (times n p) {concat ws |ws. length ws = n \<and> set ws \<subseteq> L}"
proof (induction n)
  case 0
  then show ?case by (simp add: denotes_eps)
next
  case (Suc n)
  have "{v @ w |v w. v \<in> L \<and> w \<in> {concat ws |ws. length ws = n \<and> set ws \<subseteq> L}} = {concat ws |ws. length ws = Suc n \<and> set ws \<subseteq> L}"
  proof (intro set_eqI iffI)
    fix x assume "x \<in> {v @ w |v w. v \<in> L \<and> w \<in> {concat ws |ws. length ws = n \<and> set ws \<subseteq> L}}"
    then obtain v ws where "x = concat (v # ws)" "length (v # ws) = Suc n" "set (v # ws) \<subseteq> L" by auto
    then show "x \<in> {concat ws |ws. length ws = Suc n \<and> set ws \<subseteq> L}" by blast
  next
    fix x assume "x \<in> {concat ws |ws. length ws = Suc n \<and> set ws \<subseteq> L}"
    then obtain v ws where "x = v @ concat ws" "length ws = n" "v \<in> L" "set ws \<subseteq> L" by (auto simp: length_Suc_conv)
    then show "x \<in> {v @ w |v w. v \<in> L \<and> w \<in> {concat ws |ws. length ws = n \<and> set ws \<subseteq> L}}" by blast
  qed
  with denotes_seq[OF Suc.prems Suc.IH[OF Suc.prems]] show ?case by simp
qed

lemma denotes_octet: "denotes octet {CHR ''.'' # d |d. octet_text d}"
  using denotes_seq[OF denotes_lit denotes_digits, of "''.''" 1 3] by (simp add: octet_def octet_text_def)

text \<open>
  Which hosts the pattern means: this machine, or an address in one of the three private
  ranges 10/8, 172.16/12 and 192.168/16.
\<close>

definition second_octets :: "string list" where
  "second_octets = map int_str [16, 17, 18, 19, 20, 21, 22, 23, 24, 25, 26, 27, 28, 29, 30, 31]"

definition private_address :: "string list \<Rightarrow> bool" where
  "private_address w =
     (case w of
        [a, b, c, d] \<Rightarrow> list_all octet_text [a, b, c, d] \<and>
          (a = ''10'' \<or> (a = ''172'' \<and> b \<in> set second_octets) \<or> (a = ''192'' \<and> b = ''168''))
      | _ \<Rightarrow> False)"

definition private_host :: "string \<Rightarrow> bool" where
  "private_host h \<longleftrightarrow> h = ''localhost'' \<or> h = ''127.0.0.1'' \<or> private_address (split_on (CHR ''.'') h)"

lemma second_octets_value:
  "second_octets = [''16'', ''17'', ''18'', ''19'', ''20'', ''21'', ''22'', ''23'', ''24'', ''25'', ''26'', ''27'', ''28'', ''29'', ''30'', ''31'']"
  by code_simp

lemma octet_no_dot: "octet_text d \<Longrightarrow> CHR ''.'' \<notin> set d"
  by (auto simp: octet_text_def decimals_def)

lemma octet_known: "octet_text ''10''" "octet_text ''172''" "octet_text ''192''" "octet_text ''168''" "list_all octet_text second_octets"
  by (simp_all add: octet_text_def decimals_def second_octets_value)

lemma split_four:
  assumes "list_all octet_text [a, b, c]" and "octet_text d"
  shows "split_on (CHR ''.'') (a @ CHR ''.'' # b @ CHR ''.'' # c @ CHR ''.'' # d) = [a, b, c, d]"
  using assms by (simp add: split_on_append split_on_free octet_no_dot)

lemma split_four_back: "split_on (CHR ''.'') h = [a, b, c, d] \<Longrightarrow> h = a @ CHR ''.'' # b @ CHR ''.'' # c @ CHR ''.'' # d"
  using join_split[of "CHR ''.''" h] by simp

lemma private_address_iff:
  "private_address (split_on (CHR ''.'') h) \<longleftrightarrow>
     (\<exists>b c d. octet_text b \<and> octet_text c \<and> octet_text d \<and> h = ''10.'' @ b @ CHR ''.'' # c @ CHR ''.'' # d) \<or>
     (\<exists>b c d. b \<in> set second_octets \<and> octet_text c \<and> octet_text d \<and> h = ''172.'' @ b @ CHR ''.'' # c @ CHR ''.'' # d) \<or>
     (\<exists>c d. octet_text c \<and> octet_text d \<and> h = ''192.168.'' @ c @ CHR ''.'' # d)" (is "?l \<longleftrightarrow> ?r")
proof
  assume ?l
  then obtain a b c d where s: "split_on (CHR ''.'') h = [a, b, c, d]" and p: "private_address [a, b, c, d]"
    by (auto simp: private_address_def split: list.splits)
  have o: "octet_text b" "octet_text c" "octet_text d" using p by (simp_all add: private_address_def)
  consider "a = ''10''" | "a = ''172''" "b \<in> set second_octets" | "a = ''192''" "b = ''168''"
    using p by (auto simp: private_address_def)
  then show ?r
  proof cases
    case 1
    then have "h = ''10.'' @ b @ CHR ''.'' # c @ CHR ''.'' # d" using split_four_back[OF s] by simp
    then show ?thesis using o by blast
  next
    case 2
    then have "h = ''172.'' @ b @ CHR ''.'' # c @ CHR ''.'' # d" using split_four_back[OF s] by simp
    then show ?thesis using o 2 by blast
  next
    case 3
    then have "h = ''192.168.'' @ c @ CHR ''.'' # d" using split_four_back[OF s] by simp
    then show ?thesis using o by blast
  qed
next
  have b: "octet_text b" if "b \<in> set second_octets" for b using that octet_known(5) by (simp add: list_all_iff)
  assume ?r
  then show ?l
    using split_four[of "''10''"] split_four[of "''172''"] split_four[of "''192''" "''168''"] octet_known(1-4) b
    by (auto simp: private_address_def)
qed

abbreviation dotted :: "string set" where
  "dotted \<equiv> {CHR ''.'' # d |d. octet_text d}"

lemma octets_two: "{concat ws |ws. length ws = 2 \<and> set ws \<subseteq> dotted} =
   {CHR ''.'' # c @ CHR ''.'' # d |c d. octet_text c \<and> octet_text d}"
proof (intro set_eqI iffI)
  fix x assume "x \<in> {concat ws |ws. length ws = 2 \<and> set ws \<subseteq> dotted}"
  then obtain v w where "x = v @ w" "v \<in> dotted" "w \<in> dotted" by (auto simp: numeral_2_eq_2 length_Suc_conv)
  then obtain c d where "x = CHR ''.'' # c @ CHR ''.'' # d" "octet_text c" "octet_text d" by auto
  then show "x \<in> {CHR ''.'' # c @ CHR ''.'' # d |c d. octet_text c \<and> octet_text d}" by blast
next
  fix x assume "x \<in> {CHR ''.'' # c @ CHR ''.'' # d |c d. octet_text c \<and> octet_text d}"
  then obtain c d where "x = concat [CHR ''.'' # c, CHR ''.'' # d]" "octet_text c" "octet_text d" by auto
  moreover have "length [CHR ''.'' # c, CHR ''.'' # d] = 2" by simp
  ultimately show "x \<in> {concat ws |ws. length ws = 2 \<and> set ws \<subseteq> dotted}"
    by (intro CollectI exI[of _ "[CHR ''.'' # c, CHR ''.'' # d]"]) auto
qed

lemma octets_three: "{concat ws |ws. length ws = 3 \<and> set ws \<subseteq> dotted} =
   {CHR ''.'' # b @ CHR ''.'' # c @ CHR ''.'' # d |b c d. octet_text b \<and> octet_text c \<and> octet_text d}"
proof (intro set_eqI iffI)
  fix x assume "x \<in> {concat ws |ws. length ws = 3 \<and> set ws \<subseteq> dotted}"
  then obtain u v w where "x = u @ v @ w" "u \<in> dotted" "v \<in> dotted" "w \<in> dotted" by (auto simp: numeral_3_eq_3 length_Suc_conv)
  then obtain b c d where "x = CHR ''.'' # b @ CHR ''.'' # c @ CHR ''.'' # d" "octet_text b" "octet_text c" "octet_text d" by auto
  then show "x \<in> {CHR ''.'' # b @ CHR ''.'' # c @ CHR ''.'' # d |b c d. octet_text b \<and> octet_text c \<and> octet_text d}" by blast
next
  fix x assume "x \<in> {CHR ''.'' # b @ CHR ''.'' # c @ CHR ''.'' # d |b c d. octet_text b \<and> octet_text c \<and> octet_text d}"
  then obtain b c d where "x = concat [CHR ''.'' # b, CHR ''.'' # c, CHR ''.'' # d]" "octet_text b" "octet_text c" "octet_text d" by auto
  then show "x \<in> {concat ws |ws. length ws = 3 \<and> set ws \<subseteq> dotted}"
    by (intro CollectI exI[of _ "[CHR ''.'' # b, CHR ''.'' # c, CHR ''.'' # d]"]) auto
qed

text \<open>Two-digit second octets of 172.16/12.\<close>

lemma second_octet_pattern:
  "denotes (alt (seq (lit ''1'') (one_of ''6789'')) (alt (seq (lit ''2'') (one_of decimals)) (seq (lit ''3'') (one_of ''01'')))) (set second_octets)"
proof -
  have l: "denotes (seq (lit w) (one_of cs)) (set (map (\<lambda>c. w @ [c]) cs))" for w cs
  proof -
    have "{v @ x |v x. v \<in> {w} \<and> x \<in> {[c] |c. c \<in> set cs}} = set (map (\<lambda>c. w @ [c]) cs)" by auto
    with denotes_seq[OF denotes_lit[of w] denotes_one_of[of cs]] show ?thesis by simp
  qed
  have e: "map (\<lambda>c. ''1'' @ [c]) ''6789'' @ map (\<lambda>c. ''2'' @ [c]) decimals @ map (\<lambda>c. ''3'' @ [c]) ''01'' = second_octets"
    by (simp add: second_octets_value decimals_def)
  show ?thesis
    using denotes_alt[OF l denotes_alt[OF l l], of "''1''" "''6789''" "''2''" decimals "''3''" "''01''"]
    unfolding e[symmetric] set_append .
qed

lemma private_hosts:
  "{h. private_host h} = {''localhost''} \<union> ({''127.0.0.1''} \<union>
     ({''10.'' @ b @ CHR ''.'' # c @ CHR ''.'' # d |b c d. octet_text b \<and> octet_text c \<and> octet_text d} \<union>
       ({''172.'' @ b @ CHR ''.'' # c @ CHR ''.'' # d |b c d. b \<in> set second_octets \<and> octet_text c \<and> octet_text d} \<union>
         {''192.168.'' @ c @ CHR ''.'' # d |c d. octet_text c \<and> octet_text d})))"
  unfolding private_host_def private_address_iff by blast

lemma joined:
  "{v @ w |v w. v \<in> {p} \<and> w \<in> {f b c d |b c d. P b c d}} = {p @ f b c d |b c d. P b c d}"
  "{v @ w |v w. v \<in> {p} \<and> w \<in> {g c d |c d. Q c d}} = {p @ g c d |c d. Q c d}"
  "{v @ w |v w. v \<in> S \<and> w \<in> {g c d |c d. Q c d}} = {b @ g c d |b c d. b \<in> S \<and> Q c d}"
  by blast+

lemma denotes_host: "denotes host_pattern {h. private_host h}"
proof -
  note o2 = denotes_times[OF denotes_octet, of 2, unfolded octets_two] and o3 = denotes_times[OF denotes_octet, of 3, unfolded octets_three]
  have ten: "denotes (seq (lit ''10'') (times 3 octet)) {''10.'' @ b @ CHR ''.'' # c @ CHR ''.'' # d |b c d. octet_text b \<and> octet_text c \<and> octet_text d}"
    using denotes_seq[OF denotes_lit[of "''10''"] o3, unfolded joined] by simp
  have mid: "denotes (seq (lit ''172.'') (seq (alt (seq (lit ''1'') (one_of ''6789''))
                 (alt (seq (lit ''2'') (one_of decimals)) (seq (lit ''3'') (one_of ''01'')))) (times 2 octet)))
      {''172.'' @ b @ CHR ''.'' # c @ CHR ''.'' # d |b c d. b \<in> set second_octets \<and> octet_text c \<and> octet_text d}"
    using denotes_seq[OF denotes_lit[of "''172.''"] denotes_seq[OF second_octet_pattern o2, unfolded joined], unfolded joined] by simp
  have last: "denotes (seq (lit ''192.168'') (times 2 octet)) {''192.168.'' @ c @ CHR ''.'' # d |c d. octet_text c \<and> octet_text d}"
    using denotes_seq[OF denotes_lit[of "''192.168''"] o2, unfolded joined] by simp
  show ?thesis
    unfolding host_pattern_def private_hosts by (intro denotes_alt denotes_lit ten mid last)
qed

lemma full_match: "denotes p L \<Longrightarrow> [] \<in> set (p s) \<longleftrightarrow> s \<in> L"
  by (simp add: denotes_def)

lemma three_parts:
  "s \<in> {v @ w |v w. v \<in> S \<and> w \<in> {v @ w |v w. v \<in> H \<and> w \<in> P}} \<union> {c} \<longleftrightarrow>
     s = c \<or> (\<exists>a h p. s = a @ h @ p \<and> a \<in> S \<and> h \<in> H \<and> p \<in> P)"
  by blast

text \<open>
  Which browser origins may read the API: this machine's, those on a private network address
  (any port), and the packaged app's; no origin on a public host or address matches, whatever it
  puts around a private address.
\<close>

theorem origin_is_local:
  "origin_allowed s \<longleftrightarrow> s = ''capacitor://localhost'' \<or>
     (\<exists>scheme host port. s = scheme @ host @ port \<and> scheme \<in> {''http://'', ''https://''} \<and> private_host host \<and>
        (port = [] \<or> (\<exists>p. port = CHR '':'' # p \<and> p \<noteq> [] \<and> set p \<subseteq> set decimals)))"
proof -
  have port: "denotes (alt (seq (lit '':'') digit_run) (\<lambda>s. [s])) ({v @ w |v w. v \<in> {'':''} \<and> w \<in> {w. w \<noteq> [] \<and> set w \<subseteq> set decimals}} \<union> {[]})"
    by (intro denotes_alt denotes_seq denotes_lit denotes_digit_run denotes_eps)
  have "denotes origin_pattern ({v @ w |v w. v \<in> {''http://'', ''https://''} \<and> w \<in> {v @ w |v w. v \<in> {h. private_host h} \<and>
      w \<in> {v @ w |v w. v \<in> {'':''} \<and> w \<in> {w. w \<noteq> [] \<and> set w \<subseteq> set decimals}} \<union> {[]}}} \<union> {''capacitor://localhost''})"
    unfolding origin_pattern_def insert_is_Un[of "''http://''" "{''https://''}"]
    by (intro denotes_alt denotes_seq denotes_lit denotes_host port)
  then have "origin_allowed s \<longleftrightarrow> s \<in> {v @ w |v w. v \<in> {''http://'', ''https://''} \<and> w \<in> {v @ w |v w. v \<in> {h. private_host h} \<and>
      w \<in> {v @ w |v w. v \<in> {'':''} \<and> w \<in> {w. w \<noteq> [] \<and> set w \<subseteq> set decimals}} \<union> {[]}}} \<union> {''capacitor://localhost''}"
    unfolding origin_allowed_def by (rule full_match)
  moreover have "w \<in> {v @ w |v w. v \<in> {'':''} \<and> w \<in> {w. w \<noteq> [] \<and> set w \<subseteq> set decimals}} \<union> {[]} \<longleftrightarrow>
      w = [] \<or> (\<exists>p. w = CHR '':'' # p \<and> p \<noteq> [] \<and> set p \<subseteq> set decimals)" for w by auto
  ultimately show ?thesis unfolding three_parts by simp
qed

section \<open>The signing secret\<close>

text \<open>
  \<open>_load_or_create_secret\<close> at start: the secret (or the exception that stops the start) and the
  file it leaves; \<open>drawn\<close> is the random text of \<open>secrets.token_hex(32)\<close>. The file is opened with
  \<open>O_EXCL\<close>, so an existing one is never overwritten.
\<close>

definition load_or_create_secret :: "string \<Rightarrow> string option \<Rightarrow> (string + string) \<times> string option" where
  "load_or_create_secret drawn file =
     (case file of
        None \<Rightarrow> (Inr drawn, Some drawn)
      | Some text \<Rightarrow> (if strip text \<noteq> [] then Inr (strip text) else Inl ''FileExistsError'', file))"

text \<open>The states the file goes through while it is made: opened empty, then written at once when closed.\<close>

definition secret_file_states :: "string \<Rightarrow> string option list" where
  "secret_file_states drawn = [None, Some [], Some drawn]"

definition starts :: "string list \<Rightarrow> string option \<Rightarrow> (string + string) list \<times> string option" where
  "starts draws file = fold (\<lambda>d (rs, f). case load_or_create_secret d f of (r, f') \<Rightarrow> (rs @ [r], f')) draws ([], file)"

lemma start_again: "strip d = d \<Longrightarrow> d \<noteq> [] \<Longrightarrow> load_or_create_secret d' (snd (load_or_create_secret d None)) = (Inr d, Some d)"
  by (simp add: load_or_create_secret_def)

text \<open>
  Tokens survive a restart of the router: the secret is drawn once, every later start reads the
  same one whatever it draws, and so a token signed before is verified as before.
\<close>

theorem secret_survives_restart:
  assumes "strip d = d" and "d \<noteq> []"
  shows "fst (starts (d # draws) None) = replicate (Suc (length draws)) (Inr d)"
proof -
  have "fold (\<lambda>d (rs, f). case load_or_create_secret d f of (r, f') \<Rightarrow> (rs @ [r], f')) draws (rs, Some d) =
      (rs @ replicate (length draws) (Inr d), Some d)" for rs
    using assms by (induction draws arbitrary: rs) (simp_all add: load_or_create_secret_def)
  then show ?thesis by (simp add: starts_def load_or_create_secret_def)
qed

text \<open>
  A crash of the first start after the file is opened and before it is written leaves it empty, and
  then no later start succeeds: the empty file is neither used nor replaced.
\<close>

theorem empty_secret_stops_every_start:
  "Some [] \<in> set (secret_file_states drawn) \<and> (\<forall>draws. fst (starts draws (Some [])) = replicate (length draws) (Inl ''FileExistsError''))"
proof -
  have "fold (\<lambda>d (rs, f). case load_or_create_secret d f of (r, f') \<Rightarrow> (rs @ [r], f')) draws (rs, Some []) =
      (rs @ replicate (length draws) (Inl ''FileExistsError''), Some [])" for draws rs
    by (induction draws arbitrary: rs) (simp_all add: load_or_create_secret_def strip_def lstrip_def rstrip_def)
  then show ?thesis by (simp add: starts_def secret_file_states_def)
qed

theorem secret_survives_restart_witness:
  "fst (starts [''5eed'', ''beef''] None) = [Inr ''5eed'', Inr ''5eed'']"
  using secret_survives_restart[of "''5eed''" "[''beef'']"] by (simp add: strip_def lstrip_def rstrip_def is_space_def ord_def)

end
