(* ===== verification/Streamer_Ptz.thy ===== *)
theory Streamer_Ptz
  imports Py_Values Prelude
begin

text \<open>
  The PTZ module of the streamer (\<open>streamer/ptz.py\<close>): the ONVIF target, the polled position,
  the four preset slots, the manual-move hold and the auto patrol. A command sent to the
  camera is a value of \<open>ptz_cmd\<close>; the SOAP texts and the camera's answers are outside the
  model. The dict \<open>_current\<close> always holds both coordinates or neither, hence an option.
\<close>

record position =
  pan :: real
  tilt :: real

datatype ptz_cmd = ContinuousMove real real | StopMove | AbsoluteMove real real

record patrol =
  pt_enabled :: bool
  pt_interval :: int
  pt_slot :: "int option"

record ptz =
  onvif :: "(string \<times> string \<times> string) option"
  current :: "position option"
  presets :: "(int \<times> position) list"
  moving_until :: seconds
  profile_token :: "string option"
  patrol :: patrol

definition preset_slots :: "int list" where "preset_slots = [1, 2, 3, 4]"
definition move_hold :: seconds where "move_hold = 10"
definition patrol_min_interval :: int where "patrol_min_interval = 5"
definition patrol_default_interval :: int where "patrol_default_interval = 30"

definition initial_ptz :: ptz where
  "initial_ptz = \<lparr>onvif = None, current = None, presets = [], moving_until = 0, profile_token = None,
     patrol = \<lparr>pt_enabled = False, pt_interval = patrol_default_interval, pt_slot = None\<rparr>\<rparr>"

section \<open>Target, position, manual moves\<close>

definition configure :: "string \<Rightarrow> string \<Rightarrow> string \<Rightarrow> ptz \<Rightarrow> ptz" where
  "configure url user password p = p\<lparr>onvif := Some (url, user, password), profile_token := None\<rparr>"

definition clear_config :: "ptz \<Rightarrow> ptz" where
  "clear_config p = p\<lparr>onvif := None, moving_until := 0, profile_token := None, current := None\<rparr>"

definition is_configured :: "ptz \<Rightarrow> bool" where
  "is_configured p \<longleftrightarrow> onvif p \<noteq> None"

definition is_moving :: "seconds \<Rightarrow> ptz \<Rightarrow> bool" where
  "is_moving now p \<longleftrightarrow> now < moving_until p"

definition set_moving :: "seconds \<Rightarrow> bool \<Rightarrow> ptz \<Rightarrow> ptz" where
  "set_moving now v p = p\<lparr>moving_until := (if v then now + move_hold else 0)\<rparr>"

definition get_preset :: "int \<Rightarrow> ptz \<Rightarrow> position option" where
  "get_preset slot p = map_of (presets p) slot"

definition round3 :: "real \<Rightarrow> real" where
  "round3 x = of_int (py_round (x * 1000)) / 1000"

text \<open>
  \<open>poll_once\<close>; \<open>status\<close> is the position \<open>get_status\<close> read (already rounded to three
  decimals), \<open>None\<close> when the camera gave none.
\<close>

definition poll_once :: "(real \<times> real) option \<Rightarrow> ptz \<Rightarrow> ptz" where
  "poll_once status p =
     (case status of None \<Rightarrow> p | Some (x, y) \<Rightarrow> p\<lparr>current := Some \<lparr>pan = round3 x, tilt = round3 y\<rparr>\<rparr>)"

section \<open>Presets\<close>

text \<open>
  The entry of one stored preset: \<open>None\<close> is a key that is no integer, a slot outside 1..4,
  or a value without two numbers, each of which is skipped. \<open>rd\<close> reads a string as a float.
\<close>

definition preset_entry :: "(string \<Rightarrow> real option) \<Rightarrow> string \<Rightarrow> json \<Rightarrow> (int \<times> position) option" where
  "preset_entry rd key v =
     (case py_int_of_str key of
        None \<Rightarrow> None
      | Some slot \<Rightarrow>
          if slot \<notin> set preset_slots then None
          else (case v of
                  JObj d \<Rightarrow>
                    (case (Option.bind (map_of d ''pan'') (py_float rd), Option.bind (map_of d ''tilt'') (py_float rd)) of
                       (Some x, Some y) \<Rightarrow> Some (slot, \<lparr>pan = round3 x, tilt = round3 y\<rparr>)
                     | _ \<Rightarrow> None)
                | _ \<Rightarrow> None))"

definition loaded_presets :: "(string \<Rightarrow> real option) \<Rightarrow> dict \<Rightarrow> (int \<times> position) list" where
  "loaded_presets rd d =
     fold (\<lambda>(key, v) acc. case preset_entry rd key v of Some (s, q) \<Rightarrow> AList.update s q acc | None \<Rightarrow> acc) d []"

definition load_presets :: "(string \<Rightarrow> real option) \<Rightarrow> dict \<Rightarrow> ptz \<Rightarrow> ptz" where
  "load_presets rd d p = p\<lparr>presets := loaded_presets rd d\<rparr>"

definition save_preset :: "int \<Rightarrow> ptz \<Rightarrow> (int \<times> position) list option \<times> ptz" where
  "save_preset slot p =
     (if slot \<notin> set preset_slots then (None, p)
      else case current p of
          None \<Rightarrow> (None, p)
        | Some c \<Rightarrow> (Some (AList.update slot c (presets p)), p\<lparr>presets := AList.update slot c (presets p)\<rparr>))"

section \<open>Patrol\<close>

text \<open>Turning the patrol off sends the camera home to preset 1 when there is one.\<close>

definition set_patrol :: "bool \<Rightarrow> int option \<Rightarrow> ptz \<Rightarrow> ptz \<times> ptz_cmd list" where
  "set_patrol enabled interval p =
     (let was = pt_enabled (patrol p);
          q = (patrol p)\<lparr>pt_enabled := enabled,
                pt_interval := (case interval of Some i \<Rightarrow> max patrol_min_interval i | None \<Rightarrow> pt_interval (patrol p))\<rparr>
      in if was \<and> \<not> enabled then
           (case get_preset 1 p of
              Some home \<Rightarrow> (p\<lparr>patrol := q\<lparr>pt_slot := Some 1\<rparr>\<rparr>, [AbsoluteMove (pan home) (tilt home)])
            | None \<Rightarrow> (p\<lparr>patrol := q\<lparr>pt_slot := None\<rparr>\<rparr>, []))
         else (p\<lparr>patrol := q\<rparr>, []))"

definition load_patrol :: "json \<Rightarrow> ptz \<Rightarrow> ptz" where
  "load_patrol v p =
     (case v of
        JObj d \<Rightarrow> p\<lparr>patrol := \<lparr>pt_enabled = truthy (case map_of d ''enabled'' of Some b \<Rightarrow> b | None \<Rightarrow> JBool False),
            pt_interval = (case py_int (case map_of d ''interval_s'' of Some i \<Rightarrow> i | None \<Rightarrow> JInt patrol_default_interval) of
                             Some i \<Rightarrow> max patrol_min_interval i
                           | None \<Rightarrow> patrol_default_interval),
            pt_slot = None\<rparr>\<rparr>
      | _ \<Rightarrow> p)"

text \<open>
  One round of \<open>patrol_loop\<close>: the loop's own index and due time, the two clock readings
  (\<open>now\<close>, and \<open>t\<close> inside \<open>is_moving\<close>), and the command it sends.
\<close>

type_synonym patrol_loop = "nat \<times> seconds option"

definition patrol_tick :: "seconds \<Rightarrow> seconds \<Rightarrow> patrol_loop \<Rightarrow> ptz \<Rightarrow> patrol_loop \<times> ptz \<times> ptz_cmd list" where
  "patrol_tick now t l p =
     (case l of (idx, next_due) \<Rightarrow>
        let slots = sort (map fst (presets p));
            p1 = (if slots = [] then p\<lparr>patrol := (patrol p)\<lparr>pt_slot := None\<rparr>\<rparr> else p)
        in if \<not> pt_enabled (patrol p) \<or> slots = [] \<or> \<not> is_configured p1 then ((idx, None), p1, [])
           else if (case next_due of Some d \<Rightarrow> now < d | None \<Rightarrow> False) then ((idx, next_due), p1, [])
           else if is_moving t p1 then ((idx, next_due), p1, [])
           else
             let slot = slots ! (idx mod length slots);
                 l' = (idx + 1, Some (now + of_int (pt_interval (patrol p))))
             in case get_preset slot p1 of
                  Some q \<Rightarrow> (l', p1\<lparr>patrol := (patrol p1)\<lparr>pt_slot := Some slot\<rparr>\<rparr>, [AbsoluteMove (pan q) (tilt q)])
                | None \<Rightarrow> (l', p1, []))"

section \<open>Invariant\<close>

definition pos_ok :: "position \<Rightarrow> bool" where
  "pos_ok q \<longleftrightarrow> round3 (pan q) = pan q \<and> round3 (tilt q) = tilt q"

definition slots_ok :: "(int \<times> position) list \<Rightarrow> bool" where
  "slots_ok ps \<longleftrightarrow> distinct (map fst ps) \<and> fst ` set ps \<subseteq> set preset_slots \<and> (\<forall>e\<in>set ps. pos_ok (snd e))"

definition patrol_ok :: "patrol \<Rightarrow> bool" where
  "patrol_ok q \<longleftrightarrow> patrol_min_interval \<le> pt_interval q \<and>
     (case pt_slot q of Some s \<Rightarrow> s \<in> set preset_slots | None \<Rightarrow> True)"

definition ptz_inv :: "ptz \<Rightarrow> bool" where
  "ptz_inv p \<longleftrightarrow> slots_ok (presets p) \<and> patrol_ok (patrol p) \<and>
     (case current p of Some c \<Rightarrow> pos_ok c | None \<Rightarrow> True)"

lemma round3_idem [simp]: "round3 (round3 x) = round3 x"
  by (simp add: round3_def)

lemma slots_ok_update:
  assumes "slots_ok ps" "s \<in> set preset_slots" "pos_ok q"
  shows "slots_ok (AList.update s q ps)"
proof -
  have "e \<in> set (AList.update s q ps) \<Longrightarrow> e \<in> set ps \<or> snd e = q" for e
    by (induction ps) (auto split: if_splits)
  then show ?thesis
    using assms by (fastforce simp: slots_ok_def distinct_update dom_update)
qed

lemma preset_entry_ok:
  "preset_entry rd key v = Some (s, q) \<Longrightarrow> s \<in> set preset_slots \<and> pos_ok q"
  by (auto simp: preset_entry_def pos_ok_def split: option.splits json.splits if_splits)

lemma loaded_presets_ok: "slots_ok (loaded_presets rd d)"
proof -
  have "slots_ok acc \<Longrightarrow> slots_ok (fold (\<lambda>(key, v) acc. case preset_entry rd key v of
      Some (s, q) \<Rightarrow> AList.update s q acc | None \<Rightarrow> acc) d acc)" for acc
  proof (induction d arbitrary: acc)
    case (Cons kv d)
    obtain key v where kv: "kv = (key, v)" by (cases kv)
    have "slots_ok (case preset_entry rd key v of Some (s, q) \<Rightarrow> AList.update s q acc | None \<Rightarrow> acc)"
      using Cons.prems by (auto split: option.split intro!: slots_ok_update dest: preset_entry_ok)
    then show ?case using Cons.IH kv by simp
  qed simp
  moreover have "slots_ok []" by (simp add: slots_ok_def)
  ultimately show ?thesis by (simp add: loaded_presets_def)
qed

lemma patrol_ok_defaults:
  "patrol_ok \<lparr>pt_enabled = b, pt_interval = max patrol_min_interval i, pt_slot = None\<rparr>"
  "patrol_ok \<lparr>pt_enabled = b, pt_interval = patrol_default_interval, pt_slot = None\<rparr>"
  by (simp_all add: patrol_ok_def patrol_min_interval_def patrol_default_interval_def)

lemma ptz_inv_initial: "ptz_inv initial_ptz"
  by (simp add: ptz_inv_def initial_ptz_def slots_ok_def patrol_ok_defaults)

lemma ptz_inv_target:
  assumes "ptz_inv p"
  shows "ptz_inv (configure url user password p)" "ptz_inv (clear_config p)" "ptz_inv (set_moving t b p)"
    "ptz_inv (load_presets rd d p)"
  using assms loaded_presets_ok
  by (simp_all add: ptz_inv_def configure_def clear_config_def set_moving_def load_presets_def)

lemma ptz_inv_poll: "ptz_inv p \<Longrightarrow> ptz_inv (poll_once status p)"
  by (cases status) (auto simp: ptz_inv_def poll_once_def pos_ok_def split: option.splits)

lemma ptz_inv_load_patrol: "ptz_inv p \<Longrightarrow> ptz_inv (load_patrol v p)"
  by (cases v) (simp_all add: ptz_inv_def load_patrol_def patrol_ok_defaults split: option.split)

lemma ptz_inv_save_preset: "ptz_inv p \<Longrightarrow> ptz_inv (snd (save_preset slot p))"
  by (cases "current p") (simp_all add: ptz_inv_def save_preset_def slots_ok_update)

lemma ptz_inv_set_patrol: "ptz_inv p \<Longrightarrow> ptz_inv (fst (set_patrol b i p))"
  by (cases i; cases "get_preset 1 p")
    (simp_all add: ptz_inv_def set_patrol_def Let_def patrol_ok_def preset_slots_def)

lemma ptz_inv_patrol:
  assumes "ptz_inv p"
  shows "ptz_inv (fst (snd (patrol_tick now t l p)))"
proof -
  have "s \<in> set (map fst (presets p)) \<Longrightarrow> s \<in> set preset_slots" for s
    using assms by (auto simp: ptz_inv_def slots_ok_def)
  moreover have "sort (map fst (presets p)) \<noteq> [] \<Longrightarrow>
      sort (map fst (presets p)) ! (i mod length (map fst (presets p))) \<in> set (map fst (presets p))" for i
    by (metis length_greater_0_conv length_sort mod_less_divisor nth_mem set_sort)
  ultimately show ?thesis
    using assms by (auto simp: patrol_tick_def ptz_inv_def patrol_ok_def Let_def split: prod.split option.splits)
qed

section \<open>The patrol schedule\<close>

text \<open>The moves of a patrol that nothing interrupts: their times and slots.\<close>

fun patrol_run :: "(seconds \<times> seconds) list \<Rightarrow> patrol_loop \<Rightarrow> ptz \<Rightarrow> (seconds \<times> int option) list" where
  "patrol_run [] l p = []"
| "patrol_run ((now, t) # ts) l p =
     (case patrol_tick now t l p of (l', p', cmds) \<Rightarrow>
        (if cmds = [] then patrol_run ts l' p'
         else (now, pt_slot (patrol p')) # patrol_run ts l' p'))"

definition patrolling :: "ptz \<Rightarrow> bool" where
  "patrolling p \<longleftrightarrow> pt_enabled (patrol p) \<and> presets p \<noteq> [] \<and> is_configured p"

definition slot_cycle :: "ptz \<Rightarrow> nat \<Rightarrow> int" where
  "slot_cycle p k = (let slots = sort (map fst (presets p)) in slots ! (k mod length slots))"

lemma slot_cycle_found:
  assumes "presets p \<noteq> []"
  shows "\<exists>q. get_preset (slot_cycle p k) p = Some q"
proof -
  have "slot_cycle p k \<in> set (sort (map fst (presets p)))"
    using assms unfolding slot_cycle_def Let_def by (intro nth_mem mod_less_divisor) simp
  then have "slot_cycle p k \<in> dom (map_of (presets p))" by (simp add: dom_map_of_conv_image_fst)
  then show ?thesis by (auto simp: get_preset_def)
qed

lemma patrol_tick_cases:
  assumes "patrolling p"
  shows "patrol_tick now t (i, due) p = ((i, due), p, []) \<or>
    (\<exists>q :: position. patrol_tick now t (i, due) p =
        ((i + 1, Some (now + of_int (pt_interval (patrol p)))),
         p\<lparr>patrol := (patrol p)\<lparr>pt_slot := Some (slot_cycle p i)\<rparr>\<rparr>, [AbsoluteMove (pan q) (tilt q)]) \<and>
      (\<forall>d. due = Some d \<longrightarrow> d \<le> now))"
proof -
  have ne: "presets p \<noteq> []" using assms by (simp add: patrolling_def)
  then have sne: "sort (map fst (presets p)) \<noteq> []" by (metis length_0_conv length_map length_sort)
  obtain q where "get_preset (slot_cycle p i) p = Some q" using slot_cycle_found[OF ne] by blast
  then have q: "get_preset (sort (map fst (presets p)) ! (i mod length (sort (map fst (presets p))))) p = Some q"
    by (simp add: slot_cycle_def Let_def)
  have "patrol_tick now t (i, due) p = ((i, due), p, []) \<or>
    (patrol_tick now t (i, due) p =
        ((i + 1, Some (now + of_int (pt_interval (patrol p)))),
         p\<lparr>patrol := (patrol p)\<lparr>pt_slot := Some (slot_cycle p i)\<rparr>\<rparr>, [AbsoluteMove (pan q) (tilt q)]) \<and>
      (\<forall>d. due = Some d \<longrightarrow> d \<le> now))"
    using assms sne q
    by (cases due) (auto simp: patrol_tick_def patrolling_def Let_def slot_cycle_def not_less)
  then show ?thesis by blast
qed

lemma patrol_run_schedule:
  assumes "patrolling p"
  shows "map snd (patrol_run ts (i, due) p) =
      map (\<lambda>k. Some (slot_cycle p (i + k))) [0..<length (patrol_run ts (i, due) p)] \<and>
    (\<forall>k. Suc k < length (patrol_run ts (i, due) p) \<longrightarrow>
      fst (patrol_run ts (i, due) p ! k) + of_int (pt_interval (patrol p)) \<le> fst (patrol_run ts (i, due) p ! Suc k)) \<and>
    (\<forall>d. due = Some d \<and> patrol_run ts (i, due) p \<noteq> [] \<longrightarrow> d \<le> fst (hd (patrol_run ts (i, due) p)))"
  using assms
proof (induction ts arbitrary: i due p)
  case Nil
  show ?case by simp
next
  case (Cons nt ts)
  obtain now t where nt: "nt = (now, t)" by (cases nt)
  from patrol_tick_cases[OF Cons.prems, of now t i due] show ?case
  proof
    assume "patrol_tick now t (i, due) p = ((i, due), p, [])"
    then have run: "patrol_run (nt # ts) (i, due) p = patrol_run ts (i, due) p" by (simp add: nt)
    show ?thesis unfolding run by (rule Cons.IH[OF Cons.prems])
  next
    let ?p = "p\<lparr>patrol := (patrol p)\<lparr>pt_slot := Some (slot_cycle p i)\<rparr>\<rparr>"
    let ?due = "Some (now + of_int (pt_interval (patrol p)))"
    let ?rest = "patrol_run ts (Suc i, ?due) ?p"
    assume "\<exists>q :: position. patrol_tick now t (i, due) p = ((i + 1, ?due), ?p, [AbsoluteMove (pan q) (tilt q)]) \<and>
      (\<forall>d. due = Some d \<longrightarrow> d \<le> now)"
    then have run: "patrol_run (nt # ts) (i, due) p = (now, Some (slot_cycle p i)) # ?rest"
      and due: "\<forall>d. due = Some d \<longrightarrow> d \<le> now" by (auto simp: nt)
    have p: "patrolling ?p" using Cons.prems by (simp add: patrolling_def is_configured_def)
    have cyc: "slot_cycle ?p = slot_cycle p" by (rule ext) (simp add: slot_cycle_def)
    have IH: "map snd ?rest = map (\<lambda>k. Some (slot_cycle p (Suc i + k))) [0..<length ?rest]"
      "\<forall>k. Suc k < length ?rest \<longrightarrow> fst (?rest ! k) + of_int (pt_interval (patrol p)) \<le> fst (?rest ! Suc k)"
      "?rest \<noteq> [] \<longrightarrow> now + of_int (pt_interval (patrol p)) \<le> fst (hd ?rest)"
      using Cons.IH[OF p, of "Suc i" ?due] by (simp_all add: cyc)
    have "map (\<lambda>k. Some (slot_cycle p (i + k))) [0..<Suc (length ?rest)] =
        Some (slot_cycle p i) # map (\<lambda>k. Some (slot_cycle p (Suc i + k))) [0..<length ?rest]"
      by (simp only: upt_conv_Cons map_Suc_upt[symmetric] list.map_comp) (simp add: upt_conv_Cons comp_def map_Suc_upt[symmetric] del: upt_Suc)
    moreover have "fst (((now, Some (slot_cycle p i)) # ?rest) ! k) + of_int (pt_interval (patrol p))
        \<le> fst (((now, Some (slot_cycle p i)) # ?rest) ! Suc k)" if "Suc k < Suc (length ?rest)" for k
    proof (cases k)
      case 0
      then have "?rest \<noteq> []" using that by auto
      then show ?thesis using IH(3) 0 by (simp add: hd_conv_nth)
    next
      case (Suc j)
      then show ?thesis using IH(2) that by simp
    qed
    ultimately show ?thesis using IH(1) due unfolding run by simp
  qed
qed

text \<open>
  The patrol visits the saved presets in slot order, over and over, from the slot after
  the last one visited, with at least the configured interval (never below five seconds)
  between two moves.
\<close>

theorem patrol_cycles_presets:
  assumes "ptz_inv p" "pt_enabled (patrol p)" "presets p \<noteq> []" "is_configured p"
  shows "map snd (patrol_run ts (i, None) p) =
      map (\<lambda>k. Some (slot_cycle p (i + k))) [0..<length (patrol_run ts (i, None) p)] \<and>
    (\<forall>k. Suc k < length (patrol_run ts (i, None) p) \<longrightarrow>
      fst (patrol_run ts (i, None) p ! k) + of_int (pt_interval (patrol p)) \<le> fst (patrol_run ts (i, None) p ! Suc k)) \<and>
    5 \<le> pt_interval (patrol p)"
proof -
  have "patrolling p" using assms by (simp add: patrolling_def)
  from patrol_run_schedule[OF this, of ts i None] assms(1) show ?thesis
    by (simp add: ptz_inv_def patrol_ok_def patrol_min_interval_def)
qed

section \<open>Presets in the applied slot\<close>

text \<open>The JSON object \<open>json.dump\<close> writes for a presets dict: slot keys become strings.\<close>

definition presets_json :: "(int \<times> position) list \<Rightarrow> dict" where
  "presets_json ps = map (\<lambda>(s, q). (int_str s, JObj [(''pan'', JFloat (pan q)), (''tilt'', JFloat (tilt q))])) ps"

lemma slot_text:
  assumes "s \<in> set preset_slots"
  shows "py_int_of_str (int_str s) = Some s"
proof -
  have "s = 1 \<or> s = 2 \<or> s = 3 \<or> s = 4" using assms by (simp add: preset_slots_def)
  then have s: "s = int (nat s)" and pos: "0 \<le> s" by auto
  have "int_str s = nat_str (nat s)" using pos by (simp add: int_str_def)
  then show ?thesis using s by simp
qed

lemma preset_entry_json:
  assumes "s \<in> set preset_slots" "pos_ok q"
  shows "preset_entry rd (int_str s) (JObj [(''pan'', JFloat (pan q)), (''tilt'', JFloat (tilt q))]) = Some (s, q)"
  using assms slot_text[OF assms(1)] by (simp add: preset_entry_def pos_ok_def)

lemma update_new: "s \<notin> fst ` set acc \<Longrightarrow> AList.update s q acc = acc @ [(s, q)]"
  by (induction acc) auto

lemma presets_roundtrip:
  assumes "slots_ok ps"
  shows "loaded_presets rd (presets_json ps) = ps"
proof -
  have "slots_ok (acc @ ps) \<Longrightarrow> fold (\<lambda>(key, v) acc. case preset_entry rd key v of
      Some (s, q) \<Rightarrow> AList.update s q acc | None \<Rightarrow> acc) (presets_json ps) acc = acc @ ps" for acc
  proof (induction ps arbitrary: acc)
    case Nil
    show ?case by (simp add: presets_json_def)
  next
    case (Cons e ps)
    obtain s q where e: "e = (s, q)" by (cases e)
    have "s \<in> set preset_slots" "pos_ok q" "s \<notin> fst ` set acc"
      using Cons.prems e by (auto simp: slots_ok_def)
    then have "(case preset_entry rd (int_str s) (JObj [(''pan'', JFloat (pan q)), (''tilt'', JFloat (tilt q))]) of
        Some (s, q) \<Rightarrow> AList.update s q acc | None \<Rightarrow> acc) = acc @ [(s, q)]"
      by (simp add: preset_entry_json update_new)
    then show ?case using Cons.IH[of "acc @ [(s, q)]"] Cons.prems e by (simp add: presets_json_def)
  qed
  from this[of "[]"] assms show ?thesis by (simp add: loaded_presets_def)
qed

theorem patrol_cycles_presets_witness:
  "patrol_run [(10, 10), (11, 11), (16, 16)] (0, None)
      (initial_ptz\<lparr>onvif := Some ([], [], []), presets := [(2, \<lparr>pan = 0, tilt = 1\<rparr>)],
         patrol := \<lparr>pt_enabled = True, pt_interval = 5, pt_slot = None\<rparr>\<rparr>) = [(10, Some 2), (16, Some 2)] \<and>
   (10 :: real) + 5 \<le> 16"
proof -
  let ?p = "initial_ptz\<lparr>onvif := Some ([], [], []), presets := [(2, \<lparr>pan = 0, tilt = 1\<rparr>)],
         patrol := \<lparr>pt_enabled = True, pt_interval = 5, pt_slot = None\<rparr>\<rparr>"
  let ?ts = "[(10, 10), (11, 11), (16, 16)] :: (real \<times> real) list"
  have run: "patrol_run ?ts (0, None) ?p = [(10, Some 2), (16, Some 2)]"
    by (simp add: patrol_tick_def Let_def initial_ptz_def is_configured_def is_moving_def get_preset_def)
  have "py_round 1000 = 1000" using py_round_of_int[of 1000] by simp
  then have "ptz_inv ?p"
    by (simp add: ptz_inv_def initial_ptz_def slots_ok_def preset_slots_def patrol_ok_def
        patrol_min_interval_def pos_ok_def round3_def py_round_def)
  then have "\<forall>k. Suc k < length (patrol_run ?ts (0, None) ?p) \<longrightarrow>
      fst (patrol_run ?ts (0, None) ?p ! k) + of_int (pt_interval (patrol ?p)) \<le> fst (patrol_run ?ts (0, None) ?p ! Suc k)"
    by (intro patrol_cycles_presets[THEN conjunct2, THEN conjunct1]) (simp_all add: is_configured_def)
  then show ?thesis using run by simp
qed

end
