(* ===== verification/Atomic_File.thy ===== *)
theory Atomic_File
  imports Prelude Py_Json
begin

text \<open>
  Writing a file through a temporary one and \<open>os.replace\<close>, as the streamer
  (\<open>camera._write_json\<close>), the recorder (\<open>state_store._atomic_write\<close> and its users) and the
  analyzer (\<open>settings.save\<close>) do. The file system is a map from paths to contents and a write
  is a sequence of elementary steps; a crash leaves the file system after any prefix of them.
\<close>

type_synonym fs = "string \<Rightarrow> string option"

datatype fs_step = Truncate string | Append string string | Rename string string | Unlink string

fun fs_exec :: "fs_step \<Rightarrow> fs \<Rightarrow> fs" where
  "fs_exec (Truncate p) fs = fs(p \<mapsto> [])"
| "fs_exec (Append p s) fs = fs(p \<mapsto> (case fs p of Some old \<Rightarrow> old @ s | None \<Rightarrow> s))"
| "fs_exec (Rename p q) fs = (case fs p of Some c \<Rightarrow> (fs(q \<mapsto> c))(p := None) | None \<Rightarrow> fs)"
| "fs_exec (Unlink p) fs = fs(p := None)"

text \<open>\<open>chunks\<close> is the text in the pieces in which it reaches the file.\<close>

definition staged_write :: "string \<Rightarrow> string \<Rightarrow> string list \<Rightarrow> fs_step list" where
  "staged_write tmp p chunks = Truncate tmp # map (Append tmp) chunks @ [Rename tmp p]"

lemma appends: "fold fs_exec (map (Append p) cs) (fs(p \<mapsto> s)) = fs(p \<mapsto> s @ concat cs)"
  by (induction cs arbitrary: s) simp_all

lemma appends_frame: "q \<noteq> p \<Longrightarrow> fold fs_exec (map (Append p) cs) fs q = fs q"
  by (induction cs arbitrary: fs) simp_all

lemma staged_write_done:
  "tmp \<noteq> p \<Longrightarrow> fold fs_exec (staged_write tmp p cs) fs = (fs(p \<mapsto> concat cs))(tmp := None)"
  using appends[of tmp cs fs "[]"] by (simp add: staged_write_def fun_upd_twist)

lemma length_staged_write [simp]: "length (staged_write tmp p cs) = length cs + 2"
  by (simp add: staged_write_def)

text \<open>
  What a reader of the file sees after a crash: the old content until the last step, the new
  content after it, never a part.
\<close>

lemma staged_write_crash:
  assumes "tmp \<noteq> p"
  shows "fold fs_exec (take n (staged_write tmp p cs)) fs p = (if n < length cs + 2 then fs p else Some (concat cs))"
proof (cases "n < length cs + 2")
  case True
  then obtain m where m: "take n (staged_write tmp p cs) = [] \<or>
      take n (staged_write tmp p cs) = Truncate tmp # map (Append tmp) (take m cs)"
    by (cases n) (auto simp: staged_write_def take_map)
  then show ?thesis using True assms appends_frame[of p tmp] by auto
next
  case False
  then have "take n (staged_write tmp p cs) = staged_write tmp p cs" by simp
  with False assms show ?thesis by (simp add: staged_write_done)
qed

lemma staged_write_others:
  assumes "q \<noteq> p" "q \<noteq> tmp"
  shows "fold fs_exec (take n (staged_write tmp p cs)) fs q = fs q"
proof -
  have step: "q \<noteq> p \<Longrightarrow> q \<noteq> tmp \<Longrightarrow> s \<in> set (staged_write tmp p cs) \<Longrightarrow> fs_exec s fs q = fs q" for s fs
    by (auto simp: staged_write_def split: option.split)
  have run: "set ss \<subseteq> set (staged_write tmp p cs) \<Longrightarrow> fold fs_exec ss fs q = fs q" for ss
    by (induction ss arbitrary: fs) (use step assms in simp_all)
  show ?thesis by (rule run) (rule set_take_subset)
qed

definition tmp_path :: "string \<Rightarrow> string" where
  "tmp_path p = p @ ''.tmp''"

definition atomic_write :: "string \<Rightarrow> string list \<Rightarrow> fs_step list" where
  "atomic_write p = staged_write (tmp_path p) p"

lemma tmp_path_neq [simp]: "tmp_path p \<noteq> p" "p \<noteq> tmp_path p"
  by (simp_all add: tmp_path_def)

lemmas atomic_write_done = staged_write_done[OF tmp_path_neq(1), folded atomic_write_def]
lemmas atomic_write_crash = staged_write_crash[OF tmp_path_neq(1), folded atomic_write_def]
lemmas atomic_write_others = staged_write_others[where tmp = "tmp_path p" and p = p for p, folded atomic_write_def]

section \<open>JSON files\<close>

text \<open>What \<open>json.load\<close> finds: no file, a file that is not JSON, or the value it holds.\<close>

datatype doc = Missing | Torn | Doc json

definition read_doc :: "string \<Rightarrow> fs \<Rightarrow> doc" where
  "read_doc p fs = (case fs p of None \<Rightarrow> Missing | Some t \<Rightarrow> (case loads t of None \<Rightarrow> Torn | Some v \<Rightarrow> Doc v))"

text \<open>
  A crash never tears a state file: however far a write of a JSON text got, in whatever
  pieces, a reader of the file finds the old document or the new one, and a write over the
  leftover temporary file of a crashed one still completes with the new document.
\<close>

theorem state_file_never_torn:
  assumes "loads (concat chunks) = Some v" "loads (concat chunks') = Some v'"
  shows "read_doc p (fold fs_exec (take n (atomic_write p chunks)) fs) \<in> {read_doc p fs, Doc v} \<and>
    read_doc p (fold fs_exec (atomic_write p chunks') (fold fs_exec (take n (atomic_write p chunks)) fs)) = Doc v'"
  using assms by (simp add: read_doc_def atomic_write_crash atomic_write_done)

theorem state_file_never_torn_witness:
  "read_doc ''s'' (fold fs_exec (atomic_write ''s'' [''tr'', ''ue'']) (fold fs_exec (take 2 (atomic_write ''s'' [''1'', ''2''])) Map.empty))
     = Doc (JBool True)"
proof -
  have "loads (concat [''1'', ''2'']) = Some (JInt 12)" "loads (concat [''tr'', ''ue'']) = Some (JBool True)"
    by code_simp+
  from state_file_never_torn[OF this] show ?thesis by blast
qed

end
