(* ===== verification/Streamer_Camera.thy ===== *)
theory Streamer_Camera
  imports Streamer_Ptz Atomic_File
begin

text \<open>
  Profiles and the video source (\<open>streamer/camera.py\<close>) and the companion process
  (\<open>streamer/main.py\<close>): registered and applied slot, normalisation, streaming start and
  stop, the restore loop, the MediaMTX supervisor's backoff, and the \<open>/ptz\<close> handler.

  The two profile files hold what was last parsed from them (\<open>None\<close>: absent or unreadable);
  they are written only by this module, atomically, and always hold an object.
  \<open>mtx_source\<close> is the source MediaMTX is configured with; whether a PATCH of it succeeds is an
  argument. \<open>rp\<close> is Python's \<open>str\<close> of a float, list or dict, \<open>rd\<close> reads a float from a
  string, \<open>quote\<close> is \<open>urllib.parse.quote(s, safe="")\<close>.
\<close>

record lib =
  rp :: "json \<Rightarrow> string"
  rd :: "string \<Rightarrow> real option"
  quote :: "string \<Rightarrow> string"

record streamer =
  registered :: "dict option"
  applied_file :: "dict option"
  mtx_source :: string
  ptz :: ptz

datatype outcome = Done | Failed string

definition default_source_type :: string where
  "default_source_type = ''rtsp_camera''"

definition api_error :: string where
  "api_error = ''MediaMTX API connection failed''"

definition source_detached :: string where
  "source_detached = ''publisher''"

section \<open>Files\<close>

text \<open>\<open>load() or {}\<close> and \<open>load_applied()\<close>.\<close>

definition or_empty :: "dict option \<Rightarrow> dict" where
  "or_empty d = (case d of Some d \<Rightarrow> d | None \<Rightarrow> [])"

definition load_applied :: "streamer \<Rightarrow> dict" where
  "load_applied s = or_empty (applied_file s)"

definition save :: "dict \<Rightarrow> streamer \<Rightarrow> streamer" where
  "save config s = s\<lparr>registered := Some (update_all (or_empty (registered s)) config)\<rparr>"

definition save_applied :: "dict \<Rightarrow> streamer \<Rightarrow> streamer" where
  "save_applied d s = s\<lparr>applied_file := Some d\<rparr>"

definition patrol_json :: "patrol \<Rightarrow> json" where
  "patrol_json q = JObj [(''enabled'', JBool (pt_enabled q)), (''interval_s'', JInt (pt_interval q)),
     (''slot'', case pt_slot q of Some i \<Rightarrow> JInt i | None \<Rightarrow> JNull)]"

definition save_patrol :: "patrol \<Rightarrow> streamer \<Rightarrow> streamer" where
  "save_patrol q s = s\<lparr>applied_file := Some (set_key ''ptz_patrol'' (patrol_json q) (load_applied s))\<rparr>"

definition save_presets :: "(int \<times> position) list \<Rightarrow> streamer \<Rightarrow> streamer" where
  "save_presets ps s = s\<lparr>applied_file := Some (set_key ''ptz_presets'' (JObj (presets_json ps)) (load_applied s))\<rparr>"

section \<open>Normalisation\<close>

definition source_type :: "lib \<Rightarrow> dict \<Rightarrow> dict \<Rightarrow> string" where
  "source_type lb config existing =
     (let raw = get_null config ''source_type'';
          raw = (if \<not> truthy raw then get_null existing ''source_type'' else raw);
          value = strip (py_str (rp lb) (if truthy raw then raw else JStr default_source_type))
      in if value = [] then default_source_type else value)"

text \<open>\<open>config.get(k, existing.get(k, ""))\<close>: a null that is present wins over the default.\<close>

definition get_or :: "dict \<Rightarrow> dict \<Rightarrow> string \<Rightarrow> json" where
  "get_or config existing k =
     (case map_of config k of Some v \<Rightarrow> v
      | None \<Rightarrow> (case map_of existing k of Some v \<Rightarrow> v | None \<Rightarrow> JStr []))"

definition coalesce :: "dict \<Rightarrow> dict \<Rightarrow> string \<Rightarrow> json \<Rightarrow> json" where
  "coalesce config existing k d =
     (if get_null config k \<noteq> JNull then get_null config k
      else if get_null existing k \<noteq> JNull then get_null existing k else d)"

definition coalesce_optional :: "dict \<Rightarrow> dict \<Rightarrow> string \<Rightarrow> json" where
  "coalesce_optional config existing k = (if has_key config k then get_null config k else get_null existing k)"

definition required_fields :: "string list" where
  "required_fields = [''ip'', ''username'', ''password'']"

definition nonblank :: "json \<Rightarrow> bool" where
  "nonblank v \<longleftrightarrow> (case v of JStr s \<Rightarrow> strip s \<noteq> [] | _ \<Rightarrow> False)"

definition normalize_rtsp :: "lib \<Rightarrow> dict \<Rightarrow> dict \<Rightarrow> string \<Rightarrow> string + dict" where
  "normalize_rtsp lb config existing stype =
     (let password = get_null config ''password'';
          password = (if \<not> truthy password \<and> truthy (get_null existing ''password'')
                      then get_null existing ''password'' else password);
          normalized =
            [(''source_type'', JStr stype),
             (''ip'', JStr (strip (py_str (rp lb) (get_or config existing ''ip'')))),
             (''username'', JStr (strip (py_str (rp lb) (get_or config existing ''username'')))),
             (''password'', password),
             (''rtsp_port'', coalesce config existing ''rtsp_port'' (JInt 554)),
             (''onvif_port'', coalesce_optional config existing ''onvif_port''),
             (''stream_path'', JStr (strip (py_str (rp lb) (coalesce config existing ''stream_path'' (JStr ''stream1'')))))]
      in case find (\<lambda>f. \<not> nonblank (get_null normalized f)) required_fields of
           Some f \<Rightarrow> Inl (CHR 39 # f @ CHR 39 # '' is required'')
         | None \<Rightarrow> Inr normalized)"

definition normalize :: "lib \<Rightarrow> dict \<Rightarrow> dict \<Rightarrow> string + dict" where
  "normalize lb config existing =
     (let stype = source_type lb config existing in
      if stype = default_source_type then normalize_rtsp lb config existing stype
      else Inl (''unsupported source_type: '' @ stype))"

section \<open>Views\<close>

text \<open>
  \<open>{"configured": ..., "source_type": ..., **rest, "password_set": ...}\<close>.
\<close>

definition profile_view :: "lib \<Rightarrow> streamer \<Rightarrow> dict" where
  "profile_view lb s =
     (let config = or_empty (registered s) in
      if config = [] then [(''configured'', JBool False)]
      else let stype = source_type lb config [] in
        if stype \<noteq> default_source_type
        then [(''configured'', JBool False), (''source_type'', JStr stype)]
        else set_key ''password_set'' (JBool (truthy (get_null config ''password'')))
               (update_all [(''configured'', JBool True), (''source_type'', JStr stype)]
                 (filter (\<lambda>kv. fst kv \<noteq> ''password'') config)))"

definition as_dict :: "json \<Rightarrow> dict" where
  "as_dict v = (case v of JObj d \<Rightarrow> d | _ \<Rightarrow> [])"

definition status_view :: "lib \<Rightarrow> streamer \<Rightarrow> bool \<times> bool" where
  "status_view lb s =
     (let applied = load_applied s;
          pending = (case registered s of
              None \<Rightarrow> False
            | Some r \<Rightarrow>
                (case normalize lb r r of
                   Inl _ \<Rightarrow> True
                 | Inr n \<Rightarrow> JObj n \<noteq>
                     (if truthy (get_null applied ''profile'') then get_null applied ''profile'' else JObj [])))
      in (truthy (get_null applied ''streaming_active''), pending))"

section \<open>Registration, start, stop\<close>

definition register :: "lib \<Rightarrow> dict \<Rightarrow> streamer \<Rightarrow> outcome \<times> streamer" where
  "register lb config s =
     (case normalize lb config (or_empty (registered s)) of
        Inl e \<Rightarrow> (Failed e, s)
      | Inr n \<Rightarrow> (Done, save n s))"

definition text_of :: "lib \<Rightarrow> json \<Rightarrow> string" where
  "text_of lb v = py_str (rp lb) v"

definition rtsp_url :: "lib \<Rightarrow> dict \<Rightarrow> string" where
  "rtsp_url lb config =
     ''rtsp://'' @ quote lb (str_of (get_null config ''username'')) @ '':'' @
     quote lb (str_of (get_null config ''password'')) @ ''@'' @ text_of lb (get_null config ''ip'') @ '':'' @
     text_of lb (case map_of config ''rtsp_port'' of Some v \<Rightarrow> v | None \<Rightarrow> JInt 554) @ ''/'' @
     text_of lb (case map_of config ''stream_path'' of Some v \<Rightarrow> v | None \<Rightarrow> JStr ''stream1'')"

definition onvif_url :: "lib \<Rightarrow> dict \<Rightarrow> string" where
  "onvif_url lb config =
     ''http://'' @ text_of lb (get_null config ''ip'') @ '':'' @ text_of lb (get_null config ''onvif_port'') @ ''/onvif/service''"

definition configure_ptz :: "lib \<Rightarrow> dict \<Rightarrow> streamer \<Rightarrow> streamer" where
  "configure_ptz lb config s =
     (if truthy (get_null config ''onvif_port'')
      then s\<lparr>ptz := configure (onvif_url lb config) (str_of (get_null config ''username''))
             (str_of (get_null config ''password'')) (ptz s)\<rparr>
      else s\<lparr>ptz := clear_config (ptz s)\<rparr>)"

text \<open>\<open>_patch_source\<close>; \<open>reached\<close>: the control API answered 200.\<close>

definition patch_source :: "bool \<Rightarrow> string \<Rightarrow> streamer \<Rightarrow> bool \<times> streamer" where
  "patch_source reached src s = (if reached then (True, s\<lparr>mtx_source := src\<rparr>) else (False, s))"

definition activate :: "lib \<Rightarrow> bool \<Rightarrow> dict \<Rightarrow> streamer \<Rightarrow> bool \<times> streamer" where
  "activate lb reached config s =
     (if source_type lb config [] \<noteq> default_source_type then (False, s)
      else (case patch_source reached (rtsp_url lb config) s of
              (False, s1) \<Rightarrow> (False, s1)
            | (True, s1) \<Rightarrow> (True, configure_ptz lb config s1)))"

definition streaming_start :: "lib \<Rightarrow> bool \<Rightarrow> streamer \<Rightarrow> outcome \<times> streamer" where
  "streaming_start lb reached s =
     (case registered s of
        None \<Rightarrow> (Failed ''no registered profile'', s)
      | Some r \<Rightarrow>
          (case normalize lb r r of
             Inl e \<Rightarrow> (Failed e, s)
           | Inr config \<Rightarrow>
               (let applied = load_applied s;
                    previous = as_dict (get_null applied ''profile'');
                    kept = (if get_null previous ''ip'' \<noteq> get_null config ''ip'' then []
                            else as_dict (get_null applied ''ptz_presets''))
                in case activate lb reached config s of
                     (False, s1) \<Rightarrow> (Failed api_error, s1)
                   | (True, s1) \<Rightarrow>
                       (let s2 = save_applied
                              [(''streaming_active'', JBool True), (''profile'', JObj config),
                               (''ptz_presets'', JObj kept),
                               (''ptz_patrol'', if truthy (get_null applied ''ptz_patrol'')
                                  then get_null applied ''ptz_patrol'' else patrol_json (patrol (ptz s1)))] s1
                        in (Done, s2\<lparr>ptz := load_presets (rd lb) kept (ptz s2)\<rparr>)))))"

definition streaming_stop :: "bool \<Rightarrow> streamer \<Rightarrow> outcome \<times> streamer" where
  "streaming_stop reached s =
     (let s1 = s\<lparr>applied_file := Some (set_key ''streaming_active'' (JBool False) (load_applied s)),
                ptz := clear_config (ptz s)\<rparr>
      in case patch_source reached source_detached s1 of
           (True, s2) \<Rightarrow> (Done, s2)
         | (False, s2) \<Rightarrow> (Failed api_error, s2))"

text \<open>What a restart of the container restores before the restore loop (\<open>lifespan\<close>).\<close>

definition boot :: "lib \<Rightarrow> dict option \<Rightarrow> dict option \<Rightarrow> streamer" where
  "boot lb reg app =
     (let a = or_empty app in
      \<lparr>registered = reg, applied_file = app, mtx_source = source_detached,
       ptz = load_patrol (get_null a ''ptz_patrol'') (load_presets (rd lb) (as_dict (get_null a ''ptz_presets'')) initial_ptz)\<rparr>)"

section \<open>The restore loop\<close>

datatype restore_result = Restored | NotActive | Aborted | NoProfile

text \<open>One attempt under the runtime lock; \<open>None\<close>: retry.\<close>

definition restore_attempt :: "lib \<Rightarrow> bool \<Rightarrow> streamer \<Rightarrow> restore_result option \<times> streamer" where
  "restore_attempt lb reached s =
     (let applied = load_applied s in
      if \<not> truthy (get_null applied ''streaming_active'') then (Some Aborted, s)
      else if \<not> truthy (get_null applied ''profile'') then (Some NoProfile, s)
      else (case activate lb reached (as_dict (get_null applied ''profile'')) s of
              (True, s1) \<Rightarrow> (Some Restored, s1)
            | (False, s1) \<Rightarrow> (None, s1)))"

definition next_restore_delay :: "real \<Rightarrow> real" where
  "next_restore_delay d = min (d * 2) 30"

text \<open>
  The loop against a world: for each attempt whether MediaMTX answers it, and what the other
  threads do to the streamer while the loop sleeps afterwards. \<open>None\<close> is a loop that is still
  retrying when the list ends. The second component is the list of delays slept.
\<close>

fun restore_loop ::
  "lib \<Rightarrow> real \<Rightarrow> (bool \<times> (streamer \<Rightarrow> streamer)) list \<Rightarrow> streamer \<Rightarrow> restore_result option \<times> real list \<times> streamer" where
  "restore_loop lb delay [] s = (None, [], s)"
| "restore_loop lb delay ((reached, others) # w) s =
     (case restore_attempt lb reached s of
        (Some r, s1) \<Rightarrow> (Some r, [], s1)
      | (None, s1) \<Rightarrow>
          (case restore_loop lb (next_restore_delay delay) w (others s1) of
             (r, ds, s2) \<Rightarrow> (r, delay # ds, s2)))"

definition startup_apply ::
  "lib \<Rightarrow> (bool \<times> (streamer \<Rightarrow> streamer)) list \<Rightarrow> streamer \<Rightarrow> restore_result option \<times> real list \<times> streamer" where
  "startup_apply lb w s =
     (if \<not> truthy (get_null (load_applied s) ''streaming_active'') then (Some NotActive, [], s)
      else restore_loop lb 1 w s)"

section \<open>The supervisor of MediaMTX\<close>

definition next_restart_delay :: "real \<Rightarrow> real" where
  "next_restart_delay d = min (d * 2) 10"

text \<open>One exit of the child after \<open>ran\<close> seconds: the delay slept and the next backoff.\<close>

definition supervise :: "seconds \<Rightarrow> real \<Rightarrow> real \<times> real" where
  "supervise up d =
     (let b = (if 60 < up then 1 else d) in (b, next_restart_delay b))"

fun supervisor_delays :: "seconds list \<Rightarrow> real \<Rightarrow> real list" where
  "supervisor_delays [] d = []"
| "supervisor_delays (up # ups) d =
     (case supervise up d of (slept, b) \<Rightarrow> slept # supervisor_delays ups b)"

section \<open>HTTP handlers\<close>

text \<open>Status and detail of a refused request; \<open>None\<close> is \<open>{"ok": True}\<close>.\<close>

type_synonym reply = "(nat \<times> string) option"

definition result :: "outcome \<Rightarrow> nat \<Rightarrow> reply" where
  "result out failure_status = (case out of Done \<Rightarrow> None | Failed e \<Rightarrow> Some (failure_status, e))"

definition post_streaming_start :: "lib \<Rightarrow> bool \<Rightarrow> streamer \<Rightarrow> reply \<times> streamer" where
  "post_streaming_start lb reached s =
     (case streaming_start lb reached s of
        (Done, s1) \<Rightarrow> (None, s1)
      | (Failed e, s1) \<Rightarrow> (Some (if e = api_error then 502 else 409, e), s1))"

definition clamp :: "real \<Rightarrow> real" where
  "clamp x = max (-1) (min 1 x)"

definition num_field :: "lib \<Rightarrow> dict \<Rightarrow> string \<Rightarrow> json \<Rightarrow> real option" where
  "num_field lb body k d = py_float (rd lb) (case map_of body k of Some v \<Rightarrow> v | None \<Rightarrow> d)"

definition control_ptz :: "lib \<Rightarrow> seconds \<Rightarrow> dict \<Rightarrow> streamer \<Rightarrow> reply \<times> streamer \<times> ptz_cmd list" where
  "control_ptz lb now body s =
     (let action = get_null body ''action'' in
      if action = JStr ''move'' then
        (case (num_field lb body ''pan'' (JInt 0), num_field lb body ''tilt'' (JInt 0)) of
           (Some x, Some y) \<Rightarrow> (None, s\<lparr>ptz := set_moving now True (ptz s)\<rparr>, [ContinuousMove x y])
         | _ \<Rightarrow> (Some (400, ''invalid pan/tilt values''), s, []))
      else if action = JStr ''stop'' then
        (None, s\<lparr>ptz := set_moving now False (ptz s)\<rparr>, [StopMove])
      else if action = JStr ''save'' then
        (case py_int (get_null body ''slot'') of
           None \<Rightarrow> (Some (400, ''invalid preset slot''), s, [])
         | Some slot \<Rightarrow>
             (case save_preset slot (ptz s) of
                (None, _) \<Rightarrow> (Some (409, ''current position unknown or invalid slot''), s, [])
              | (Some ps, p) \<Rightarrow> (None, save_presets ps (s\<lparr>ptz := p\<rparr>), [])))
      else if action = JStr ''goto'' then
        (case py_int (get_null body ''slot'') of
           None \<Rightarrow> (Some (400, ''invalid preset slot''), s, [])
         | Some slot \<Rightarrow>
             (case get_preset slot (ptz s) of
                None \<Rightarrow> (Some (404, ''preset not saved''), s, [])
              | Some q \<Rightarrow> (None, s, [AbsoluteMove (pan q) (tilt q)])))
      else if action = JStr ''absolute'' then
        (case (num_field lb body ''pan'' JNull, num_field lb body ''tilt'' JNull) of
           (Some x, Some y) \<Rightarrow> (None, s, [AbsoluteMove (clamp x) (clamp y)])
         | _ \<Rightarrow> (Some (400, ''invalid pan/tilt values''), s, []))
      else if action = JStr ''patrol'' then
        (case get_null body ''enabled'' of
           JBool b \<Rightarrow>
             (let interval = get_null body ''interval_s'' in
              if interval \<noteq> JNull \<and> py_int interval = None then (Some (400, ''invalid patrol interval''), s, [])
              else (case set_patrol b (if interval = JNull then None else py_int interval) (ptz s) of
                      (p, cmds) \<Rightarrow> (None, save_patrol (patrol p) (s\<lparr>ptz := p\<rparr>), cmds)))
         | _ \<Rightarrow> (Some (400, ''invalid patrol payload''), s, []))
      else (Some (400, ''unknown action''), s, []))"

section \<open>Facts about the pieces\<close>

lemma strip_default: "strip default_source_type = default_source_type"
  by code_simp

lemma default_not_empty [simp]: "default_source_type \<noteq> []"
  by (simp add: default_source_type_def)

lemma normalized_fields:
  assumes "normalize lb config existing = Inr n"
  shows "get_null n ''source_type'' = JStr default_source_type" "truthy (JObj n)"
    "nonblank (get_null n ''ip'')" "nonblank (get_null n ''username'')" "nonblank (get_null n ''password'')"
  using assms
  by (auto simp: normalize_def normalize_rtsp_def Let_def get_null_def required_fields_def
      split: if_splits option.splits)

lemma source_type_normalized:
  "normalize lb config existing = Inr n \<Longrightarrow> source_type lb n [] = default_source_type"
  using normalized_fields(1)[of lb config existing n]
  by (simp add: source_type_def Let_def strip_default)

lemma activate_normalized:
  "normalize lb config existing = Inr n \<Longrightarrow>
   activate lb reached n s = (if reached then (True, configure_ptz lb n (s\<lparr>mtx_source := rtsp_url lb n\<rparr>)) else (False, s))"
  by (simp add: activate_def source_type_normalized patch_source_def)

lemma activate_frame [frame_simps]:
  "registered (snd (activate lb reached config s)) = registered s"
  "applied_file (snd (activate lb reached config s)) = applied_file s"
  "presets (ptz (snd (activate lb reached config s))) = presets (ptz s)"
  "patrol (ptz (snd (activate lb reached config s))) = patrol (ptz s)"
  by (simp_all add: activate_def patch_source_def configure_ptz_def configure_def clear_config_def)

lemma configure_ptz_frame [frame_simps]:
  "registered (configure_ptz lb config s) = registered s"
  "applied_file (configure_ptz lb config s) = applied_file s"
  "mtx_source (configure_ptz lb config s) = mtx_source s"
  "presets (ptz (configure_ptz lb config s)) = presets (ptz s)"
  "patrol (ptz (configure_ptz lb config s)) = patrol (ptz s)"
  by (simp_all add: configure_ptz_def configure_def clear_config_def)

text \<open>
  C30. Streaming start connects the registered profile or nothing: it succeeds exactly when
  a valid profile is registered and MediaMTX answers; then the source is that profile's URL,
  the status is active with nothing pending, and the presets in memory are the stored ones
  when the camera address is unchanged and none when it changed. A failed start changes
  nothing.
\<close>

theorem streaming_start_connects:
  "(case streaming_start lb reached s of
      (Failed e, s') \<Rightarrow> s' = s \<and>
        (registered s = None \<or> (\<exists>r. registered s = Some r \<and> normalize lb r r = Inl e) \<or> \<not> reached)
    | (Done, s') \<Rightarrow> reached \<and>
        (\<exists>r n. registered s = Some r \<and> normalize lb r r = Inr n \<and> registered s' = Some r \<and>
          mtx_source s' = rtsp_url lb n \<and> get_null (load_applied s') ''profile'' = JObj n \<and>
          status_view lb s' = (True, False) \<and>
          presets (ptz s') =
            (if get_null (as_dict (get_null (load_applied s) ''profile'')) ''ip'' = get_null n ''ip''
             then loaded_presets (rd lb) (as_dict (get_null (load_applied s) ''ptz_presets'')) else [])))"
proof (cases "registered s")
  case None
  then show ?thesis by (simp add: streaming_start_def)
next
  case (Some r)
  show ?thesis
  proof (cases "normalize lb r r")
    case (Inl e)
    then show ?thesis using Some by (simp add: streaming_start_def)
  next
    case (Inr n)
    show ?thesis
    proof (cases reached)
      case False
      then show ?thesis
        using Some Inr by (simp add: streaming_start_def Let_def activate_normalized[OF Inr])
    next
      case True
      have "loaded_presets (rd lb) [] = []" by (simp add: loaded_presets_def)
      then show ?thesis
        using Some Inr True normalized_fields(2)[OF Inr]
        by (simp add: streaming_start_def Let_def activate_normalized[OF Inr] save_applied_def
            status_view_def load_applied_def or_empty_def get_null_def load_presets_def frame_simps)
    qed
  qed
qed

section \<open>Memory and files\<close>

text \<open>
  The operations of the companion process, one step each: the HTTP handlers, a restore
  attempt, a position poll and a patrol round.
\<close>

datatype streamer_op =
    OpRegister dict | OpStart bool | OpStop bool | OpPtz seconds dict
  | OpRestore bool | OpPoll "(real \<times> real) option" | OpPatrol seconds seconds patrol_loop

fun streamer_step :: "lib \<Rightarrow> streamer_op \<Rightarrow> streamer \<Rightarrow> streamer" where
  "streamer_step lb (OpRegister d) s = snd (register lb d s)"
| "streamer_step lb (OpStart reached) s = snd (post_streaming_start lb reached s)"
| "streamer_step lb (OpStop reached) s = snd (streaming_stop reached s)"
| "streamer_step lb (OpPtz now body) s = fst (snd (control_ptz lb now body s))"
| "streamer_step lb (OpRestore reached) s = snd (restore_attempt lb reached s)"
| "streamer_step lb (OpPoll status) s = s\<lparr>ptz := poll_once status (ptz s)\<rparr>"
| "streamer_step lb (OpPatrol now t l) s = s\<lparr>ptz := fst (snd (patrol_tick now t l (ptz s)))\<rparr>"

definition patrol_setting :: "patrol \<Rightarrow> bool \<times> int" where
  "patrol_setting q = (pt_enabled q, pt_interval q)"

definition stored_setting :: "json \<Rightarrow> bool \<times> int" where
  "stored_setting v = patrol_setting (patrol (load_patrol v initial_ptz))"

text \<open>
  The slots in memory are those in the applied file, and so is the patrol setting, so that a
  restart finds what was there.
\<close>

definition synced :: "lib \<Rightarrow> streamer \<Rightarrow> bool" where
  "synced lb s \<longleftrightarrow> ptz_inv (ptz s) \<and>
     loaded_presets (rd lb) (as_dict (get_null (load_applied s) ''ptz_presets'')) = presets (ptz s) \<and>
     stored_setting (get_null (load_applied s) ''ptz_patrol'') = patrol_setting (patrol (ptz s))"

lemma stored_patrol_json: "patrol_ok q \<Longrightarrow> stored_setting (patrol_json q) = patrol_setting q"
  by (cases "pt_slot q")
    (auto simp: stored_setting_def patrol_setting_def patrol_json_def load_patrol_def patrol_ok_def)

lemma load_patrol_setting:
  "patrol_setting (patrol (load_patrol v (load_presets r d initial_ptz))) = stored_setting v"
  by (cases v) (simp_all add: stored_setting_def load_patrol_def load_presets_def patrol_setting_def)

lemma load_patrol_presets [simp]: "presets (load_patrol v p) = presets p"
  by (cases v) (simp_all add: load_patrol_def)

lemma boot_synced: "synced lb (boot lb reg app)"
  using load_patrol_setting
  by (simp add: synced_def boot_def load_applied_def Let_def ptz_inv_load_patrol ptz_inv_target ptz_inv_initial)
    (simp add: load_presets_def)

lemma synced_ptz:
  assumes "synced lb s" "ptz_inv p" "presets p = presets (ptz s)" "patrol_setting (patrol p) = patrol_setting (patrol (ptz s))"
  shows "synced lb (s\<lparr>ptz := p\<rparr>)"
  using assms by (simp add: synced_def load_applied_def)

lemma synced_fields:
  assumes "synced lb s" "applied_file s' = applied_file s" "ptz s' = ptz s"
  shows "synced lb s'"
  using assms by (simp add: synced_def load_applied_def)

lemma ptz_frames [frame_simps]:
  "presets (configure u n w p) = presets p" "patrol (configure u n w p) = patrol p"
  "presets (clear_config p) = presets p" "patrol (clear_config p) = patrol p"
  "presets (set_moving t b p) = presets p" "patrol (set_moving t b p) = patrol p"
  "presets (poll_once st p) = presets p" "patrol (poll_once st p) = patrol p"
  "presets (fst (set_patrol b i p)) = presets p"
  by (simp_all add: configure_def clear_config_def set_moving_def poll_once_def set_patrol_def Let_def
      split: option.split)

lemma synced_inv: "synced lb s \<Longrightarrow> ptz_inv (ptz s)"
  by (simp add: synced_def)

lemma synced_targets:
  assumes "synced lb s"
  shows "synced lb (s\<lparr>ptz := configure u n w (ptz s)\<rparr>)" "synced lb (s\<lparr>ptz := clear_config (ptz s)\<rparr>)"
    "synced lb (s\<lparr>ptz := set_moving t b (ptz s)\<rparr>)" "synced lb (s\<lparr>ptz := poll_once st (ptz s)\<rparr>)"
  by (rule synced_ptz[OF assms]; simp add: frame_simps ptz_inv_target ptz_inv_poll synced_inv[OF assms])+

lemma synced_configure: "synced lb s \<Longrightarrow> synced lb (configure_ptz lb config s)"
  by (simp add: configure_ptz_def synced_targets)

lemma synced_activate:
  assumes "synced lb s"
  shows "synced lb (snd (activate lb reached config s))"
proof -
  have "synced lb (s\<lparr>mtx_source := u\<rparr>)" for u using assms by (rule synced_fields) simp_all
  then show ?thesis using assms by (simp add: activate_def patch_source_def synced_configure)
qed

lemma synced_start:
  assumes "synced lb s"
  shows "synced lb (snd (streaming_start lb reached s))"
proof (cases "registered s")
  case None
  then show ?thesis using assms by (simp add: streaming_start_def)
next
  case (Some r)
  show ?thesis
  proof (cases "normalize lb r r")
    case (Inl e)
    then show ?thesis using Some assms by (simp add: streaming_start_def)
  next
    case (Inr n)
    let ?s1 = "configure_ptz lb n (s\<lparr>mtx_source := rtsp_url lb n\<rparr>)"
    have s1: "synced lb ?s1"
      using synced_activate[OF assms, of True n] by (simp add: activate_normalized[OF Inr])
    have stored: "stored_setting (if truthy (get_null (load_applied s) ''ptz_patrol'')
          then get_null (load_applied s) ''ptz_patrol'' else patrol_json (patrol (ptz ?s1))) =
        patrol_setting (patrol (ptz ?s1))"
      using s1 assms by (auto simp: synced_def ptz_inv_def stored_patrol_json frame_simps)
    have inv: "ptz_inv (load_presets (rd lb) d (ptz ?s1))" for d
      using s1 by (simp add: synced_def ptz_inv_target)
    show ?thesis
      using Some Inr assms stored inv
      by (cases reached)
        (auto simp: streaming_start_def Let_def activate_normalized[OF Inr] synced_def load_applied_def
          save_applied_def or_empty_def get_null_def load_presets_def as_dict_def)
  qed
qed

lemma synced_stop:
  assumes "synced lb s"
  shows "synced lb (snd (streaming_stop reached s))"
proof -
  let ?s1 = "s\<lparr>applied_file := Some (set_key ''streaming_active'' (JBool False) (load_applied s)), ptz := clear_config (ptz s)\<rparr>"
  have "synced lb ?s1"
    using assms ptz_inv_target(2)[OF synced_inv[OF assms]]
    by (simp add: synced_def load_applied_def or_empty_def frame_simps)
  then have "synced lb (?s1\<lparr>mtx_source := u\<rparr>)" for u by (rule synced_fields) simp_all
  with \<open>synced lb ?s1\<close> show ?thesis by (simp add: streaming_stop_def Let_def patch_source_def)
qed

lemma synced_save_presets:
  assumes "synced lb s" "save_preset slot (ptz s) = (Some ps, p)"
  shows "synced lb (save_presets ps (s\<lparr>ptz := p\<rparr>))"
proof -
  have p: "presets p = ps" "patrol p = patrol (ptz s)"
    using assms(2) by (auto simp: save_preset_def split: if_splits option.splits)
  have "ptz_inv p" using ptz_inv_save_preset[OF synced_inv[OF assms(1)], of slot] assms(2) by simp
  then have "loaded_presets (rd lb) (presets_json ps) = ps"
    using presets_roundtrip p(1) by (simp add: ptz_inv_def)
  then show ?thesis
    using assms(1) p \<open>ptz_inv p\<close>
    by (simp add: synced_def save_presets_def load_applied_def or_empty_def as_dict_def)
qed

lemma synced_save_patrol:
  assumes "synced lb s" "set_patrol b i (ptz s) = (p, cmds)"
  shows "synced lb (save_patrol (patrol p) (s\<lparr>ptz := p\<rparr>))"
proof -
  have p: "p = fst (set_patrol b i (ptz s))" using assms(2) by simp
  have "ptz_inv p" unfolding p by (rule ptz_inv_set_patrol[OF synced_inv[OF assms(1)]])
  moreover have "presets p = presets (ptz s)" unfolding p by (simp add: frame_simps)
  ultimately show ?thesis
    using assms(1) stored_patrol_json[of "patrol p"]
    by (simp add: synced_def save_patrol_def load_applied_def or_empty_def ptz_inv_def)
qed

lemma synced_control:
  assumes "synced lb s"
  shows "synced lb (fst (snd (control_ptz lb now body s)))"
  using assms
  by (auto simp: control_ptz_def Let_def synced_targets split: option.split prod.split json.split
      intro: synced_save_presets synced_save_patrol)

lemma synced_patrol:
  assumes "synced lb s"
  shows "synced lb (s\<lparr>ptz := fst (snd (patrol_tick now t l (ptz s)))\<rparr>)"
proof (rule synced_ptz[OF assms])
  show "ptz_inv (fst (snd (patrol_tick now t l (ptz s))))"
    by (rule ptz_inv_patrol[OF synced_inv[OF assms]])
  show "presets (fst (snd (patrol_tick now t l (ptz s)))) = presets (ptz s)"
    "patrol_setting (patrol (fst (snd (patrol_tick now t l (ptz s))))) = patrol_setting (patrol (ptz s))"
    by (simp_all add: patrol_tick_def patrol_setting_def Let_def split: prod.split option.split)
qed

lemma synced_step: "synced lb s \<Longrightarrow> synced lb (streamer_step lb op s)"
proof (cases op)
  case (OpRegister d)
  assume s: "synced lb s"
  have "synced lb (snd (register lb d s))"
    by (rule synced_fields[OF s]; simp add: register_def save_def split: sum.split)
  then show ?thesis using OpRegister by simp
next
  case (OpStart reached)
  assume "synced lb s"
  then have "synced lb (snd (streaming_start lb reached s))" by (rule synced_start)
  moreover have "snd (post_streaming_start lb reached s) = snd (streaming_start lb reached s)"
    by (simp add: post_streaming_start_def split: prod.split outcome.split)
  ultimately show ?thesis using OpStart by simp
next
  case (OpRestore reached)
  assume "synced lb s"
  then show ?thesis using OpRestore synced_activate[of lb s reached]
    by (simp add: restore_attempt_def Let_def split: prod.split bool.split) (metis snd_conv)
qed (simp_all add: synced_stop synced_control synced_targets synced_patrol)

interpretation streamer: keeps "synced lb" "streamer_step lb" for lb
  by unfold_locales (rule synced_step)

text \<open>
  A restart restores what was there: after any sequence of requests, restore attempts,
  polls and patrol rounds since a boot, booting again from the two files gives the same
  preset positions and the same patrol setting, whatever was started, stopped or refused.
\<close>

theorem restart_restores_ptz:
  "let s = fold (streamer_step lb) ops (boot lb reg app);
       s' = boot lb (registered s) (applied_file s)
   in presets (ptz s') = presets (ptz s) \<and> patrol_setting (patrol (ptz s')) = patrol_setting (patrol (ptz s)) \<and>
      fst ` set (presets (ptz s)) \<subseteq> {1, 2, 3, 4} \<and> 5 \<le> pt_interval (patrol (ptz s))"
proof -
  let ?s = "fold (streamer_step lb) ops (boot lb reg app)"
  have s: "synced lb ?s" by (rule streamer.run_keeps) (rule boot_synced)
  have "presets (ptz (boot lb (registered ?s) (applied_file ?s))) = presets (ptz ?s)"
    using s by (simp add: synced_def boot_def load_applied_def Let_def load_presets_def)
  moreover have "patrol_setting (patrol (ptz (boot lb (registered ?s) (applied_file ?s)))) = patrol_setting (patrol (ptz ?s))"
    using s by (simp add: synced_def boot_def load_applied_def Let_def load_patrol_setting)
  moreover have "fst ` set (presets (ptz ?s)) \<subseteq> {1, 2, 3, 4} \<and> 5 \<le> pt_interval (patrol (ptz ?s))"
    using synced_inv[OF s]
    by (simp add: ptz_inv_def slots_ok_def preset_slots_def patrol_ok_def patrol_min_interval_def)
  ultimately show ?thesis by (simp add: Let_def)
qed

end
