(* ===== verification/Streamer_Service.thy ===== *)
theory Streamer_Service
  imports Streamer_Camera
begin

text \<open>
  Properties of the streamer's companion process: the restore loop and the supervisor, what
  the profile view shows, what a refused PTZ request does, and two interleavings of
  \<open>streaming_start\<close> with PTZ requests.
\<close>

section \<open>Backoff\<close>

interpretation restore_backoff: backoff 1 30 next_restore_delay
  by unfold_locales (simp_all add: next_restore_delay_def)

interpretation restart_backoff: backoff 1 10 next_restart_delay
  by unfold_locales (simp_all add: next_restart_delay_def)

lemma supervisor_bounds:
  "1 \<le> d \<Longrightarrow> d \<le> 10 \<Longrightarrow> b \<in> set (supervisor_delays ups d) \<Longrightarrow> 1 \<le> b \<and> b \<le> 10"
proof (induction ups arbitrary: d)
  case (Cons up ups)
  define slept where "slept = (if 60 < up then 1 else d)"
  have "1 \<le> slept \<and> slept \<le> 10" using Cons.prems by (simp add: slept_def)
  moreover from this have "1 \<le> next_restart_delay slept \<and> next_restart_delay slept \<le> 10"
    using restart_backoff.next_in_range[of slept] by simp
  ultimately show ?case
    using Cons.IH[of "next_restart_delay slept"] Cons.prems(3)
    by (auto simp: supervise_def Let_def slept_def)
qed simp

text \<open>
  MediaMTX is restarted forever with bounded waits: whatever the lengths of its runs,
  every wait lies between 1 and 10 seconds, a run longer than a minute resets it to 1, and
  during a crash loop the waits are 1, 2, 4, 8, 10, 10, ...
\<close>

theorem supervisor_waits:
  "(\<forall>b\<in>set (supervisor_delays ups 1). 1 \<le> b \<and> b \<le> 10) \<and>
   (\<forall>up d. 60 < up \<longrightarrow> fst (supervise up d) = 1) \<and>
   supervisor_delays (replicate n 0) 1 = map (\<lambda>k. min (2 ^ k) 10) [0..<n]"
proof (intro conjI)
  show "\<forall>b\<in>set (supervisor_delays ups 1). 1 \<le> b \<and> b \<le> 10"
    using supervisor_bounds[of 1] by simp
  show "\<forall>up d. 60 < up \<longrightarrow> fst (supervise up d) = 1" by (simp add: supervise_def)
  have "supervisor_delays (replicate n 0) ((next_restart_delay ^^ m) 1) =
      map (\<lambda>k. (next_restart_delay ^^ (m + k)) 1) [0..<n]" for m
  proof (induction n arbitrary: m)
    case (Suc n)
    have "map (\<lambda>k. (next_restart_delay ^^ (m + k)) 1) [0..<Suc n] =
        (next_restart_delay ^^ m) 1 # map (\<lambda>k. (next_restart_delay ^^ (Suc m + k)) 1) [0..<n]"
      by (simp only: upt_conv_Cons[OF zero_less_Suc] list.map map_Suc_upt[symmetric] list.map_comp) (simp add: comp_def)
    then show ?case using Suc[of "Suc m"] by (simp add: supervise_def Let_def del: upt_Suc)
  qed simp
  from this[of 0] show "supervisor_delays (replicate n 0) 1 = map (\<lambda>k. min (2 ^ k) 10) [0..<n]"
    by (simp add: restart_backoff.delay_closed)
qed

section \<open>The restore loop\<close>

definition restorable :: "lib \<Rightarrow> streamer \<Rightarrow> dict \<Rightarrow> bool" where
  "restorable lb s n \<longleftrightarrow> truthy (get_null (load_applied s) ''streaming_active'') \<and>
     get_null (load_applied s) ''profile'' = JObj n \<and> n \<noteq> [] \<and> source_type lb n [] = default_source_type"

lemma attempt_unreached: "restorable lb s n \<Longrightarrow> restore_attempt lb False s = (None, s)"
  by (simp add: restorable_def restore_attempt_def activate_def patch_source_def as_dict_def Let_def)

lemma attempt_reached:
  "restorable lb s n \<Longrightarrow>
   restore_attempt lb True s = (Some Restored, configure_ptz lb n (s\<lparr>mtx_source := rtsp_url lb n\<rparr>))"
  by (simp add: restorable_def restore_attempt_def activate_def patch_source_def as_dict_def Let_def)

lemma attempt_inactive:
  "\<not> truthy (get_null (load_applied s) ''streaming_active'') \<Longrightarrow> restore_attempt lb b s = (Some Aborted, s)"
  by (simp add: restore_attempt_def Let_def)

lemma restore_retries:
  assumes "restorable lb s n"
  shows "restore_loop lb ((next_restore_delay ^^ m) 1) (replicate k (False, id) @ w) s =
    (let (r, ds, s') = restore_loop lb ((next_restore_delay ^^ (m + k)) 1) w s
     in (r, map (\<lambda>i. (next_restore_delay ^^ (m + i)) 1) [0..<k] @ ds, s'))"
proof (induction k arbitrary: m)
  case (Suc k)
  have "map (\<lambda>i. (next_restore_delay ^^ (m + i)) 1) [0..<Suc k] =
      (next_restore_delay ^^ m) 1 # map (\<lambda>i. (next_restore_delay ^^ (Suc m + i)) 1) [0..<k]"
    by (simp only: upt_conv_Cons[OF zero_less_Suc] list.map map_Suc_upt[symmetric] list.map_comp) (simp add: comp_def)
  then show ?case
    using Suc[of "Suc m"] by (simp add: attempt_unreached[OF assms] Let_def del: upt_Suc split: prod.split)
qed simp

lemma stop_inactive: "\<not> truthy (get_null (load_applied (snd (streaming_stop b s))) ''streaming_active'')"
  by (simp add: streaming_stop_def patch_source_def load_applied_def or_empty_def Let_def)

text \<open>
  The stream comes back, unless it was stopped: while a valid profile is active, the
  restore loop outlasts any number of failed attempts, sleeping 1, 2, 4, ... at most 30
  seconds between them, and the first answered attempt connects the source of the applied
  profile; a stop during any of its sleeps ends it without touching the source again.
\<close>

theorem restore_until_stopped:
  assumes active: "restorable lb s n"
  shows "startup_apply lb (replicate k (False, id) @ [(True, id)]) s =
      (Some Restored, map (\<lambda>i. min (2 ^ i) 30) [0..<k], configure_ptz lb n (s\<lparr>mtx_source := rtsp_url lb n\<rparr>)) \<and>
    startup_apply lb (replicate k (False, id) @ [(False, \<lambda>s. snd (streaming_stop b s)), (True, id)]) s =
      (Some Aborted, map (\<lambda>i. min (2 ^ i) 30) [0..<Suc k], snd (streaming_stop b s))"
proof -
  have start: "startup_apply lb w s = restore_loop lb ((next_restore_delay ^^ 0) 1) w s" for w
    using active by (simp add: startup_apply_def restorable_def)
  have delays: "map (\<lambda>i. (next_restore_delay ^^ (0 + i)) 1) [0..<j] = map (\<lambda>i. min (2 ^ i) 30) [0..<j]" for j
    by (simp add: restore_backoff.delay_closed)
  show ?thesis
    unfolding start restore_retries[OF active] delays
    by (simp add: attempt_reached[OF active] attempt_unreached[OF active]
        attempt_inactive[OF stop_inactive] restore_backoff.delay_closed Let_def)
qed

section \<open>What the profile view shows\<close>

lemma map_of_filter_key: "map_of (filter (\<lambda>kv. fst kv \<noteq> k) d) k = None"
  by (induction d) auto

text \<open>
  The password stays in the streamer (FR-013): whatever is registered, the profile view
  has no \<open>password\<close> field, and it says truthfully whether one is set; registering without a
  password keeps the registered one.
\<close>

theorem password_never_shown:
  "map_of (profile_view lb s) ''password'' = None \<and>
   (registered s = Some r \<and> r \<noteq> [] \<and> source_type lb r [] = default_source_type \<longrightarrow>
      map_of (profile_view lb s) ''password_set'' = Some (JBool (truthy (get_null r ''password'')))) \<and>
   (registered s = Some r \<and> truthy (get_null r ''password'') \<and> \<not> truthy (get_null d ''password'') \<and>
      fst (register lb d s) = Done \<longrightarrow>
      get_null (or_empty (registered (snd (register lb d s)))) ''password'' = get_null r ''password'')"
proof (intro conjI impI; (elim conjE)?)
  have "''password'' \<notin> fst ` set (filter (\<lambda>kv. fst kv \<noteq> ''password'') c)" for c :: dict by auto
  then show "map_of (profile_view lb s) ''password'' = None"
    by (simp add: profile_view_def Let_def update_all_other)
next
  assume "registered s = Some r" "r \<noteq> []" "source_type lb r [] = default_source_type"
  then show "map_of (profile_view lb s) ''password_set'' = Some (JBool (truthy (get_null r ''password'')))"
    by (simp add: profile_view_def or_empty_def Let_def)
next
  assume r: "registered s = Some r" "truthy (get_null r ''password'')" "\<not> truthy (get_null d ''password'')"
    and ok: "fst (register lb d s) = Done"
  then obtain n where n: "normalize lb d r = Inr n"
    by (auto simp: register_def or_empty_def split: sum.splits)
  from n r(2,3) have pw: "map_of n ''password'' = Some (get_null r ''password'')"
    and dist: "distinct (map fst n)"
    by (auto simp: normalize_def normalize_rtsp_def Let_def split: if_splits option.splits)
  have "get_null (update_all r n) ''password'' = get_null r ''password''"
    using pw by (simp add: get_null_def map_of_update_all[OF dist])
  then show "get_null (or_empty (registered (snd (register lb d s)))) ''password'' = get_null r ''password''"
    using r(1) n by (simp add: register_def save_def or_empty_def)
qed

section \<open>PTZ requests\<close>

definition in_range :: "ptz_cmd \<Rightarrow> bool" where
  "in_range c \<longleftrightarrow> (case c of AbsoluteMove x y \<Rightarrow> -1 \<le> x \<and> x \<le> 1 \<and> -1 \<le> y \<and> y \<le> 1 | _ \<Rightarrow> True)"

text \<open>
  A refused PTZ request does nothing: it leaves positions, presets, patrol and files as
  they were and sends the camera no command; and an absolute move stays within the ONVIF
  range whatever numbers the client sends.
\<close>

theorem ptz_request_effects:
  "(case control_ptz lb now body s of
      (Some _, s', cmds) \<Rightarrow> s' = s \<and> cmds = []
    | (None, s', cmds) \<Rightarrow> mtx_source s' = mtx_source s \<and> registered s' = registered s \<and> length cmds \<le> 1 \<and>
        (get_null body ''action'' = JStr ''absolute'' \<longrightarrow> s' = s \<and> list_all in_range cmds \<and> length cmds = 1))"
proof (cases "control_ptz lb now body s")
  case (fields r s' cmds)
  have "length (snd (set_patrol b i p)) \<le> 1" for b i p
    by (simp add: set_patrol_def Let_def split: option.split)
  then have patrol_cmds: "set_patrol b i p = (p', cs) \<Longrightarrow> length cs \<le> 1" for b i p p' cs
    by (metis snd_conv)
  have frames: "mtx_source (save_presets ps t) = mtx_source t" "registered (save_presets ps t) = registered t"
    "mtx_source (save_patrol q t) = mtx_source t" "registered (save_patrol q t) = registered t" for ps t q
    by (simp_all add: save_presets_def save_patrol_def)
  show ?thesis
    using fields patrol_cmds
    unfolding control_ptz_def Let_def
    by (auto simp: frames in_range_def clamp_def split: if_splits option.splits prod.splits json.splits)
qed

section \<open>Starting while PTZ requests arrive\<close>

text \<open>
  \<open>streaming_start\<close> reads the applied slot, then talks to MediaMTX for up to five seconds,
  then writes the slot. PTZ requests take only the file lock, so they can fall in between:
  \<open>start_begin\<close> and \<open>start_finish\<close> are the two halves.
\<close>

definition start_begin :: "lib \<Rightarrow> streamer \<Rightarrow> string + dict \<times> dict" where
  "start_begin lb s =
     (case registered s of
        None \<Rightarrow> Inl ''no registered profile''
      | Some r \<Rightarrow> (case normalize lb r r of Inl e \<Rightarrow> Inl e | Inr config \<Rightarrow> Inr (config, load_applied s)))"

definition start_finish :: "lib \<Rightarrow> bool \<Rightarrow> dict \<times> dict \<Rightarrow> streamer \<Rightarrow> outcome \<times> streamer" where
  "start_finish lb reached begun s =
     (case begun of (config, applied) \<Rightarrow>
        let previous = as_dict (get_null applied ''profile'');
            kept = (if get_null previous ''ip'' \<noteq> get_null config ''ip'' then []
                    else as_dict (get_null applied ''ptz_presets''))
        in case activate lb reached config s of
             (False, s1) \<Rightarrow> (Failed api_error, s1)
           | (True, s1) \<Rightarrow>
               (let s2 = save_applied
                      [(''streaming_active'', JBool True), (''profile'', JObj config),
                       (''ptz_presets'', JObj kept),
                       (''ptz_patrol'', if truthy (get_null applied ''ptz_patrol'')
                          then get_null applied ''ptz_patrol'' else patrol_json (patrol (ptz s1)))] s1
                in (Done, s2\<lparr>ptz := load_presets (rd lb) kept (ptz s2)\<rparr>)))"

lemma start_halves:
  "streaming_start lb reached s =
     (case start_begin lb s of Inl e \<Rightarrow> (Failed e, s) | Inr begun \<Rightarrow> start_finish lb reached begun s)"
  by (simp add: streaming_start_def start_begin_def start_finish_def split: option.split sum.split)

definition patrol_on :: dict where
  "patrol_on = [(''action'', JStr ''patrol''), (''enabled'', JBool True)]"

lemma patrol_on_effect:
  "\<exists>s1. control_ptz lb now patrol_on s = (None, s1, []) \<and> registered s1 = registered s \<and>
     pt_enabled (patrol (ptz s1)) \<and> mtx_source s1 = mtx_source s"
  by (simp add: control_ptz_def patrol_on_def get_null_def set_patrol_def save_patrol_def Let_def)

text \<open>
  A setting made during a start is lost: when the patrol is turned on between the read
  of the applied slot and its write, the request succeeds and the patrol runs, but the slot
  keeps the old setting, so after a restart the patrol is off.
\<close>

theorem start_overwrites_patrol:
  assumes begun: "start_begin lb s = Inr (n, applied)"
    and off: "truthy (get_null applied ''ptz_patrol'')" "fst (stored_setting (get_null applied ''ptz_patrol'')) = False"
  shows "\<exists>s1 s2. control_ptz lb now patrol_on s = (None, s1, []) \<and>
    start_finish lb True (n, applied) s1 = (Done, s2) \<and> pt_enabled (patrol (ptz s2)) \<and>
    \<not> pt_enabled (patrol (ptz (boot lb (registered s2) (applied_file s2))))"
proof -
  obtain s1 where s1: "control_ptz lb now patrol_on s = (None, s1, [])" "pt_enabled (patrol (ptz s1))"
    using patrol_on_effect by blast
  obtain r where n: "normalize lb r r = Inr n"
    using begun by (auto simp: start_begin_def split: option.splits sum.splits)
  obtain s2 where fin: "start_finish lb True (n, applied) s1 = (Done, s2)"
    by (simp add: start_finish_def Let_def activate_normalized[OF n])
  have en: "pt_enabled (patrol (ptz s2))"
    using fin s1(2) by (auto simp: start_finish_def Let_def activate_normalized[OF n] save_applied_def
        load_presets_def frame_simps)
  have "get_null (or_empty (applied_file s2)) ''ptz_patrol'' = get_null applied ''ptz_patrol''"
    using fin off(1) by (auto simp: start_finish_def Let_def activate_normalized[OF n] save_applied_def
        or_empty_def get_null_def)
  then have "fst (patrol_setting (patrol (ptz (boot lb (registered s2) (applied_file s2))))) = False"
    using off(2) by (simp add: boot_def Let_def load_patrol_setting)
  with s1 fin en show ?thesis by (auto simp: patrol_setting_def)
qed

text \<open>
  A preset of the old camera can be saved for the new one: a start that switches to a
  camera at another address drops the presets but keeps the last polled position, so a save
  before the first poll of the new camera stores the old camera's coordinates in its slot.
\<close>

theorem switch_keeps_stale_position:
  assumes start: "streaming_start lb True s = (Done, s')" and pos: "current (ptz s) = Some c"
    and n: "get_null (load_applied s') ''profile'' = JObj n"
    and switched: "get_null (as_dict (get_null (load_applied s) ''profile'')) ''ip'' \<noteq> get_null n ''ip''"
    and onvif: "truthy (get_null n ''onvif_port'')" and slot: "slot \<in> set preset_slots"
  shows "presets (ptz s') = [] \<and> fst (save_preset slot (ptz s')) = Some [(slot, c)]"
proof -
  obtain r m where r: "registered s = Some r" and m: "normalize lb r r = Inr m"
    using start by (auto simp: streaming_start_def split: option.splits sum.splits)
  have "m = n"
    using start n by (auto simp: streaming_start_def r m Let_def activate_normalized[OF m] save_applied_def
        load_applied_def or_empty_def get_null_def frame_simps)
  with m have mn: "normalize lb r r = Inr n" by simp
  have "loaded_presets (rd lb) [] = []" by (simp add: loaded_presets_def)
  with start switched onvif pos slot show ?thesis
    by (auto simp: streaming_start_def r mn Let_def activate_normalized[OF mn] save_applied_def load_presets_def
        configure_ptz_def configure_def save_preset_def)
qed

section \<open>The properties on concrete profiles\<close>

definition sample_lib :: lib where
  "sample_lib = \<lparr>rp = (\<lambda>_. []), rd = (\<lambda>_. None), quote = id\<rparr>"

definition sample_profile :: "string \<Rightarrow> dict" where
  "sample_profile ip = [(''source_type'', JStr default_source_type), (''ip'', JStr ip), (''username'', JStr ''u''),
     (''password'', JStr ''p''), (''rtsp_port'', JInt 554), (''onvif_port'', JInt 80), (''stream_path'', JStr ''s'')]"

lemma strip_samples: "strip ''a'' = ''a''" "strip ''b'' = ''b''" "strip ''u'' = ''u''" "strip ''p'' = ''p''" "strip ''s'' = ''s''"
  by code_simp+

lemma sample_normal: "ip = ''a'' \<or> ip = ''b'' \<Longrightarrow> normalize sample_lib (sample_profile ip) (sample_profile ip) = Inr (sample_profile ip)"
  by (auto simp: normalize_def source_type_def normalize_rtsp_def sample_profile_def sample_lib_def get_null_def
      get_or_def coalesce_def coalesce_optional_def has_key_def required_fields_def nonblank_def
      strip_samples strip_default Let_def)

definition sample_streamer :: streamer where
  "sample_streamer = \<lparr>registered = Some (sample_profile ''b''),
     applied_file = Some [(''streaming_active'', JBool True), (''profile'', JObj (sample_profile ''a'')),
       (''ptz_presets'', JObj []), (''ptz_patrol'', JObj [(''enabled'', JBool False)])],
     mtx_source = source_detached, ptz = initial_ptz\<lparr>current := Some \<lparr>pan = 0, tilt = 0\<rparr>\<rparr>\<rparr>"

lemma sample_restorable: "restorable sample_lib sample_streamer (sample_profile ''a'')"
  by (simp add: restorable_def sample_streamer_def load_applied_def or_empty_def get_null_def
      sample_profile_def source_type_def sample_lib_def Let_def strip_default)

theorem supervisor_waits_witness: "fst (supervise 61 8) = 1"
  using supervisor_waits[of "[]" 0] by simp

theorem restore_until_stopped_witness:
  "fst (startup_apply sample_lib (replicate 2 (False, id) @ [(True, id)]) sample_streamer) = Some Restored \<and>
   fst (snd (startup_apply sample_lib (replicate 2 (False, id) @ [(True, id)]) sample_streamer)) = [1, 2]"
  using restore_until_stopped[OF sample_restorable, of 2 True] by (simp add: upt_rec)

theorem streaming_start_connects_witness:
  "\<exists>s'. streaming_start sample_lib True sample_streamer = (Done, s') \<and> status_view sample_lib s' = (True, False)"
proof -
  have "registered sample_streamer = Some (sample_profile ''b'')" by (simp add: sample_streamer_def)
  then have "fst (streaming_start sample_lib True sample_streamer) = Done"
    using sample_normal[of "''b''"]
    by (simp add: streaming_start_def Let_def activate_normalized[OF sample_normal])
  then obtain s' where s': "streaming_start sample_lib True sample_streamer = (Done, s')"
    by (cases "streaming_start sample_lib True sample_streamer") simp
  then show ?thesis using streaming_start_connects[where lb = sample_lib and reached = True and s = sample_streamer] by auto
qed

theorem password_never_shown_witness:
  "map_of (profile_view sample_lib sample_streamer) ''password_set'' = Some (JBool True)"
proof -
  have "source_type sample_lib (sample_profile ''b'') [] = default_source_type"
    by (rule source_type_normalized[OF sample_normal]) simp
  then show ?thesis
    using password_never_shown[where lb = sample_lib and s = sample_streamer and r = "sample_profile ''b''" and d = "[]"]
    by (simp add: sample_streamer_def) (simp add: sample_profile_def get_null_def)
qed

theorem ptz_request_effects_witness:
  "snd (snd (control_ptz sample_lib 0 [(''action'', JStr ''absolute''), (''pan'', JInt 3), (''tilt'', JInt 0)] sample_streamer))
     = [AbsoluteMove 1 0] \<and> in_range (AbsoluteMove 1 0)"
proof -
  let ?body = "[(''action'', JStr ''absolute''), (''pan'', JInt 3), (''tilt'', JInt 0)]"
  have c: "control_ptz sample_lib 0 ?body sample_streamer = (None, sample_streamer, [AbsoluteMove 1 0])"
    by (simp add: control_ptz_def get_null_def num_field_def clamp_def)
  then show ?thesis
    using ptz_request_effects[where lb = sample_lib and now = 0 and body = ?body and s = sample_streamer] by (simp add: get_null_def)
qed

theorem start_overwrites_patrol_witness:
  "\<exists>s1 s2. control_ptz sample_lib 5 patrol_on sample_streamer = (None, s1, []) \<and>
    start_finish sample_lib True (sample_profile ''b'', load_applied sample_streamer) s1 = (Done, s2) \<and>
    pt_enabled (patrol (ptz s2)) \<and>
    \<not> pt_enabled (patrol (ptz (boot sample_lib (registered s2) (applied_file s2))))"
proof (rule start_overwrites_patrol)
  show "start_begin sample_lib sample_streamer = Inr (sample_profile ''b'', load_applied sample_streamer)"
    using sample_normal[of "''b''"] by (simp add: start_begin_def sample_streamer_def)
  show "truthy (get_null (load_applied sample_streamer) ''ptz_patrol'')"
    "fst (stored_setting (get_null (load_applied sample_streamer) ''ptz_patrol'')) = False"
    by (simp_all add: sample_streamer_def load_applied_def or_empty_def get_null_def stored_setting_def
        load_patrol_def patrol_setting_def)
qed

theorem switch_keeps_stale_position_witness:
  "\<exists>s'. streaming_start sample_lib True sample_streamer = (Done, s') \<and>
     fst (save_preset 2 (ptz s')) = Some [(2, \<lparr>pan = 0, tilt = 0\<rparr>)]"
proof -
  have reg: "registered sample_streamer = Some (sample_profile ''b'')" by (simp add: sample_streamer_def)
  have nb: "normalize sample_lib (sample_profile ''b'') (sample_profile ''b'') = Inr (sample_profile ''b'')"
    by (rule sample_normal) simp
  obtain s' where s': "streaming_start sample_lib True sample_streamer = (Done, s')"
    using reg nb by (simp add: streaming_start_def Let_def activate_normalized[OF nb])
  have prof: "get_null (load_applied s') ''profile'' = JObj (sample_profile ''b'')"
    using s' by (auto simp: streaming_start_def reg nb Let_def activate_normalized[OF nb] save_applied_def
        load_applied_def or_empty_def get_null_def)
  have "fst (save_preset 2 (ptz s')) = Some [(2, \<lparr>pan = 0, tilt = 0\<rparr>)]"
    by (rule switch_keeps_stale_position[where n = "sample_profile ''b''", THEN conjunct2, OF s' _ prof])
      (simp_all add: sample_streamer_def load_applied_def or_empty_def get_null_def as_dict_def
        sample_profile_def preset_slots_def)
  with s' show ?thesis by blast
qed

end
