(* ===== verification/Streamer_Onvif.thy ===== *)
theory Streamer_Onvif
  imports Streamer_Ptz
begin

text \<open>
  The ONVIF side of \<open>streamer/ptz.py\<close>: the SOAP envelope with its WS-Security header, the
  command bodies, the two regular expressions that read the camera's answers, and the media
  profile token that is asked for once and kept. The camera is a function from the target it is
  asked at and the request to the text of its answer (\<open>None\<close>: the request raised); base64 and
  SHA-1 are parameters, and so is reading a text as a float (\<open>rd\<close>).
\<close>

section \<open>Numbers in a request\<close>

text \<open>\<open>f"{x:.2f}"\<close> and \<open>f"{x:.3f}"\<close>: half to even on the last digit kept.\<close>

definition padded :: "nat \<Rightarrow> int \<Rightarrow> string" where
  "padded n k = replicate (n - length (int_str k)) (CHR ''0'') @ int_str k"

definition fixed :: "nat \<Rightarrow> real \<Rightarrow> string" where
  "fixed n x =
     (let k = py_round (\<bar>x\<bar> * 10 ^ n) in
      (if x < 0 then ''-'' else []) @ int_str (k div 10 ^ n) @ ''.'' @ padded n (k mod 10 ^ n))"

section \<open>Requests\<close>

type_synonym target = "string \<times> string \<times> string"

text \<open>The element at the head of every request: the digest is made of nonce, time and password.\<close>

record crypto =
  b64 :: "string \<Rightarrow> string"
  sha1 :: "string \<Rightarrow> string"

definition password_digest :: "crypto \<Rightarrow> string \<Rightarrow> string \<Rightarrow> string \<Rightarrow> string" where
  "password_digest cr nonce created password = b64 cr (sha1 cr (nonce @ created @ password))"

definition auth_header :: "crypto \<Rightarrow> string \<Rightarrow> string \<Rightarrow> target \<Rightarrow> string" where
  "auth_header cr nonce created tgt =
     (case tgt of (_, user, password) \<Rightarrow>
        ''<wsse:Security xmlns:wsse=\"http://docs.oasis-open.org/wss/2004/01/oasis-200401-wss-wssecurity-secext-1.0.xsd\"'' @
        '' xmlns:wsu=\"http://docs.oasis-open.org/wss/2004/01/oasis-200401-wss-wssecurity-utility-1.0.xsd\">'' @
        ''<wsse:UsernameToken>'' @ ''<wsse:Username>'' @ user @ ''</wsse:Username>'' @
        ''<wsse:Password Type=\"http://docs.oasis-open.org/wss/2004/01/oasis-200401-wss-username-token-profile-1.0#PasswordDigest\">'' @
        password_digest cr nonce created password @ ''</wsse:Password>'' @
        ''<wsse:Nonce EncodingType=\"http://docs.oasis-open.org/wss/2004/01/oasis-200401-wss-soap-message-security-1.0#Base64Binary\">'' @
        b64 cr nonce @ ''</wsse:Nonce>'' @ ''<wsu:Created>'' @ created @ ''</wsu:Created>'' @
        ''</wsse:UsernameToken></wsse:Security>'')"

definition envelope :: "string \<Rightarrow> string \<Rightarrow> string" where
  "envelope header body =
     ''<?xml version=\"1.0\" encoding=\"UTF-8\"?>'' @ ''<s:Envelope xmlns:s=\"http://www.w3.org/2003/05/soap-envelope\">'' @
     ''<s:Header>'' @ header @ ''</s:Header>'' @ ''<s:Body>'' @ body @ ''</s:Body>'' @ ''</s:Envelope>''"

definition get_profiles_body :: string where
  "get_profiles_body = ''<GetProfiles xmlns=\"http://www.onvif.org/ver10/media/wsdl\"/>''"

definition profile_element :: "string \<Rightarrow> string" where
  "profile_element token = ''<ProfileToken>'' @ token @ ''</ProfileToken>''"

definition pan_tilt_element :: "nat \<Rightarrow> real \<Rightarrow> real \<Rightarrow> string" where
  "pan_tilt_element n x y =
     ''<PanTilt xmlns=\"http://www.onvif.org/ver10/schema\" x=\"'' @ fixed n x @ ''\" y=\"'' @ fixed n y @ ''\"/>''"

fun command_body :: "string \<Rightarrow> ptz_cmd \<Rightarrow> string" where
  "command_body token (ContinuousMove x y) =
     ''<ContinuousMove xmlns=\"http://www.onvif.org/ver20/ptz/wsdl\">'' @ profile_element token @
     ''<Velocity>'' @ pan_tilt_element 2 x y @ ''</Velocity>'' @ ''</ContinuousMove>''"
| "command_body token StopMove =
     ''<Stop xmlns=\"http://www.onvif.org/ver20/ptz/wsdl\">'' @ profile_element token @
     ''<PanTilt>true</PanTilt><Zoom>false</Zoom>'' @ ''</Stop>''"
| "command_body token (AbsoluteMove x y) =
     ''<AbsoluteMove xmlns=\"http://www.onvif.org/ver20/ptz/wsdl\">'' @ profile_element token @
     ''<Position>'' @ pan_tilt_element 3 x y @ ''</Position>'' @ ''</AbsoluteMove>''"

definition status_body :: "string \<Rightarrow> string" where
  "status_body token =
     ''<GetStatus xmlns=\"http://www.onvif.org/ver20/ptz/wsdl\">'' @ profile_element token @ ''</GetStatus>''"

section \<open>Reading answers\<close>

text \<open>
  \<open>[^c]*\<close> followed by a continuation, longest run first; a text in double quotes; \<open>re.search\<close>
  tries every position from the left.
\<close>

fun run_then :: "char \<Rightarrow> (string \<Rightarrow> 'a option) \<Rightarrow> string \<Rightarrow> 'a option" where
  "run_then c k [] = k []"
| "run_then c k (x # s) =
     (if x = c then k (x # s) else case run_then c k s of Some r \<Rightarrow> Some r | None \<Rightarrow> k (x # s))"

definition quoted :: "(string \<Rightarrow> string \<Rightarrow> 'a option) \<Rightarrow> string \<Rightarrow> 'a option" where
  "quoted k s =
     (case dropWhile (\<lambda>c. c \<noteq> CHR 0x22) s of [] \<Rightarrow> None | _ # rest \<Rightarrow> k (takeWhile (\<lambda>c. c \<noteq> CHR 0x22) s) rest)"

definition after :: "string \<Rightarrow> (string \<Rightarrow> 'a option) \<Rightarrow> string \<Rightarrow> 'a option" where
  "after w k s = (if starts_with w s then k (drop (length w) s) else None)"

fun search :: "(string \<Rightarrow> 'a option) \<Rightarrow> string \<Rightarrow> 'a option" where
  "search k [] = k []"
| "search k (c # s) = (case k (c # s) of Some r \<Rightarrow> Some r | None \<Rightarrow> search k s)"

definition token_attribute :: "string \<Rightarrow> string option" where
  "token_attribute s =
     (case s of
        [] \<Rightarrow> None
      | c # r \<Rightarrow> if is_space c then after ''token=\"'' (quoted (\<lambda>w _. if w = [] then None else Some w)) r else None)"

definition profiles_token :: "string \<Rightarrow> string option" where
  "profiles_token = search (after ''Profiles'' (run_then (CHR ''>'') token_attribute))"

definition pan_tilt_text :: "string \<Rightarrow> (string \<times> string) option" where
  "pan_tilt_text =
     search (after ''PanTilt'' (run_then (CHR ''/'') (after '' x=\"'' (quoted (\<lambda>x.
       run_then (CHR ''/'') (after '' y=\"'' (quoted (\<lambda>y _. Some (x, y)))))))))"

section \<open>Asking the camera\<close>

type_synonym camera = "target \<Rightarrow> string \<Rightarrow> string option"

definition fallback_token :: string where "fallback_token = ''profile_1''"

text \<open>\<open>_issue_request\<close>: nothing is sent without a target, and any exception is no answer.\<close>

definition issue_request :: "camera \<Rightarrow> string \<Rightarrow> ptz \<Rightarrow> string option" where
  "issue_request cam body p = (case onvif p of None \<Rightarrow> None | Some tgt \<Rightarrow> cam tgt body)"

definition token_from :: "string option \<Rightarrow> string" where
  "token_from text = (case profiles_token (case text of Some t \<Rightarrow> t | None \<Rightarrow> []) of Some t \<Rightarrow> t | None \<Rightarrow> fallback_token)"

definition cached_token :: "ptz \<Rightarrow> string option" where
  "cached_token p = (case profile_token p of Some t \<Rightarrow> if t = [] then None else Some t | None \<Rightarrow> None)"

text \<open>The three parts of \<open>_resolve_profile_token\<close>: look, ask outside the lock, store.\<close>

definition store_token :: "string \<Rightarrow> ptz \<Rightarrow> ptz" where
  "store_token token p = p\<lparr>profile_token := Some token\<rparr>"

definition resolve_profile_token :: "camera \<Rightarrow> ptz \<Rightarrow> string \<times> ptz" where
  "resolve_profile_token cam p =
     (case cached_token p of
        Some t \<Rightarrow> (t, p)
      | None \<Rightarrow> (let token = token_from (issue_request cam get_profiles_body p) in (token, store_token token p)))"

text \<open>\<open>move\<close>, \<open>stop\<close> and \<open>absolute_move\<close>: the request sent, if any.\<close>

definition send_command :: "camera \<Rightarrow> ptz_cmd \<Rightarrow> ptz \<Rightarrow> (target \<times> string) option \<times> ptz" where
  "send_command cam cmd p =
     (case resolve_profile_token cam p of (token, p1) \<Rightarrow>
        (map_option (\<lambda>tgt. (tgt, command_body token cmd)) (onvif p1), p1))"

text \<open>
  \<open>get_status\<close>. The exception of \<open>float\<close> on a number it cannot read is the outer \<open>None\<close>; it
  ends the polling thread.
\<close>

definition get_position :: "(string \<Rightarrow> real option) \<Rightarrow> camera \<Rightarrow> ptz \<Rightarrow> (real \<times> real) option option \<times> ptz" where
  "get_position rd cam p =
     (case resolve_profile_token cam p of (token, p1) \<Rightarrow>
        (case issue_request cam (status_body token) p1 of
           None \<Rightarrow> (Some None, p1)
         | Some text \<Rightarrow>
             (if text = [] then Some None
              else case pan_tilt_text text of
                 None \<Rightarrow> Some None
               | Some (x, y) \<Rightarrow>
                   (case (rd x, rd y) of (Some a, Some b) \<Rightarrow> Some (Some (round3 a, round3 b)) | _ \<Rightarrow> None), p1)))"

definition poll_camera :: "(string \<Rightarrow> real option) \<Rightarrow> camera \<Rightarrow> ptz \<Rightarrow> bool \<times> ptz" where
  "poll_camera rd cam p =
     (case get_position rd cam p of
        (None, p1) \<Rightarrow> (False, p1)
      | (Some status, p1) \<Rightarrow> (True, poll_once status p1))"

section \<open>The usual answer is read\<close>

lemma after_miss: "\<not> starts_with w s \<Longrightarrow> after w k s = None"
  by (simp add: after_def)

text \<open>An attribute is not found where its letter does not occur before the next slash.\<close>

lemma no_attribute:
  "z \<notin> set (takeWhile (\<lambda>c. c \<noteq> CHR ''/'') s) \<Longrightarrow> z \<noteq> CHR ''/'' \<Longrightarrow>
   run_then (CHR ''/'') (after (CHR '' '' # z # ''=\"'') k) s = None"
proof (induction s)
  case (Cons c s)
  show ?case
  proof (cases "c = CHR ''/''")
    case True
    then show ?thesis by (simp add: after_miss starts_with_def)
  next
    case False
    then have "run_then (CHR ''/'') (after (CHR '' '' # z # ''=\"'') k) s = None" using Cons by simp
    moreover have "\<not> starts_with (CHR '' '' # z # ''=\"'') (c # s)"
      using Cons.prems False by (cases s) (auto simp: starts_with_def split: if_splits)
    ultimately show ?thesis using False by (simp add: after_miss)
  qed
qed (simp add: after_miss starts_with_def)

lemmas no_x = no_attribute[of "CHR ''x''", simplified] and no_y = no_attribute[of "CHR ''y''", simplified]

lemma search_skip:
  "(\<And>i. i < length pre \<Longrightarrow> \<not> starts_with w (drop i (pre @ v))) \<Longrightarrow> search (after w k) (pre @ v) = search (after w k) v"
proof (induction pre)
  case (Cons c pre)
  have "search (after w k) (pre @ v) = search (after w k) v"
    using Cons.IH Cons.prems[of "Suc _"] by simp
  moreover have "after w k (c # pre @ v) = None" using Cons.prems[of 0] by (simp add: after_def)
  ultimately show ?case by simp
qed simp

lemma search_here: "k s = Some r \<Longrightarrow> search k s = Some r"
  by (cases s) auto

lemma quoted_value: "CHR 0x22 \<notin> set w \<Longrightarrow> quoted k (w @ CHR 0x22 # rest) = k w rest"
  by (simp add: quoted_def takeWhile_append dropWhile_append)

text \<open>A number as a camera writes it, and the part of an answer that may follow it up to the next slash.\<close>

definition number_text :: "string \<Rightarrow> bool" where
  "number_text w \<longleftrightarrow> set w \<subseteq> set ''0123456789.+-eE''"

definition plain_rest :: "string \<Rightarrow> bool" where
  "plain_rest s \<longleftrightarrow> set (takeWhile (\<lambda>c. c \<noteq> CHR ''/'') s) \<inter> {CHR ''x'', CHR ''y''} = {}"

definition first_pan_tilt :: "string \<Rightarrow> bool" where
  "first_pan_tilt pre \<longleftrightarrow> list_all (\<lambda>i. \<not> starts_with ''PanTilt'' (drop i (pre @ ''PanTilt''))) [0..<length pre]"

lemma number_plain: "number_text w \<Longrightarrow> CHR 0x22 \<notin> set w \<and> CHR ''x'' \<notin> set w \<and> CHR ''y'' \<notin> set w \<and> CHR ''/'' \<notin> set w"
  by (auto simp: number_text_def)

lemma plain_takeWhile: "CHR ''/'' \<notin> set u \<Longrightarrow> takeWhile (\<lambda>c. c \<noteq> CHR ''/'') (u @ v) = u @ takeWhile (\<lambda>c. c \<noteq> CHR ''/'') v"
  by (induction u) auto

lemma same_window: "i < length pre \<Longrightarrow> starts_with w (drop i (pre @ w @ v)) = starts_with w (drop i (pre @ w))"
  by (simp add: starts_with_def)

lemma pan_tilt_read:
  assumes "first_pan_tilt pre" and "number_text a" and "number_text b" and "plain_rest post"
  shows "pan_tilt_text (pre @ ''PanTilt x=\"'' @ a @ ''\" y=\"'' @ b @ ''\"'' @ post) = Some (a, b)"
proof -
  let ?k2 = "\<lambda>x. run_then (CHR ''/'') (after '' y=\"'' (quoted (\<lambda>y _. Some (x, y))))"
  let ?k1 = "after '' x=\"'' (quoted ?k2)"
  let ?tail = "b @ CHR 0x22 # post" and ?v = "'' x=\"'' @ a @ ''\" y=\"'' @ b @ ''\"'' @ post"
  have nb: "run_then (CHR ''/'') (after '' y=\"'' (quoted (\<lambda>y _. Some (x, y)))) ?tail = None" for x :: string
    using assms(3,4) number_plain[OF assms(3)] by (intro no_y) (auto simp: plain_takeWhile plain_rest_def)
  have na: "run_then (CHR ''/'') ?k1 (a @ ''\" y=\"'' @ ?tail) = None"
    using assms(4) number_plain[OF assms(2)] number_plain[OF assms(3)]
    by (intro no_x) (auto simp: plain_takeWhile plain_rest_def)
  have y: "?k2 (x :: string) ('' y=\"'' @ ?tail) = Some (x, b)" for x
    using nb[of x] number_plain[OF assms(3)] by (simp add: after_def starts_with_def quoted_value)
  have "run_then (CHR ''/'') ?k1 ?v = ?k1 ?v"
    using na by (simp add: after_def starts_with_def split: option.split)
  also have "\<dots> = Some (a, b)"
    using y[of a] number_plain[OF assms(2)] by (simp add: after_def starts_with_def quoted_value)
  finally have here: "after ''PanTilt'' (run_then (CHR ''/'') ?k1) (''PanTilt'' @ ?v) = Some (a, b)"
    by (simp add: after_def starts_with_def)
  have "\<not> starts_with ''PanTilt'' (drop i (pre @ ''PanTilt'' @ ?v))" if "i < length pre" for i
  proof -
    have "\<not> starts_with ''PanTilt'' (drop i (pre @ ''PanTilt''))"
      using assms(1) that by (simp only: first_pan_tilt_def list_all_iff) simp
    then show ?thesis unfolding same_window[OF that] .
  qed
  then have skip: "search (after ''PanTilt'' (run_then (CHR ''/'') ?k1)) (pre @ ''PanTilt'' @ ?v) =
      search (after ''PanTilt'' (run_then (CHR ''/'') ?k1)) (''PanTilt'' @ ?v)"
    by (rule search_skip)
  have "pan_tilt_text (pre @ ''PanTilt'' @ ?v) = Some (a, b)"
    unfolding pan_tilt_text_def skip by (rule search_here) (rule here)
  then show ?thesis by simp
qed

text \<open>The first profile's token, also behind other attributes.\<close>

lemma first_profile:
  "profiles_token ''<trt:GetProfilesResponse><trt:Profiles fixed=\"true\" token=\"Main\"><tt:Name>a</tt:Name></trt:Profiles><trt:Profiles token=\"Sub\"/>'' = Some ''Main''"
  "profiles_token ''<trt:Profiles/>'' = None"
  by code_simp+

section \<open>Polling\<close>

fun poll_rounds :: "(string \<Rightarrow> real option) \<Rightarrow> camera list \<Rightarrow> ptz \<Rightarrow> bool \<times> ptz" where
  "poll_rounds rd [] p = (True, p)"
| "poll_rounds rd (cam # cams) p =
     (case poll_camera rd cam p of (ok, p1) \<Rightarrow> if ok then poll_rounds rd cams p1 else (False, p1))"

lemma cached_resolve: "cached_token p = Some t \<Longrightarrow> resolve_profile_token cam p = (t, p)"
  by (simp add: resolve_profile_token_def)

text \<open>Once resolved, a token is not asked for again until the target changes.\<close>

lemma search_some: "search k s = Some r \<Longrightarrow> \<exists>v. k v = Some r"
  by (induction s) (auto split: option.splits)

lemma run_then_some: "run_then c k s = Some r \<Longrightarrow> \<exists>v. k v = Some r"
  by (induction s) (auto split: option.splits if_splits)

lemma token_not_empty: "profiles_token s = Some t \<Longrightarrow> t \<noteq> []"
proof -
  assume "profiles_token s = Some t"
  then obtain v where "token_attribute v = Some t"
    unfolding profiles_token_def by (auto simp: after_def dest!: search_some run_then_some split: if_splits)
  then show ?thesis by (auto simp: token_attribute_def after_def quoted_def split: list.splits if_splits)
qed

lemma resolved_is_cached: "resolve_profile_token cam p = (t, p1) \<Longrightarrow> cached_token p1 = Some t \<and> onvif p1 = onvif p"
  by (auto simp: resolve_profile_token_def Let_def store_token_def cached_token_def token_from_def fallback_token_def
      dest: token_not_empty split: option.splits if_splits)

text \<open>
  The position shown follows the camera: when the camera answers the status request in the usual
  form, the numbers it wrote become the current position, rounded to three decimals, and the
  media profile asked about is the one the camera itself named first.
\<close>

theorem poll_reads_position:
  assumes "onvif p = Some tgt" and "profile_token p = None"
    and "cam tgt get_profiles_body = Some profiles" and "profiles_token profiles = Some token"
    and "cam tgt (status_body token) = Some (pre @ ''PanTilt x=\"'' @ a @ ''\" y=\"'' @ b @ ''\"'' @ post)"
    and "first_pan_tilt pre" and "number_text a" and "number_text b" and "plain_rest post"
    and "rd a = Some x" and "rd b = Some y"
  shows "\<exists>p1. poll_camera rd cam p = (True, p1) \<and> current p1 = Some \<lparr>pan = round3 x, tilt = round3 y\<rparr> \<and>
    profile_token p1 = Some token \<and> presets p1 = presets p \<and> onvif p1 = onvif p"
proof -
  have "resolve_profile_token cam p = (token, store_token token p)"
    using assms(1-4) by (simp add: resolve_profile_token_def cached_token_def issue_request_def token_from_def)
  moreover have "issue_request cam (status_body token) (store_token token p) = cam tgt (status_body token)"
    using assms(1) by (simp add: issue_request_def store_token_def)
  ultimately have "poll_camera rd cam p = (True, poll_once (Some (round3 x, round3 y)) (store_token token p))"
    using pan_tilt_read[OF assms(6-9)] assms(5,10,11) by (simp add: poll_camera_def get_position_def)
  then show ?thesis by (simp add: poll_once_def store_token_def)
qed

text \<open>
  C40. One answer whose coordinates are not numbers (the pattern also matches empty quotes) ends the
  position polling for good: \<open>float\<close> raises outside any \<open>try\<close>, the thread of \<open>poll_loop\<close> dies, and
  whatever the camera answers later, the position is never read again.
\<close>

theorem unreadable_answer_ends_polling:
  assumes "onvif p = Some tgt" and "cached_token p = Some token" and "cam tgt (status_body token) = Some text"
    and "pan_tilt_text text = Some (a, b)" and "rd a = None"
  shows "poll_rounds rd (cam # later) p = (False, p)"
proof -
  have "text \<noteq> []" using assms(4) by (auto simp: pan_tilt_text_def after_def starts_with_def)
  then show ?thesis
    using assms by (simp add: poll_camera_def get_position_def cached_resolve issue_request_def split: option.split)
qed

theorem unreadable_answer_ends_polling_witness:
  "poll_rounds (\<lambda>s. if s = [] then None else Some 1) [(\<lambda>_ _. Some ''<tt:PanTilt x=\"\" y=\"\"/>''), (\<lambda>_ _. None)]
     (store_token ''Main'' (configure ''u'' ''n'' ''p'' initial_ptz)) =
   (False, store_token ''Main'' (configure ''u'' ''n'' ''p'' initial_ptz))"
proof (rule unreadable_answer_ends_polling)
  show "onvif (store_token ''Main'' (configure ''u'' ''n'' ''p'' initial_ptz)) = Some (''u'', ''n'', ''p'')"
    by (simp add: store_token_def configure_def)
  show "cached_token (store_token ''Main'' (configure ''u'' ''n'' ''p'' initial_ptz)) = Some ''Main''"
    by (simp add: store_token_def cached_token_def)
  show "pan_tilt_text ''<tt:PanTilt x=\"\" y=\"\"/>'' = Some ([], [])" by code_simp
qed simp_all

section \<open>A camera change while the old camera is asked\<close>

text \<open>
  The answers are stored in a second critical section that does not look at the target again.
  A token asked for at camera A and stored after the switch to camera B stays: every later
  command to B, until the target changes once more, names A's media profile.
\<close>

theorem stale_token_sticks:
  assumes "onvif p = Some a" and "cached_token p = None" and "t = token_from (cam a get_profiles_body)"
  shows "t = fst (resolve_profile_token cam p) \<and>
    (let p1 = store_token t (configure url user password p) in
     \<forall>cam' cmd. send_command cam' cmd p1 = (Some ((url, user, password), command_body t cmd), p1))"
proof (intro conjI)
  show "t = fst (resolve_profile_token cam p)"
    using assms by (simp add: resolve_profile_token_def issue_request_def Let_def)
  have "t \<noteq> []" using assms(3) by (auto simp: token_from_def fallback_token_def dest: token_not_empty split: option.splits)
  then have "cached_token (store_token t (configure url user password p)) = Some t"
    by (simp add: store_token_def cached_token_def)
  then show "let p1 = store_token t (configure url user password p) in
     \<forall>cam' cmd. send_command cam' cmd p1 = (Some ((url, user, password), command_body t cmd), p1)"
    by (simp add: send_command_def cached_resolve) (simp add: store_token_def configure_def)
qed

text \<open>
  The position of the camera before stays, too: \<open>configure\<close> keeps it, so a preset saved before the
  new camera has answered (for ever, if it has no working ONVIF) stores the old camera's
  coordinates as a preset of the new one.
\<close>

theorem old_position_saved_for_new_camera:
  assumes "current p = Some q" and "slot \<in> set preset_slots"
  shows "map_of (the (fst (save_preset slot (configure url user password p)))) slot = Some q"
  using assms by (simp add: save_preset_def configure_def update_conv')

theorem stale_token_sticks_witness:
  "\<forall>cmd. fst (send_command (\<lambda>_ _. Some ''<Profiles token=\"B\">'') cmd
      (store_token ''A'' (configure ''b'' ''n'' ''p'' (configure ''a'' ''n'' ''p'' initial_ptz)))) =
    Some ((''b'', ''n'', ''p''), command_body ''A'' cmd)"
proof -
  have t: "token_from (Some ''<Profiles token=\"A\">'') = ''A''" by code_simp
  have "onvif (configure ''a'' ''n'' ''p'' initial_ptz) = Some (''a'', ''n'', ''p'')" by (simp add: configure_def)
  moreover have "cached_token (configure ''a'' ''n'' ''p'' initial_ptz) = None" by (simp add: configure_def cached_token_def)
  ultimately have "\<forall>cam' cmd. send_command cam' cmd (store_token ''A'' (configure ''b'' ''n'' ''p'' (configure ''a'' ''n'' ''p'' initial_ptz))) =
      (Some ((''b'', ''n'', ''p''), command_body ''A'' cmd), store_token ''A'' (configure ''b'' ''n'' ''p'' (configure ''a'' ''n'' ''p'' initial_ptz)))"
    using stale_token_sticks[of "configure ''a'' ''n'' ''p'' initial_ptz" "(''a'', ''n'', ''p'')" "''A''"
        "\<lambda>_ _. Some ''<Profiles token=\"A\">''" "''b''" "''n''" "''p''", OF _ _ t[symmetric]]
    unfolding Let_def by blast
  then show ?thesis by simp
qed

theorem old_position_saved_for_new_camera_witness:
  "map_of (the (fst (save_preset 1 (configure ''b'' ''n'' ''p'' (initial_ptz\<lparr>current := Some \<lparr>pan = 1, tilt = 2\<rparr>\<rparr>))))) 1 =
    Some \<lparr>pan = 1, tilt = 2\<rparr>"
  by (rule old_position_saved_for_new_camera) (simp_all add: preset_slots_def)

theorem poll_reads_position_witness:
  "\<exists>p1. poll_camera (\<lambda>s. if s = ''0.5'' then Some (1 / 2) else Some 0)
      (\<lambda>_ body. if body = get_profiles_body then Some ''<Profiles token=\"A\">''
        else Some (''<tt:Position><tt:'' @ ''PanTilt x=\"'' @ ''0.5'' @ ''\" y=\"'' @ ''-1'' @ ''\"'' @ ''/>''))
      (configure ''a'' ''n'' ''p'' initial_ptz) = (True, p1) \<and> current p1 = Some \<lparr>pan = round3 (1 / 2), tilt = round3 0\<rparr>"
proof -
  have "profiles_token ''<Profiles token=\"A\">'' = Some ''A''" by code_simp
  moreover have "first_pan_tilt ''<tt:Position><tt:''" by code_simp
  moreover have "status_body ''A'' \<noteq> get_profiles_body" by (simp add: status_body_def get_profiles_body_def)
  ultimately show ?thesis
    using poll_reads_position[of "configure ''a'' ''n'' ''p'' initial_ptz" "(''a'', ''n'', ''p'')"
        "\<lambda>_ body. if body = get_profiles_body then Some ''<Profiles token=\"A\">''
           else Some (''<tt:Position><tt:'' @ ''PanTilt x=\"'' @ ''0.5'' @ ''\" y=\"'' @ ''-1'' @ ''\"'' @ ''/>'')"
        "''<Profiles token=\"A\">''" "''A''" "''<tt:Position><tt:''" "''0.5''" "''-1''" "''/>''"
        "\<lambda>s. if s = ''0.5'' then Some (1 / 2) else Some 0" "1 / 2" 0]
    by (auto simp: configure_def initial_ptz_def number_text_def plain_rest_def)
qed

end
