(* ===== verification/Streamer_Mediamtx.thy ===== *)
theory Streamer_Mediamtx
  imports Prelude
begin

text \<open>
  The MediaMTX child of the streamer's companion process: the supervisor thread and the orderly
  shutdown (\<open>_mediamtx_supervisor\<close> and \<open>_stop_mediamtx\<close> of \<open>streamer/main.py\<close>) as two program
  counters over the shared variables. A child is named by its spawn number and may exit by
  itself at any time; the delays of the supervisor are \<open>Streamer_Service.supervise\<close>.
\<close>

section \<open>The two threads\<close>

datatype supervisor = CheckFlag | Spawning | Waiting nat | BackingOff | SupervisorDone

datatype stopper = NotCalled | FlagRaised | Holding "nat option" | StopDone

record mtx =
  mx_sup :: supervisor
  mx_stop :: stopper
  mx_shutting_down :: bool
  mx_proc :: "nat option"
  mx_children :: "nat list"
  mx_spawned :: nat

definition mtx_start :: mtx where
  "mtx_start = \<lparr>mx_sup = CheckFlag, mx_stop = NotCalled, mx_shutting_down = False, mx_proc = None, mx_children = [], mx_spawned = 0\<rparr>"

text \<open>One step of the supervisor; \<open>None\<close> when it is blocked on its child or finished.\<close>

definition supervisor_step :: "mtx \<Rightarrow> mtx option" where
  "supervisor_step s =
     (case mx_sup s of
        CheckFlag \<Rightarrow> Some (s\<lparr>mx_sup := (if mx_shutting_down s then SupervisorDone else Spawning)\<rparr>)
      | Spawning \<Rightarrow>
          Some (s\<lparr>mx_proc := Some (mx_spawned s), mx_children := mx_spawned s # mx_children s, mx_spawned := Suc (mx_spawned s),
                mx_sup := Waiting (mx_spawned s)\<rparr>)
      | Waiting n \<Rightarrow>
          if n \<in> set (mx_children s) then None
          else Some (s\<lparr>mx_sup := (if mx_shutting_down s then SupervisorDone else BackingOff)\<rparr>)
      | BackingOff \<Rightarrow> Some (s\<lparr>mx_sup := CheckFlag\<rparr>)
      | SupervisorDone \<Rightarrow> None)"

text \<open>
  One step of the shutdown: raise the flag, read the process under the lock, and end the process
  it read (SIGTERM, after 10 seconds SIGKILL) when it is still running.
\<close>

definition stopper_step :: "mtx \<Rightarrow> mtx option" where
  "stopper_step s =
     (case mx_stop s of
        NotCalled \<Rightarrow> Some (s\<lparr>mx_shutting_down := True, mx_stop := FlagRaised\<rparr>)
      | FlagRaised \<Rightarrow> Some (s\<lparr>mx_stop := Holding (mx_proc s)\<rparr>)
      | Holding p \<Rightarrow>
          Some (s\<lparr>mx_children := (case p of None \<Rightarrow> mx_children s | Some n \<Rightarrow> filter (\<lambda>m. m \<noteq> n) (mx_children s)), mx_stop := StopDone\<rparr>)
      | StopDone \<Rightarrow> None)"

definition child_exit :: "nat \<Rightarrow> mtx \<Rightarrow> mtx" where
  "child_exit n s = s\<lparr>mx_children := filter (\<lambda>m. m \<noteq> n) (mx_children s)\<rparr>"

inductive mtx_step :: "mtx \<Rightarrow> mtx \<Rightarrow> bool" where
  supervised: "supervisor_step s = Some s' \<Longrightarrow> mtx_step s s'"
| shutdown: "stopper_step s = Some s' \<Longrightarrow> mtx_step s s'"
| exits: "mtx_step s (child_exit n s)"

inductive_cases mtx_stepE: "mtx_step s s'"

abbreviation mtx_reachable :: "mtx \<Rightarrow> bool" where
  "mtx_reachable s \<equiv> mtx_step\<^sup>*\<^sup>* mtx_start s"

section \<open>One server, and who stops it\<close>

definition mtx_inv :: "mtx \<Rightarrow> bool" where
  "mtx_inv s \<longleftrightarrow>
     (mx_children s = [] \<or> (\<exists>n. mx_sup s = Waiting n \<and> mx_children s = [n] \<and> mx_proc s = Some n)) \<and>
     (mx_shutting_down s \<longleftrightarrow> mx_stop s \<noteq> NotCalled)"

lemma mtx_inv_step: "mtx_step s s' \<Longrightarrow> mtx_inv s \<Longrightarrow> mtx_inv s'"
  by (erule mtx_stepE)
    (auto simp: mtx_inv_def supervisor_step_def stopper_step_def child_exit_def split: supervisor.splits stopper.splits option.splits if_splits)

lemma mtx_inv_start: "mtx_inv mtx_start"
  by (simp add: mtx_inv_def mtx_start_def)

lemma mtx_inv_reachable: "mtx_reachable s \<Longrightarrow> mtx_inv s"
  by (induction rule: rtranclp_induct) (auto intro: mtx_inv_step mtx_inv_start)

text \<open>
  Where a child can still come from once the shutdown is under way: only from a supervisor that had
  read the flag before. \<open>may_spawn\<close> is that window.
\<close>

definition may_spawn :: "mtx \<Rightarrow> bool" where
  "may_spawn s \<longleftrightarrow> mx_sup s = Spawning"

definition settled :: "nat \<Rightarrow> mtx \<Rightarrow> bool" where
  "settled k s \<longleftrightarrow> mx_shutting_down s \<and> \<not> may_spawn s \<and> mx_spawned s = k"

lemma settled_step: "mtx_step s s' \<Longrightarrow> settled k s \<Longrightarrow> settled k s'"
  by (erule mtx_stepE)
    (auto simp: settled_def may_spawn_def supervisor_step_def stopper_step_def child_exit_def split: supervisor.splits stopper.splits if_splits)

lemma settled_steps: "mtx_step\<^sup>*\<^sup>* s s' \<Longrightarrow> settled k s \<Longrightarrow> settled k s'"
  by (induction rule: rtranclp_induct) (auto intro: settled_step)

text \<open>When the flag is raised outside the window, the shutdown reads the last child there will be.\<close>

definition last_read :: "mtx \<Rightarrow> bool" where
  "last_read s \<longleftrightarrow> mx_shutting_down s \<and> \<not> may_spawn s \<and> mtx_inv s \<and>
     (case mx_stop s of
        NotCalled \<Rightarrow> False
      | FlagRaised \<Rightarrow> True
      | Holding p \<Rightarrow> mx_children s = [] \<or> p = mx_proc s
      | StopDone \<Rightarrow> mx_children s = [])"

lemma last_read_supervisor: "supervisor_step s = Some s' \<Longrightarrow> last_read s \<Longrightarrow> last_read s'"
  by (cases "mx_sup s"; cases "mx_stop s") (auto simp: last_read_def may_spawn_def supervisor_step_def mtx_inv_def split: if_splits)

lemma last_read_stopper: "stopper_step s = Some s' \<Longrightarrow> last_read s \<Longrightarrow> last_read s'"
  by (cases "mx_stop s") (auto simp: last_read_def may_spawn_def stopper_step_def mtx_inv_def split: option.splits)

lemma last_read_exit: "last_read s \<Longrightarrow> last_read (child_exit n s)"
  by (cases "mx_stop s") (auto simp: last_read_def may_spawn_def child_exit_def mtx_inv_def split: if_splits)

lemma last_read_step: "mtx_step s s' \<Longrightarrow> last_read s \<Longrightarrow> last_read s'"
  by (auto elim!: mtx_stepE intro: last_read_supervisor last_read_stopper last_read_exit)

lemma last_read_steps: "mtx_step\<^sup>*\<^sup>* s s' \<Longrightarrow> last_read s \<Longrightarrow> last_read s'"
  by (induction rule: rtranclp_induct) (auto intro: last_read_step)

text \<open>
  C32. MediaMTX runs at most once, whatever exits and restarts: the supervisor spawns only after the
  child it waited for is gone. And a shutdown called while the supervisor is not between its check
  of the flag and its spawn leaves no child behind and none follows.
\<close>

theorem one_mediamtx:
  assumes "mtx_reachable s"
  shows "length (mx_children s) \<le> 1 \<and>
    (\<forall>s'. mx_stop s = NotCalled \<and> \<not> may_spawn s \<and> mtx_step\<^sup>*\<^sup>* (the (stopper_step s)) s' \<and> mx_stop s' = StopDone \<longrightarrow>
       mx_children s' = [] \<and> mx_spawned s' = mx_spawned s)"
proof (rule conjI, goal_cases)
  case 1
  show ?case using mtx_inv_reachable[OF assms] by (auto simp: mtx_inv_def)
next
  case 2
  show ?case
  proof (intro allI impI)
    fix s'
    assume s': "mx_stop s = NotCalled \<and> \<not> may_spawn s \<and> mtx_step\<^sup>*\<^sup>* (the (stopper_step s)) s' \<and> mx_stop s' = StopDone"
    let ?s1 = "the (stopper_step s)"
    have inv: "mtx_inv s" by (rule mtx_inv_reachable[OF assms])
    have step: "stopper_step s = Some ?s1" using s' by (simp add: stopper_step_def)
    have "last_read ?s1" "settled (mx_spawned s) ?s1"
      using s' mtx_inv_step[OF shutdown[OF step] inv] by (auto simp: last_read_def settled_def may_spawn_def stopper_step_def)
    then have "last_read s'" "settled (mx_spawned s) s'" using s' last_read_steps settled_steps by blast+
    then show "mx_children s' = [] \<and> mx_spawned s' = mx_spawned s" using s' by (simp add: last_read_def settled_def)
  qed
qed

text \<open>
  In the window it does leave one: the supervisor has read the flag, the shutdown raises it, reads
  the process (none yet) and returns, and the supervisor then starts MediaMTX, which nobody stops.
\<close>

theorem shutdown_leaves_a_child:
  "\<exists>s. mtx_reachable s \<and> mx_stop s = StopDone \<and> mx_children s = [0] \<and> supervisor_step s = None"
proof -
  define s1 where "s1 = mtx_start\<lparr>mx_sup := Spawning\<rparr>"
  define s2 where "s2 = s1\<lparr>mx_shutting_down := True, mx_stop := FlagRaised\<rparr>"
  define s3 where "s3 = s2\<lparr>mx_stop := Holding None\<rparr>"
  define s4 where "s4 = s3\<lparr>mx_children := [], mx_stop := StopDone\<rparr>"
  define s5 where "s5 = s4\<lparr>mx_proc := Some 0, mx_children := [0], mx_spawned := 1, mx_sup := Waiting 0\<rparr>"
  note defs = s1_def s2_def s3_def s4_def s5_def mtx_start_def supervisor_step_def stopper_step_def
  have "mtx_step mtx_start s1" by (rule supervised) (simp add: defs)
  moreover have "mtx_step s1 s2" by (rule shutdown) (simp add: defs)
  moreover have "mtx_step s2 s3" by (rule shutdown) (simp add: defs)
  moreover have "mtx_step s3 s4" by (rule shutdown) (simp add: defs)
  moreover have "mtx_step s4 s5" by (rule supervised) (simp add: defs)
  ultimately have "mtx_reachable s5" by (meson rtranclp.rtrancl_into_rtrancl rtranclp.rtrancl_refl)
  moreover have "mx_stop s5 = StopDone" "mx_children s5 = [0]" "supervisor_step s5 = None" by (simp_all add: defs)
  ultimately show ?thesis by blast
qed

theorem one_mediamtx_witness: "length (mx_children (mtx_start\<lparr>mx_sup := Spawning\<rparr>)) \<le> 1"
proof -
  have "mtx_step mtx_start (mtx_start\<lparr>mx_sup := Spawning\<rparr>)"
    by (rule supervised) (simp add: supervisor_step_def mtx_start_def)
  then show ?thesis using one_mediamtx[of "mtx_start\<lparr>mx_sup := Spawning\<rparr>"] by blast
qed

end
