(* ===== verification/Analyzer_Settings.thy ===== *)
theory Analyzer_Settings
  imports Atomic_File
begin

text \<open>
  The analyzer's settings (\<open>analyzer/settings.py\<close>): cleaning and validation of the label
  vocabulary and of the time-ranged presets, the resolution of the active preset, and the
  settings file. A label dict is the list of its items; a preset is a record whose prompt and
  labels may be absent. The local time is an argument, in minutes since midnight.
\<close>

type_synonym labels = "(string \<times> string list) list"

record preset =
  ps_id :: string
  ps_start :: string
  ps_end :: string
  ps_prompt :: "string option"
  ps_labels :: "labels option"

record settings =
  st_prompt :: json
  st_keywords :: "string list"
  st_labels :: labels
  st_presets :: "preset list"
  st_active :: bool

definition prompt_default :: string where
  "prompt_default = ''Describe the scene.''"

section \<open>Labels\<close>

definition normal_word :: "string \<Rightarrow> string" where
  "normal_word s = py_lower (strip s)"

definition word_ok :: "json \<Rightarrow> bool" where
  "word_ok v \<longleftrightarrow> is_str v \<and> strip (str_of v) \<noteq> []"

definition clean_words :: "json list \<Rightarrow> string list" where
  "clean_words syns = map (\<lambda>v. normal_word (str_of v)) (filter word_ok syns)"

fun clean_items :: "dict \<Rightarrow> labels \<Rightarrow> labels" where
  "clean_items [] acc = acc"
| "clean_items ((name, v) # d) acc =
     (case v of
        JList syns \<Rightarrow>
          if strip name \<noteq> [] then clean_items d (AList.update (strip name) (clean_words syns) acc)
          else clean_items d acc
      | _ \<Rightarrow> clean_items d acc)"

definition clean_labels :: "json \<Rightarrow> labels" where
  "clean_labels v = (case v of JObj d \<Rightarrow> clean_items d [] | _ \<Rightarrow> [])"

definition list_len :: "json \<Rightarrow> nat" where
  "list_len v = (case v of JList l \<Rightarrow> length l | _ \<Rightarrow> 0)"

definition validate_labels :: "json \<Rightarrow> labels option" where
  "validate_labels v =
     (case v of
        JObj d \<Rightarrow>
          (let cleaned = clean_labels v in
           if length cleaned \<noteq> length d then None
           else
             let sent = (\<Sum>e\<leftarrow>d. list_len (snd e)); kept = (\<Sum>e\<leftarrow>cleaned. length (snd e))
             in if kept = sent then Some cleaned else None)
      | _ \<Rightarrow> None)"

section \<open>Presets\<close>

definition parse_hhmm :: "json \<Rightarrow> int option" where
  "parse_hhmm v =
     (case v of
        JStr s \<Rightarrow>
          (case split_on (CHR '':'') s of
             [a, b] \<Rightarrow>
               (case (py_int_of_str a, py_int_of_str b) of
                  (Some h, Some m) \<Rightarrow> if 0 \<le> h \<and> h \<le> 23 \<and> 0 \<le> m \<and> m \<le> 59 then Some (h * 60 + m) else None
                | _ \<Rightarrow> None)
           | _ \<Rightarrow> None)
      | _ \<Rightarrow> None)"

definition clean_preset :: "json \<Rightarrow> preset option" where
  "clean_preset v =
     (case v of
        JObj p \<Rightarrow>
          (let pid = get_null p ''id''; start = get_null p ''start''; stop = get_null p ''end'' in
           if \<not> (is_str pid \<and> strip (str_of pid) \<noteq> []) \<or> parse_hhmm start = None \<or> parse_hhmm stop = None then None
           else Some \<lparr>ps_id = strip (str_of pid), ps_start = str_of start, ps_end = str_of stop,
                  ps_prompt = (let pr = get_null p ''prompt'' in
                    if is_str pr \<and> strip (str_of pr) \<noteq> [] then Some (strip (str_of pr)) else None),
                  ps_labels = (if get_null p ''labels'' \<noteq> JNull then Some (clean_labels (get_null p ''labels'')) else None)\<rparr>)
      | _ \<Rightarrow> None)"

definition clean_presets :: "json \<Rightarrow> preset list" where
  "clean_presets v = (case v of JList l \<Rightarrow> List.map_filter clean_preset l | _ \<Rightarrow> [])"

definition nested_ok :: "json \<Rightarrow> bool" where
  "nested_ok v =
     (case v of
        JObj p \<Rightarrow> get_null p ''labels'' = JNull \<or> validate_labels (get_null p ''labels'') \<noteq> None
      | _ \<Rightarrow> False)"

definition validate_presets :: "json \<Rightarrow> preset list option" where
  "validate_presets v =
     (case v of
        JList l \<Rightarrow>
          if \<not> list_all nested_ok l then None
          else (let cleaned = clean_presets v in if length cleaned = length l then Some cleaned else None)
      | _ \<Rightarrow> None)"

text \<open>\<open>[start, end)\<close> on the clock; a start at or after the end wraps past midnight.\<close>

definition in_range :: "int \<Rightarrow> int \<Rightarrow> int \<Rightarrow> bool" where
  "in_range start stop minutes =
     (if start = stop then False
      else if start < stop then start \<le> minutes \<and> minutes < stop
      else start \<le> minutes \<or> minutes < stop)"

definition preset_hits :: "int \<Rightarrow> preset \<Rightarrow> bool" where
  "preset_hits minutes p =
     (case (parse_hhmm (JStr (ps_start p)), parse_hhmm (JStr (ps_end p))) of
        (Some start, Some stop) \<Rightarrow> in_range start stop minutes
      | _ \<Rightarrow> False)"

definition resolve_preset :: "int \<Rightarrow> preset list \<Rightarrow> preset option" where
  "resolve_preset minutes presets = find (preset_hits minutes) presets"

section \<open>The settings file\<close>

definition labels_json :: "labels \<Rightarrow> json" where
  "labels_json ls = JObj (map (\<lambda>(n, ws). (n, JList (map JStr ws))) ls)"

definition preset_json :: "preset \<Rightarrow> json" where
  "preset_json p =
     JObj ([(''id'', JStr (ps_id p)), (''start'', JStr (ps_start p)), (''end'', JStr (ps_end p))] @
       (case ps_prompt p of Some s \<Rightarrow> [(''prompt'', JStr s)] | None \<Rightarrow> []) @
       (case ps_labels p of Some ls \<Rightarrow> [(''labels'', labels_json ls)] | None \<Rightarrow> []))"

definition settings_json :: "settings \<Rightarrow> json" where
  "settings_json s =
     JObj [(''prompt'', st_prompt s), (''keywords'', JList (map JStr (st_keywords s))), (''labels'', labels_json (st_labels s)),
           (''presets'', JList (map preset_json (st_presets s))), (''analysis_active'', JBool (st_active s))]"

text \<open>\<open>written\<close>: the file system raised no OSError.\<close>

definition save :: "bool \<Rightarrow> settings \<Rightarrow> doc \<Rightarrow> doc" where
  "save written s f = (if written then Doc (settings_json s) else f)"

definition with_default :: "dict \<Rightarrow> string \<Rightarrow> json \<Rightarrow> json" where
  "with_default d k v = (case map_of d k of Some w \<Rightarrow> w | None \<Rightarrow> v)"

text \<open>\<open>[k for k in v if isinstance(k, str)]\<close>; \<open>None\<close> when \<open>v\<close> is not iterable.\<close>

definition string_items :: "json \<Rightarrow> string list option" where
  "string_items v =
     (case v of
        JList l \<Rightarrow> Some (map str_of (filter is_str l))
      | JStr s \<Rightarrow> Some (map (\<lambda>c. [c]) s)
      | JObj d \<Rightarrow> Some (map fst d)
      | _ \<Rightarrow> None)"

definition load :: "doc \<Rightarrow> settings option" where
  "load f =
     (case (case f of Missing \<Rightarrow> Some [] | Torn \<Rightarrow> Some [] | Doc (JObj d) \<Rightarrow> Some d | Doc _ \<Rightarrow> None) of
        None \<Rightarrow> None
      | Some d \<Rightarrow>
          map_option (\<lambda>ks.
            \<lparr>st_prompt = (if truthy (get_null d ''prompt'') then get_null d ''prompt'' else JStr prompt_default),
             st_keywords = ks, st_labels = clean_labels (with_default d ''labels'' (JObj [])),
             st_presets = clean_presets (with_default d ''presets'' (JList [])),
             st_active = truthy (with_default d ''analysis_active'' (JBool False))\<rparr>)
            (string_items (with_default d ''keywords'' (JList []))))"

section \<open>Words\<close>

lemma space_lower [simp]: "is_space (lower_char c) = is_space c"
  by (auto simp: is_space_def lower_char_def Let_def)

lemma lower_strip: "strip (py_lower s) = py_lower (strip s)"
proof -
  have d: "dropWhile is_space (map lower_char t) = map lower_char (dropWhile is_space t)" for t
    by (induction t) simp_all
  show ?thesis by (simp add: strip_def lstrip_def rstrip_def py_lower_def d rev_map)
qed

lemma normal_word_idem [simp]: "normal_word (normal_word s) = normal_word s"
  by (simp add: normal_word_def lower_strip)

lemma py_lower_Nil [simp]: "py_lower s = [] \<longleftrightarrow> s = []"
  by (simp add: py_lower_def)

lemma strip_normal: "strip (normal_word s) = normal_word s"
  by (simp add: normal_word_def lower_strip)

definition word_wf :: "string \<Rightarrow> bool" where
  "word_wf w \<longleftrightarrow> w \<noteq> [] \<and> normal_word w = w"

definition labels_wf :: "labels \<Rightarrow> bool" where
  "labels_wf ls \<longleftrightarrow> distinct (map fst ls) \<and> (\<forall>e\<in>set ls. fst e \<noteq> [] \<and> strip (fst e) = fst e \<and> (\<forall>w\<in>set (snd e). word_wf w))"

lemma clean_words_wf: "w \<in> set (clean_words syns) \<Longrightarrow> word_wf w"
  by (auto simp: clean_words_def word_ok_def word_wf_def) (simp add: normal_word_def)

lemma word_wf_strip: "word_wf w \<Longrightarrow> strip w = w"
  by (metis word_wf_def strip_normal)

lemma clean_words_id: "\<forall>w\<in>set ws. word_wf w \<Longrightarrow> clean_words (map JStr ws) = ws"
  by (induction ws) (auto simp: clean_words_def word_ok_def word_wf_strip, simp_all add: word_wf_def)

lemma update_items: "e \<in> set (AList.update k v acc) \<Longrightarrow> e = (k, v) \<or> e \<in> set acc"
  by (induction acc) (auto split: if_splits)

lemma labels_wf_update:
  "labels_wf acc \<Longrightarrow> strip n \<noteq> [] \<Longrightarrow> labels_wf (AList.update (strip n) (clean_words syns) acc)"
  unfolding labels_wf_def by (auto simp: distinct_update clean_words_wf dest!: update_items)

text \<open>An entry the cleaning keeps, and what becomes of it.\<close>

definition entry_ok :: "string \<times> json \<Rightarrow> bool" where
  "entry_ok e \<longleftrightarrow> strip (fst e) \<noteq> [] \<and> (case snd e of JList _ \<Rightarrow> True | _ \<Rightarrow> False)"

definition entry_words :: "string \<times> json \<Rightarrow> string \<times> string list" where
  "entry_words e = (strip (fst e), case snd e of JList l \<Rightarrow> clean_words l | _ \<Rightarrow> [])"

lemma clean_items_step:
  "clean_items (e # d) acc =
     (if entry_ok e then clean_items d (AList.update (strip (fst e)) (snd (entry_words e)) acc) else clean_items d acc)"
  by (cases e) (auto simp: entry_ok_def entry_words_def split: json.split)

lemma clean_items_wf: "labels_wf acc \<Longrightarrow> labels_wf (clean_items d acc)"
proof (induction d arbitrary: acc)
  case (Cons e d)
  then show ?case
    by (auto simp: clean_items_step entry_ok_def entry_words_def labels_wf_update split: json.splits
        simp del: clean_items.simps)
qed simp

lemma clean_labels_wf: "labels_wf (clean_labels v)"
proof -
  have "labels_wf []" by (simp add: labels_wf_def)
  then show ?thesis using clean_items_wf by (cases v) (simp_all add: clean_labels_def)
qed

lemma length_update: "length (AList.update k v acc) = length acc + (if k \<in> fst ` set acc then 0 else 1)"
  by (induction acc) auto

lemma clean_items_length: "length (clean_items d acc) \<le> length acc + length d"
proof (induction d arbitrary: acc)
  case (Cons e d)
  have "length (clean_items d acc) \<le> length acc + length d"
    "length (clean_items d (AList.update (strip (fst e)) (snd (entry_words e)) acc)) \<le> length acc + 1 + length d"
    using Cons[of acc] Cons[of "AList.update (strip (fst e)) (snd (entry_words e)) acc"]
    by (auto simp: length_update split: if_splits)
  then show ?case unfolding clean_items_step by simp
qed simp

lemma clean_items_whole:
  "length (clean_items d acc) = length acc + length d \<longleftrightarrow>
   list_all entry_ok d \<and> distinct (map (strip \<circ> fst) d) \<and> (strip \<circ> fst) ` set d \<inter> fst ` set acc = {}"
proof (induction d arbitrary: acc)
  case (Cons e d)
  let ?acc = "AList.update (strip (fst e)) (snd (entry_words e)) acc"
  have keys: "fst ` set ?acc = insert (strip (fst e)) (fst ` set acc)" by (simp add: dom_update)
  consider "\<not> entry_ok e" | "entry_ok e" "strip (fst e) \<in> fst ` set acc" | "entry_ok e" "strip (fst e) \<notin> fst ` set acc"
    by blast
  then show ?case
  proof cases
    case 1
    then show ?thesis using clean_items_length[of d acc] unfolding clean_items_step by auto
  next
    case 2
    then show ?thesis using clean_items_length[of d ?acc] unfolding clean_items_step by (auto simp: length_update)
  next
    case 3
    then have "length (clean_items (e # d) acc) = length acc + length (e # d) \<longleftrightarrow>
        length (clean_items d ?acc) = length ?acc + length d"
      unfolding clean_items_step by (simp add: length_update)
    then show ?thesis using Cons[of ?acc] 3 unfolding keys by auto
  qed
qed simp

lemma clean_items_words:
  "list_all entry_ok d \<Longrightarrow> distinct (map (strip \<circ> fst) d) \<Longrightarrow> (strip \<circ> fst) ` set d \<inter> fst ` set acc = {} \<Longrightarrow>
   clean_items d acc = acc @ map entry_words d"
proof (induction d arbitrary: acc)
  case (Cons e d)
  have "AList.update (strip (fst e)) (snd (entry_words e)) acc = acc @ [(strip (fst e), snd (entry_words e))]"
    using Cons.prems(3) by (induction acc) auto
  moreover have "(strip (fst e), snd (entry_words e)) = entry_words e" by (simp add: entry_words_def)
  moreover have "clean_items d (acc @ [entry_words e]) = (acc @ [entry_words e]) @ map entry_words d"
    using Cons.prems by (intro Cons.IH) (auto simp: entry_words_def)
  ultimately show ?case using Cons.prems(1) unfolding clean_items_step by simp
qed simp

definition labels_ok :: "dict \<Rightarrow> bool" where
  "labels_ok d \<longleftrightarrow> list_all entry_ok d \<and> distinct (map (strip \<circ> fst) d) \<and>
     list_all (\<lambda>e. case snd e of JList l \<Rightarrow> list_all word_ok l | _ \<Rightarrow> True) d"

lemma filter_whole: "length (filter P xs) = length xs \<longleftrightarrow> list_all P xs"
  by (metis filter_id_conv length_filter_less list_all_iff less_irrefl)

lemma entry_words_length:
  "entry_ok e \<Longrightarrow> length (snd (entry_words e)) \<le> list_len (snd e) \<and>
   (length (snd (entry_words e)) = list_len (snd e) \<longleftrightarrow> (case snd e of JList l \<Rightarrow> list_all word_ok l | _ \<Rightarrow> True))"
  by (cases "snd e") (simp_all add: entry_ok_def entry_words_def clean_words_def list_len_def filter_whole)

lemma words_kept:
  "list_all entry_ok d \<Longrightarrow>
   (\<Sum>e\<leftarrow>map entry_words d. length (snd e)) \<le> (\<Sum>e\<leftarrow>d. list_len (snd e)) \<and>
   ((\<Sum>e\<leftarrow>map entry_words d. length (snd e)) = (\<Sum>e\<leftarrow>d. list_len (snd e)) \<longleftrightarrow>
      list_all (\<lambda>e. case snd e of JList l \<Rightarrow> list_all word_ok l | _ \<Rightarrow> True) d)"
proof (induction d)
  case (Cons e d)
  then have "entry_ok e" by simp
  note one = entry_words_length[OF this]
  from Cons have ih: "(\<Sum>e\<leftarrow>map entry_words d. length (snd e)) \<le> (\<Sum>e\<leftarrow>d. list_len (snd e))"
    "(\<Sum>e\<leftarrow>map entry_words d. length (snd e)) = (\<Sum>e\<leftarrow>d. list_len (snd e)) \<longleftrightarrow>
      list_all (\<lambda>e. case snd e of JList l \<Rightarrow> list_all word_ok l | _ \<Rightarrow> True) d" by simp_all
  show ?case unfolding list.map sum_list.Cons list.pred_inject(2) ih(2)[symmetric] using one ih(1) by linarith
qed simp

text \<open>
  The label vocabulary is taken whole or not at all: a dict is accepted exactly when every
  name is non-blank, every value a list of non-blank strings, and no two names agree after
  stripping; what is stored is then that dict with names stripped and words stripped and
  lower-cased, in the same order.
\<close>

theorem validate_labels_exact:
  "validate_labels (JObj d) = (if labels_ok d then Some (map entry_words d) else None)"
proof (cases "list_all entry_ok d \<and> distinct (map (strip \<circ> fst) d)")
  case True
  then have "clean_labels (JObj d) = map entry_words d" using clean_items_words[of d "[]"] by (simp add: clean_labels_def)
  then show ?thesis using True words_kept[of d] by (simp add: validate_labels_def labels_ok_def Let_def)
next
  case False
  then have "length (clean_labels (JObj d)) \<noteq> length d" using clean_items_whole[of d "[]"] by (auto simp: clean_labels_def)
  then show ?thesis using False by (auto simp: validate_labels_def labels_ok_def Let_def)
qed

section \<open>Presets over the day\<close>

lemma parse_hhmm_range: "parse_hhmm v = Some t \<Longrightarrow> 0 \<le> t \<and> t < 1440"
  by (auto simp: parse_hhmm_def split: json.splits list.splits option.splits if_splits)

lemma in_range_cyclic:
  assumes "0 \<le> a" "a < 1440" "0 \<le> b" "b < 1440" "0 \<le> m" "m < 1440"
  shows "in_range a b m \<longleftrightarrow> (m - a) mod 1440 < (b - a) mod 1440"
proof -
  have clock: "(x - y) mod 1440 = (if y \<le> x then x - y else x - y + 1440)"
    if "0 \<le> x" "x < 1440" "0 \<le> y" "y < 1440" for x y :: int
  proof (cases "y \<le> x")
    case False
    have "(x - y + 1440) mod 1440 = x - y + 1440" using that False by (intro mod_pos_pos_trivial) auto
    then show ?thesis using False by simp
  qed (use that in \<open>simp add: mod_pos_pos_trivial\<close>)
  show ?thesis using assms by (auto simp: in_range_def clock)
qed

text \<open>
  The active preset: a preset with readable times covers exactly the minutes that come,
  counted around the clock from its start, before its end (none when the two are equal), and
  the one chosen is the first of the list that covers the minute; none is chosen exactly when
  none covers it.
\<close>

theorem active_preset_first_cover:
  assumes "0 \<le> m" "m < 1440"
    and times: "\<And>p. p \<in> set ps \<Longrightarrow> parse_hhmm (JStr (ps_start p)) = Some (a p) \<and> parse_hhmm (JStr (ps_end p)) = Some (b p)"
  shows "case resolve_preset m ps of
      None \<Rightarrow> \<forall>p\<in>set ps. (b p - a p) mod 1440 \<le> (m - a p) mod 1440
    | Some p \<Rightarrow> \<exists>us vs. ps = us @ p # vs \<and> (m - a p) mod 1440 < (b p - a p) mod 1440 \<and>
        (\<forall>q\<in>set us. (b q - a q) mod 1440 \<le> (m - a q) mod 1440)"
proof -
  have hits: "preset_hits m p \<longleftrightarrow> (m - a p) mod 1440 < (b p - a p) mod 1440" if "p \<in> set ps" for p
    using times[OF that] parse_hhmm_range[of "JStr (ps_start p)"] parse_hhmm_range[of "JStr (ps_end p)"] assms(1,2)
    by (simp add: preset_hits_def in_range_cyclic)
  show ?thesis
  proof (cases "resolve_preset m ps")
    case None
    then have "\<forall>p\<in>set ps. \<not> preset_hits m p" by (simp add: resolve_preset_def find_None_iff)
    then show ?thesis using hits by (simp add: None not_less)
  next
    case (Some p)
    then obtain i where i: "i < length ps" "preset_hits m (ps ! i)" "p = ps ! i" "\<forall>j<i. \<not> preset_hits m (ps ! j)"
      by (auto simp: resolve_preset_def find_Some_iff)
    have "ps = take i ps @ p # drop (Suc i) ps" using i(1,3) by (simp add: id_take_nth_drop)
    moreover have "\<not> preset_hits m q" if "q \<in> set (take i ps)" for q
      using that i(1,4) by (auto simp: in_set_conv_nth)
    then have "\<forall>q\<in>set (take i ps). (b q - a q) mod 1440 \<le> (m - a q) mod 1440"
      using hits by (metis in_set_takeD not_less)
    ultimately show ?thesis using Some i hits[of p] by (auto simp del: append_take_drop_id)
  qed
qed

section \<open>Settings over a restart\<close>

definition preset_wf :: "preset \<Rightarrow> bool" where
  "preset_wf p \<longleftrightarrow> ps_id p \<noteq> [] \<and> strip (ps_id p) = ps_id p \<and> parse_hhmm (JStr (ps_start p)) \<noteq> None \<and>
     parse_hhmm (JStr (ps_end p)) \<noteq> None \<and>
     (case ps_prompt p of None \<Rightarrow> True | Some s \<Rightarrow> s \<noteq> [] \<and> strip s = s) \<and>
     (case ps_labels p of None \<Rightarrow> True | Some ls \<Rightarrow> labels_wf ls)"

lemma hhmm_str: "parse_hhmm v \<noteq> None \<Longrightarrow> parse_hhmm (JStr (str_of v)) \<noteq> None"
  by (cases v) (simp_all add: parse_hhmm_def)

lemma clean_preset_wf: "clean_preset v = Some p \<Longrightarrow> preset_wf p"
proof -
  assume c: "clean_preset v = Some p"
  then obtain d where v: "v = JObj d" by (cases v) (simp_all add: clean_preset_def)
  have "parse_hhmm (get_null d ''start'') \<noteq> None" "parse_hhmm (get_null d ''end'') \<noteq> None"
    using c by (auto simp: clean_preset_def v Let_def split: if_splits)
  from hhmm_str[OF this(1)] hhmm_str[OF this(2)] c show ?thesis
    by (auto simp: clean_preset_def v Let_def preset_wf_def clean_labels_wf split: if_splits)
qed

lemma clean_presets_wf: "p \<in> set (clean_presets v) \<Longrightarrow> preset_wf p"
  by (cases v) (auto simp: clean_presets_def map_filter_def clean_preset_wf)

lemma clean_labels_json: "labels_wf ls \<Longrightarrow> clean_labels (labels_json ls) = ls"
proof -
  assume wf: "labels_wf ls"
  let ?d = "map (\<lambda>(n, ws). (n, JList (map JStr ws))) ls"
  have "list_all entry_ok ?d" using wf by (auto simp: list_all_iff entry_ok_def labels_wf_def)
  moreover have "map (strip \<circ> fst) ?d = map fst ls" using wf by (auto simp: labels_wf_def split: prod.split)
  then have "distinct (map (strip \<circ> fst) ?d)" using wf by (simp only: labels_wf_def)
  moreover have "map entry_words ?d = ls"
    using wf by (auto simp: labels_wf_def entry_words_def clean_words_id intro!: map_idI)
  ultimately show ?thesis using clean_items_words[of ?d "[]"] by (simp add: clean_labels_def labels_json_def)
qed

lemma clean_preset_json: "preset_wf p \<Longrightarrow> clean_preset (preset_json p) = Some p"
  by (cases p) (auto simp: clean_preset_def preset_json_def get_null_def preset_wf_def clean_labels_json labels_json_def[symmetric]
      Let_def split: option.splits, auto simp: labels_json_def clean_labels_json[unfolded labels_json_def])

definition settings_wf :: "settings \<Rightarrow> bool" where
  "settings_wf s \<longleftrightarrow> truthy (st_prompt s) \<and> labels_wf (st_labels s) \<and> (\<forall>p\<in>set (st_presets s). preset_wf p)"

lemma map_filter_id: "(\<And>x. x \<in> set xs \<Longrightarrow> f (g x) = Some x) \<Longrightarrow> List.map_filter f (map g xs) = xs"
  by (induction xs) (simp_all add: map_filter_simps)

lemma load_save: "settings_wf s \<Longrightarrow> load (save True s f) = Some s"
  by (cases s) (simp add: settings_wf_def load_def save_def settings_json_def get_null_def with_default_def string_items_def
      clean_labels_json clean_presets_def map_filter_id clean_preset_json o_def filter_True)

lemma load_wf: "load f = Some s \<Longrightarrow> settings_wf s"
  by (auto simp: load_def settings_wf_def clean_labels_wf clean_presets_wf prompt_default_def split: option.splits)

text \<open>
  Settings survive a restart: what the file holds after a save is read back unchanged, for
  every state whose labels and presets went through validation (all of them are, whether they
  came from a request or from the file); and whatever JSON dict the file holds, what is
  loaded from it is such a state again, so a second restart changes nothing more.
\<close>

theorem settings_survive_restart:
  "(settings_wf s \<longrightarrow> load (save True s f) = Some s) \<and>
   (load f = Some s' \<longrightarrow> settings_wf s' \<and> load (save True s' f) = Some s')"
  using load_save load_wf by blast

text \<open>The time format is looser than \<open>HH:MM\<close>: one digit, signs and spaces pass \<open>int\<close>.\<close>

lemma loose_time_format: "parse_hhmm (JStr ''7:5'') = Some 425 \<and> parse_hhmm (JStr '' +7: 5'') = Some 425"
  by code_simp

text \<open>A preset whose prompt is not a string passes the strict validation, without the prompt.\<close>

lemma bad_prompt_dropped:
  "validate_presets (JList [JObj [(''id'', JStr ''n''), (''start'', JStr ''22:00''), (''end'', JStr ''06:00''), (''prompt'', JInt 5)]]) =
     Some [\<lparr>ps_id = ''n'', ps_start = ''22:00'', ps_end = ''06:00'', ps_prompt = None, ps_labels = None\<rparr>]"
  by code_simp

section \<open>Concrete settings\<close>

definition night :: preset where
  "night = \<lparr>ps_id = ''night'', ps_start = ''22:00'', ps_end = ''06:00'', ps_prompt = Some ''Dark?'', ps_labels = Some [(''cat'', [''cat'', ''kitten''])]\<rparr>"

lemma night_times: "parse_hhmm (JStr (ps_start night)) = Some 1320" "parse_hhmm (JStr (ps_end night)) = Some 360"
  by code_simp+

theorem active_preset_first_cover_witness:
  "case resolve_preset 90 [night] of None \<Rightarrow> False | Some p \<Rightarrow> (90 - 1320) mod 1440 < (360 - 1320) mod (1440 :: int)"
proof -
  have "p \<in> set [night] \<Longrightarrow> parse_hhmm (JStr (ps_start p)) = Some 1320 \<and> parse_hhmm (JStr (ps_end p)) = Some 360" for p
    by (simp add: night_times)
  from active_preset_first_cover[of 90 "[night]" "\<lambda>_. 1320" "\<lambda>_. 360", OF _ _ this] show ?thesis
    by (simp split: option.splits)
qed

definition sample_settings :: settings where
  "sample_settings = \<lparr>st_prompt = JStr ''What is there?'', st_keywords = [''cat'', ''fire''], st_labels = [(''cat'', [''cat''])],
     st_presets = [night], st_active = True\<rparr>"

lemma sample_settings_wf: "settings_wf sample_settings"
proof -
  have "labels_wf [(''cat'', [''cat''])]" "labels_wf [(''cat'', [''cat'', ''kitten''])]"
    by (simp_all add: labels_wf_def word_wf_def, code_simp+)
  moreover have "strip ''night'' = ''night''" "strip ''Dark?'' = ''Dark?''" by code_simp+
  ultimately show ?thesis
    using night_times by (simp add: settings_wf_def sample_settings_def preset_wf_def) (simp add: night_def)
qed

theorem settings_survive_restart_witness: "load (save True sample_settings Torn) = Some sample_settings"
  using settings_survive_restart[of sample_settings Torn] sample_settings_wf by blast

end
