(* ===== verification/Analyzer_State.thy ===== *)
theory Analyzer_State
  imports Analyzer_Settings
begin

text \<open>
  The shared runtime state of the analyzer (\<open>analyzer/state.py\<close>): every setter of
  \<open>AppState\<close> as a function on one record, the queues of the event stream, and the snapshot
  the stream sends. A frame is named by a number, a subscriber's queue (at most one element)
  by its number and whether it holds the wake-up token. Clock readings are arguments.
\<close>

record app =
  ap_frame :: "nat option"
  ap_frame_w :: int
  ap_frame_h :: int
  ap_infer_raw :: string
  ap_infer_ms :: real
  ap_protocol :: string
  ap_transport :: string
  ap_config :: dict
  ap_queues :: "(nat \<times> bool) list"
  ap_prompt :: json
  ap_triggers :: "string list"
  ap_labels :: labels
  ap_presets :: "preset list"
  ap_active_preset :: string
  ap_event :: bool
  ap_active :: bool
  ap_pipeline :: string
  ap_detail :: string
  ap_started_at :: seconds
  ap_last_frame_at :: seconds
  ap_restarts :: nat
  ap_vlm_state :: string
  ap_vlm_error :: string
  ap_vlm_models :: "string list"
  ap_vlm_current :: string

definition initial_app :: app where
  "initial_app = \<lparr>ap_frame = None, ap_frame_w = 0, ap_frame_h = 0, ap_infer_raw = [], ap_infer_ms = 0, ap_protocol = [],
     ap_transport = [], ap_config = [], ap_queues = [], ap_prompt = JStr [], ap_triggers = [], ap_labels = [],
     ap_presets = [], ap_active_preset = [], ap_event = False, ap_active = False, ap_pipeline = ''idle'',
     ap_detail = ''waiting_for_vlm'', ap_started_at = 0, ap_last_frame_at = 0, ap_restarts = 0,
     ap_vlm_state = ''initializing'', ap_vlm_error = [], ap_vlm_models = [], ap_vlm_current = []\<rparr>"

section \<open>Setters\<close>

definition sse_push :: "app \<Rightarrow> app" where
  "sse_push a = a\<lparr>ap_queues := map (\<lambda>q. (fst q, True)) (ap_queues a)\<rparr>"

definition current_detail :: "app \<Rightarrow> string" where
  "current_detail a = (if ap_detail a = ''waiting_for_vlm'' \<and> ap_vlm_state a = ''ready'' then [] else ap_detail a)"

definition set_vlm_state :: "string \<Rightarrow> string \<Rightarrow> app \<Rightarrow> app" where
  "set_vlm_state st err a =
     (let a1 = a\<lparr>ap_vlm_state := st, ap_vlm_error := err\<rparr> in sse_push (a1\<lparr>ap_detail := current_detail a1\<rparr>))"

definition set_vlm_models :: "string list \<Rightarrow> string \<Rightarrow> app \<Rightarrow> app" where
  "set_vlm_models models current a = sse_push (a\<lparr>ap_vlm_models := models, ap_vlm_current := current\<rparr>)"

definition set_vlm_current_model :: "string \<Rightarrow> app \<Rightarrow> app" where
  "set_vlm_current_model current a = sse_push (a\<lparr>ap_vlm_current := current\<rparr>)"

definition set_source :: "string \<Rightarrow> string \<Rightarrow> app \<Rightarrow> app" where
  "set_source protocol transport a = a\<lparr>ap_protocol := protocol, ap_transport := transport\<rparr>"

definition set_config :: "dict \<Rightarrow> app \<Rightarrow> app" where
  "set_config c a = a\<lparr>ap_config := c\<rparr>"

definition set_prompt :: "json \<Rightarrow> app \<Rightarrow> app" where
  "set_prompt v a = a\<lparr>ap_prompt := v\<rparr>"

definition set_triggers :: "string list \<Rightarrow> app \<Rightarrow> app" where
  "set_triggers ks a = a\<lparr>ap_triggers := ks\<rparr>"

definition set_label_groups :: "labels \<Rightarrow> app \<Rightarrow> app" where
  "set_label_groups ls a = a\<lparr>ap_labels := ls\<rparr>"

definition set_presets :: "preset list \<Rightarrow> app \<Rightarrow> app" where
  "set_presets ps a = a\<lparr>ap_presets := ps\<rparr>"

definition set_active_preset :: "string \<Rightarrow> app \<Rightarrow> app" where
  "set_active_preset i a = a\<lparr>ap_active_preset := i\<rparr>"

definition set_analysis_active :: "bool \<Rightarrow> app \<Rightarrow> app" where
  "set_analysis_active b a =
     sse_push (if b then a\<lparr>ap_active := True\<rparr> else a\<lparr>ap_active := False, ap_infer_raw := [], ap_event := False\<rparr>)"

definition update_frame :: "seconds \<Rightarrow> nat \<Rightarrow> int \<Rightarrow> int \<Rightarrow> app \<Rightarrow> app" where
  "update_frame now frame w h a =
     (if \<not> ap_active a then a
      else
        let a1 = a\<lparr>ap_frame := Some frame, ap_frame_w := w, ap_frame_h := h, ap_last_frame_at := now,
              ap_started_at := (if ap_started_at a = 0 then now else ap_started_at a),
              ap_pipeline := ''streaming'', ap_detail := []\<rparr>
        in if ap_pipeline a \<noteq> ''streaming'' then sse_push a1 else a1)"

definition update_inference :: "string \<Rightarrow> real \<Rightarrow> bool \<Rightarrow> app \<Rightarrow> app" where
  "update_inference raw ms ev a = sse_push (a\<lparr>ap_infer_raw := raw, ap_infer_ms := ms, ap_event := ev\<rparr>)"

text \<open>\<open>started_at or time.time()\<close>: an absent or zero start time reads the clock.\<close>

definition mark_pipeline_starting :: "seconds \<Rightarrow> string \<Rightarrow> bool \<Rightarrow> seconds option \<Rightarrow> app \<Rightarrow> app" where
  "mark_pipeline_starting now reason restart started_at a =
     sse_push (a\<lparr>ap_pipeline := (if restart then ''restarting'' else ''starting''), ap_detail := reason,
       ap_started_at := (case started_at of Some t \<Rightarrow> if t = 0 then now else t | None \<Rightarrow> now), ap_last_frame_at := 0,
       ap_restarts := (if restart then Suc (ap_restarts a) else ap_restarts a)\<rparr>)"

definition mark_pipeline_idle :: "string \<Rightarrow> app \<Rightarrow> app" where
  "mark_pipeline_idle reason a =
     sse_push (a\<lparr>ap_pipeline := ''idle'', ap_detail := reason, ap_started_at := 0, ap_last_frame_at := 0\<rparr>)"

definition mark_pipeline_stalled :: "string \<Rightarrow> app \<Rightarrow> app" where
  "mark_pipeline_stalled reason a = sse_push (a\<lparr>ap_pipeline := ''stalled'', ap_detail := reason\<rparr>)"

definition mark_pipeline_stopped :: "string \<Rightarrow> app \<Rightarrow> app" where
  "mark_pipeline_stopped reason a =
     sse_push (a\<lparr>ap_pipeline := ''stopped'', ap_detail := reason, ap_started_at := 0\<rparr>)"

section \<open>The event stream\<close>

definition sse_subscribe :: "nat \<Rightarrow> app \<Rightarrow> app" where
  "sse_subscribe i a = a\<lparr>ap_queues := ap_queues a @ [(i, False)]\<rparr>"

definition sse_unsubscribe :: "nat \<Rightarrow> app \<Rightarrow> app" where
  "sse_unsubscribe i a = a\<lparr>ap_queues := filter (\<lambda>q. fst q \<noteq> i) (ap_queues a)\<rparr>"

text \<open>\<open>q.get(timeout=1)\<close>: the token when there is one, else the timeout.\<close>

definition sse_get :: "nat \<Rightarrow> app \<Rightarrow> app" where
  "sse_get i a = a\<lparr>ap_queues := map (\<lambda>q. if fst q = i then (i, False) else q) (ap_queues a)\<rparr>"

text \<open>\<open>round(x, 1)\<close>.\<close>

definition round1 :: "real \<Rightarrow> real" where
  "round1 x = of_int (py_round (x * 10)) / 10"

definition age_since :: "seconds \<Rightarrow> seconds \<Rightarrow> json" where
  "age_since now t = (if 0 < t then JFloat (round1 (max 0 (now - t))) else JNull)"

definition inference_snapshot :: "app \<Rightarrow> dict" where
  "inference_snapshot a =
     [(''frame_w'', JInt (ap_frame_w a)), (''frame_h'', JInt (ap_frame_h a)), (''infer_raw'', JStr (ap_infer_raw a)),
      (''infer_ms'', JFloat (round1 (ap_infer_ms a)))]"

definition stream_snapshot :: "seconds \<Rightarrow> app \<Rightarrow> dict" where
  "stream_snapshot now a =
     [(''pipeline_state'', JStr (ap_pipeline a)), (''pipeline_state_detail'', JStr (current_detail a)),
      (''pipeline_source_protocol'', JStr (ap_protocol a)), (''pipeline_source_transport'', JStr (ap_transport a)),
      (''pipeline_active_for_s'', age_since now (ap_started_at a)),
      (''pipeline_last_frame_age_s'', age_since now (ap_last_frame_at a)),
      (''pipeline_restart_count'', JInt (int (ap_restarts a)))]"

definition runtime_snapshot :: "app \<Rightarrow> dict" where
  "runtime_snapshot a =
     update_all
       [(''inference_prompt'', ap_prompt a), (''trigger_keywords'', JStr (join_with (CHR '','') (ap_triggers a))),
        (''label_groups'', labels_json (ap_labels a)), (''presets'', JList (map preset_json (ap_presets a))),
        (''active_preset'', JStr (ap_active_preset a)), (''event_triggered'', JBool (ap_event a)),
        (''analysis_active'', JBool (ap_active a)), (''vlm_state'', JStr (ap_vlm_state a)), (''vlm_error'', JStr (ap_vlm_error a)),
        (''vlm_models'', JList (map JStr (ap_vlm_models a))), (''vlm_current_model'', JStr (ap_vlm_current a))]
       (map (\<lambda>(k, v). (''cfg_'' @ k, v)) (ap_config a))"

definition snapshot :: "seconds \<Rightarrow> app \<Rightarrow> dict" where
  "snapshot now a = update_all (update_all (inference_snapshot a) (stream_snapshot now a)) (runtime_snapshot a)"

section \<open>After a stop\<close>

text \<open>The calls other threads make while analysis is stopped.\<close>

datatype app_event =
  Frame seconds nat int int | Inference string real bool | Activate bool | Starting seconds string bool "seconds option"
| Idle string | Stalled string | VlmState string string | Setting json "string list" labels "preset list" | Preset string
| Subscribe nat | Unsubscribe nat | Get nat

fun app_step :: "app_event \<Rightarrow> app \<Rightarrow> app" where
  "app_step (Frame now f w h) a = update_frame now f w h a"
| "app_step (Inference raw ms ev) a = update_inference raw ms ev a"
| "app_step (Activate b) a = set_analysis_active b a"
| "app_step (Starting now r re t) a = mark_pipeline_starting now r re t a"
| "app_step (Idle r) a = mark_pipeline_idle r a"
| "app_step (Stalled r) a = mark_pipeline_stalled r a"
| "app_step (VlmState st err) a = set_vlm_state st err a"
| "app_step (Setting p ks ls ps) a = set_presets ps (set_label_groups ls (set_triggers ks (set_prompt p a)))"
| "app_step (Preset i) a = set_active_preset i a"
| "app_step (Subscribe i) a = sse_subscribe i a"
| "app_step (Unsubscribe i) a = sse_unsubscribe i a"
| "app_step (Get i) a = sse_get i a"

lemmas app_defs = sse_push_def set_vlm_state_def set_analysis_active_def update_frame_def update_inference_def
  mark_pipeline_starting_def mark_pipeline_idle_def mark_pipeline_stalled_def set_prompt_def set_triggers_def
  set_label_groups_def set_presets_def set_active_preset_def sse_subscribe_def sse_unsubscribe_def sse_get_def Let_def

fun quiet_event :: "app_event \<Rightarrow> bool" where
  "quiet_event (Activate b) = (\<not> b)"
| "quiet_event (Inference raw ms ev) = False"
| "quiet_event _ = True"

definition quiet :: "app \<Rightarrow> bool" where
  "quiet a \<longleftrightarrow> \<not> ap_active a \<and> ap_infer_raw a = [] \<and> \<not> ap_event a"

text \<open>A quiet state, with the last frame it had.\<close>

definition quiet_with :: "nat option \<Rightarrow> app \<Rightarrow> bool" where
  "quiet_with f a \<longleftrightarrow> quiet a \<and> ap_frame a = f"

definition quiet_step :: "app_event \<Rightarrow> app \<Rightarrow> app" where
  "quiet_step e a = (if quiet_event e then app_step e a else a)"

lemma quiet_step_inv: "quiet_with f a \<Longrightarrow> quiet_with f (quiet_step e a)"
  by (cases e) (simp_all add: quiet_with_def quiet_def quiet_step_def app_defs)

interpretation quiet_run: keeps "quiet_with f" quiet_step
  by unfold_locales (rule quiet_step_inv)

lemma fold_quiet: "list_all quiet_event es \<Longrightarrow> fold quiet_step es a = fold app_step es a"
  by (induction es arbitrary: a) (simp_all add: quiet_step_def)

section \<open>What the event stream shows\<close>

lemma distinct_update_all: "distinct (map fst d) \<Longrightarrow> distinct (map fst (update_all d e))"
  by (induction d e rule: update_all.induct) (simp_all add: set_key_def distinct_update)

definition cfg_items :: "dict \<Rightarrow> dict" where
  "cfg_items c = map (\<lambda>(k, v). (''cfg_'' @ k, v)) c"

lemma cfg_key: "k \<in> fst ` set (cfg_items c) \<Longrightarrow> take 4 k = ''cfg_''"
  by (auto simp: cfg_items_def)

definition runtime_base :: "app \<Rightarrow> dict" where
  "runtime_base a = runtime_snapshot (a\<lparr>ap_config := []\<rparr>)"

lemma runtime_split: "runtime_snapshot a = update_all (runtime_base a) (cfg_items (ap_config a))"
  by (simp add: runtime_snapshot_def runtime_base_def cfg_items_def)

lemma runtime_value: "take 4 k \<noteq> ''cfg_'' \<Longrightarrow> map_of (runtime_snapshot a) k = map_of (runtime_base a) k"
  unfolding runtime_split by (rule update_all_other) (use cfg_key in blast)

text \<open>The fields a client reads; the configuration cannot shadow them.\<close>

lemma snapshot_value:
  "take 4 k \<noteq> ''cfg_'' \<Longrightarrow>
   map_of (snapshot now a) k =
     (map_of (inference_snapshot a) ++ map_of (stream_snapshot now a) ++ map_of (runtime_base a)) k"
proof -
  assume k: "take 4 k \<noteq> ''cfg_''"
  have "distinct (map fst (stream_snapshot now a))" by (simp add: stream_snapshot_def)
  moreover have "distinct (map fst (runtime_snapshot a))"
    unfolding runtime_split by (rule distinct_update_all) (simp add: runtime_base_def runtime_snapshot_def)
  ultimately show ?thesis
    using runtime_value[OF k, of a] by (simp add: snapshot_def map_of_update_all map_add_def)
qed

lemmas snapshot_eval = snapshot_value map_add_def get_null_def inference_snapshot_def stream_snapshot_def runtime_base_def runtime_snapshot_def

lemma snapshot_infer_raw: "get_null (snapshot now a) ''infer_raw'' = JStr (ap_infer_raw a)"
  by (simp add: snapshot_eval)

lemma snapshot_event: "get_null (snapshot now a) ''event_triggered'' = JBool (ap_event a)"
  by (simp add: snapshot_eval)

lemma snapshot_active: "get_null (snapshot now a) ''analysis_active'' = JBool (ap_active a)"
  by (simp add: snapshot_eval)

section \<open>Quiet after a stop\<close>

lemma stop_is_quiet: "quiet_with (ap_frame a) (set_analysis_active False a)"
  by (simp add: quiet_with_def quiet_def app_defs)

text \<open>
  A stop silences the state: whatever frames of a torn-down pipeline, marks, settings and
  subscriptions follow (in any order, as long as no start and no judgment is among them),
  every snapshot of the event stream shows no text, no event and no analysis, and the frame
  of the MJPEG stream is the last one before the stop.
\<close>

theorem stopped_stays_quiet:
  assumes "list_all quiet_event es"
  shows "let b = fold app_step es (set_analysis_active False a) in
    get_null (snapshot now b) ''infer_raw'' = JStr [] \<and> get_null (snapshot now b) ''event_triggered'' = JBool False \<and>
    get_null (snapshot now b) ''analysis_active'' = JBool False \<and> ap_frame b = ap_frame a \<and>
    app_step (Frame t f w h) b = b"
proof -
  have "quiet_with (ap_frame a) (fold app_step es (set_analysis_active False a))"
    using quiet_run.run_keeps[OF stop_is_quiet, of a es] fold_quiet[OF assms] by simp
  then show ?thesis
    by (simp add: Let_def quiet_with_def quiet_def snapshot_infer_raw snapshot_event snapshot_active update_frame_def)
qed

theorem stopped_stays_quiet_witness:
  "get_null (snapshot 9 (fold app_step [Frame 8 1 640 480, Idle ''waiting_for_start'', Subscribe 3]
     (set_analysis_active False (update_inference ''a cat'' 300 True (set_analysis_active True initial_app))))) ''infer_raw'' = JStr []"
  using stopped_stays_quiet[of "[Frame 8 1 640 480, Idle ''waiting_for_start'', Subscribe 3]"
      "update_inference ''a cat'' 300 True (set_analysis_active True initial_app)" 9]
  by (simp add: Let_def)

text \<open>
  Wake-ups are not lost: a push leaves a token in the queue of every subscriber, and the
  queue keeps it until that subscriber takes it.
\<close>

lemma push_reaches_all: "(i, b) \<in> set (ap_queues a) \<Longrightarrow> (i, True) \<in> set (ap_queues (sse_push a))"
  by (force simp: sse_push_def)

end
