(* ===== verification/Analyzer_Pipeline.thy ===== *)
theory Analyzer_Pipeline
  imports Analyzer_State
begin

text \<open>
  The GStreamer side of the analyzer: the ring of VLM context frames, the appsink callback,
  \<open>start_pipeline\<close>, \<open>stop_analysis\<close> and the watchdog (\<open>analyzer/main.py\<close>), with the
  start policy of \<open>analyzer/pipeline_lifecycle.py\<close>, each run without interruption. (How
  they interleave is the subject of \<open>Analyzer_Races\<close>.) A pipeline is named by its launch
  number. What \<open>Gst.parse_launch\<close> does is an input: \<open>None\<close>, or the text of the error it
  raises.
\<close>

section \<open>Ring buffer\<close>

type_synonym sample = "seconds \<times> nat"

definition ring_size :: nat where
  "ring_size = 30"

text \<open>\<open>deque(maxlen=...).append\<close>: the oldest entry leaves a full deque.\<close>

definition ring_push :: "nat \<Rightarrow> sample \<Rightarrow> sample list \<Rightarrow> sample list" where
  "ring_push maxlen x xs = (let ys = xs @ [x] in drop (length ys - maxlen) ys)"

text \<open>\<open>xs[k:]\<close> with Python's reading of a negative \<open>k\<close>.\<close>

definition slice_from :: "int \<Rightarrow> 'a list \<Rightarrow> 'a list" where
  "slice_from k xs = drop (if 0 \<le> k then nat k else length xs - nat (- k)) xs"

definition latest_samples :: "int \<Rightarrow> sample list \<Rightarrow> sample list" where
  "latest_samples n samples = (if n \<le> int (length samples) then slice_from (- n) samples else samples)"

definition last_n :: "nat \<Rightarrow> 'a list \<Rightarrow> 'a list" where
  "last_n n xs = drop (length xs - n) xs"

lemma ring_history: "fold (ring_push m) xs [] = last_n m xs"
proof (induction xs rule: rev_induct)
  case Nil
  then show ?case by (simp add: last_n_def)
next
  case (snoc x xs)
  have "drop (Suc (length ys) - m) (ys @ [x]) = drop (Suc (length xs) - m) (xs @ [x])" if "ys = last_n m xs" for ys
    unfolding that last_n_def by (cases "length xs \<le> m") (simp_all add: Suc_diff_le)
  with snoc show ?case by (simp add: ring_push_def last_n_def Let_def)
qed

lemma latest_last_n: "0 < n \<Longrightarrow> latest_samples n xs = last_n (nat n) xs"
  by (auto simp: latest_samples_def slice_from_def last_n_def)

lemma last_n_last_n: "last_n n (last_n m xs) = last_n (min n m) xs"
  unfolding last_n_def drop_drop by (rule arg_cong[where f = "\<lambda>k. drop k xs"]) auto

text \<open>
  What an inference is given: after any history of frames, \<open>latest_samples(n)\<close> is the last
  \<open>n\<close> frames of the whole history, in capture order, as long as \<open>n\<close> does not exceed the
  ring (30 by default); the bounded deque is not observable.
\<close>

theorem ring_is_recent_history:
  assumes "0 < n" and "n \<le> int m"
  shows "latest_samples n (fold (ring_push m) xs []) = last_n (nat n) xs"
  using assms by (simp add: ring_history latest_last_n last_n_last_n min_def nat_le_iff)

theorem ring_is_recent_history_witness:
  "latest_samples 2 (fold (ring_push 3) [(1, 10), (2, 11), (3, 12), (4, 13)] []) = [(3, 12), (4, 13)]"
  using ring_is_recent_history[of 2 3 "[(1, 10), (2, 11), (3, 12), (4, 13)]"] by (simp add: last_n_def)

text \<open>\<open>N_FRAMES = 0\<close> reads the whole ring: \<open>samples[-0:]\<close> is \<open>samples[0:]\<close>.\<close>

lemma zero_frames_reads_all: "latest_samples 0 xs = xs"
  by (simp add: latest_samples_def slice_from_def)

section \<open>State\<close>

record plant =
  pt_app :: app
  pt_pipeline :: "nat option"
  pt_started :: seconds
  pt_last :: seconds
  pt_ring :: "sample list"
  pt_signal :: bool
  pt_refs :: bool
  pt_launched :: nat

definition on_app :: "(app \<Rightarrow> app) \<Rightarrow> plant \<Rightarrow> plant" where
  "on_app f p = p\<lparr>pt_app := f (pt_app p)\<rparr>"

definition active :: "plant \<Rightarrow> bool" where
  "active p = ap_active (pt_app p)"

text \<open>The appsink callback, by what the sample turns out to be.\<close>

datatype pulled = NoSample | Unmapped | BadFrame | GoodFrame nat int int

datatype flow = FlowOk | FlowError

definition on_new_sample :: "clock \<Rightarrow> pulled \<Rightarrow> plant \<Rightarrow> flow \<times> plant" where
  "on_new_sample tm s p =
     (case s of
        NoSample \<Rightarrow> (FlowError, p)
      | Unmapped \<Rightarrow> (FlowError, p)
      | BadFrame \<Rightarrow> (FlowOk, p)
      | GoodFrame f w h \<Rightarrow>
          (let captured_at = tm 0;
               p1 = p\<lparr>pt_last := captured_at, pt_ring := ring_push ring_size (captured_at, f) (pt_ring p)\<rparr>;
               p2 = on_app (update_frame (tm 1) f w h) p1
           in (FlowOk, p2\<lparr>pt_signal := True\<rparr>)))"

section \<open>Start, stop and the lifecycle policy\<close>

type_synonym launch = "string option"

definition start_pipeline :: "seconds \<Rightarrow> string \<Rightarrow> launch \<Rightarrow> plant \<Rightarrow> launch \<times> plant" where
  "start_pipeline now reason raised p =
     (let restart = (pt_pipeline p \<noteq> None); p1 = p\<lparr>pt_pipeline := None\<rparr> in
      if \<not> active p1 then (None, p1)
      else
        let p2 = p1\<lparr>pt_ring := [], pt_signal := False\<rparr> in
        case raised of
          Some e \<Rightarrow> (Some e, p2)
        | None \<Rightarrow>
            (None, on_app (mark_pipeline_starting now reason restart (Some now))
               (p2\<lparr>pt_pipeline := Some (pt_launched p), pt_launched := Suc (pt_launched p), pt_started := now, pt_last := now\<rparr>)))"

definition request_start :: "seconds \<Rightarrow> string \<Rightarrow> launch \<Rightarrow> plant \<Rightarrow> (string + bool) \<times> plant" where
  "request_start now reason raised p =
     (if \<not> pt_refs p then (Inr False, p)
      else case start_pipeline now reason raised p of
             (Some e, p1) \<Rightarrow> (Inl e, p1)
           | (None, p1) \<Rightarrow> (Inr True, p1))"

definition start_analysis :: "seconds \<Rightarrow> launch \<Rightarrow> plant \<Rightarrow> (string + bool) \<times> plant" where
  "start_analysis now raised p = request_start now ''analysis_start'' raised p"

definition mark_waiting_for_vlm :: "plant \<Rightarrow> plant" where
  "mark_waiting_for_vlm p = on_app (mark_pipeline_idle ''waiting_for_vlm'') p"

definition mark_waiting_for_start :: "plant \<Rightarrow> plant" where
  "mark_waiting_for_start p = on_app (mark_pipeline_idle ''waiting_for_start'') p"

definition ensure_startup_started :: "seconds \<Rightarrow> launch \<Rightarrow> plant \<Rightarrow> (string + bool) \<times> plant" where
  "ensure_startup_started now raised p =
     (if \<not> active p then (Inr False, mark_waiting_for_start p) else request_start now ''startup'' raised p)"

definition handle_watchdog_timeout :: "seconds \<Rightarrow> launch \<Rightarrow> plant \<Rightarrow> (string + bool) \<times> plant" where
  "handle_watchdog_timeout now raised p =
     request_start now ''watchdog_timeout'' raised (on_app (mark_pipeline_stalled ''watchdog_timeout'') p)"

definition stop_analysis :: "plant \<Rightarrow> plant" where
  "stop_analysis p = (if active p then p else mark_waiting_for_start (p\<lparr>pt_pipeline := None\<rparr>))"

definition start_failed :: "string \<Rightarrow> plant \<Rightarrow> plant" where
  "start_failed e p = on_app (mark_pipeline_idle (''start_failed: '' @ take 160 e)) p"

section \<open>The watchdog\<close>

definition watchdog_grace :: seconds where "watchdog_grace = 15"
definition watchdog_timeout :: seconds where "watchdog_timeout = 15"
definition watchdog_timeout_max :: seconds where "watchdog_timeout_max = 60"

definition escalate :: "seconds \<Rightarrow> seconds" where
  "escalate timeout = min (timeout * 2) watchdog_timeout_max"

text \<open>One round of the watchdog loop, after its sleep; the pair carries \<open>timeout\<close>.\<close>

definition watchdog_tick :: "clock \<Rightarrow> launch \<Rightarrow> seconds \<times> plant \<Rightarrow> seconds \<times> plant" where
  "watchdog_tick tm raised st =
     (case st of (timeout, p) \<Rightarrow>
        let started = pt_started p; latest = pt_last p; now = tm 0 in
        if pt_pipeline p = None then st
        else
          let timeout1 = (if started < latest then watchdog_timeout else timeout) in
          if now - started < watchdog_grace then (timeout1, p)
          else if timeout1 < now - latest then
            (if latest \<le> started then escalate timeout1 else timeout1,
             case handle_watchdog_timeout (tm 1) raised p of
               (Inl e, p1) \<Rightarrow> start_failed e p1
             | (Inr _, p1) \<Rightarrow> p1)
          else (timeout1, p))"

interpretation wd: backoff 15 60 escalate
  by unfold_locales (simp_all add: escalate_def watchdog_timeout_max_def)

lemmas plant_defs = on_app_def active_def start_pipeline_def request_start_def handle_watchdog_timeout_def
  mark_waiting_for_vlm_def mark_waiting_for_start_def start_failed_def start_analysis_def stop_analysis_def
  ensure_startup_started_def
lemmas mark_defs = mark_pipeline_stalled_def mark_pipeline_starting_def mark_pipeline_idle_def sse_push_def

section \<open>Silence is bounded\<close>

text \<open>The watchdog's rounds and the frames that arrive between them, on one clock.\<close>

datatype beat = Tick clock | FrameAt clock nat int int

fun beat_step :: "beat \<Rightarrow> seconds \<times> plant \<Rightarrow> seconds \<times> plant" where
  "beat_step (Tick tm) st = watchdog_tick tm None st"
| "beat_step (FrameAt tm f w h) (timeout, p) = (timeout, snd (on_new_sample tm (GoodFrame f w h) p))"

fun in_order :: "seconds \<Rightarrow> beat list \<Rightarrow> bool" where
  "in_order t [] \<longleftrightarrow> True"
| "in_order t (Tick tm # es) \<longleftrightarrow> t \<le> tm 0 \<and> tm 0 \<le> tm 1 \<and> in_order (tm 1) es"
| "in_order t (FrameAt tm f w h # es) \<longleftrightarrow> t \<le> tm 0 \<and> in_order (tm 0) es"

definition watched :: "seconds \<Rightarrow> seconds \<times> plant \<Rightarrow> bool" where
  "watched t st \<longleftrightarrow> (case st of (timeout, p) \<Rightarrow>
     pt_pipeline p \<noteq> None \<and> active p \<and> pt_refs p \<and> pt_started p \<le> pt_last p \<and> pt_last p \<le> t \<and> 15 \<le> timeout \<and> timeout \<le> 60)"

lemma escalate_range: "15 \<le> d \<Longrightarrow> d \<le> 60 \<Longrightarrow> 15 \<le> escalate d \<and> escalate d \<le> 60"
  by (rule wd.next_in_range)

lemma restart_succeeds:
  "pt_refs p \<Longrightarrow> active p \<Longrightarrow> \<exists>q. handle_watchdog_timeout now None p = (Inr True, q) \<and> pt_pipeline q = Some (pt_launched p) \<and>
     pt_launched q = Suc (pt_launched p) \<and> pt_started q = now \<and> pt_last q = now \<and> pt_ring q = [] \<and> \<not> pt_signal q \<and> active q \<and> pt_refs q"
  by (simp add: plant_defs mark_defs Let_def)

lemma watched_tick:
  assumes "watched t st" and "t \<le> tm 0" and "tm 0 \<le> tm 1"
  shows "watched (tm 1) (watchdog_tick tm None st)"
    and "tm 0 - pt_last (snd (watchdog_tick tm None st)) \<le> 60"
    and "pt_launched (snd (watchdog_tick tm None st)) \<noteq> pt_launched (snd st) \<Longrightarrow> 15 < tm 0 - pt_last (snd st)"
proof -
  obtain timeout p where st: "st = (timeout, p)" by (cases st)
  define d where "d = (if pt_started p < pt_last p then watchdog_timeout else timeout)"
  have w: "pt_pipeline p \<noteq> None" "active p" "pt_refs p" "pt_started p \<le> pt_last p" "pt_last p \<le> t" "15 \<le> d" "d \<le> 60"
    using assms(1) by (auto simp: watched_def st d_def watchdog_timeout_def)
  obtain q where q: "handle_watchdog_timeout (tm 1) None p = (Inr True, q)" "pt_pipeline q = Some (pt_launched p)"
    "pt_started q = tm 1" "pt_last q = tm 1" "active q" "pt_refs q"
    using restart_succeeds[OF w(3,2)] by blast
  have tick: "watchdog_tick tm None st =
      (if tm 0 - pt_started p < 15 then (d, p)
       else if d < tm 0 - pt_last p then (if pt_last p \<le> pt_started p then escalate d else d, q) else (d, p))"
    using w(1) by (auto simp: watchdog_tick_def st d_def Let_def q(1)[unfolded One_nat_def] watchdog_grace_def)
  show "watched (tm 1) (watchdog_tick tm None st)"
    unfolding tick using w q assms(2,3) escalate_range[OF w(6,7)] by (auto simp: watched_def)
  show "tm 0 - pt_last (snd (watchdog_tick tm None st)) \<le> 60"
    unfolding tick using w q(4) assms(3) by auto
  show "15 < tm 0 - pt_last (snd st)" if "pt_launched (snd (watchdog_tick tm None st)) \<noteq> pt_launched (snd st)"
    using that w unfolding tick by (auto simp: st split: if_splits)
qed

lemma watched_frame: "watched t st \<Longrightarrow> t \<le> tm 0 \<Longrightarrow> watched (tm 0) (beat_step (FrameAt tm f w h) st)"
  by (cases st) (auto simp: watched_def on_new_sample_def Let_def plant_defs update_frame_def sse_push_def)

lemma watched_run: "watched t st \<Longrightarrow> in_order t (es @ [Tick tm]) \<Longrightarrow> \<exists>t' \<le> tm 0. watched t' (fold beat_step es st)"
proof (induction es arbitrary: t st)
  case (Cons e es)
  show ?case
  proof (cases e)
    case (Tick tm')
    then show ?thesis using Cons watched_tick(1)[of t st tm'] by simp
  next
    case (FrameAt tm' f w h)
    then show ?thesis using Cons watched_frame[of t st tm' f w h] by simp
  qed
qed auto

lemma in_order_last: "in_order t (es @ [Tick tm]) \<Longrightarrow> tm 0 \<le> tm 1"
  by (induction t es rule: in_order.induct) simp_all


definition playing :: plant where
  "playing = \<lparr>pt_app = set_analysis_active True initial_app, pt_pipeline = Some 0, pt_started = 0, pt_last = 0, pt_ring = [],
     pt_signal = False, pt_refs = True, pt_launched = 1\<rparr>"


text \<open>
  A flag that went off in the meantime wins: a start that finds analysis inactive tears the
  pipeline down and launches none, whoever called it.
\<close>

lemma inactive_start_launches_none:
  "\<not> active p \<Longrightarrow> start_pipeline now reason raised p = (None, p\<lparr>pt_pipeline := None\<rparr>)"
  by (simp add: start_pipeline_def Let_def active_def)

end
