(* ===== verification/Analyzer_Races.thy ===== *)
theory Analyzer_Races
  imports Analyzer_Pipeline "HOL-Library.Multiset"
begin

text \<open>
  How start requests, stop requests, watchdog restarts, the start-up and the frames of the
  pipelines interleave (\<open>analyzer/main.py\<close>, \<open>analyzer/server.py\<close>). Each thread is a program
  counter; one step of a thread is one critical section (of \<open>_pipeline_lock\<close>, of the state's
  lock) or one call outside the locks (\<open>set_state(NULL)\<close>, which may take long). \<open>pn_lock\<close>
  is \<open>_start_lock\<close>; \<open>pn_alive\<close> lists the pipelines that were launched and not yet set to
  NULL, any of which may still deliver frames. A frame is named by the pipeline it comes from.

  Two fields only observe: \<open>pn_failed\<close> (the last launch attempted raised) and
  \<open>pn_overlap\<close> (the current pipeline was launched while the tear-down of a stopped one was
  still to come).
\<close>

section \<open>Threads\<close>

datatype pc =
  StartFlag | StartCall | WantSwap string | Swapped string "nat option" | Commit string bool | FailMark string
| StopFlag | StopDetach | Teardown "nat option" | StopMark
| WatchCheck | WatchMark
| Boot | BootCheck | BootMark
| Finished

record plane =
  pn_plant :: plant
  pn_threads :: "pc list"
  pn_alive :: "nat list"
  pn_lock :: bool
  pn_failed :: bool
  pn_overlap :: bool

definition on_plant :: "(plant \<Rightarrow> plant) \<Rightarrow> plane \<Rightarrow> plane" where
  "on_plant f s = s\<lparr>pn_plant := f (pn_plant s)\<rparr>"

definition set_active :: "bool \<Rightarrow> plant \<Rightarrow> plant" where
  "set_active b = on_app (set_analysis_active b)"

definition null_pipeline :: "nat option \<Rightarrow> plane \<Rightarrow> plane" where
  "null_pipeline old s = (case old of None \<Rightarrow> s | Some q \<Rightarrow> s\<lparr>pn_alive := remove1 q (pn_alive s)\<rparr>)"

text \<open>The second critical section of \<open>start_pipeline\<close>.\<close>

definition start_commit :: "seconds \<Rightarrow> string \<Rightarrow> bool \<Rightarrow> launch \<Rightarrow> plant \<Rightarrow> launch \<times> plant" where
  "start_commit now reason restart raised p =
     (if \<not> active p then (None, p)
      else
        let p2 = p\<lparr>pt_ring := [], pt_signal := False\<rparr> in
        case raised of
          Some e \<Rightarrow> (Some e, p2)
        | None \<Rightarrow>
            (None, on_app (mark_pipeline_starting now reason restart (Some now))
               (p2\<lparr>pt_pipeline := Some (pt_launched p), pt_launched := Suc (pt_launched p), pt_started := now, pt_last := now\<rparr>)))"

lemma start_in_two_sections:
  "start_pipeline now reason raised p = start_commit now reason (pt_pipeline p \<noteq> None) raised (p\<lparr>pt_pipeline := None\<rparr>)"
  by (cases raised) (simp_all add: start_pipeline_def start_commit_def Let_def active_def)

fun tearing :: "pc \<Rightarrow> bool" where
  "tearing (Teardown (Some q)) = True"
| "tearing _ = False"

definition commit :: "seconds \<Rightarrow> string \<Rightarrow> bool \<Rightarrow> launch \<Rightarrow> plane \<Rightarrow> pc \<times> plane" where
  "commit now reason restart raised s =
     (let p = pn_plant s; s1 = s\<lparr>pn_lock := False\<rparr> in
      case start_commit now reason restart raised p of
        (Some e, p1) \<Rightarrow> (FailMark e, s1\<lparr>pn_plant := p1, pn_failed := True\<rparr>)
      | (None, p1) \<Rightarrow>
          (Finished,
           if active p
           then s1\<lparr>pn_plant := p1, pn_alive := pt_launched p # pn_alive s, pn_failed := False,
                  pn_overlap := list_ex tearing (pn_threads s)\<rparr>
           else s1\<lparr>pn_plant := p1\<rparr>))"

text \<open>One step of a thread: its next counter and the state; \<open>None\<close> while it waits for the lock.\<close>

fun run_pc :: "seconds \<Rightarrow> launch \<Rightarrow> pc \<Rightarrow> plane \<Rightarrow> (pc \<times> plane) option" where
  "run_pc now raised StartFlag s = Some (StartCall, on_plant (set_active True) s)"
| "run_pc now raised StartCall s = Some (if pt_refs (pn_plant s) then WantSwap ''analysis_start'' else Finished, s)"
| "run_pc now raised (WantSwap r) s =
     (if pn_lock s then None
      else Some (Swapped r (pt_pipeline (pn_plant s)), on_plant (\<lambda>p. p\<lparr>pt_pipeline := None\<rparr>) (s\<lparr>pn_lock := True\<rparr>)))"
| "run_pc now raised (Swapped r old) s = Some (Commit r (old \<noteq> None), null_pipeline old s)"
| "run_pc now raised (Commit r restart) s = Some (commit now r restart raised s)"
| "run_pc now raised (FailMark e) s = Some (Finished, on_plant (start_failed e) s)"
| "run_pc now raised StopFlag s = Some (StopDetach, on_plant (set_active False) s)"
| "run_pc now raised StopDetach s =
     Some (if active (pn_plant s) then (Finished, s)
           else (Teardown (pt_pipeline (pn_plant s)), on_plant (\<lambda>p. p\<lparr>pt_pipeline := None\<rparr>) s))"
| "run_pc now raised (Teardown old) s = Some (StopMark, null_pipeline old s)"
| "run_pc now raised StopMark s = Some (Finished, on_plant mark_waiting_for_start s)"
| "run_pc now raised WatchCheck s = Some (if pt_pipeline (pn_plant s) = None then Finished else WatchMark, s)"
| "run_pc now raised WatchMark s =
     Some (WantSwap ''watchdog_timeout'', on_plant (on_app (mark_pipeline_stalled ''watchdog_timeout'')) s)"
| "run_pc now raised Boot s = Some (BootCheck, on_plant (\<lambda>p. p\<lparr>pt_refs := True\<rparr>) s)"
| "run_pc now raised BootCheck s = Some (if active (pn_plant s) then WantSwap ''startup'' else BootMark, s)"
| "run_pc now raised BootMark s = Some (Finished, on_plant mark_waiting_for_start s)"
| "run_pc now raised Finished s = None"

definition put :: "nat \<Rightarrow> pc \<Rightarrow> plane \<Rightarrow> plane" where
  "put i k s = s\<lparr>pn_threads := (pn_threads s)[i := k]\<rparr>"

inductive run_step :: "plane \<Rightarrow> plane \<Rightarrow> bool" where
  run: "i < length (pn_threads s) \<Longrightarrow> run_pc now raised (pn_threads s ! i) s = Some (k, s') \<Longrightarrow> run_step s (put i k s')"

inductive plane_step :: "plane \<Rightarrow> plane \<Rightarrow> bool" where
  request: "k = StartFlag \<or> k = StopFlag \<or> k = WatchCheck \<Longrightarrow> plane_step s (s\<lparr>pn_threads := pn_threads s @ [k]\<rparr>)"
| thread: "run_step s s' \<Longrightarrow> plane_step s s'"
| frame: "q \<in> set (pn_alive s) \<Longrightarrow> plane_step s (on_plant (\<lambda>p. snd (on_new_sample tm (GoodFrame q w h) p)) s)"

inductive_cases run_stepE: "run_step s t"
inductive_cases plane_stepE: "plane_step s t"

text \<open>The process as \<open>main()\<close> leaves it before the model is loaded.\<close>

definition booting :: "app \<Rightarrow> plane" where
  "booting a = \<lparr>pn_plant = \<lparr>pt_app = a, pt_pipeline = None, pt_started = 0, pt_last = 0, pt_ring = [], pt_signal = False,
     pt_refs = False, pt_launched = 0\<rparr>, pn_threads = [Boot], pn_alive = [], pn_lock = False, pn_failed = False, pn_overlap = False\<rparr>"

definition reached :: "app \<Rightarrow> plane \<Rightarrow> bool" where
  "reached a s \<longleftrightarrow> plane_step\<^sup>*\<^sup>* (booting a) s"

definition all_answered :: "plane \<Rightarrow> bool" where
  "all_answered s \<longleftrightarrow> list_all (\<lambda>k. k = Finished) (pn_threads s)"

section \<open>Invariant\<close>

fun holds_lock :: "pc \<Rightarrow> bool" where
  "holds_lock (Swapped r old) = True"
| "holds_lock (Commit r b) = True"
| "holds_lock _ = False"

text \<open>A thread that will still look at the flag and start a pipeline if it is set.\<close>

fun will_start :: "pc \<Rightarrow> bool" where
  "will_start StartCall = True"
| "will_start (WantSwap r) = True"
| "will_start (Swapped r old) = True"
| "will_start (Commit r b) = True"
| "will_start Boot = True"
| "will_start BootCheck = True"
| "will_start _ = False"

text \<open>The pipeline a thread has detached and still has to set to NULL.\<close>

fun detached :: "pc \<Rightarrow> nat option" where
  "detached (Swapped r old) = old"
| "detached (Teardown old) = old"
| "detached _ = None"

definition one :: "nat option \<Rightarrow> nat multiset" where
  "one old = (case old of None \<Rightarrow> {#} | Some q \<Rightarrow> {#q#})"

definition held :: "pc list \<Rightarrow> nat multiset" where
  "held ts = (\<Sum>k\<leftarrow>ts. one (detached k))"

definition lock_count :: "pc list \<Rightarrow> nat" where
  "lock_count ts = (\<Sum>k\<leftarrow>ts. if holds_lock k then 1 else 0)"

definition flag_inv :: "plane \<Rightarrow> bool" where
  "flag_inv s \<longleftrightarrow> (let p = pn_plant s; ts = pn_threads s in
     (pt_pipeline p \<noteq> None \<and> \<not> active p \<longrightarrow> StopDetach \<in> set ts) \<and>
     (pt_pipeline p = None \<and> active p \<and> \<not> pn_failed s \<longrightarrow> list_ex will_start ts) \<and>
     (\<not> pt_refs p \<longrightarrow> Boot \<in> set ts))"

definition lock_inv :: "plane \<Rightarrow> bool" where
  "lock_inv s \<longleftrightarrow> lock_count (pn_threads s) = (if pn_lock s then 1 else 0) \<and>
     (pn_lock s \<longrightarrow> pt_pipeline (pn_plant s) = None)"

definition alive_inv :: "plane \<Rightarrow> bool" where
  "alive_inv s \<longleftrightarrow> mset (pn_alive s) = one (pt_pipeline (pn_plant s)) + held (pn_threads s) \<and>
     distinct (pn_alive s) \<and> (\<forall>q\<in>set (pn_alive s). q < pt_launched (pn_plant s))"

definition ring_inv :: "plane \<Rightarrow> bool" where
  "ring_inv s \<longleftrightarrow> (pn_overlap s \<or> pt_pipeline (pn_plant s) = None \<or> \<not> list_ex tearing (pn_threads s)) \<and>
     (\<forall>q. pt_pipeline (pn_plant s) = Some q \<longrightarrow> \<not> pn_overlap s \<longrightarrow> (\<forall>x\<in>set (pt_ring (pn_plant s)). snd x = q))"

text \<open>Sums over the threads when one of them moves.\<close>

lemma sum_list_move:
  fixes f :: "pc \<Rightarrow> 'a::cancel_comm_monoid_add"
  assumes "i < length ts"
  shows "(\<Sum>k\<leftarrow>ts[i := k']. f k) + f (ts ! i) = (\<Sum>k\<leftarrow>ts. f k) + f k'"
proof -
  have "ts = take i ts @ ts ! i # drop (Suc i) ts" using assms by (rule id_take_nth_drop)
  then have "(\<Sum>k\<leftarrow>ts. f k) = (\<Sum>k\<leftarrow>take i ts. f k) + f (ts ! i) + (\<Sum>k\<leftarrow>drop (Suc i) ts. f k)"
    by (metis (mono_tags, lifting) add.assoc list.simps(9) map_append sum_list.Cons sum_list.append)
  moreover have "(\<Sum>k\<leftarrow>ts[i := k']. f k) = (\<Sum>k\<leftarrow>take i ts. f k) + f k' + (\<Sum>k\<leftarrow>drop (Suc i) ts. f k)"
    using assms by (simp add: upd_conv_take_nth_drop add.assoc)
  ultimately show ?thesis by (simp add: ac_simps)
qed

lemma held_move: "i < length ts \<Longrightarrow> held (ts[i := k']) + one (detached (ts ! i)) = held ts + one (detached k')"
  unfolding held_def by (rule sum_list_move)

lemma lock_move:
  "i < length ts \<Longrightarrow> lock_count (ts[i := k']) + (if holds_lock (ts ! i) then 1 else 0) =
     lock_count ts + (if holds_lock k' then 1 else 0)"
  unfolding lock_count_def by (rule sum_list_move)

lemma stays: "x \<in> set ts \<Longrightarrow> ts ! i \<noteq> x \<Longrightarrow> x \<in> set (ts[i := k'])"
  by (metis in_set_conv_nth length_list_update nth_list_update_neq)

lemma ex_stays: "list_ex P ts \<Longrightarrow> \<not> P (ts ! i) \<Longrightarrow> list_ex P (ts[i := k'])"
  unfolding list_ex_iff by (metis stays)

lemma ex_new: "i < length ts \<Longrightarrow> P k' \<Longrightarrow> list_ex P (ts[i := k'])"
  unfolding list_ex_iff by (metis set_update_memI)

lemma ex_back: "list_ex P (ts[i := k']) \<Longrightarrow> P k' \<or> list_ex P ts"
  using set_update_subset_insert[of ts i k'] unfolding list_ex_iff by blast

text \<open>What one step does to the fields the invariants speak of.\<close>

lemma on_app_fields [simp]:
  "pt_pipeline (on_app f p) = pt_pipeline p" "pt_refs (on_app f p) = pt_refs p" "pt_ring (on_app f p) = pt_ring p"
  "pt_launched (on_app f p) = pt_launched p" "active (on_app f p) = ap_active (f (pt_app p))" "pt_app (on_app f p) = f (pt_app p)"
  by (simp_all add: on_app_def active_def)

lemma mark_active [simp]:
  "ap_active (mark_pipeline_idle r a) = ap_active a" "ap_active (mark_pipeline_stalled r a) = ap_active a"
  "ap_active (mark_pipeline_starting now r b t a) = ap_active a" "ap_active (set_analysis_active b a) = b"
  "ap_active (update_frame now f w h a) = ap_active a"
  by (simp_all add: mark_defs set_analysis_active_def update_frame_def Let_def)

lemma active_app: "ap_active (pt_app p) = active p"
  by (simp add: active_def)

lemma active_fields [simp]:
  "active (p\<lparr>pt_pipeline := x\<rparr>) = active p" "active (p\<lparr>pt_refs := b\<rparr>) = active p" "active (p\<lparr>pt_ring := r\<rparr>) = active p"
  "active (p\<lparr>pt_signal := b\<rparr>) = active p" "active (p\<lparr>pt_last := t\<rparr>) = active p"
  by (simp_all add: active_def)

lemma on_plant_fields [simp]:
  "pn_plant (on_plant f s) = f (pn_plant s)" "pn_threads (on_plant f s) = pn_threads s" "pn_alive (on_plant f s) = pn_alive s"
  "pn_lock (on_plant f s) = pn_lock s" "pn_failed (on_plant f s) = pn_failed s" "pn_overlap (on_plant f s) = pn_overlap s"
  by (simp_all add: on_plant_def)

lemma null_fields [simp]:
  "pn_plant (null_pipeline old s) = pn_plant s" "pn_threads (null_pipeline old s) = pn_threads s"
  "pn_lock (null_pipeline old s) = pn_lock s" "pn_failed (null_pipeline old s) = pn_failed s"
  "pn_overlap (null_pipeline old s) = pn_overlap s"
  by (simp_all add: null_pipeline_def split: option.split)

lemma put_fields [simp]:
  "pn_plant (put i k s) = pn_plant s" "pn_threads (put i k s) = (pn_threads s)[i := k]" "pn_alive (put i k s) = pn_alive s"
  "pn_lock (put i k s) = pn_lock s" "pn_failed (put i k s) = pn_failed s" "pn_overlap (put i k s) = pn_overlap s"
  by (simp_all add: put_def)

lemma commit_cases:
  obtains "\<not> active (pn_plant s)" "commit now r b raised s = (Finished, s\<lparr>pn_lock := False\<rparr>)"
  | e where "active (pn_plant s)" "raised = Some e"
      "commit now r b raised s = (FailMark e, s\<lparr>pn_lock := False, pn_plant := (pn_plant s)\<lparr>pt_ring := [], pt_signal := False\<rparr>, pn_failed := True\<rparr>)"
  | p where "active (pn_plant s)" "pt_pipeline p = Some (pt_launched (pn_plant s))" "pt_launched p = Suc (pt_launched (pn_plant s))"
      "pt_ring p = []" "active p" "pt_refs p = pt_refs (pn_plant s)"
      "commit now r b raised s = (Finished, s\<lparr>pn_lock := False, pn_plant := p, pn_alive := pt_launched (pn_plant s) # pn_alive s,
         pn_failed := False, pn_overlap := list_ex tearing (pn_threads s)\<rparr>)"
proof (cases "active (pn_plant s)")
  case False
  then show ?thesis using that(1) by (simp add: commit_def start_commit_def Let_def)
next
  case True
  show ?thesis
  proof (cases raised)
    case None
    show ?thesis
      by (rule that(3)[of "snd (start_commit now r b raised (pn_plant s))"])
        (use True None in \<open>simp_all add: commit_def start_commit_def Let_def active_app\<close>)
  next
    case (Some e)
    with True show ?thesis using that(2) by (simp add: commit_def start_commit_def Let_def)
  qed
qed

lemma commitE:
  assumes "commit now r b raised s = (k', s')"
  obtains "\<not> active (pn_plant s)" "k' = Finished" "s' = s\<lparr>pn_lock := False\<rparr>"
  | e where "active (pn_plant s)" "k' = FailMark e"
      "s' = s\<lparr>pn_lock := False, pn_plant := (pn_plant s)\<lparr>pt_ring := [], pt_signal := False\<rparr>, pn_failed := True\<rparr>"
  | p where "active (pn_plant s)" "pt_pipeline p = Some (pt_launched (pn_plant s))" "pt_launched p = Suc (pt_launched (pn_plant s))"
      "pt_ring p = []" "active p" "pt_refs p = pt_refs (pn_plant s)" "k' = Finished"
      "s' = s\<lparr>pn_lock := False, pn_plant := p, pn_alive := pt_launched (pn_plant s) # pn_alive s,
         pn_failed := False, pn_overlap := list_ex tearing (pn_threads s)\<rparr>"
  by (rule commit_cases[of s now r b raised]) (use assms that in auto)

lemma run_threads: "run_pc now raised k s = Some (k', s') \<Longrightarrow> pn_threads s' = pn_threads s"
  by (cases k) (auto split: if_splits elim!: commitE)

text \<open>One thread's step, read off the program: what it may leave behind for the flag.\<close>

lemmas own_defs = mark_waiting_for_start_def start_failed_def set_active_def active_app

lemma run_refs:
  "run_pc now raised k s = Some (k', s') \<Longrightarrow> \<not> pt_refs (pn_plant s') \<Longrightarrow> \<not> pt_refs (pn_plant s) \<and> k \<noteq> Boot"
  by (cases k) (auto simp: own_defs split: if_splits elim!: commitE)

lemma run_stopping:
  "run_pc now raised k s = Some (k', s') \<Longrightarrow> pt_pipeline (pn_plant s') \<noteq> None \<Longrightarrow> \<not> active (pn_plant s') \<Longrightarrow>
   k' = StopDetach \<or> pt_pipeline (pn_plant s) \<noteq> None \<and> \<not> active (pn_plant s) \<and> k \<noteq> StopDetach"
  by (cases k) (auto simp: own_defs split: if_splits elim!: commitE)

lemma run_starting:
  "run_pc now raised k s = Some (k', s') \<Longrightarrow> pt_pipeline (pn_plant s') = None \<Longrightarrow> active (pn_plant s') \<Longrightarrow> \<not> pn_failed s' \<Longrightarrow>
   will_start k' \<or> (k = StartCall \<and> \<not> pt_refs (pn_plant s)) \<or>
   pt_pipeline (pn_plant s) = None \<and> active (pn_plant s) \<and> \<not> pn_failed s \<and> \<not> will_start k"
  by (cases k) (auto simp: own_defs split: if_splits elim!: commitE)

lemma step_flag:
  assumes inv: "flag_inv s" and i: "i < length (pn_threads s)" and r: "run_pc now raised (pn_threads s ! i) s = Some (k', s')"
  shows "flag_inv (put i k' s')"
proof -
  note t = run_threads[OF r]
  have boot: "Boot \<in> set ((pn_threads s)[i := k'])" if "\<not> pt_refs (pn_plant s')"
    using run_refs[OF r that] inv stays[of Boot "pn_threads s" i k'] by (auto simp: flag_inv_def Let_def)
  have stop: "StopDetach \<in> set ((pn_threads s)[i := k'])" if "pt_pipeline (pn_plant s') \<noteq> None" "\<not> active (pn_plant s')"
    using run_stopping[OF r that] inv i stays[of StopDetach "pn_threads s" i k'] set_update_memI[OF i, of k']
    by (auto simp: flag_inv_def Let_def)
  have start: "list_ex will_start ((pn_threads s)[i := k'])"
    if "pt_pipeline (pn_plant s') = None" "active (pn_plant s')" "\<not> pn_failed s'"
    using run_starting[OF r that]
  proof (elim disjE conjE)
    assume "will_start k'"
    then show ?thesis by (rule ex_new[OF i])
  next
    assume "pn_threads s ! i = StartCall" "\<not> pt_refs (pn_plant s)"
    then have "Boot \<in> set ((pn_threads s)[i := k'])"
      using inv stays[of Boot "pn_threads s" i k'] by (auto simp: flag_inv_def Let_def)
    then show ?thesis unfolding list_ex_iff by (rule bexI[rotated]) simp
  next
    assume "pt_pipeline (pn_plant s) = None" "active (pn_plant s)" "\<not> pn_failed s" "\<not> will_start (pn_threads s ! i)"
    then show ?thesis using inv ex_stays[of will_start "pn_threads s" i k'] by (auto simp: flag_inv_def Let_def)
  qed
  from boot stop start show ?thesis by (simp add: flag_inv_def Let_def t)
qed

lemma run_lock:
  "run_pc now raised k s = Some (k', s') \<Longrightarrow> (holds_lock k \<longrightarrow> pn_lock s) \<Longrightarrow>
   (if pn_lock s' then 1 else 0) + (if holds_lock k then 1 else 0) = (if pn_lock s then 1 else 0) + (if holds_lock k' then (1 :: nat) else 0)"
  by (cases k) (auto split: if_splits elim!: commitE)

lemma run_locked:
  "run_pc now raised k s = Some (k', s') \<Longrightarrow> pn_lock s' \<Longrightarrow> pt_pipeline (pn_plant s') = None \<or> pn_lock s \<and> \<not> pt_pipeline (pn_plant s) = None"
  by (cases k) (auto simp: own_defs split: if_splits elim!: commitE)

lemma step_lock:
  assumes inv: "lock_inv s" and i: "i < length (pn_threads s)" and r: "run_pc now raised (pn_threads s ! i) s = Some (k', s')"
  shows "lock_inv (put i k' s')"
proof -
  have "lock_count (pn_threads s) \<noteq> 0" if "holds_lock (pn_threads s ! i)"
    using that lock_move[OF i, of Finished] by simp
  then have "holds_lock (pn_threads s ! i) \<longrightarrow> pn_lock s" using inv by (auto simp: lock_inv_def split: if_splits)
  from run_lock[OF r this] run_locked[OF r] lock_move[OF i, of k'] inv
  show ?thesis by (auto simp: lock_inv_def run_threads[OF r] split: if_splits)
qed

lemma one_simps [simp]: "one None = {#}" "one (Some q) = {#q#}"
  by (simp_all add: one_def)

lemma null_alive: "mset (pn_alive (null_pipeline old s)) = mset (pn_alive s) - one old"
  by (simp add: null_pipeline_def split: option.split)

lemma held_nth: "i < length ts \<Longrightarrow> one (detached (ts ! i)) \<subseteq># held ts"
  using held_move[of i ts Finished] by (metis detached.simps(16) empty_neutral(2) mset_subset_eq_add_right one_simps(1))

lemma run_alive:
  "run_pc now raised k s = Some (k', s') \<Longrightarrow> one (detached k) \<subseteq># mset (pn_alive s) \<Longrightarrow>
   (holds_lock k \<longrightarrow> pt_pipeline (pn_plant s) = None) \<Longrightarrow>
   mset (pn_alive s') + (one (pt_pipeline (pn_plant s)) + one (detached k)) =
     mset (pn_alive s) + (one (pt_pipeline (pn_plant s')) + one (detached k'))"
  by (cases k) (auto simp: own_defs null_alive split: if_splits elim!: commitE)

lemma run_fresh:
  "run_pc now raised k s = Some (k', s') \<Longrightarrow> distinct (pn_alive s) \<Longrightarrow> (\<forall>q\<in>set (pn_alive s). q < pt_launched (pn_plant s)) \<Longrightarrow>
   distinct (pn_alive s') \<and> (\<forall>q\<in>set (pn_alive s'). q < pt_launched (pn_plant s'))"
proof -
  have null: "set (pn_alive (null_pipeline old s)) \<subseteq> set (pn_alive s)" "distinct (pn_alive s) \<Longrightarrow> distinct (pn_alive (null_pipeline old s))" for old
    using set_remove1_subset[of "the old" "pn_alive s"] by (auto simp: null_pipeline_def split: option.split)
  assume "run_pc now raised k s = Some (k', s')" "distinct (pn_alive s)" "\<forall>q\<in>set (pn_alive s). q < pt_launched (pn_plant s)"
  then show ?thesis
    by (cases k) (auto simp: own_defs null(2) split: if_splits elim!: commitE dest!: subsetD[OF null(1)] simp: less_Suc_eq)
qed

lemma holds_idle: "lock_inv s \<Longrightarrow> i < length (pn_threads s) \<Longrightarrow> holds_lock (pn_threads s ! i) \<Longrightarrow> pt_pipeline (pn_plant s) = None"
  using lock_move[of i "pn_threads s" Finished] by (auto simp: lock_inv_def split: if_splits)

lemma step_alive:
  assumes inv: "alive_inv s" "lock_inv s" and i: "i < length (pn_threads s)" and r: "run_pc now raised (pn_threads s ! i) s = Some (k', s')"
  shows "alive_inv (put i k' s')"
proof -
  let ?pipe = "one (pt_pipeline (pn_plant s))" and ?pipe' = "one (pt_pipeline (pn_plant s'))"
  let ?d = "one (detached (pn_threads s ! i))" and ?d' = "one (detached k')"
  have m: "mset (pn_alive s) = ?pipe + held (pn_threads s)" using inv(1) by (simp add: alive_inv_def)
  have sub: "?d \<subseteq># mset (pn_alive s)"
    unfolding m using held_nth[OF i] by (metis mset_subset_eq_add_right subset_mset.order_trans)
  have "mset (pn_alive s') + (?pipe + ?d) = mset (pn_alive s) + (?pipe' + ?d')"
    using run_alive[OF r sub] holds_idle[OF inv(2) i] by blast
  also have "\<dots> = ?pipe' + ?pipe + (held (pn_threads s) + ?d')" unfolding m by (simp add: ac_simps)
  also have "held (pn_threads s) + ?d' = held ((pn_threads s)[i := k']) + ?d" using held_move[OF i, of k'] by simp
  also have "?pipe' + ?pipe + (held ((pn_threads s)[i := k']) + ?d) = (?pipe' + held ((pn_threads s)[i := k'])) + (?pipe + ?d)"
    by (simp add: ac_simps)
  finally have "mset (pn_alive s') = ?pipe' + held ((pn_threads s)[i := k'])" by (rule add_right_imp_eq)
  with run_fresh[OF r] inv(1) show ?thesis by (simp add: alive_inv_def run_threads[OF r])
qed

lemma run_tearing:
  "run_pc now raised k s = Some (k', s') \<Longrightarrow> pt_pipeline (pn_plant s') \<noteq> None \<Longrightarrow> \<not> pn_overlap s' \<Longrightarrow>
   \<not> tearing k' \<and> (\<not> list_ex tearing (pn_threads s) \<or> pt_pipeline (pn_plant s) \<noteq> None \<and> \<not> pn_overlap s)"
  by (cases k) (auto simp: own_defs split: if_splits elim!: commitE)

lemma run_ring:
  "run_pc now raised k s = Some (k', s') \<Longrightarrow> pt_pipeline (pn_plant s') = Some q \<Longrightarrow> \<not> pn_overlap s' \<Longrightarrow>
   pt_ring (pn_plant s') = [] \<or>
   pt_pipeline (pn_plant s) = Some q \<and> \<not> pn_overlap s \<and> pt_ring (pn_plant s') = pt_ring (pn_plant s)"
  by (cases k) (auto simp: own_defs split: if_splits elim!: commitE)

lemma step_ring:
  assumes inv: "ring_inv s" and r: "run_pc now raised (pn_threads s ! i) s = Some (k', s')"
  shows "ring_inv (put i k' s')"
proof -
  have "\<not> list_ex tearing ((pn_threads s)[i := k'])" if "pt_pipeline (pn_plant s') \<noteq> None" "\<not> pn_overlap s'"
    using run_tearing[OF r that] inv ex_back[of tearing "pn_threads s" i k'] by (auto simp: ring_inv_def)
  with run_ring[OF r] inv show ?thesis by (force simp: ring_inv_def run_threads[OF r])
qed

definition plane_inv :: "plane \<Rightarrow> bool" where
  "plane_inv s \<longleftrightarrow> flag_inv s \<and> lock_inv s \<and> alive_inv s \<and> ring_inv s"

lemma inv_run: "plane_inv s \<Longrightarrow> run_step s t \<Longrightarrow> plane_inv t"
  unfolding plane_inv_def by (elim run_stepE conjE) (blast intro: step_flag step_lock step_alive step_ring)

lemma idle_thread:
  "k = StartFlag \<or> k = StopFlag \<or> k = WatchCheck \<Longrightarrow>
   detached k = None \<and> \<not> holds_lock k \<and> \<not> will_start k \<and> \<not> tearing k \<and> k \<noteq> Boot \<and> k \<noteq> StopDetach"
  by auto

lemma inv_request:
  assumes "plane_inv s" and k: "k = StartFlag \<or> k = StopFlag \<or> k = WatchCheck"
  shows "plane_inv (s\<lparr>pn_threads := pn_threads s @ [k]\<rparr>)"
proof -
  note z = idle_thread[OF k]
  have "flag_inv (s\<lparr>pn_threads := pn_threads s @ [k]\<rparr>)" using assms(1) by (auto simp: plane_inv_def flag_inv_def Let_def)
  moreover have "lock_inv (s\<lparr>pn_threads := pn_threads s @ [k]\<rparr>)" using assms(1) z by (simp add: plane_inv_def lock_inv_def lock_count_def)
  moreover have "alive_inv (s\<lparr>pn_threads := pn_threads s @ [k]\<rparr>)" using assms(1) z by (simp add: plane_inv_def alive_inv_def held_def)
  moreover have "ring_inv (s\<lparr>pn_threads := pn_threads s @ [k]\<rparr>)" using assms(1) z by (simp add: plane_inv_def ring_inv_def)
  ultimately show ?thesis by (simp add: plane_inv_def)
qed

lemma held_none: "(\<And>k. k \<in> set ts \<Longrightarrow> detached k = None) \<Longrightarrow> held ts = {#}"
  by (induction ts) (simp_all add: held_def)

lemma detached_kind: "detached k = Some q \<Longrightarrow> tearing k \<or> holds_lock k"
  by (cases k) simp_all

lemma alive_current:
  assumes inv: "lock_inv s" "alive_inv s" "ring_inv s" and "pt_pipeline (pn_plant s) = Some p" "\<not> pn_overlap s"
  shows "set (pn_alive s) = {p}"
proof -
  have "detached k = None" if k: "k \<in> set (pn_threads s)" for k
  proof (rule ccontr)
    assume "detached k \<noteq> None"
    then have "tearing k \<or> holds_lock k" using detached_kind by blast
    moreover have "\<not> tearing k" using assms(3-5) k by (auto simp: ring_inv_def list_ex_iff)
    moreover have "\<not> holds_lock k" using holds_idle[OF assms(1)] assms(4) k by (auto simp: in_set_conv_nth)
    ultimately show False by blast
  qed
  then have "held (pn_threads s) = {#}" by (rule held_none)
  then have "mset (pn_alive s) = {#p#}" using assms(2,4) by (simp add: alive_inv_def)
  then show ?thesis by (metis set_mset_mset set_mset_single)
qed

lemma ring_push_set: "set (ring_push m x xs) \<subseteq> insert x (set xs)"
  by (auto simp: ring_push_def Let_def dest: in_set_dropD)

lemma frame_fields:
  assumes "p' = snd (on_new_sample tm (GoodFrame q w h) p)"
  shows "pt_pipeline p' = pt_pipeline p" "pt_refs p' = pt_refs p" "pt_launched p' = pt_launched p" "active p' = active p"
    "pt_ring p' = ring_push ring_size (tm 0, q) (pt_ring p)"
  unfolding assms by (simp_all add: on_new_sample_def Let_def on_app_def active_def)

lemma inv_frame:
  assumes inv: "plane_inv s" and q: "q \<in> set (pn_alive s)"
  shows "plane_inv (on_plant (\<lambda>p. snd (on_new_sample tm (GoodFrame q w h) p)) s)"
proof -
  note f = frame_fields[OF refl]
  have "\<forall>x\<in>set (ring_push ring_size (tm 0, q) (pt_ring (pn_plant s))). snd x = p"
    if "pt_pipeline (pn_plant s) = Some p" "\<not> pn_overlap s" for p
    using alive_current[OF _ _ _ that] that inv q ring_push_set[of ring_size "(tm 0, q)" "pt_ring (pn_plant s)"]
    by (fastforce simp: plane_inv_def ring_inv_def)
  with inv show ?thesis
    by (simp add: plane_inv_def flag_inv_def lock_inv_def alive_inv_def ring_inv_def Let_def f)
qed

lemma inv_step: "plane_inv s \<Longrightarrow> plane_step s t \<Longrightarrow> plane_inv t"
  by (erule plane_stepE) (auto intro: inv_request inv_run inv_frame)

lemma inv_booting: "plane_inv (booting a)"
  by (simp add: plane_inv_def booting_def flag_inv_def lock_inv_def alive_inv_def ring_inv_def held_def lock_count_def)

lemma reached_inv: "reached a s \<Longrightarrow> plane_inv s"
  unfolding reached_def by (induction rule: rtranclp_induct) (auto intro: inv_booting inv_step)

section \<open>The latest request wins\<close>

text \<open>
  C2. The latest flag wins, in both directions. In every state the analyzer can reach, whatever
  start, stop and watchdog threads interleave and however long tear-downs and launches take:
  once all requests are answered, a running pipeline means analysis is on; analysis on means
  a pipeline runs, unless the last launch raised; and no pipeline other than that one is
  still alive.
\<close>

theorem latest_flag_wins:
  assumes "reached a s" and "all_answered s"
  shows "(pt_pipeline (pn_plant s) \<noteq> None \<longrightarrow> active (pn_plant s)) \<and>
    (active (pn_plant s) \<longrightarrow> pt_pipeline (pn_plant s) \<noteq> None \<or> pn_failed s) \<and>
    pn_alive s = (case pt_pipeline (pn_plant s) of None \<Rightarrow> [] | Some q \<Rightarrow> [q])"
proof -
  note inv = reached_inv[OF assms(1), unfolded plane_inv_def]
  have d: "k = Finished" if "k \<in> set (pn_threads s)" for k using that assms(2) by (auto simp: all_answered_def list_all_iff)
  have "\<not> will_start k" if "k \<in> set (pn_threads s)" for k by (simp add: d[OF that])
  then have "\<not> list_ex will_start (pn_threads s)" by (auto simp: list_ex_iff)
  moreover have "StopDetach \<notin> set (pn_threads s)" using d by force
  moreover have "held (pn_threads s) = {#}" by (rule held_none) (drule d, simp)
  then have "mset (pn_alive s) = one (pt_pipeline (pn_plant s))" using inv by (simp add: alive_inv_def)
  then have "pn_alive s = (case pt_pipeline (pn_plant s) of None \<Rightarrow> [] | Some q \<Rightarrow> [q])" by (cases "pt_pipeline (pn_plant s)") auto
  ultimately show ?thesis using inv by (auto simp: flag_inv_def Let_def)
qed

text \<open>
  C33. The ring feeds no stale frame: while a pipeline runs that was not launched into the middle
  of another one's tear-down, every sample in the ring comes from it, and it alone is alive.
\<close>

theorem ring_holds_current_pipeline:
  assumes "reached a s" and "pt_pipeline (pn_plant s) = Some q" and "\<not> pn_overlap s"
  shows "list_all (\<lambda>x. snd x = q) (latest_samples n (pt_ring (pn_plant s))) \<and> set (pn_alive s) = {q}"
proof -
  note inv = reached_inv[OF assms(1), unfolded plane_inv_def]
  have "\<forall>x\<in>set (pt_ring (pn_plant s)). snd x = q" using inv assms(2,3) by (auto simp: ring_inv_def)
  moreover have "set (latest_samples n xs) \<subseteq> set xs" for n xs
    by (auto simp: latest_samples_def slice_from_def dest: in_set_dropD)
  ultimately have "list_all (\<lambda>x. snd x = q) (latest_samples n (pt_ring (pn_plant s)))" unfolding list_all_iff by blast
  moreover have "set (pn_alive s) = {q}" using alive_current[OF _ _ _ assms(2,3)] inv by blast
  ultimately show ?thesis by blast
qed

section \<open>Every request is answered\<close>

text \<open>How many steps a thread has left at most.\<close>

fun left :: "pc \<Rightarrow> nat" where
  "left Finished = 0"
| "left (FailMark e) = 1"
| "left (Commit r b) = 2"
| "left (Swapped r old) = 3"
| "left (WantSwap r) = 4"
| "left StartCall = 5"
| "left StartFlag = 6"
| "left StopMark = 1"
| "left (Teardown old) = 2"
| "left StopDetach = 3"
| "left StopFlag = 4"
| "left WatchMark = 5"
| "left WatchCheck = 6"
| "left BootMark = 1"
| "left BootCheck = 5"
| "left Boot = 6"

definition work :: "plane \<Rightarrow> nat" where
  "work s = (\<Sum>k\<leftarrow>pn_threads s. left k)"

lemma run_left: "run_pc now raised k s = Some (k', s') \<Longrightarrow> left k' < left k"
  by (cases k) (auto split: if_splits elim!: commitE)

lemma work_decreases: "run_step s t \<Longrightarrow> work t < work s"
proof (elim run_stepE)
  fix i now raised k s'
  assume t: "t = put i k s'" and i: "i < length (pn_threads s)" and r: "run_pc now raised (pn_threads s ! i) s = Some (k, s')"
  show ?thesis
    using sum_list_move[OF i, of left k] run_left[OF r] by (simp add: work_def t run_threads[OF r])
qed

lemma run_waits: "run_pc now raised k s = None \<Longrightarrow> k = Finished \<or> pn_lock s \<and> \<not> holds_lock k"
  by (cases k) (auto split: if_splits)

lemma not_stuck:
  assumes inv: "plane_inv s" and open_request: "\<not> all_answered s"
  shows "\<exists>t. run_step s t"
proof -
  have go: "\<exists>t. run_step s t" if "i < length (pn_threads s)" "run_pc 0 None (pn_threads s ! i) s \<noteq> None" for i
    using that run by (metis not_None_eq surj_pair)
  obtain i where i: "i < length (pn_threads s)" "pn_threads s ! i \<noteq> Finished"
    using open_request by (auto simp: all_answered_def list_all_length)
  show ?thesis
  proof (cases "pn_lock s")
    case False
    then show ?thesis using go[OF i(1)] run_waits[of 0 None "pn_threads s ! i" s] i(2) by blast
  next
    case True
    then have "lock_count (pn_threads s) \<noteq> 0" using inv by (simp add: plane_inv_def lock_inv_def)
    then obtain j where j: "j < length (pn_threads s)" "holds_lock (pn_threads s ! j)"
      by (auto simp: lock_count_def in_set_conv_nth)
    then have "run_pc 0 None (pn_threads s ! j) s \<noteq> None" using run_waits[of 0 None "pn_threads s ! j" s] by force
    then show ?thesis by (rule go[OF j(1)])
  qed
qed

text \<open>
  C26. No deadlock, no livelock: in a reachable state with an unanswered request some thread can
  move, and without new requests the threads make at most \<open>work s\<close> steps (six for each) in
  whatever order they are scheduled; so a run that keeps scheduling threads answers every
  request.
\<close>

theorem every_request_answered:
  assumes "reached a s" and "(run_step ^^ n) s t"
  shows "n \<le> work s \<and> (all_answered t \<or> (\<exists>u. run_step t u))"
proof -
  have "work t + n \<le> work s" using assms(2)
  proof (induction n arbitrary: t)
    case (Suc n)
    then obtain m where m: "(run_step ^^ n) s m" "run_step m t" by auto
    then show ?case using Suc.IH[OF m(1)] work_decreases[OF m(2)] by simp
  qed simp
  moreover have "plane_inv t" using assms(2)
  proof (induction n arbitrary: t)
    case (Suc n)
    then show ?case by (auto intro: inv_run)
  qed (use reached_inv[OF assms(1)] in simp)
  ultimately show ?thesis using not_stuck by auto
qed

section \<open>Concrete schedules\<close>

datatype act = Req pc | Go nat | FrameOf nat

definition play_one :: "act \<Rightarrow> plane \<Rightarrow> plane" where
  "play_one e s =
     (case e of
        Req k \<Rightarrow> if k = StartFlag \<or> k = StopFlag \<or> k = WatchCheck then s\<lparr>pn_threads := pn_threads s @ [k]\<rparr> else s
      | Go i \<Rightarrow>
          if i < length (pn_threads s)
          then (case run_pc 1 None (pn_threads s ! i) s of None \<Rightarrow> s | Some (k, s') \<Rightarrow> put i k s')
          else s
      | FrameOf q \<Rightarrow> if q \<in> set (pn_alive s) then on_plant (\<lambda>p. snd (on_new_sample (\<lambda>_. 2) (GoodFrame q 640 480) p)) s else s)"

lemma reached_play_one: "reached a s \<Longrightarrow> reached a (play_one e s)"
proof -
  assume r: "reached a s"
  have "play_one e s = s \<or> plane_step s (play_one e s)"
    by (cases e) (auto simp: play_one_def split: option.splits intro: plane_step.intros run_step.intros)
  with r show ?thesis unfolding reached_def by (metis rtranclp.rtrancl_into_rtrancl)
qed

lemma reached_play: "reached a s \<Longrightarrow> reached a (fold play_one es s)"
  by (induction es arbitrary: s) (simp_all add: reached_play_one)

lemma reached_booting: "reached a (booting a)"
  by (simp add: reached_def)

text \<open>Boot; a start, a stop that detaches pipeline 0, a second start that launches pipeline 1; then the stop ends.\<close>

definition boot_acts :: "act list" where "boot_acts = [Go 0, Go 0, Go 0]"
definition start_acts :: "nat \<Rightarrow> act list" where "start_acts i = Req StartFlag # replicate 5 (Go i)"

definition overlap_acts :: "act list" where
  "overlap_acts = boot_acts @ start_acts 1 @ [Req StopFlag, Go 2, Go 2] @ start_acts 3 @ [FrameOf 0, Go 2, Go 2]"

lemmas play_defs = play_one_def booting_def put_def on_plant_def commit_def start_commit_def null_pipeline_def set_active_def
  on_app_def active_def Let_def on_new_sample_def mark_waiting_for_start_def

lemma overlap_end:
  "let s = fold play_one overlap_acts (booting initial_app) in
   all_answered s \<and> pt_pipeline (pn_plant s) = Some 1 \<and> active (pn_plant s) \<and> map snd (latest_samples 4 (pt_ring (pn_plant s))) = [0] \<and>
   ap_pipeline (pt_app (pn_plant s)) = ''idle'' \<and> pn_overlap s"
  by (simp add: overlap_acts_def boot_acts_def start_acts_def play_defs initial_app_def set_analysis_active_def mark_defs update_frame_def
      numeral_2_eq_2 numeral_3_eq_3 eval_nat_numeral all_answered_def ring_push_def ring_size_def latest_samples_def)

text \<open>
  The overlap is possible: a stop that has detached its pipeline but not yet torn it down,
  overtaken by a new start, lets a frame of the old pipeline into the ring the new pipeline's
  inference reads, and at its end reports the running pipeline as idle. All requests are
  answered in the state shown.
\<close>

theorem stop_overlap_leaks_a_frame:
  "\<exists>s. reached initial_app s \<and> all_answered s \<and> pt_pipeline (pn_plant s) = Some 1 \<and> active (pn_plant s) \<and>
     map snd (latest_samples 4 (pt_ring (pn_plant s))) = [0] \<and> ap_pipeline (pt_app (pn_plant s)) = ''idle''"
  using overlap_end reached_play[OF reached_booting, of initial_app overlap_acts] by (auto simp: Let_def)

definition one_start :: "act list" where
  "one_start = boot_acts @ start_acts 1 @ [FrameOf 0]"

lemma one_start_end:
  "let s = fold play_one one_start (booting initial_app) in
   all_answered s \<and> pt_pipeline (pn_plant s) = Some 0 \<and> active (pn_plant s) \<and> pt_ring (pn_plant s) = [(2, 0)] \<and> \<not> pn_overlap s"
  by (simp add: one_start_def boot_acts_def start_acts_def play_defs initial_app_def set_analysis_active_def mark_defs update_frame_def
      numeral_2_eq_2 numeral_3_eq_3 eval_nat_numeral all_answered_def ring_push_def ring_size_def)

lemmas one_start_reached = reached_play[OF reached_booting, of initial_app one_start]

theorem latest_flag_wins_witness: "pn_alive (fold play_one one_start (booting initial_app)) = [0]"
  using latest_flag_wins[OF one_start_reached] one_start_end by (simp add: Let_def)

theorem ring_holds_current_pipeline_witness:
  "list_all (\<lambda>x. snd x = 0) (latest_samples 4 (pt_ring (pn_plant (fold play_one one_start (booting initial_app)))))"
  using ring_holds_current_pipeline[OF one_start_reached, of 0 4] one_start_end by (simp add: Let_def)

theorem every_request_answered_witness:
  "\<exists>t. run_step (booting initial_app) t \<and> (all_answered t \<or> (\<exists>u. run_step t u))"
proof -
  obtain t where t: "run_step (booting initial_app) t"
    using not_stuck[OF inv_booting, of initial_app] by (auto simp: all_answered_def booting_def)
  then have "(run_step ^^ 1) (booting initial_app) t" by (simp add: OO_def)
  with t show ?thesis using every_request_answered[OF reached_booting] by blast
qed

end
