(* ===== verification/Analyzer_Vlm.thy ===== *)
theory Analyzer_Vlm
  imports Analyzer_State
begin

text \<open>
  The VLM child process (\<open>analyzer/vlm_worker.py\<close>) and the model switch
  (\<open>analyzer/holder.py\<close>, \<open>ModelHolder\<close>, \<open>_perform_switch\<close> and \<open>_precompile_all\<close> of
  \<open>analyzer/main.py\<close>). A child is named by its spawn number. How a child answers to being
  loaded (\<open>loaded\<close>), how it dies (\<open>dies\<close>), which files exist and whether a compile succeeds
  are inputs; NanoLLM itself is not under the repository.
\<close>

section \<open>The child's answer\<close>

definition markers :: "string list" where
  "markers = [''<|im_end|>'', ''</s>'', ''<|im_start|>'', ''###'', ''assistant:'', ''user:'']"

definition cut_at :: "string \<Rightarrow> string \<Rightarrow> string" where
  "cut_at marker raw = (case find_sub marker raw of None \<Rightarrow> raw | Some i \<Rightarrow> take i raw)"

definition child_answer :: "string list \<Rightarrow> string" where
  "child_answer tokens = strip (fold cut_at markers (concat tokens))"

lemma cut_prefix: "prefix (cut_at m s) s"
  by (simp add: cut_at_def take_is_prefix split: option.split)

lemma cut_clean: "m \<noteq> [] \<Longrightarrow> \<not> contains m (cut_at m s)"
proof (induction s)
  case Nil
  then show ?case by (simp add: cut_at_def)
next
  case (Cons c s)
  show ?case
  proof (cases "starts_with m (c # s)")
    case True
    with Cons show ?thesis by (simp add: cut_at_def)
  next
    case False
    have "cut_at m (c # s) = c # cut_at m s" using False by (simp add: cut_at_def split: option.split)
    moreover have "\<not> starts_with m (c # cut_at m s)"
      using False cut_prefix[of m s] unfolding starts_with_prefix by (meson Cons_prefix_Cons prefix_order.order_trans)
    ultimately show ?thesis using Cons by simp
  qed
qed

lemma cuts_prefix: "prefix (fold cut_at ms s) s"
  by (induction ms arbitrary: s) (auto intro: prefix_order.order_trans cut_prefix)

lemma cuts_clean: "m \<in> set ms \<Longrightarrow> m \<noteq> [] \<Longrightarrow> \<not> contains m (fold cut_at ms s)"
proof (induction ms arbitrary: s)
  case (Cons a ms)
  show ?case
  proof (cases "m \<in> set ms")
    case True
    with Cons show ?thesis by simp
  next
    case False
    then have "m = a" using Cons.prems(1) by simp
    then have "\<not> contains m (cut_at a s)" using cut_clean Cons.prems(2) by simp
    moreover have "sublist (fold cut_at ms (cut_at a s)) (cut_at a s)" by (rule prefix_imp_sublist[OF cuts_prefix])
    ultimately show ?thesis unfolding contains_sublist by (auto intro: sublist_order.order.trans)
  qed
qed simp

text \<open>
  Whatever tokens the model streams, the text that leaves the child contains none of the
  stop and role markers (cutting at a later marker cannot bring an earlier one back), starts
  and ends without white space, and is a part of what the model said.
\<close>

theorem answer_has_no_marker:
  "list_all (\<lambda>m. \<not> contains m (child_answer tokens)) markers \<and> strip (child_answer tokens) = child_answer tokens \<and>
   sublist (child_answer tokens) (concat tokens)"
proof -
  let ?cut = "fold cut_at markers (concat tokens)"
  have sub: "sublist (child_answer tokens) ?cut" by (simp add: child_answer_def strip_sublist)
  have "\<not> contains m (child_answer tokens)" if "m \<in> set markers" for m
  proof -
    have "m \<noteq> []" using that by (auto simp: markers_def)
    then have "\<not> sublist m ?cut" using cuts_clean[OF that] by (simp add: contains_sublist)
    then show ?thesis using sub unfolding contains_sublist by (blast intro: sublist_order.order.trans)
  qed
  moreover have "sublist ?cut (concat tokens)" by (rule prefix_imp_sublist[OF cuts_prefix])
  with sub have "sublist (child_answer tokens) (concat tokens)" by (rule sublist_order.order.trans)
  ultimately show ?thesis by (simp add: list_all_iff child_answer_def)
qed

section \<open>Waiting for the child\<close>

text \<open>
  \<open>_recv\<close> and \<open>_connect\<close> are the same loop: read the clock, give up at the deadline, else
  wait a moment for an outcome. The rounds are the clock readings with what the wait gave;
  \<open>None\<close> as a result means the rounds given are not enough.
\<close>

fun wait_until :: "seconds \<Rightarrow> 'a \<Rightarrow> (seconds \<times> 'a option) list \<Rightarrow> 'a option" where
  "wait_until deadline gave_up [] = None"
| "wait_until deadline gave_up ((t, r) # rounds) =
     (if deadline \<le> t then Some gave_up
      else case r of Some x \<Rightarrow> Some x | None \<Rightarrow> wait_until deadline gave_up rounds)"

type_synonym message = "string \<times> string"

datatype poll = Incoming message | Exited string | Silence

definition recv :: "seconds \<Rightarrow> seconds \<Rightarrow> (seconds \<times> poll) list \<Rightarrow> (string + message) option" where
  "recv now timeout polls =
     wait_until (now + timeout) (Inl ''IPC receive timed out'')
       (map (\<lambda>(t, p). (t, case p of Incoming m \<Rightarrow> Some (Inr m) | Exited e \<Rightarrow> Some (Inl (''child exited '' @ e)) | Silence \<Rightarrow> None)) polls)"

datatype dial = Connected | Refused | Dead string

definition connect_timeout :: seconds where "connect_timeout = 60"

definition connect :: "seconds \<Rightarrow> (seconds \<times> dial) list \<Rightarrow> (string + unit) option" where
  "connect now dials =
     wait_until (now + connect_timeout) (Inl ''child did not open IPC socket'')
       (map (\<lambda>(t, d). (t, case d of Connected \<Rightarrow> Some (Inr ()) | Dead e \<Rightarrow> Some (Inl (''child exited before IPC connect '' @ e)) | Refused \<Rightarrow> None)) dials)"

fun advancing :: "seconds \<Rightarrow> seconds \<Rightarrow> (seconds \<times> 'a) list \<Rightarrow> bool" where
  "advancing step t [] \<longleftrightarrow> True"
| "advancing step t ((u, r) # rounds) \<longleftrightarrow> t \<le> u \<and> advancing step (u + step) rounds"

lemma wait_ends:
  "advancing step t rounds \<Longrightarrow> deadline - t \<le> step * (real (length rounds) - 1) \<Longrightarrow> rounds \<noteq> [] \<Longrightarrow> 0 < step \<Longrightarrow>
   wait_until deadline gave_up rounds \<noteq> None"
proof (induction deadline gave_up rounds arbitrary: t rule: wait_until.induct)
  case (2 deadline gave_up u r rounds)
  show ?case
  proof (cases "deadline \<le> u \<or> r \<noteq> None")
    case True
    then show ?thesis by auto
  next
    case False
    then have f: "u < deadline" "r = None" by auto
    have "rounds \<noteq> []" using "2.prems" f by auto
    moreover have "deadline - (u + step) \<le> step * (real (length rounds) - 1)"
      using "2.prems"(1,2) by (simp add: algebra_simps)
    ultimately have "wait_until deadline gave_up rounds \<noteq> None"
      using "2.IH"[of "u + step"] "2.prems"(1,4) f by simp
    then show ?thesis using f by simp
  qed
qed simp

lemma advancing_map: "advancing step t (map (\<lambda>(u, p). (u, f p)) rounds) = advancing step t rounds"
  by (induction step t rounds rule: advancing.induct) auto

text \<open>
  Receiving terminates: with polls of one second each, \<open>_recv\<close> has returned a message, the
  child's death or the timeout after at most \<open>timeout + 1\<close> polls, whatever the child does;
  and connecting, with a pause of a tenth of a second, after at most 601 attempts.
\<close>

theorem waiting_for_the_child_ends:
  "(advancing 1 now polls \<and> timeout + 1 \<le> real (length polls) \<longrightarrow> 0 < timeout \<longrightarrow> recv now timeout polls \<noteq> None) \<and>
   (advancing (1 / 10) now dials \<and> 601 \<le> length dials \<longrightarrow> connect now dials \<noteq> None)"
proof (intro conjI impI)
  assume "advancing 1 now polls \<and> timeout + 1 \<le> real (length polls)" and "0 < timeout"
  then show "recv now timeout polls \<noteq> None"
    unfolding recv_def by (intro wait_ends[where step = 1 and t = now]) (auto simp: advancing_map)
next
  assume "advancing (1 / 10) now dials \<and> 601 \<le> length dials"
  then show "connect now dials \<noteq> None"
    unfolding connect_def connect_timeout_def by (intro wait_ends[where step = "1 / 10" and t = now]) (auto simp: advancing_map)
qed

theorem waiting_for_the_child_ends_witness:
  "recv 5 1 [(5, Silence), (6, Silence)] \<noteq> None"
  using waiting_for_the_child_ends[where now = 5 and timeout = 1 and polls = "[(5, Silence), (6, Silence)]"] by simp

section \<open>The manager of the child\<close>

record vlm =
  vp_proc :: "nat option"
  vp_conn :: bool
  vp_current :: "string option"
  vp_children :: "nat list"
  vp_spawned :: nat

definition no_child :: vlm where
  "no_child = \<lparr>vp_proc = None, vp_conn = False, vp_current = None, vp_children = [], vp_spawned = 0\<rparr>"

text \<open>How child \<open>n\<close> reacts to SIGTERM and SIGKILL, and what loading it gives.\<close>

datatype death = OnTerm | OnKill | Unkillable

datatype loading = NoConnection string | NoAnswer string | LoadError string | Ready

definition alive :: "vlm \<Rightarrow> nat \<Rightarrow> bool" where
  "alive v n = (n \<in> set (vp_children v))"

definition hard_stop :: "(nat \<Rightarrow> death) \<Rightarrow> nat \<Rightarrow> vlm \<Rightarrow> vlm" where
  "hard_stop dies n v =
     (if \<not> alive v n then v
      else if dies n = Unkillable then v
      else v\<lparr>vp_children := filter (\<lambda>m. m \<noteq> n) (vp_children v)\<rparr>)"

definition is_ready :: "vlm \<Rightarrow> bool" where
  "is_ready v \<longleftrightarrow> vp_conn v \<and> (case vp_proc v of None \<Rightarrow> False | Some n \<Rightarrow> alive v n)"

definition stop_child :: "(nat \<Rightarrow> death) \<Rightarrow> vlm \<Rightarrow> vlm" where
  "stop_child dies v =
     (let v1 = v\<lparr>vp_conn := False\<rparr> in
      case vp_proc v1 of None \<Rightarrow> v1 | Some n \<Rightarrow> (hard_stop dies n v1)\<lparr>vp_proc := None\<rparr>)"

definition load_failed :: "string \<Rightarrow> string \<Rightarrow> string" where
  "load_failed model e = ''VLM child load failed ('' @ model @ ''): '' @ e"

definition spawn :: "(nat \<Rightarrow> loading) \<Rightarrow> (nat \<Rightarrow> death) \<Rightarrow> string \<Rightarrow> vlm \<Rightarrow> string option \<times> vlm" where
  "spawn loaded dies model v =
     (let n = vp_spawned v;
          v1 = v\<lparr>vp_proc := Some n, vp_conn := False, vp_children := n # vp_children v, vp_spawned := Suc n\<rparr>
      in case loaded n of
           NoConnection e \<Rightarrow> (Some (load_failed model e), stop_child dies v1)
         | NoAnswer e \<Rightarrow> (Some (load_failed model e), stop_child dies (v1\<lparr>vp_conn := True\<rparr>))
         | LoadError e \<Rightarrow> (Some (load_failed model e), stop_child dies (v1\<lparr>vp_conn := True\<rparr>))
         | Ready \<Rightarrow> (None, v1\<lparr>vp_conn := True, vp_current := Some model\<rparr>))"

definition switch_child :: "(nat \<Rightarrow> loading) \<Rightarrow> (nat \<Rightarrow> death) \<Rightarrow> string \<Rightarrow> vlm \<Rightarrow> string option \<times> vlm" where
  "switch_child loaded dies model v = spawn loaded dies model (stop_child dies v)"

text \<open>What sending the job and \<open>_recv\<close> gave: an exception, or a message.\<close>

definition infer :: "(nat \<Rightarrow> loading) \<Rightarrow> (nat \<Rightarrow> death) \<Rightarrow> string + message \<Rightarrow> vlm \<Rightarrow> (string + string) \<times> vlm" where
  "infer loaded dies reply v =
     (let (failed, v1) =
            (if is_ready v then (None, v)
             else case vp_current v of
                    None \<Rightarrow> (Some ''VLM child never started'', v)
                  | Some model \<Rightarrow> spawn loaded dies model v)
      in case failed of
           Some e \<Rightarrow> (Inl e, v1)
         | None \<Rightarrow>
             (case reply of
                Inl e \<Rightarrow> (Inl (''VLM inference transport error: '' @ e), stop_child dies v1)
              | Inr (kind, payload) \<Rightarrow>
                  (if kind = ''result'' then Inr payload else Inl (''VLM inference error: '' @ payload), v1)))"

text \<open>The calls on one manager, and a child that crashes by itself.\<close>

datatype vlm_event = Start string | Switch string | Infer "string + message" | Stop | Crash nat

fun vlm_step :: "(nat \<Rightarrow> loading) \<Rightarrow> (nat \<Rightarrow> death) \<Rightarrow> vlm_event \<Rightarrow> vlm \<Rightarrow> vlm" where
  "vlm_step loaded dies (Start m) v = (if vp_proc v = None then snd (spawn loaded dies m v) else v)"
| "vlm_step loaded dies (Switch m) v = snd (switch_child loaded dies m v)"
| "vlm_step loaded dies (Infer reply) v = snd (infer loaded dies reply v)"
| "vlm_step loaded dies Stop v = stop_child dies v"
| "vlm_step loaded dies (Crash n) v = v\<lparr>vp_children := filter (\<lambda>m. m \<noteq> n) (vp_children v)\<rparr>"

definition vlm_inv :: "vlm \<Rightarrow> bool" where
  "vlm_inv v \<longleftrightarrow> vp_children v = [] \<or> (\<exists>n. vp_proc v = Some n \<and> vp_conn v \<and> vp_children v = [n])"

lemma stop_empty: "(\<forall>n. dies n \<noteq> Unkillable) \<Longrightarrow> (vp_children v = [] \<or> (\<exists>n. vp_proc v = Some n \<and> vp_children v = [n])) \<Longrightarrow>
   vp_children (stop_child dies v) = [] \<and> vp_proc (stop_child dies v) = None"
  by (auto simp: stop_child_def hard_stop_def alive_def Let_def split: option.split)

lemma spawn_inv: "(\<forall>n. dies n \<noteq> Unkillable) \<Longrightarrow> vp_children v = [] \<Longrightarrow> vlm_inv (snd (spawn loaded dies m v))"
  by (auto simp: spawn_def Let_def vlm_inv_def stop_child_def hard_stop_def alive_def split: loading.split)

lemma not_ready_empty: "vlm_inv v \<Longrightarrow> \<not> is_ready v \<Longrightarrow> vp_children v = []"
  by (auto simp: vlm_inv_def is_ready_def alive_def)

lemma inv_empty: "vlm_inv v \<Longrightarrow> vp_children v = [] \<or> (\<exists>n. vp_proc v = Some n \<and> vp_children v = [n])"
  by (auto simp: vlm_inv_def)

lemma vlm_inv_empty: "vp_children v = [] \<Longrightarrow> vlm_inv v"
  by (simp add: vlm_inv_def)

lemma infer_inv:
  assumes "\<forall>n. dies n \<noteq> Unkillable" and "vlm_inv v"
  shows "vlm_inv (snd (infer loaded dies reply v))"
proof -
  define r where "r = (if is_ready v then (None, v) else case vp_current v of
      None \<Rightarrow> (Some ''VLM child never started'', v) | Some model \<Rightarrow> spawn loaded dies model v)"
  have "vlm_inv (snd r)"
    using assms not_ready_empty[OF assms(2)] by (auto simp: r_def spawn_inv split: option.split)
  moreover have "vlm_inv (stop_child dies (snd r))"
    using stop_empty[OF assms(1) inv_empty] calculation by (blast intro: vlm_inv_empty)
  moreover have "snd (infer loaded dies reply v) = snd r \<or> snd (infer loaded dies reply v) = stop_child dies (snd r)"
    by (cases r) (auto simp: infer_def r_def[symmetric] Let_def split: option.split sum.split)
  ultimately show ?thesis by auto
qed

lemma vlm_step_inv: "(\<forall>n. dies n \<noteq> Unkillable) \<Longrightarrow> vlm_inv v \<Longrightarrow> vlm_inv (vlm_step loaded dies e v)"
proof (cases e)
  case (Start m)
  assume d: "\<forall>n. dies n \<noteq> Unkillable" and v: "vlm_inv v"
  then have "vp_proc v = None \<Longrightarrow> vp_children v = []" by (auto simp: vlm_inv_def)
  then show ?thesis using Start d v by (simp add: spawn_inv)
next
  case (Switch m)
  assume d: "\<forall>n. dies n \<noteq> Unkillable" and "vlm_inv v"
  then show ?thesis using Switch stop_empty[OF d inv_empty] by (simp add: switch_child_def spawn_inv)
next
  case Stop
  assume d: "\<forall>n. dies n \<noteq> Unkillable" and "vlm_inv v"
  then show ?thesis using Stop stop_empty[OF d inv_empty] by (simp add: vlm_inv_empty)
next
  case (Crash n)
  assume "vlm_inv v"
  then consider "vp_children v = []" | m where "vp_proc v = Some m" "vp_conn v" "vp_children v = [m]" by (auto simp: vlm_inv_def)
  then show ?thesis by cases (simp_all add: Crash vlm_inv_def)
qed (simp add: infer_inv)

definition killable_step :: "(nat \<Rightarrow> loading) \<Rightarrow> (nat \<Rightarrow> death) \<Rightarrow> vlm_event \<Rightarrow> vlm \<Rightarrow> vlm" where
  "killable_step loaded dies e v = (if \<forall>n. dies n \<noteq> Unkillable then vlm_step loaded dies e v else v)"

interpretation vlm_run: keeps vlm_inv "killable_step loaded dies" for loaded dies
  by unfold_locales (simp add: killable_step_def vlm_step_inv)

lemma no_child_inv: "vlm_inv no_child"
  by (simp add: vlm_inv_def no_child_def)

text \<open>
  C31. One child at a time: as long as no child survives SIGKILL, after any sequence of loads,
  switches, inferences (with their respawns), stops and crashes at most one child process
  exists, and it is the one the manager holds a connection to; so the native memory of an
  earlier model is always back with the system before the next one loads.
\<close>

theorem one_child_at_a_time:
  assumes "\<forall>n. dies n \<noteq> Unkillable"
  shows "let v = fold (vlm_step loaded dies) es no_child in
    length (vp_children v) \<le> 1 \<and> (vp_children v \<noteq> [] \<longrightarrow> is_ready v \<and> vp_proc v = Some (hd (vp_children v)))"
proof -
  have "killable_step loaded dies = vlm_step loaded dies" using assms by (intro ext) (simp add: killable_step_def)
  then have "vlm_inv (fold (vlm_step loaded dies) es no_child)"
    using vlm_run.run_keeps[OF no_child_inv, of loaded dies es] by simp
  then show ?thesis by (auto simp: Let_def vlm_inv_def is_ready_def alive_def)
qed

theorem one_child_at_a_time_witness:
  "length (vp_children (fold (vlm_step (\<lambda>_. Ready) (\<lambda>_. OnTerm)) [Start ''a'', Switch ''b'', Crash 1, Infer (Inl ''x'')] no_child)) \<le> 1"
  using one_child_at_a_time[of "\<lambda>_. OnTerm" "\<lambda>_. Ready" "[Start ''a'', Switch ''b'', Crash 1, Infer (Inl ''x'')]"]
  by (simp only: Let_def) simp

section \<open>Switch requests\<close>

record holder =
  hd_name :: string
  hd_pending :: "string option"

definition queue_switch :: "string \<Rightarrow> holder \<Rightarrow> holder" where
  "queue_switch name h = (if name = hd_name h \<and> hd_pending h = None then h else h\<lparr>hd_pending := Some name\<rparr>)"

definition pop_request :: "holder \<Rightarrow> string option \<times> holder" where
  "pop_request h = (hd_pending h, h\<lparr>hd_pending := None\<rparr>)"

text \<open>\<open>holder.request_switch\<close>; the holder is absent until the first model is loaded.\<close>

definition request_switch :: "string list \<Rightarrow> string \<Rightarrow> holder option \<Rightarrow> (bool \<times> string) \<times> holder option" where
  "request_switch available name ho =
     (case ho of
        None \<Rightarrow> ((False, ''model not loaded yet''), ho)
      | Some h \<Rightarrow>
          if available = [] then ((False, ''models not ready yet''), ho)
          else if name \<notin> set available then ((False, ''model not available (not precompiled)''), ho)
          else ((True, ''queued''), Some (queue_switch name h)))"

section \<open>Performing a switch\<close>

record brain =
  bn_app :: app
  bn_vlm :: vlm
  bn_holder :: holder

definition perform_switch :: "(nat \<Rightarrow> loading) \<Rightarrow> (nat \<Rightarrow> death) \<Rightarrow> string \<Rightarrow> brain \<Rightarrow> brain" where
  "perform_switch loaded dies target b =
     (let prev = hd_name (bn_holder b);
          a1 = set_vlm_current_model target (set_vlm_state ''switching'' [] (bn_app b))
      in case switch_child loaded dies target (bn_vlm b) of
           (None, v1) \<Rightarrow>
             b\<lparr>bn_vlm := v1, bn_holder := (bn_holder b)\<lparr>hd_name := target\<rparr>, bn_app := set_vlm_state ''ready'' [] a1\<rparr>
         | (Some e, v1) \<Rightarrow>
             (let a2 = set_vlm_state ''error'' (target @ '': '' @ take 200 e) a1
              in case switch_child loaded dies prev v1 of
                   (None, v2) \<Rightarrow> b\<lparr>bn_vlm := v2, bn_app := set_vlm_state ''ready'' [] (set_vlm_current_model prev a2)\<rparr>
                 | (Some e2, v2) \<Rightarrow> b\<lparr>bn_vlm := v2, bn_app := a2\<rparr>))"

text \<open>The worker's boundary between two inferences.\<close>

definition switch_boundary :: "(nat \<Rightarrow> loading) \<Rightarrow> (nat \<Rightarrow> death) \<Rightarrow> brain \<Rightarrow> brain" where
  "switch_boundary loaded dies b =
     (let (target, h1) = pop_request (bn_holder b); b1 = b\<lparr>bn_holder := h1\<rparr> in
      case target of
        Some m \<Rightarrow> if m \<noteq> [] \<and> m \<noteq> hd_name h1 then perform_switch loaded dies m b1 else b1
      | None \<Rightarrow> b1)"

definition post_switch :: "string list \<Rightarrow> string \<Rightarrow> brain \<Rightarrow> brain" where
  "post_switch available name b =
     (case snd (request_switch available name (Some (bn_holder b))) of Some h \<Rightarrow> b\<lparr>bn_holder := h\<rparr> | None \<Rightarrow> b)"

section \<open>What a switch leaves behind\<close>

definition brain_ok :: "brain \<Rightarrow> bool" where
  "brain_ok b \<longleftrightarrow> vp_current (bn_vlm b) = Some (hd_name (bn_holder b)) \<and>
     (ap_vlm_state (bn_app b) = ''ready'' \<longrightarrow> ap_vlm_current (bn_app b) = hd_name (bn_holder b))"

lemma spawn_cases:
  "(fst (spawn loaded dies m v) = None \<and> is_ready (snd (spawn loaded dies m v)) \<and> vp_current (snd (spawn loaded dies m v)) = Some m) \<or>
   (\<exists>e. fst (spawn loaded dies m v) = Some e \<and> \<not> is_ready (snd (spawn loaded dies m v)) \<and>
      vp_current (snd (spawn loaded dies m v)) = vp_current v)"
  by (cases "loaded (vp_spawned v)")
    (auto simp: spawn_def Let_def is_ready_def alive_def stop_child_def hard_stop_def)

lemma stop_current [simp]: "vp_current (stop_child dies v) = vp_current v"
  by (simp add: stop_child_def hard_stop_def Let_def split: option.split)

lemma switch_cases:
  obtains v' where "switch_child loaded dies m v = (None, v')" "is_ready v'" "vp_current v' = Some m"
  | e v' where "switch_child loaded dies m v = (Some e, v')" "\<not> is_ready v'" "vp_current v' = vp_current v"
  using spawn_cases[of loaded dies m "stop_child dies v"] by (cases "switch_child loaded dies m v") (auto simp: switch_child_def)

lemma vlm_marks [simp]:
  "ap_vlm_state (set_vlm_state st e a) = st" "ap_vlm_current (set_vlm_state st e a) = ap_vlm_current a"
  "ap_vlm_state (set_vlm_current_model m a) = ap_vlm_state a" "ap_vlm_current (set_vlm_current_model m a) = m"
  by (simp_all add: set_vlm_state_def set_vlm_current_model_def sse_push_def Let_def)

text \<open>
  A switch ends in one of three ways, and the state shown is right in the first two: the
  target runs; or the target failed and the previous model runs again; or both failed, the
  state is \<open>error\<close> and no child runs. In each case the holder names the model a respawn loads.
\<close>

theorem switch_outcome:
  assumes "brain_ok b"
  shows "let b' = perform_switch loaded dies target b; prev = hd_name (bn_holder b); shown = ap_vlm_current (bn_app b') in
    brain_ok b' \<and> hd_pending (bn_holder b') = hd_pending (bn_holder b) \<and>
    (ap_vlm_state (bn_app b') = ''ready'' \<and> is_ready (bn_vlm b') \<and> hd_name (bn_holder b') = target \<and> shown = target \<or>
     ap_vlm_state (bn_app b') = ''ready'' \<and> is_ready (bn_vlm b') \<and> hd_name (bn_holder b') = prev \<and> shown = prev \<or>
     ap_vlm_state (bn_app b') = ''error'' \<and> \<not> is_ready (bn_vlm b') \<and> hd_name (bn_holder b') = prev \<and> shown = target)"
proof (rule switch_cases[of loaded dies target "bn_vlm b"])
  fix v' assume "switch_child loaded dies target (bn_vlm b) = (None, v')" "is_ready v'" "vp_current v' = Some target"
  then show ?thesis by (simp add: perform_switch_def brain_ok_def Let_def)
next
  fix e v' assume f: "switch_child loaded dies target (bn_vlm b) = (Some e, v')" "\<not> is_ready v'" "vp_current v' = vp_current (bn_vlm b)"
  show ?thesis
    by (rule switch_cases[of loaded dies "hd_name (bn_holder b)" v'])
      (use f assms in \<open>simp_all add: perform_switch_def brain_ok_def Let_def\<close>)
qed

text \<open>
  The third outcome sticks. When target and rollback both fail, the next inference may respawn
  the previous model and succeed, but nothing clears the error: the client still sees
  \<open>error\<close> and the target's name, and a request for the model that runs is swallowed.
\<close>

theorem failed_rollback_sticks:
  assumes "brain_ok b" and "loaded (vp_spawned (bn_vlm b)) = LoadError e1" and "loaded (Suc (vp_spawned (bn_vlm b))) = LoadError e2"
    and "loaded (Suc (Suc (vp_spawned (bn_vlm b)))) = Ready" and "hd_pending (bn_holder b) = None"
  shows "let b1 = perform_switch loaded dies target b; (result, v) = infer loaded dies (Inr (''result'', said)) (bn_vlm b1) in
    result = Inr said \<and> is_ready v \<and> vp_current v = Some (hd_name (bn_holder b)) \<and>
    ap_vlm_state (bn_app b1) = ''error'' \<and> ap_vlm_current (bn_app b1) = target \<and>
    post_switch available (hd_name (bn_holder b)) b1 = b1"
proof -
  let ?v = "bn_vlm b" and ?prev = "hd_name (bn_holder b)"
  have spawned [simp]: "vp_spawned (stop_child dies v) = vp_spawned v" for v
    by (simp add: stop_child_def hard_stop_def Let_def split: option.split)
  have failing: "\<exists>v'. switch_child loaded dies m v = (Some (load_failed m e), v') \<and> vp_spawned v' = Suc (vp_spawned v) \<and>
      vp_current v' = vp_current v \<and> \<not> is_ready v'" if "loaded (vp_spawned v) = LoadError e" for m v e
    using that by (simp add: switch_child_def spawn_def Let_def) (simp add: is_ready_def stop_child_def hard_stop_def Let_def)
  obtain v1 where v1: "switch_child loaded dies target ?v = (Some (load_failed target e1), v1)" "vp_spawned v1 = Suc (vp_spawned ?v)"
    "vp_current v1 = vp_current ?v" using failing[OF assms(2)] by blast
  obtain v2 where v2: "switch_child loaded dies ?prev v1 = (Some (load_failed ?prev e2), v2)" "vp_spawned v2 = Suc (vp_spawned v1)"
    "vp_current v2 = vp_current v1" "\<not> is_ready v2" using failing[of v1 e2] assms(3) v1(2) by metis
  have b1: "perform_switch loaded dies target b = b\<lparr>bn_vlm := v2, bn_app := set_vlm_state ''error'' (target @ '': '' @ take 200 (load_failed target e1))
      (set_vlm_current_model target (set_vlm_state ''switching'' [] (bn_app b)))\<rparr>"
    by (simp add: perform_switch_def v1(1) v2(1) Let_def)
  have "loaded (vp_spawned v2) = Ready" "vp_current v2 = Some ?prev" using assms(1,4) v1 v2 by (simp_all add: brain_ok_def)
  then have "spawn loaded dies ?prev v2 = (None, snd (spawn loaded dies ?prev v2)) \<and> is_ready (snd (spawn loaded dies ?prev v2)) \<and>
      vp_current (snd (spawn loaded dies ?prev v2)) = Some ?prev"
    using spawn_cases[of loaded dies ?prev v2] by (simp add: spawn_def Let_def is_ready_def alive_def)
  moreover have "infer loaded dies (Inr (''result'', said)) v2 = (case spawn loaded dies ?prev v2 of (None, v) \<Rightarrow> (Inr said, v) | (Some e, v) \<Rightarrow> (Inl e, v))"
    using v2(4) \<open>vp_current v2 = Some ?prev\<close> by (simp add: infer_def split: prod.split option.split)
  ultimately show ?thesis
    using assms(5) by (cases "spawn loaded dies ?prev v2") (simp add: b1 Let_def post_switch_def request_switch_def queue_switch_def)
qed

section \<open>Which model a sequence of requests leads to\<close>

lemma post_accepted: "post_switch available m b = (if m \<in> set available then b\<lparr>bn_holder := queue_switch m (bn_holder b)\<rparr> else b)"
  by (auto simp: post_switch_def request_switch_def)

definition aimed :: "holder \<Rightarrow> string" where
  "aimed h = (case hd_pending h of Some m \<Rightarrow> m | None \<Rightarrow> hd_name h)"

lemma queue_aim: "aimed (queue_switch m h) = m"
  by (auto simp: queue_switch_def aimed_def)

definition last_or :: "'a \<Rightarrow> 'a list \<Rightarrow> 'a" where
  "last_or d xs = (if xs = [] then d else List.last xs)"

lemma posts:
  "aimed (bn_holder (fold (post_switch available) ms b)) = last_or (aimed (bn_holder b)) (filter (\<lambda>m. m \<in> set available) ms) \<and>
   bn_vlm (fold (post_switch available) ms b) = bn_vlm b \<and> hd_name (bn_holder (fold (post_switch available) ms b)) = hd_name (bn_holder b)"
proof (induction ms arbitrary: b)
  case (Cons m ms)
  have "hd_name (queue_switch m h) = hd_name h" for h by (simp add: queue_switch_def)
  with Cons show ?case by (auto simp: post_accepted queue_aim last_or_def)
qed (simp add: last_or_def)

text \<open>
  Between two inferences the last accepted switch request wins: after any requests, the
  worker's next boundary (when the models load) runs the last requested model that is
  available, or keeps the model it has when none was accepted; requests for models that were
  not precompiled change nothing.
\<close>

theorem last_switch_request_wins:
  assumes "\<forall>n. loaded n = Ready" and "hd_pending (bn_holder b) = None" and "[] \<notin> set available"
  shows "let b' = switch_boundary loaded dies (fold (post_switch available) ms b) in
    hd_name (bn_holder b') = last_or (hd_name (bn_holder b)) (filter (\<lambda>m. m \<in> set available) ms) \<and> hd_pending (bn_holder b') = None"
proof -
  let ?c = "fold (post_switch available) ms b" and ?acc = "filter (\<lambda>m. m \<in> set available) ms"
  have c: "aimed (bn_holder ?c) = last_or (hd_name (bn_holder b)) ?acc" "hd_name (bn_holder ?c) = hd_name (bn_holder b)"
    using posts[of available ms b] assms(2) by (simp_all add: aimed_def)
  have sw: "\<exists>v'. switch_child loaded dies m v = (None, v')" for m v
    using assms(1) by (simp add: switch_child_def spawn_def Let_def)
  show ?thesis
  proof (cases "hd_pending (bn_holder ?c)")
    case None
    with c show ?thesis by (simp add: switch_boundary_def pop_request_def aimed_def Let_def)
  next
    case (Some m)
    then have m: "m = last_or (hd_name (bn_holder b)) ?acc" using c by (simp add: aimed_def)
    have "m = hd_name (bn_holder b) \<or> m \<noteq> []"
      using m assms(3) last_in_set[of ?acc] by (auto simp: last_or_def split: if_splits)
    moreover obtain v' where "switch_child loaded dies m (bn_vlm ?c) = (None, v')" using sw by blast
    ultimately show ?thesis
      using Some m c(2) by (auto simp: switch_boundary_def pop_request_def perform_switch_def Let_def)
  qed
qed

text \<open>
  During a switch it does not. \<open>holder.name\<close> is still the old model while the new one loads
  (the switch writes it at its end), so a request to go back is answered as queued and
  dropped, and the new model stays.
\<close>

theorem switch_back_is_swallowed:
  assumes "bn_holder b = \<lparr>hd_name = old, hd_pending = Some new\<rparr>" and "old \<in> set available" and "new \<noteq> []" and "new \<noteq> old"
    and "\<forall>n. loaded n = Ready"
  shows "let popped = b\<lparr>bn_holder := snd (pop_request (bn_holder b))\<rparr>;
      asked = post_switch available old popped; b' = perform_switch loaded dies new asked in
    fst (request_switch available old (Some (bn_holder popped))) = (True, ''queued'') \<and>
    hd_name (bn_holder b') = new \<and> switch_boundary loaded dies b' = b'"
proof -
  obtain v' where "switch_child loaded dies new (bn_vlm b) = (None, v')"
    using assms(5) by (simp add: switch_child_def spawn_def Let_def)
  then show ?thesis
    using assms by (auto simp: Let_def pop_request_def post_accepted queue_switch_def request_switch_def perform_switch_def switch_boundary_def)
qed

section \<open>Compiling the models\<close>

definition so_path :: "string \<Rightarrow> string" where
  "so_path model_id =
     (let base = List.last (split_on (CHR ''/'') model_id)
      in ''/data/models/mlc/dist/'' @ base @ ''/ctx4096/'' @ base @ ''-q4f16_ft/'' @ base @ ''-q4f16_ft-cuda.so'')"

definition snapshot_path :: "string \<Rightarrow> string" where
  "snapshot_path model_id =
     ''/data/models/huggingface/models--'' @ concat (map (\<lambda>c. if c = CHR ''/'' then ''--'' else [c]) model_id)"

text \<open>\<open>exists\<close>: the files present; \<open>compiles\<close>: the subprocess for a model exits with 0.\<close>

fun precompile_from :: "(string \<Rightarrow> bool) \<Rightarrow> (string \<Rightarrow> bool) \<Rightarrow> string \<Rightarrow> string list \<Rightarrow> app \<Rightarrow> (string + string list) \<times> app" where
  "precompile_from exists compiles default_model [] a = (Inr [], a)"
| "precompile_from exists compiles default_model (m # ms) a =
     (if exists (so_path m)
      then (case precompile_from exists compiles default_model ms a of
              (Inl e, a1) \<Rightarrow> (Inl e, a1) | (Inr av, a1) \<Rightarrow> (Inr (m # av), a1))
      else
        let a2 = set_vlm_state (if exists (snapshot_path m) then ''compiling'' else ''downloading'') [] (set_vlm_current_model m a) in
        if compiles m
        then (case precompile_from exists compiles default_model ms a2 of
                (Inl e, a1) \<Rightarrow> (Inl e, a1) | (Inr av, a1) \<Rightarrow> (Inr (m # av), a1))
        else if m = default_model then (Inl (''default model precompile failed: '' @ m), a2)
        else precompile_from exists compiles default_model ms a2)"

definition precompile_all :: "(string \<Rightarrow> bool) \<Rightarrow> (string \<Rightarrow> bool) \<Rightarrow> string list \<Rightarrow> app \<Rightarrow> (string + string list) \<times> app" where
  "precompile_all exists compiles models a = precompile_from exists compiles (hd models) models a"

text \<open>
  The models offered are exactly the configured ones that have a compiled cache or compile
  now, in order; the start-up is given up exactly when the default model is not among them.
\<close>

theorem precompiled_models:
  assumes "models \<noteq> []"
  shows "let usable = (\<lambda>m. exists (so_path m) \<or> compiles m) in
    (usable (hd models) \<longrightarrow> fst (precompile_all exists compiles models a) = Inr (filter usable models)) \<and>
    (\<not> usable (hd models) \<longrightarrow> fst (precompile_all exists compiles models a) = Inl (''default model precompile failed: '' @ hd models))"
proof -
  have good: "fst (precompile_from exists compiles d ms a) = Inr (filter (\<lambda>m. exists (so_path m) \<or> compiles m) ms)"
    if usable: "exists (so_path d) \<or> compiles d" for d ms a
  proof (induction ms arbitrary: a)
    case (Cons m ms)
    define rest where "rest = filter (\<lambda>m. exists (so_path m) \<or> compiles m) ms"
    have r: "\<exists>a1. precompile_from exists compiles d ms b = (Inr rest, a1)" for b
      using Cons[of b] unfolding rest_def by (metis prod.collapse)
    consider "exists (so_path m)" | "\<not> exists (so_path m)" "compiles m" | "\<not> exists (so_path m)" "\<not> compiles m" "m \<noteq> d"
      using usable by blast
    then have "fst (precompile_from exists compiles d (m # ms) a) = Inr (if exists (so_path m) \<or> compiles m then m # rest else rest)"
    proof cases
      case 1
      then show ?thesis using r[of a] by auto
    next
      case 2
      then show ?thesis
        using r[of "set_vlm_state (if exists (snapshot_path m) then ''compiling'' else ''downloading'') [] (set_vlm_current_model m a)"]
        by (auto simp: Let_def)
    next
      case 3
      then show ?thesis
        using r[of "set_vlm_state (if exists (snapshot_path m) then ''compiling'' else ''downloading'') [] (set_vlm_current_model m a)"]
        by (auto simp: Let_def)
    qed
    then show ?case by (simp add: rest_def)
  qed simp
  obtain m ms where "models = m # ms" using assms by (cases models) auto
  then show ?thesis using good[of "hd models" models a] by (simp add: precompile_all_def Let_def)
qed

section \<open>Concrete switches\<close>

definition model_a :: brain where
  "model_a = \<lparr>bn_app = set_vlm_current_model ''a'' (set_vlm_state ''ready'' [] initial_app),
     bn_vlm = snd (spawn (\<lambda>_. Ready) (\<lambda>_. OnTerm) ''a'' no_child), bn_holder = \<lparr>hd_name = ''a'', hd_pending = None\<rparr>\<rparr>"

lemma model_a_fields:
  "brain_ok model_a" "vp_spawned (bn_vlm model_a) = 1" "bn_holder model_a = \<lparr>hd_name = ''a'', hd_pending = None\<rparr>"
  by (simp_all add: model_a_def brain_ok_def spawn_def Let_def no_child_def)

theorem switch_outcome_witness:
  "brain_ok (perform_switch (\<lambda>_. Ready) (\<lambda>_. OnTerm) ''b'' model_a)"
  using switch_outcome[OF model_a_fields(1), of "\<lambda>_. Ready" "\<lambda>_. OnTerm" "''b''"] by (simp add: Let_def)

definition two_failures :: "nat \<Rightarrow> loading" where
  "two_failures n = (if n = 1 \<or> n = 2 then LoadError ''out of memory'' else Ready)"

theorem failed_rollback_sticks_witness:
  "ap_vlm_state (bn_app (perform_switch two_failures (\<lambda>_. OnTerm) ''b'' model_a)) = ''error''"
  using failed_rollback_sticks[OF model_a_fields(1), of two_failures "''out of memory''" "''out of memory''" "\<lambda>_. OnTerm" "''b''" "''ok''" "[''a'', ''b'']"]
  by (simp add: two_failures_def model_a_fields(2,3) Let_def split: prod.splits)

theorem last_switch_request_wins_witness:
  "hd_name (bn_holder (switch_boundary (\<lambda>_. Ready) (\<lambda>_. OnTerm) (fold (post_switch [''a'', ''b'', ''c'']) [''b'', ''zzz'', ''c''] model_a))) = ''c''"
  using last_switch_request_wins[of "\<lambda>_. Ready" model_a "[''a'', ''b'', ''c'']" "\<lambda>_. OnTerm" "[''b'', ''zzz'', ''c'']"]
  by (simp add: Let_def model_a_fields(3) last_or_def)

theorem switch_back_is_swallowed_witness:
  "fst (request_switch [''a'', ''b''] ''a'' (Some \<lparr>hd_name = ''a'', hd_pending = None\<rparr>)) = (True, ''queued'')"
  using switch_back_is_swallowed[of "model_a\<lparr>bn_holder := \<lparr>hd_name = ''a'', hd_pending = Some ''b''\<rparr>\<rparr>" "''a''" "''b''" "[''a'', ''b'']" "\<lambda>_. Ready"]
  by (simp add: Let_def pop_request_def)

theorem precompiled_models_witness:
  "fst (precompile_all (\<lambda>_. False) (\<lambda>m. m = ''x/a'') [''x/a'', ''x/b''] initial_app) = Inr [''x/a'']"
  using precompiled_models[of "[''x/a'', ''x/b'']" "\<lambda>_. False" "\<lambda>m. m = ''x/a''" initial_app] by (simp add: Let_def)

end
