(* ===== verification/Analyzer_Child.thy ===== *)
theory Analyzer_Child
  imports Analyzer_Vlm
begin

text \<open>
  The child side of \<open>analyzer/vlm_worker.py\<close> (\<open>_child_main\<close>, \<open>_child_run_inference\<close>) and
  the channel between it and its manager, step by step: both processes run at their own pace,
  the child may die and the parent may give up waiting at any moment. The model (NanoLLM) is a
  function from a chat to the tokens it streams, or the exception it raises.
\<close>

section \<open>The child\<close>

text \<open>A frame is named by a number, as in the pipeline.\<close>

datatype chat_entry = UserImage nat | UserText string

type_synonym job = "nat list \<times> string"

definition chat_of :: "job \<Rightarrow> chat_entry list" where
  "chat_of j = map UserImage (fst j) @ [UserText (snd j)]"

type_synonym generate = "chat_entry list \<Rightarrow> string + string list"

definition run_inference :: "generate \<Rightarrow> job \<Rightarrow> string + string" where
  "run_inference gen j = (case gen (chat_of j) of Inl e \<Rightarrow> Inl e | Inr tokens \<Rightarrow> Inr (child_answer tokens))"

definition reply_to :: "generate \<Rightarrow> job \<Rightarrow> message" where
  "reply_to gen j = (case run_inference gen j of Inr t \<Rightarrow> (''result'', t) | Inl e \<Rightarrow> (''infer_error'', e))"

text \<open>One message of the parent; other kinds are skipped.\<close>

definition serve_message :: "generate \<Rightarrow> string \<times> job \<Rightarrow> message list" where
  "serve_message gen m = (if fst m = ''infer'' then [reply_to gen (snd m)] else [])"

text \<open>
  Everything a child sends: \<open>loaded\<close> is what \<open>from_pretrained\<close> gave, \<open>received\<close> the messages
  up to the parent's disconnect.
\<close>

definition child_main :: "string + generate \<Rightarrow> (string \<times> job) list \<Rightarrow> message list" where
  "child_main loaded received =
     (case loaded of
        Inl e \<Rightarrow> [(''load_error'', e)]
      | Inr gen \<Rightarrow> (''ready'', ''None'') # concat (map (serve_message gen) received))"

text \<open>The child answers every job exactly once and in order, and says nothing else after its first message.\<close>

lemma child_answers_in_order:
  "tl (child_main (Inr gen) received) = map (reply_to gen \<circ> snd) (filter (\<lambda>m. fst m = ''infer'') received)"
  by (induction received) (simp_all add: child_main_def serve_message_def)

lemma reply_kinds [simp]: "fst (reply_to gen j) \<noteq> ''ready''" "fst (reply_to gen j) \<noteq> ''load_error''"
  by (auto simp: reply_to_def split: sum.split)

section \<open>The channel\<close>

text \<open>
  What the parent waits for. \<open>ch_inbox\<close> and \<open>ch_outbox\<close> are the two directions of the one
  connection the parent holds; dropping the connection drops both. \<open>ch_history\<close> records what
  \<open>infer\<close> returned or raised for which job, with the model loaded at that time.
\<close>

datatype wait = Idle | AwaitLoad string | AwaitAnswer job

record channel =
  ch_open :: bool
  ch_alive :: bool
  ch_loaded :: bool
  ch_model :: string
  ch_inbox :: "(string \<times> job) list"
  ch_outbox :: "message list"
  ch_wait :: wait
  ch_history :: "(string \<times> job \<times> (string + string)) list"

definition no_channel :: channel where
  "no_channel = \<lparr>ch_open = False, ch_alive = False, ch_loaded = False, ch_model = [], ch_inbox = [], ch_outbox = [],
     ch_wait = Idle, ch_history = []\<rparr>"

text \<open>\<open>stop()\<close>: the connection is closed and the process killed.\<close>

definition drop_channel :: "channel \<Rightarrow> channel" where
  "drop_channel c = c\<lparr>ch_open := False, ch_alive := False, ch_inbox := [], ch_outbox := [], ch_wait := Idle\<rparr>"

definition returned :: "job \<Rightarrow> string + string \<Rightarrow> channel \<Rightarrow> channel" where
  "returned j r c = c\<lparr>ch_history := (ch_model c, j, r) # ch_history c\<rparr>"

text \<open>The answer of \<open>infer\<close> to the message it received.\<close>

definition infer_result :: "message \<Rightarrow> string + string" where
  "infer_result m = (if fst m = ''result'' then Inr (snd m) else Inl (''VLM inference error: '' @ snd m))"

inductive channel_step :: "(string \<Rightarrow> generate) \<Rightarrow> channel \<Rightarrow> channel \<Rightarrow> bool" for gens where
  spawned: "ch_wait c = Idle \<Longrightarrow> \<not> ch_alive c \<Longrightarrow>
     channel_step gens c (c\<lparr>ch_open := True, ch_alive := True, ch_loaded := False, ch_model := m,
       ch_inbox := [], ch_outbox := [], ch_wait := AwaitLoad m\<rparr>)"
| child_loads: "ch_alive c \<Longrightarrow> \<not> ch_loaded c \<Longrightarrow>
     channel_step gens c (c\<lparr>ch_loaded := True, ch_outbox := ch_outbox c @ [(''ready'', ''None'')]\<rparr>)"
| child_load_fails: "ch_alive c \<Longrightarrow> \<not> ch_loaded c \<Longrightarrow>
     channel_step gens c (c\<lparr>ch_alive := False, ch_outbox := ch_outbox c @ [(''load_error'', e)]\<rparr>)"
| child_serves: "ch_alive c \<Longrightarrow> ch_loaded c \<Longrightarrow> ch_inbox c = m # ms \<Longrightarrow>
     channel_step gens c (c\<lparr>ch_inbox := ms, ch_outbox := ch_outbox c @ serve_message (gens (ch_model c)) m\<rparr>)"
| child_dies: "ch_alive c \<Longrightarrow> channel_step gens c (c\<lparr>ch_alive := False\<rparr>)"
| load_answered: "ch_wait c = AwaitLoad m \<Longrightarrow> ch_open c \<Longrightarrow> ch_outbox c = msg # rest \<Longrightarrow>
     channel_step gens c (if fst msg = ''ready'' then c\<lparr>ch_outbox := rest, ch_wait := Idle\<rparr> else drop_channel c)"
| load_given_up: "ch_wait c = AwaitLoad m \<Longrightarrow> channel_step gens c (drop_channel c)"
| job_sent: "ch_wait c = Idle \<Longrightarrow> ch_open c \<Longrightarrow> ch_alive c \<Longrightarrow>
     channel_step gens c (c\<lparr>ch_inbox := ch_inbox c @ [(''infer'', j)], ch_wait := AwaitAnswer j\<rparr>)"
| answered: "ch_wait c = AwaitAnswer j \<Longrightarrow> ch_open c \<Longrightarrow> ch_outbox c = msg # rest \<Longrightarrow>
     channel_step gens c (returned j (infer_result msg) (c\<lparr>ch_outbox := rest, ch_wait := Idle\<rparr>))"
| given_up: "ch_wait c = AwaitAnswer j \<Longrightarrow>
     channel_step gens c (returned j (Inl (''VLM inference transport error: '' @ e)) (drop_channel c))"
| stopped: "ch_wait c = Idle \<Longrightarrow> channel_step gens c (drop_channel c)"

inductive_cases channel_stepE: "channel_step gens c c'"

section \<open>No answer of an earlier job\<close>

text \<open>
  Between two calls both directions are empty; while a job is out, either the job is still in
  the child's inbox or its answer, and nothing else, is on the way back.
\<close>

definition aligned :: "(string \<Rightarrow> generate) \<Rightarrow> channel \<Rightarrow> bool" where
  "aligned gens c \<longleftrightarrow>
     (case ch_wait c of
        Idle \<Rightarrow> ch_inbox c = [] \<and> ch_outbox c = [] \<and> (ch_alive c \<longrightarrow> ch_loaded c \<and> ch_open c)
      | AwaitLoad m \<Rightarrow> ch_inbox c = [] \<and> ch_open c \<and> ch_model c = m \<and>
          (if ch_loaded c then ch_outbox c = [(''ready'', ''None'')]
           else ch_outbox c = [] \<or> (\<not> ch_alive c \<and> (\<exists>e. ch_outbox c = [(''load_error'', e)])))
      | AwaitAnswer j \<Rightarrow> ch_open c \<and> ch_loaded c \<and>
          (ch_inbox c = [(''infer'', j)] \<and> ch_outbox c = [] \<or>
           ch_inbox c = [] \<and> ch_outbox c = [reply_to (gens (ch_model c)) j]))"

definition honest :: "(string \<Rightarrow> generate) \<Rightarrow> string \<times> job \<times> (string + string) \<Rightarrow> bool" where
  "honest gens h = (case h of (m, j, r) \<Rightarrow> case r of Inr t \<Rightarrow> run_inference (gens m) j = Inr t | Inl _ \<Rightarrow> True)"

lemma infer_result_honest: "honest gens (m, j, infer_result (reply_to (gens m) j))"
  by (auto simp: honest_def infer_result_def reply_to_def split: sum.split)

lemma aligned_drop [simp]: "aligned gens (drop_channel c)" "ch_history (drop_channel c) = ch_history c"
  "ch_model (drop_channel c) = ch_model c"
  by (simp_all add: aligned_def drop_channel_def)

lemma aligned_returned [simp]: "aligned gens (returned j r c) = aligned gens c"
  "ch_history (returned j r c) = (ch_model c, j, r) # ch_history c"
  by (simp_all add: aligned_def returned_def split: wait.split)

lemma aligned_step:
  assumes "channel_step gens c c'" and "aligned gens c"
  shows "aligned gens c'"
  using assms
proof (induction rule: channel_step.induct)
  case (answered c j msg rest)
  then show ?case unfolding aligned_returned by (auto simp: aligned_def)
next
  case (given_up c j e)
  then show ?case unfolding aligned_returned by simp
next
  case (load_answered c m msg rest)
  show ?case
  proof (cases "fst msg = ''ready''")
    case True
    then show ?thesis using load_answered by (auto simp: aligned_def split: if_splits)
  qed simp
next
  case (load_given_up c m)
  show ?case by simp
next
  case (stopped c)
  show ?case by simp
qed (auto simp: aligned_def serve_message_def split: wait.splits if_splits)

lemma honest_step:
  assumes "channel_step gens c c'" and "aligned gens c" and "list_all (honest gens) (ch_history c)"
  shows "list_all (honest gens) (ch_history c')"
  using assms
proof (induction rule: channel_step.induct)
  case (answered c j msg rest)
  then have "msg = reply_to (gens (ch_model c)) j" by (auto simp: aligned_def)
  then show ?case using answered infer_result_honest[of gens "ch_model c" j] by simp
next
  case (given_up c j e)
  then show ?case by (simp add: honest_def)
qed (simp_all split: if_split)

definition reachable_channel :: "(string \<Rightarrow> generate) \<Rightarrow> channel \<Rightarrow> bool" where
  "reachable_channel gens c = (channel_step gens)\<^sup>*\<^sup>* no_channel c"

lemma aligned_start: "aligned gens no_channel" "list_all (honest gens) (ch_history no_channel)"
  by (simp_all add: aligned_def no_channel_def)

lemma reachable_aligned: "reachable_channel gens c \<Longrightarrow> aligned gens c \<and> list_all (honest gens) (ch_history c)"
  unfolding reachable_channel_def
  by (induction rule: rtranclp_induct) (auto intro: aligned_step honest_step aligned_start)

text \<open>
  C19. No judgment is made from the answer of another inference. In every interleaving of the
  parent and its children, whatever times out or dies when: a text that \<open>infer\<close> returns for a
  job is what the model loaded at that time generates from exactly that job's frames and
  prompt. A late answer of a job the parent gave up on is never taken for the next one.
\<close>

theorem answer_belongs_to_its_job:
  assumes "reachable_channel gens c" and "(model, j, Inr text) \<in> set (ch_history c)"
  shows "\<exists>tokens. gens model (chat_of j) = Inr tokens \<and> text = child_answer tokens"
proof -
  have "honest gens (model, j, Inr text)" using reachable_aligned[OF assms(1)] assms(2) by (simp add: list_all_iff)
  then show ?thesis by (auto simp: honest_def run_inference_def split: sum.splits)
qed

section \<open>A run\<close>

definition echo :: "string \<Rightarrow> generate" where
  "echo m chat = Inr [m, '' saw '', int_str (int (length chat) - 1), ''</s>junk'']"

definition one_run :: channel where
  "one_run = no_channel\<lparr>ch_open := True, ch_alive := True, ch_loaded := True, ch_model := ''A'',
     ch_history := [(''A'', ([4, 5], ''fire?''), Inr ''A saw 2'')]\<rparr>"

lemma echo_reply: "reply_to (echo ''A'') ([4, 5], ''fire?'') = (''result'', ''A saw 2'')"
  by code_simp

lemma one_run_reachable: "reachable_channel echo one_run"
proof -
  let ?j = "([4, 5], ''fire?'')"
  define c1 where "c1 = no_channel\<lparr>ch_open := True, ch_alive := True, ch_loaded := False, ch_model := ''A'',
    ch_inbox := [], ch_outbox := [], ch_wait := AwaitLoad ''A''\<rparr>"
  define c2 where "c2 = c1\<lparr>ch_loaded := True, ch_outbox := ch_outbox c1 @ [(''ready'', ''None'')]\<rparr>"
  define c3 where "c3 = c2\<lparr>ch_outbox := [], ch_wait := Idle\<rparr>"
  define c4 where "c4 = c3\<lparr>ch_inbox := ch_inbox c3 @ [(''infer'', ?j)], ch_wait := AwaitAnswer ?j\<rparr>"
  define c5 where "c5 = c4\<lparr>ch_inbox := [], ch_outbox := ch_outbox c4 @ serve_message (echo (ch_model c4)) (''infer'', ?j)\<rparr>"
  note defs = c1_def c2_def c3_def c4_def c5_def no_channel_def
  have s1: "channel_step echo no_channel c1" unfolding c1_def by (rule spawned) (simp_all add: no_channel_def)
  have s2: "channel_step echo c1 c2" unfolding c2_def by (rule child_loads) (simp_all add: defs)
  have s3: "channel_step echo c2 c3"
    using load_answered[of c2 "''A''" "(''ready'', ''None'')" "[]" echo] unfolding c3_def by (simp add: defs)
  have s4: "channel_step echo c3 c4" unfolding c4_def by (rule job_sent) (simp_all add: defs)
  have s5: "channel_step echo c4 c5" unfolding c5_def by (rule child_serves) (simp_all add: defs)
  have "ch_wait c5 = AwaitAnswer ?j" "ch_open c5" "ch_outbox c5 = [(''result'', ''A saw 2'')]"
    by (simp_all add: defs serve_message_def echo_reply)
  from answered[OF this, of echo] have s6: "channel_step echo c5 one_run"
    by (simp add: defs one_run_def returned_def infer_result_def)
  show ?thesis unfolding reachable_channel_def using s1 s2 s3 s4 s5 s6
    by (meson rtranclp.rtrancl_into_rtrancl rtranclp.rtrancl_refl)
qed

theorem answer_belongs_to_its_job_witness:
  "\<exists>tokens. echo ''A'' (chat_of ([4, 5], ''fire?'')) = Inr tokens \<and> ''A saw 2'' = child_answer tokens"
  by (rule answer_belongs_to_its_job[OF one_run_reachable]) (simp add: one_run_def)

end
