(* ===== verification/Analyzer_Worker.thy ===== *)
theory Analyzer_Worker
  imports Analyzer_Pipeline Analyzer_Vlm
begin

text \<open>
  The inference worker of the analyzer (\<open>inference_worker\<close> of \<open>analyzer/main.py\<close>): the
  boundary between two inferences, the guards in front of one, the snapshot of prompt,
  keywords, labels and preset, the judgment, and the notifications it sends
  (\<open>analyzer/notify.py\<close>). Other threads may change the shared state while the child
  generates, so one inference is two functions with anything in between.
\<close>

section \<open>State\<close>

datatype notice =
  EventNotice "string list" string seconds seconds seconds int
| InferenceNotice seconds string "string list" string string int

record job =
  jb_triggers :: "string list"
  jb_labels :: labels
  jb_preset :: string
  jb_prompt :: json
  jb_frames :: "nat list"
  jb_last_frame :: seconds
  jb_started :: seconds

record worker =
  wk_plant :: plant
  wk_vlm :: vlm
  wk_holder :: holder
  wk_last_infer :: seconds
  wk_failures :: nat
  wk_exited :: bool
  wk_sent :: "notice list"

definition max_failures :: nat where
  "max_failures = 3"

abbreviation wk_app :: "worker \<Rightarrow> app" where
  "wk_app w \<equiv> pt_app (wk_plant w)"

definition on_worker_app :: "(app \<Rightarrow> app) \<Rightarrow> worker \<Rightarrow> worker" where
  "on_worker_app f w = w\<lparr>wk_plant := on_app f (wk_plant w)\<rparr>"

section \<open>Before an inference\<close>

definition worker_boundary :: "(nat \<Rightarrow> loading) \<Rightarrow> (nat \<Rightarrow> death) \<Rightarrow> worker \<Rightarrow> worker" where
  "worker_boundary loaded dies w =
     (let b = switch_boundary loaded dies \<lparr>bn_app = wk_app w, bn_vlm = wk_vlm w, bn_holder = wk_holder w\<rparr>
      in w\<lparr>wk_plant := (wk_plant w)\<lparr>pt_app := bn_app b\<rparr>, wk_vlm := bn_vlm b, wk_holder := bn_holder b\<rparr>)"

text \<open>The preset in force replaces the prompt and the labels it carries.\<close>

definition settings_now :: "int \<Rightarrow> app \<Rightarrow> string \<times> json \<times> labels" where
  "settings_now minutes a =
     (case resolve_preset minutes (ap_presets a) of
        None \<Rightarrow> (''default'', ap_prompt a, ap_labels a)
      | Some p \<Rightarrow> (ps_id p, (case ps_prompt p of Some s \<Rightarrow> JStr s | None \<Rightarrow> ap_prompt a),
                   (case ps_labels p of Some ls \<Rightarrow> ls | None \<Rightarrow> ap_labels a)))"

definition begin_inference :: "int \<Rightarrow> clock \<Rightarrow> seconds \<Rightarrow> int \<Rightarrow> worker \<Rightarrow> job option \<times> worker" where
  "begin_inference minutes tm min_interval n_frames w =
     (let p = wk_plant w in
      if \<not> pt_signal p then (None, w)
      else
        let w1 = w\<lparr>wk_plant := p\<lparr>pt_signal := False\<rparr>\<rparr> in
        if \<not> active p then (None, w1)
        else if 0 < min_interval \<and> tm 0 - wk_last_infer w < min_interval then (None, w1)
        else
          let samples = latest_samples n_frames (pt_ring p) in
          if samples = [] then (None, w1)
          else
            let (preset_id, prompt, labels) = settings_now minutes (pt_app p)
            in (Some \<lparr>jb_triggers = ap_triggers (pt_app p), jb_labels = labels, jb_preset = preset_id, jb_prompt = prompt,
                  jb_frames = map snd samples, jb_last_frame = fst (List.last samples), jb_started = tm 1\<rparr>,
                (on_worker_app (set_active_preset preset_id) w1)\<lparr>wk_last_infer := tm 1\<rparr>))"

section \<open>After an inference\<close>

definition matched_keywords :: "string list \<Rightarrow> string \<Rightarrow> string list" where
  "matched_keywords triggers raw = filter (\<lambda>kw. contains kw (py_lower raw)) triggers"

definition matched_labels :: "labels \<Rightarrow> string \<Rightarrow> string list" where
  "matched_labels labels raw = map fst (filter (\<lambda>(label, syns). list_ex (\<lambda>s. contains s (py_lower raw)) syns) labels)"

text \<open>The part after the check of the flag.\<close>

definition publish :: "clock \<Rightarrow> int \<Rightarrow> job \<Rightarrow> string \<Rightarrow> worker \<Rightarrow> worker" where
  "publish tm elapsed_ms j raw w =
     (let matched = matched_keywords (jb_triggers j) raw; triggered = (matched \<noteq> []);
          w1 = on_worker_app (update_inference raw (of_int elapsed_ms) triggered) w
      in w1\<lparr>wk_sent := wk_sent w @
            (if triggered then [EventNotice matched raw (tm 1) (jb_last_frame j) (jb_started j) elapsed_ms] else []) @
            [InferenceNotice (tm 2) raw (matched_labels (jb_labels j) raw) (jb_preset j) (hd_name (wk_holder w)) elapsed_ms]\<rparr>)"

definition finish_inference :: "clock \<Rightarrow> job \<Rightarrow> string + string \<Rightarrow> worker \<Rightarrow> worker" where
  "finish_inference tm j result w =
     (case result of
        Inl e \<Rightarrow>
          (let f = Suc (wk_failures w); w1 = w\<lparr>wk_failures := f\<rparr> in
           if max_failures \<le> f
           then (on_worker_app (set_vlm_state ''error'' (''inference failed '' @ nat_str f @ '' times: '' @ take 160 e)) w1)\<lparr>wk_exited := True\<rparr>
           else w1)
      | Inr raw \<Rightarrow>
          (let w1 = w\<lparr>wk_failures := 0\<rparr>; elapsed_ms = to_ms (tm 0 - jb_started j) in
           if \<not> active (wk_plant w1) then w1 else publish tm elapsed_ms j raw w1))"

text \<open>
  One round of the loop; \<open>meanwhile\<close> is what the other threads do to the shared state
  while the child generates.
\<close>

definition worker_round :: "(nat \<Rightarrow> loading) \<Rightarrow> (nat \<Rightarrow> death) \<Rightarrow> int \<Rightarrow> clock \<Rightarrow> clock \<Rightarrow> seconds \<Rightarrow> int \<Rightarrow>
    string + message \<Rightarrow> (plant \<Rightarrow> plant) \<Rightarrow> worker \<Rightarrow> worker" where
  "worker_round loaded dies minutes tm tm' min_interval n_frames reply meanwhile w =
     (if wk_exited w then w
      else
        let w1 = worker_boundary loaded dies w in
        case begin_inference minutes tm min_interval n_frames w1 of
          (None, w2) \<Rightarrow> w2
        | (Some j, w2) \<Rightarrow>
            (let (result, v) = infer loaded dies reply (wk_vlm w2);
                 w3 = w2\<lparr>wk_vlm := v, wk_plant := meanwhile (wk_plant w2)\<rparr>
             in finish_inference tm' j result w3))"

section \<open>What a judgment says\<close>

lemma begin_active: "begin_inference minutes tm gap n w = (Some j, w') \<Longrightarrow> active (wk_plant w)"
  by (auto simp: begin_inference_def Let_def split: if_splits prod.splits)

lemma begin_settings:
  "begin_inference minutes tm gap n w = (Some j, w') \<Longrightarrow>
   jb_triggers j = ap_triggers (wk_app w) \<and> (jb_preset j, jb_prompt j, jb_labels j) = settings_now minutes (wk_app w) \<and>
   jb_frames j = map snd (latest_samples n (pt_ring (wk_plant w))) \<and> jb_frames j \<noteq> [] \<and> wk_sent w' = wk_sent w \<and>
   wk_holder w' = wk_holder w \<and> wk_vlm w' = wk_vlm w \<and> wk_failures w' = wk_failures w \<and> wk_exited w' = wk_exited w"
  by (auto simp: begin_inference_def Let_def on_worker_app_def split: if_splits prod.splits)

lemma worker_app_fields [simp]:
  "wk_sent (on_worker_app f w) = wk_sent w" "wk_failures (on_worker_app f w) = wk_failures w" "wk_exited (on_worker_app f w) = wk_exited w"
  "wk_app (on_worker_app f w) = f (wk_app w)" "wk_holder (on_worker_app f w) = wk_holder w"
  by (simp_all add: on_worker_app_def on_app_def)

text \<open>
  A judgment pairs the text with the settings read before it. Whatever other threads do while
  the child generates (settings changed, frames, restarts), as long as analysis is on at the
  end: exactly one history notice goes out, its labels are those of the vocabulary in force
  at the start with a synonym in the lower-cased text, in vocabulary order; an event notice
  goes out before it exactly when one of the keywords read at the start occurs in the text,
  naming exactly those; and the state shows the text and that verdict.
\<close>

theorem judgment_uses_one_snapshot:
  assumes "begin_inference minutes tm gap n w = (Some j, w1)"
    and "active (meanwhile (wk_plant w1))"
  shows "let w2 = finish_inference tm' j (Inr raw) (w1\<lparr>wk_plant := meanwhile (wk_plant w1)\<rparr>);
      hits = filter (\<lambda>kw. contains kw (py_lower raw)) (ap_triggers (wk_app w)); (preset_id, prompt, vocabulary) = settings_now minutes (wk_app w);
      ms = to_ms (tm' 0 - jb_started j) in
    wk_sent w2 = wk_sent w @ (if hits = [] then [] else [EventNotice hits raw (tm' 1) (jb_last_frame j) (jb_started j) ms]) @
      [InferenceNotice (tm' 2) raw (map fst (filter (\<lambda>(l, syns). \<exists>s\<in>set syns. contains s (py_lower raw)) vocabulary)) preset_id
        (hd_name (wk_holder w)) ms] \<and>
    ap_infer_raw (wk_app w2) = raw \<and> ap_event (wk_app w2) = (hits \<noteq> [])"
proof -
  obtain preset_id prompt vocabulary where s: "settings_now minutes (wk_app w) = (preset_id, prompt, vocabulary)" by (metis prod_cases3)
  note b = begin_settings[OF assms(1)]
  have v: "matched_labels vocabulary raw = map fst (filter (\<lambda>(l, syns). \<exists>s\<in>set syns. contains s (py_lower raw)) vocabulary)"
    by (simp add: matched_labels_def list_ex_iff)
  show ?thesis
    using b s assms(2)
    by (simp add: Let_def finish_inference_def publish_def matched_keywords_def v update_inference_def sse_push_def)
qed

text \<open>
  A stop between the check of the flag and the update is too late: the judgment of the
  stopped analysis then stays in the state although analysis is off, and its event is sent.
\<close>

theorem late_stop_shows_judgment:
  assumes "contains kw (py_lower raw)" and "kw \<in> set (jb_triggers j)"
  shows "let w1 = publish tm ms j raw (on_worker_app (set_analysis_active False) w) in
    \<not> active (wk_plant w1) \<and> ap_infer_raw (wk_app w1) = raw \<and> ap_event (wk_app w1) \<and>
    (\<exists>k t f st. EventNotice k raw t f st ms \<in> set (wk_sent w1))"
proof -
  have "matched_keywords (jb_triggers j) raw \<noteq> []" using assms by (auto simp: matched_keywords_def filter_empty_conv)
  then show ?thesis by (simp add: Let_def publish_def update_inference_def set_analysis_active_def sse_push_def active_def) blast
qed

section \<open>Giving up\<close>

definition finish_step :: "clock \<times> job \<times> (string + string) \<Rightarrow> worker \<Rightarrow> worker" where
  "finish_step x w = (if wk_exited w then w else case x of (tm, j, r) \<Rightarrow> finish_inference tm j r w)"

definition trailing :: "bool list \<Rightarrow> nat" where
  "trailing fs = length (takeWhile (\<lambda>b. b) (rev fs))"

lemma trailing_snoc [simp]: "trailing (fs @ [b]) = (if b then Suc (trailing fs) else 0)"
  by (simp add: trailing_def)

lemma trailing_suffix: "n \<le> trailing fs \<longleftrightarrow> suffix (replicate n True) fs"
proof (induction fs arbitrary: n rule: rev_induct)
  case (snoc b fs)
  show ?case
  proof (cases n)
    case (Suc m)
    have "replicate n True = replicate m True @ [True]" using Suc by (simp add: replicate_append_same)
    then show ?thesis using snoc[of m] Suc by (simp add: snoc_suffix_snoc)
  qed simp
qed (simp add: trailing_def)

lemma finish_fields:
  "wk_exited (finish_inference tm j r w) = (wk_exited w \<or> isl r \<and> max_failures \<le> Suc (wk_failures w))"
  "wk_failures (finish_inference tm j r w) = (if isl r then Suc (wk_failures w) else 0)"
  by (cases r; simp add: finish_inference_def publish_def Let_def)+

lemma finish_step_eq: "finish_step (tm, j, r) w = (if wk_exited w then w else finish_inference tm j r w)"
  by (simp add: finish_step_def)

lemma finish_run:
  assumes "wk_failures w = 0" and "\<not> wk_exited w"
  shows "if sublist (replicate max_failures True) (map (\<lambda>x. isl (snd (snd x))) xs) then wk_exited (fold finish_step xs w)
    else \<not> wk_exited (fold finish_step xs w) \<and> wk_failures (fold finish_step xs w) = trailing (map (\<lambda>x. isl (snd (snd x))) xs)"
proof (induction xs rule: rev_induct)
  case Nil
  then show ?case using assms by (simp add: max_failures_def trailing_def)
next
  case (snoc x xs)
  obtain tm j r where x: "x = (tm, j, r)" by (metis prod_cases3)
  let ?fs = "map (\<lambda>x. isl (snd (snd x))) xs"
  have "sublist (replicate max_failures True) (?fs @ [isl r]) \<longleftrightarrow>
      sublist (replicate max_failures True) ?fs \<or> max_failures \<le> trailing (?fs @ [isl r])"
    unfolding trailing_suffix by (auto simp: sublist_snoc)
  with snoc show ?case
    by (cases "sublist (replicate max_failures True) ?fs") (auto simp: x finish_step_eq finish_fields max_failures_def)
qed

text \<open>
  The worker gives up exactly when three inferences in a row have failed: failures with a
  success in between never add up, and the third in a row is not survived.
\<close>

theorem gives_up_after_three_in_a_row:
  assumes "wk_failures w = 0" and "\<not> wk_exited w"
  shows "wk_exited (fold finish_step xs w) \<longleftrightarrow> sublist [True, True, True] (map (\<lambda>x. isl (snd (snd x))) xs)"
proof -
  have "replicate max_failures True = [True, True, True]" by (simp add: max_failures_def numeral_3_eq_3)
  then show ?thesis using finish_run[OF assms, of xs] by (auto split: if_splits)
qed

text \<open>
  A stop while the child generates discards the judgment: whatever calls follow the stop
  (none of them a start or another judgment), nothing is sent and nothing is shown.
\<close>

lemma stop_discards_judgment:
  assumes "list_all quiet_event es"
  shows "let w2 = finish_inference tm j (Inr raw) (on_worker_app (\<lambda>a. fold app_step es (set_analysis_active False a)) w) in
    wk_sent w2 = wk_sent w \<and> ap_infer_raw (wk_app w2) = [] \<and> \<not> ap_event (wk_app w2)"
proof -
  have "quiet (fold app_step es (set_analysis_active False (wk_app w)))"
    using quiet_run.run_keeps[OF stop_is_quiet, of "wk_app w" es] fold_quiet[OF assms] by (simp add: quiet_with_def)
  then show ?thesis by (simp add: finish_inference_def Let_def active_def quiet_def)
qed

section \<open>Concrete rounds\<close>

definition working :: worker where
  "working = \<lparr>wk_plant = playing\<lparr>pt_signal := True, pt_ring := [(1, 5), (2, 6)],
       pt_app := (pt_app playing)\<lparr>ap_triggers := [''fire'', ''cat''], ap_labels := [(''pet'', [''cat'', ''dog''])]\<rparr>\<rparr>,
     wk_vlm = no_child, wk_holder = \<lparr>hd_name = ''a'', hd_pending = None\<rparr>, wk_last_infer = 0, wk_failures = 0, wk_exited = False, wk_sent = []\<rparr>"

lemma working_begins:
  "begin_inference 0 (\<lambda>_. 3) 0 4 working = (Some \<lparr>jb_triggers = [''fire'', ''cat''], jb_labels = [(''pet'', [''cat'', ''dog''])], jb_preset = ''default'',
     jb_prompt = JStr [], jb_frames = [5, 6], jb_last_frame = 2, jb_started = 3\<rparr>,
     (on_worker_app (set_active_preset ''default'') (working\<lparr>wk_plant := (wk_plant working)\<lparr>pt_signal := False\<rparr>\<rparr>))\<lparr>wk_last_infer := 3\<rparr>)"
  by (simp add: begin_inference_def working_def playing_def active_def settings_now_def resolve_preset_def latest_samples_def initial_app_def
      set_analysis_active_def sse_push_def)

lemma working_says: "contains ''cat'' (py_lower ''A CAT'')" "\<not> contains ''fire'' (py_lower ''A CAT'')"
  by code_simp+

lemma working_active: "active (wk_plant (snd (begin_inference 0 (\<lambda>_. 3) 0 4 working)))"
  by (simp add: working_begins) (simp add: working_def playing_def active_def on_worker_app_def on_app_def set_active_preset_def
      set_analysis_active_def sse_push_def)

theorem judgment_uses_one_snapshot_witness:
  "ap_event (wk_app (finish_inference (\<lambda>_. 4) (the (fst (begin_inference 0 (\<lambda>_. 3) 0 4 working))) (Inr ''A CAT'')
     (snd (begin_inference 0 (\<lambda>_. 3) 0 4 working))))"
proof -
  have b: "begin_inference 0 (\<lambda>_. 3) 0 4 working =
      (Some (the (fst (begin_inference 0 (\<lambda>_. 3) 0 4 working))), snd (begin_inference 0 (\<lambda>_. 3) 0 4 working))"
    by (simp add: working_begins)
  have "ap_triggers (wk_app working) = [''fire'', ''cat'']" by (simp add: working_def)
  with judgment_uses_one_snapshot[OF b, of "\<lambda>p. p" "\<lambda>_. 4" "''A CAT''"] working_active working_says show ?thesis
    by (simp add: Let_def split: prod.splits)
qed

theorem late_stop_shows_judgment_witness:
  "ap_event (wk_app (publish (\<lambda>_. 4) 1000 (the (fst (begin_inference 0 (\<lambda>_. 3) 0 4 working))) ''A CAT''
     (on_worker_app (set_analysis_active False) working)))"
  using late_stop_shows_judgment[OF working_says(1), of "the (fst (begin_inference 0 (\<lambda>_. 3) 0 4 working))" "\<lambda>_. 4" 1000 working]
  by (simp add: Let_def working_begins)

theorem gives_up_after_three_in_a_row_witness:
  "\<not> wk_exited (fold finish_step [(\<lambda>_. 0, the (fst (begin_inference 0 (\<lambda>_. 3) 0 4 working)), Inl ''x'')] working)"
  using gives_up_after_three_in_a_row[of working "[(\<lambda>_. 0, the (fst (begin_inference 0 (\<lambda>_. 3) 0 4 working)), Inl ''x'')]"]
  by (simp add: working_def sublist_Cons_right)

end
