(* ===== verification/Analyzer_Server.thy ===== *)
theory Analyzer_Server
  imports Analyzer_Pipeline Analyzer_Vlm
begin

text \<open>
  The analyzer's HTTP handlers (\<open>analyzer/server.py\<close>) and the start-up of its process
  (\<open>main()\<close> of \<open>analyzer/main.py\<close>): reading a body, the five POST handlers with their
  guards and the settings file they write, the dispatch, and the restore from the file. A
  request comes with its path as \<open>urlparse\<close> gives it, its Content-Length header and its
  body; whether the file system raises an OSError, what launching a pipeline raises, and the
  text of floats are inputs. \<open>main()\<close> registers both callbacks before the server starts,
  so the handlers call them.
\<close>

section \<open>State and answers\<close>

record server =
  sv_plant :: plant
  sv_vlm :: vlm
  sv_file :: doc
  sv_available :: "string list"
  sv_holder :: "holder option"

datatype reply = Json nat json | NotFound | EventStream | FrameStream

definition detail :: "string \<Rightarrow> json" where
  "detail s = JObj [(''detail'', JStr s)]"

definition bad_request :: "string \<Rightarrow> reply" where
  "bad_request s = Json 400 (detail s)"

definition max_body :: int where
  "max_body = 65536"

record body =
  bd_length :: "string option"
  bd_raw :: string

definition on_sv_app :: "(app \<Rightarrow> app) \<Rightarrow> server \<Rightarrow> server" where
  "on_sv_app f sv = sv\<lparr>sv_plant := on_app f (sv_plant sv)\<rparr>"

abbreviation sv_app :: "server \<Rightarrow> app" where
  "sv_app sv \<equiv> pt_app (sv_plant sv)"

text \<open>\<open>_read_json_body\<close>: the 400 answer, or the JSON object.\<close>

definition read_json_body :: "body \<Rightarrow> reply + dict" where
  "read_json_body b =
     (let len = (case bd_length b of None \<Rightarrow> 0 | Some s \<Rightarrow> (case py_int_of_str s of None \<Rightarrow> 0 | Some n \<Rightarrow> n)) in
      if len \<le> 0 then Inl (bad_request ''request body required'')
      else if max_body < len then Inl (bad_request ''request body too large'')
      else case loads (take (nat len) (bd_raw b)) of
             Some (JObj d) \<Rightarrow> Inr d
           | _ \<Rightarrow> Inl (bad_request ''invalid request body''))"

definition settings_of :: "app \<Rightarrow> settings" where
  "settings_of a = \<lparr>st_prompt = ap_prompt a, st_keywords = ap_triggers a, st_labels = ap_labels a, st_presets = ap_presets a,
     st_active = ap_active a\<rparr>"

definition persist_settings :: "bool \<Rightarrow> server \<Rightarrow> server" where
  "persist_settings written sv = sv\<lparr>sv_file := save written (settings_of (sv_app sv)) (sv_file sv)\<rparr>"

section \<open>Handlers\<close>

definition split_keywords :: "string \<Rightarrow> string list" where
  "split_keywords s = map normal_word (filter (\<lambda>k. strip k \<noteq> []) (split_on (CHR '','') s))"

definition handle_prompt :: "(json \<Rightarrow> string) \<Rightarrow> bool \<Rightarrow> body \<Rightarrow> server \<Rightarrow> reply \<times> server" where
  "handle_prompt rp written b sv =
     (case read_json_body b of
        Inl r \<Rightarrow> (r, sv)
      | Inr d \<Rightarrow>
          (let prompt = strip (py_str rp (with_default d ''prompt'' (JStr [])));
               triggers_raw = strip (py_str rp (with_default d ''triggers'' (JStr [])))
           in if prompt = [] then (bad_request ''prompt required'', sv)
              else (Json 200 (JObj [(''ok'', JBool True)]),
                    persist_settings written (on_sv_app (\<lambda>a. set_triggers (split_keywords triggers_raw) (set_prompt (JStr prompt) a)) sv))))"

text \<open>The values that were sent; an omitted one stays.\<close>

definition set_both :: "labels option \<Rightarrow> preset list option \<Rightarrow> app \<Rightarrow> app" where
  "set_both ls ps a =
     (let a1 = (case ls of None \<Rightarrow> a | Some l \<Rightarrow> set_label_groups l a) in case ps of None \<Rightarrow> a1 | Some p \<Rightarrow> set_presets p a1)"

definition handle_presets :: "bool \<Rightarrow> body \<Rightarrow> server \<Rightarrow> reply \<times> server" where
  "handle_presets written b sv =
     (case read_json_body b of
        Inl r \<Rightarrow> (r, sv)
      | Inr d \<Rightarrow>
          if \<not> has_key d ''labels'' \<and> \<not> has_key d ''presets'' then (bad_request ''labels or presets required'', sv)
          else
            let ls = (case map_of d ''labels'' of None \<Rightarrow> None | Some v \<Rightarrow> validate_labels v) in
            if has_key d ''labels'' \<and> ls = None then (bad_request ''malformed labels'', sv)
            else
              let ps = (case map_of d ''presets'' of None \<Rightarrow> None | Some v \<Rightarrow> validate_presets v) in
              if has_key d ''presets'' \<and> ps = None then (bad_request ''malformed presets'', sv)
              else
                let sv2 = persist_settings written (on_sv_app (set_both ls ps) sv)
                in (Json 200 (JObj [(''ok'', JBool True), (''labels'', labels_json (ap_labels (sv_app sv2))),
                      (''presets'', JList (map preset_json (ap_presets (sv_app sv2))))]), sv2))"

definition handle_start :: "seconds \<Rightarrow> launch \<Rightarrow> bool \<Rightarrow> server \<Rightarrow> reply \<times> server" where
  "handle_start now raised written sv =
     (let sv1 = persist_settings written (on_sv_app (set_analysis_active True) sv) in
      case start_analysis now raised (sv_plant sv1) of
        (Inl e, p1) \<Rightarrow> (Json 500 (detail (''pipeline start failed: '' @ e)), sv1\<lparr>sv_plant := start_failed e p1\<rparr>)
      | (Inr started, p1) \<Rightarrow> (Json 200 (JObj [(''ok'', JBool True), (''started'', JBool started)]), sv1\<lparr>sv_plant := p1\<rparr>))"

definition handle_stop :: "bool \<Rightarrow> server \<Rightarrow> reply \<times> server" where
  "handle_stop written sv =
     (let sv1 = persist_settings written (on_sv_app (set_analysis_active False) sv)
      in (Json 200 (JObj [(''ok'', JBool True)]), sv1\<lparr>sv_plant := stop_analysis (sv_plant sv1)\<rparr>))"

definition handle_vlm_switch :: "(json \<Rightarrow> string) \<Rightarrow> body \<Rightarrow> server \<Rightarrow> reply \<times> server" where
  "handle_vlm_switch rp b sv =
     (case read_json_body b of
        Inl r \<Rightarrow> (r, sv)
      | Inr d \<Rightarrow>
          (let v = get_null d ''model''; name = strip (if truthy v then py_str rp v else []) in
           if name = [] then (bad_request ''model required'', sv)
           else case request_switch (sv_available sv) name (sv_holder sv) of
                  ((True, reason), h) \<Rightarrow> (Json 200 (JObj [(''ok'', JBool True)]), sv\<lparr>sv_holder := h\<rparr>)
                | ((False, reason), h) \<Rightarrow> (bad_request reason, sv\<lparr>sv_holder := h\<rparr>)))"

section \<open>Dispatch\<close>

datatype request = GetReq string | PostReq string body

definition do_get :: "string \<Rightarrow> reply" where
  "do_get path = (if path = ''/stream'' then FrameStream else if path = ''/events'' then EventStream else NotFound)"

definition do_post :: "(json \<Rightarrow> string) \<Rightarrow> seconds \<Rightarrow> launch \<Rightarrow> bool \<Rightarrow> string \<Rightarrow> body \<Rightarrow> server \<Rightarrow> reply \<times> server" where
  "do_post rp now raised written path b sv =
     (if path = ''/prompt'' then handle_prompt rp written b sv
      else if path = ''/presets'' then handle_presets written b sv
      else if path = ''/start'' then handle_start now raised written sv
      else if path = ''/stop'' then handle_stop written sv
      else if path = ''/vlm/switch'' then handle_vlm_switch rp b sv
      else (NotFound, sv))"

text \<open>One message of the event stream, at most one per second and subscriber.\<close>

definition sse_message :: "(real \<Rightarrow> string) \<Rightarrow> seconds \<Rightarrow> app \<Rightarrow> string" where
  "sse_message rp now a = ''data: '' @ dumps rp False (JObj (snapshot now a)) @ [CHR 0x0A, CHR 0x0A]"

text \<open>One round of the MJPEG loop; \<open>jpeg\<close> encodes the frame.\<close>

definition mjpeg_part :: "(nat \<Rightarrow> string) \<Rightarrow> app \<Rightarrow> string" where
  "mjpeg_part jpeg a =
     (let crlf = [CHR 0x0D, CHR 0x0A] in
      case ap_frame a of
        None \<Rightarrow> []
      | Some f \<Rightarrow> ''--frame'' @ crlf @ ''Content-Type: image/jpeg'' @ crlf @ ''Content-Length: '' @ nat_str (length (jpeg f)) @ crlf @ crlf @ jpeg f @ crlf)"

record conditions =
  cd_now :: seconds
  cd_raised :: launch
  cd_written :: bool

definition serve :: "(json \<Rightarrow> string) \<Rightarrow> conditions \<Rightarrow> request \<Rightarrow> server \<Rightarrow> reply \<times> server" where
  "serve rp c r sv =
     (case r of
        GetReq path \<Rightarrow> (do_get path, sv)
      | PostReq path b \<Rightarrow> do_post rp (cd_now c) (cd_raised c) (cd_written c) path b sv)"

lemmas handler_defs = handle_prompt_def handle_presets_def handle_start_def handle_stop_def handle_vlm_switch_def

section \<open>The file follows the state\<close>

definition server_inv :: "server \<Rightarrow> bool" where
  "server_inv sv \<longleftrightarrow> settings_wf (settings_of (sv_app sv)) \<and> load (sv_file sv) = Some (settings_of (sv_app sv))"

lemma validate_labels_wf: "validate_labels v = Some ls \<Longrightarrow> labels_wf ls"
  by (auto simp: validate_labels_def Let_def clean_labels_wf split: json.splits if_splits)

lemma validate_presets_wf: "validate_presets v = Some ps \<Longrightarrow> p \<in> set ps \<Longrightarrow> preset_wf p"
  by (auto simp: validate_presets_def Let_def clean_presets_wf split: json.splits if_splits)

lemma settings_app [simp]:
  "settings_of (mark_pipeline_idle r a) = settings_of a" "settings_of (mark_pipeline_starting now r b t a) = settings_of a"
  by (simp_all add: settings_of_def mark_defs)

lemma start_settings: "request_start now r raised p = (x, p') \<Longrightarrow> settings_of (pt_app p') = settings_of (pt_app p)"
  by (auto simp: request_start_def start_pipeline_def Let_def on_app_def split: if_splits option.splits)

lemma stop_settings: "settings_of (pt_app (stop_analysis p)) = settings_of (pt_app p)"
  by (simp add: stop_analysis_def mark_waiting_for_start_def on_app_def)

lemma sv_app_on [simp]: "sv_app (on_sv_app f sv) = f (sv_app sv)" "sv_file (on_sv_app f sv) = sv_file sv"
  by (simp_all add: on_sv_app_def on_app_def)

lemma persist_inv: "settings_wf (settings_of (sv_app sv)) \<Longrightarrow> server_inv (persist_settings True sv)"
  by (simp add: server_inv_def persist_settings_def load_save)

lemma prompt_inv: "server_inv sv \<Longrightarrow> server_inv (snd (handle_prompt rp True b sv))"
  by (auto simp: handle_prompt_def Let_def split: sum.split intro!: persist_inv)
    (auto simp: server_inv_def settings_of_def settings_wf_def set_prompt_def set_triggers_def)

lemma presets_inv: "server_inv sv \<Longrightarrow> server_inv (snd (handle_presets True b sv))"
proof -
  assume inv: "server_inv sv"
  have both: "server_inv (persist_settings True (on_sv_app (set_both ls ps) sv))"
    if "\<And>l. ls = Some l \<Longrightarrow> labels_wf l" "\<And>l p. ps = Some l \<Longrightarrow> p \<in> set l \<Longrightarrow> preset_wf p" for ls ps
    using inv that
    by (intro persist_inv) (auto simp: server_inv_def settings_of_def settings_wf_def set_both_def set_presets_def set_label_groups_def
        Let_def split: option.split)
  show ?thesis
    using inv by (auto simp: handle_presets_def Let_def validate_labels_wf validate_presets_wf split: sum.split option.splits intro!: both)
qed

lemma handle_start_inv: "server_inv sv \<Longrightarrow> server_inv (snd (handle_start now raised True sv))"
proof -
  assume "server_inv sv"
  then have inv: "server_inv (persist_settings True (on_sv_app (set_analysis_active True) sv))"
    by (intro persist_inv) (simp add: server_inv_def settings_of_def settings_wf_def set_analysis_active_def sse_push_def)
  then show ?thesis
    using start_settings[of now "''analysis_start''" raised]
    by (auto simp: handle_start_def Let_def server_inv_def start_analysis_def start_failed_def on_app_def split: prod.split sum.split)
qed

lemma handle_stop_inv: "server_inv sv \<Longrightarrow> server_inv (snd (handle_stop True sv))"
proof -
  assume "server_inv sv"
  then have "server_inv (persist_settings True (on_sv_app (set_analysis_active False) sv))"
    by (intro persist_inv) (simp add: server_inv_def settings_of_def settings_wf_def set_analysis_active_def sse_push_def)
  then show ?thesis by (simp add: handle_stop_def Let_def server_inv_def stop_settings)
qed

lemma switch_inv: "server_inv sv \<Longrightarrow> server_inv (snd (handle_vlm_switch rp b sv))"
  by (auto simp: handle_vlm_switch_def server_inv_def Let_def split: sum.split prod.split bool.split)

lemma serve_inv: "server_inv sv \<Longrightarrow> cd_written c \<Longrightarrow> server_inv (snd (serve rp c r sv))"
  by (cases r) (simp_all add: serve_def do_post_def prompt_inv presets_inv handle_start_inv handle_stop_inv switch_inv)

definition serve_step :: "(json \<Rightarrow> string) \<Rightarrow> conditions \<times> request \<Rightarrow> server \<Rightarrow> server" where
  "serve_step rp x sv = snd (serve rp ((fst x)\<lparr>cd_written := True\<rparr>) (snd x) sv)"

interpretation serving: keeps server_inv "serve_step rp" for rp
  by unfold_locales (simp add: serve_step_def serve_inv)

lemma serve_written: "list_all (\<lambda>x. cd_written (fst x)) xs \<Longrightarrow> fold (serve_step rp) xs sv = fold (\<lambda>(c, r) s. snd (serve rp c r s)) xs sv"
proof (induction xs arbitrary: sv)
  case (Cons x xs)
  obtain c r where x: "x = (c, r)" by (cases x)
  have "c\<lparr>cd_written := True\<rparr> = c" using Cons.prems x by (cases c) simp
  then have "serve_step rp x sv = snd (serve rp c r sv)" by (simp add: serve_step_def x)
  with Cons show ?case by (simp add: x)
qed simp

text \<open>
  C7. What a restart reads back. Start the process on any settings file that loads, and serve any
  sequence of requests, good or bad, while the disk accepts writes: the file then loads to
  exactly the prompt, keywords, labels, presets and analysis flag in force.
\<close>

theorem settings_file_follows_state:
  assumes "load f = Some s" and "sv_file sv = f" and "settings_of (sv_app sv) = s" and "list_all (\<lambda>x. cd_written (fst x)) xs"
  shows "let sv' = fold (\<lambda>(c, r) sv. snd (serve rp c r sv)) xs sv in load (sv_file sv') = Some (settings_of (sv_app sv'))"
proof -
  have "server_inv sv" using assms(1-3) load_wf by (simp add: server_inv_def)
  from serving.run_keeps[OF this, of rp xs] show ?thesis
    by (simp add: Let_def serve_written[OF assms(4)] server_inv_def)
qed

section \<open>A refused request changes nothing\<close>

lemma read_json_body_status: "read_json_body b = Inl r \<Longrightarrow> \<exists>s. r = bad_request s"
  by (auto simp: read_json_body_def Let_def split: if_splits option.splits json.splits)

lemma request_switch_refused: "request_switch av m ho = ((False, reason), h) \<Longrightarrow> h = ho"
  by (auto simp: request_switch_def split: option.splits if_splits)

fun succeeded :: "reply \<Rightarrow> bool" where
  "succeeded (Json n v) = (n = 200)"
| "succeeded NotFound = False"
| "succeeded _ = True"

lemma prompt_refused: "\<not> succeeded (fst (handle_prompt rp w b sv)) \<Longrightarrow> snd (handle_prompt rp w b sv) = sv"
  by (auto simp: handle_prompt_def Let_def split: sum.splits if_splits)

lemma presets_refused: "\<not> succeeded (fst (handle_presets w b sv)) \<Longrightarrow> snd (handle_presets w b sv) = sv"
  by (auto simp: handle_presets_def Let_def split: sum.splits if_splits)

lemma switch_refused: "\<not> succeeded (fst (handle_vlm_switch rp b sv)) \<Longrightarrow> snd (handle_vlm_switch rp b sv) = sv"
  by (auto simp: handle_vlm_switch_def Let_def dest: request_switch_refused split: sum.splits if_splits prod.splits bool.splits)

lemma stop_accepted: "succeeded (fst (handle_stop w sv))"
  by (simp add: handle_stop_def Let_def)

lemma start_refused:
  "\<not> succeeded (fst (handle_start now raised w sv)) \<Longrightarrow>
   raised \<noteq> None \<and> active (sv_plant (snd (handle_start now raised w sv))) \<and> pt_pipeline (sv_plant (snd (handle_start now raised w sv))) = None"
  by (auto simp: handle_start_def Let_def start_analysis_def request_start_def start_pipeline_def start_failed_def on_app_def active_def
      persist_settings_def on_sv_app_def set_analysis_active_def sse_push_def mark_pipeline_idle_def split: if_splits option.splits)

text \<open>
  C28. No partial apply: a request that is not answered with success leaves the whole server as
  it was (settings, file, pipeline and pending switch). The one exception is a start whose
  pipeline cannot be built: then no pipeline runs and the flag stays set for a retry.
\<close>

theorem refused_request_changes_nothing:
  assumes "\<not> succeeded (fst (serve rp c r sv))"
  shows "snd (serve rp c r sv) = sv \<or>
    (\<exists>b e. r = PostReq ''/start'' b \<and> cd_raised c = Some e \<and> active (sv_plant (snd (serve rp c r sv))) \<and>
       pt_pipeline (sv_plant (snd (serve rp c r sv))) = None)"
proof (cases r)
  case (PostReq path b)
  show ?thesis
    using assms start_refused[of "cd_now c" "cd_raised c" "cd_written c" sv] stop_accepted[of "cd_written c" sv]
    unfolding PostReq serve_def do_post_def request.case
    by (auto simp: prompt_refused presets_refused switch_refused split: if_splits)
qed (simp add: serve_def)

section \<open>Keywords and prompts\<close>

definition keyword_ok :: "string \<Rightarrow> bool" where
  "keyword_ok k \<longleftrightarrow> k \<noteq> [] \<and> strip k = k \<and> py_lower k = k \<and> CHR '','' \<notin> set k"

lemma lower_comma: "CHR '','' \<in> set (py_lower s) \<Longrightarrow> CHR '','' \<in> set s"
proof -
  have "lower_char c = CHR '','' \<Longrightarrow> c = CHR '',''" for c
  proof -
    assume c: "lower_char c = CHR '',''"
    have "ord (CHR '','') = 44" by (simp add: ord_def)
    then have "ord (lower_char c) = 44" using c by simp
    then have "ord c = 44"
      by (auto simp: lower_char_def Let_def split: if_splits)
    then show "c = CHR '',''" by (simp add: ord_inject[symmetric] ord_def)
  qed
  then show "CHR '','' \<in> set (py_lower s) \<Longrightarrow> CHR '','' \<in> set s" by (force simp: py_lower_def)
qed

lemma split_keywords_ok: "k \<in> set (split_keywords s) \<Longrightarrow> keyword_ok k"
proof -
  assume "k \<in> set (split_keywords s)"
  then obtain w where w: "w \<in> set (split_on (CHR '','') s)" "strip w \<noteq> []" "k = normal_word w" by (auto simp: split_keywords_def)
  have "CHR '','' \<notin> set k"
    using lower_comma[of "strip w"] strip_subset[of w] split_on_no_sep[OF w(1)] by (auto simp: w(3) normal_word_def)
  then show ?thesis using w(2) by (simp add: w(3) keyword_ok_def strip_normal) (simp add: normal_word_def)
qed

text \<open>A JSON null is stored as the text \<open>None\<close>, an empty string is refused.\<close>

theorem null_prompt_becomes_None:
  assumes "read_json_body b = Inr d" and "map_of d ''prompt'' = Some JNull"
  shows "fst (handle_prompt rp w b sv) = Json 200 (JObj [(''ok'', JBool True)]) \<and>
    ap_prompt (sv_app (snd (handle_prompt rp w b sv))) = JStr ''None''"
proof -
  have "strip ''None'' = ''None''" by code_simp
  then show ?thesis
    using assms by (simp add: handle_prompt_def with_default_def Let_def persist_settings_def set_prompt_def set_triggers_def)
qed

section \<open>Two handlers saving at once\<close>

text \<open>
  \<open>persist_settings\<close> reads the state and then writes what it read; the lock of
  \<open>settings.save\<close> is taken after the reading. If a request of another thread comes in
  between, is applied, saved and answered, the older reading is written last: after a restart
  that request is undone, although both were answered with success.
\<close>

theorem concurrent_saves_lose_settings:
  assumes "settings_wf (settings_of (sv_app sv))" and "succeeded (fst (serve rp c r sv))"
  shows "let reading = settings_of (sv_app sv); sv1 = snd (serve rp c r sv); sv2 = sv1\<lparr>sv_file := save True reading (sv_file sv1)\<rparr>
    in load (sv_file sv2) = Some (settings_of (sv_app sv)) \<and>
       (settings_of (sv_app sv1) \<noteq> settings_of (sv_app sv) \<longrightarrow> load (sv_file sv2) \<noteq> Some (settings_of (sv_app sv2)))"
  using load_save[OF assms(1)] by (simp add: Let_def)

section \<open>Start-up\<close>

text \<open>The settings are put back before the server starts.\<close>

definition restore_app :: "settings \<Rightarrow> app" where
  "restore_app s =
     mark_pipeline_idle ''waiting_for_vlm''
       (set_analysis_active (st_active s)
         (set_presets (st_presets s) (set_label_groups (st_labels s) (set_triggers (st_keywords s) (set_prompt (st_prompt s) initial_app)))))"

definition fresh_server :: "settings \<Rightarrow> doc \<Rightarrow> server" where
  "fresh_server s f =
     \<lparr>sv_plant = \<lparr>pt_app = restore_app s, pt_pipeline = None, pt_started = 0, pt_last = 0, pt_ring = [], pt_signal = False,
        pt_refs = False, pt_launched = 0\<rparr>,
      sv_vlm = no_child, sv_file = f, sv_available = [], sv_holder = None\<rparr>"

text \<open>What the start-up finds on the machine.\<close>

record machine =
  mc_exists :: "string \<Rightarrow> bool"
  mc_compiles :: "string \<Rightarrow> bool"
  mc_loaded :: "nat \<Rightarrow> loading"
  mc_dies :: "nat \<Rightarrow> death"
  mc_models :: "string list"
  mc_interval :: seconds
  mc_now :: seconds
  mc_raised :: launch

definition set_vlm_error :: "string \<Rightarrow> app \<Rightarrow> app" where
  "set_vlm_error e = set_vlm_state ''error'' (take 240 e)"

text \<open>From the model list to the startup start; \<open>Some e\<close> is the exception that ends the process.\<close>

definition bring_up :: "machine \<Rightarrow> server \<Rightarrow> string option \<times> server" where
  "bring_up mc sv =
     (let default_model = hd (mc_models mc);
          a0 = set_vlm_models (mc_models mc) default_model (sv_app sv)
      in case precompile_all (mc_exists mc) (mc_compiles mc) (mc_models mc) a0 of
           (Inl e, a1) \<Rightarrow> (Some e, on_sv_app (\<lambda>_. set_vlm_error e a1) sv)
         | (Inr available, a1) \<Rightarrow>
             (let a2 = set_vlm_state ''loading'' [] (set_vlm_current_model default_model (set_vlm_models available default_model a1));
                  sv1 = sv\<lparr>sv_available := available\<rparr>
              in case spawn (mc_loaded mc) (mc_dies mc) default_model (sv_vlm sv) of
                   (Some e, v) \<Rightarrow> (Some e, on_sv_app (\<lambda>_. set_vlm_error e a2) (sv1\<lparr>sv_vlm := v\<rparr>))
                 | (None, v) \<Rightarrow>
                     (let a3 = set_config [(''min_infer_interval'', JFloat (mc_interval mc))]
                              (set_source ''rtsp'' ''tcp'' (set_vlm_state ''ready'' [] a2));
                          sv2 = sv1\<lparr>sv_vlm := v, sv_holder := Some \<lparr>hd_name = default_model, hd_pending = None\<rparr>,
                                  sv_plant := (sv_plant sv)\<lparr>pt_app := a3, pt_refs := True\<rparr>\<rparr>
                      in case ensure_startup_started (mc_now mc) (mc_raised mc) (sv_plant sv2) of
                           (Inl e, p) \<Rightarrow> (None, sv2\<lparr>sv_plant := start_failed e p\<rparr>)
                         | (Inr started, p) \<Rightarrow> (None, sv2\<lparr>sv_plant := p\<rparr>))))"

definition shutdown :: "(nat \<Rightarrow> death) \<Rightarrow> server \<Rightarrow> server" where
  "shutdown dies sv = (on_sv_app (mark_pipeline_stopped ''shutdown'') sv)\<lparr>sv_vlm := stop_child dies (sv_vlm sv)\<rparr>"

lemma vlm_marks_settings [simp]:
  "settings_of (set_vlm_state st e a) = settings_of a" "settings_of (set_vlm_current_model m a) = settings_of a"
  "settings_of (set_vlm_models ms m a) = settings_of a" "settings_of (set_source x y a) = settings_of a" "settings_of (set_config cfg a) = settings_of a"
  by (simp_all add: settings_of_def set_vlm_state_def set_vlm_current_model_def set_vlm_models_def set_source_def set_config_def sse_push_def Let_def)

lemma precompile_settings: "settings_of (snd (precompile_from exists compiles d ms a)) = settings_of a"
proof (induction ms arbitrary: a)
  case (Cons m ms)
  define a2 where "a2 = set_vlm_state (if exists (snapshot_path m) then ''compiling'' else ''downloading'') [] (set_vlm_current_model m a)"
  have a2: "settings_of a2 = settings_of a" by (simp add: a2_def)
  have rest: "settings_of (snd (case precompile_from exists compiles d ms b of (Inl e, a1) \<Rightarrow> (Inl e, a1) | (Inr av, a1) \<Rightarrow> (Inr (m # av), a1))) =
      settings_of b" for b
    using Cons[of b] by (cases "precompile_from exists compiles d ms b") (auto split: sum.split)
  show ?case
    using rest[of a] rest[of a2] Cons[of a2] a2 by (simp add: a2_def[symmetric] Let_def)
qed simp

lemma ensure_total: "\<exists>started p'. ensure_startup_started now None p = (Inr started, p')"
  by (cases "active p") (auto simp: ensure_startup_started_def request_start_def start_pipeline_def Let_def)

lemma restore_settings [simp]: "settings_of (restore_app s) = s"
  by (cases s) (simp add: settings_of_def restore_app_def set_prompt_def set_triggers_def set_label_groups_def set_presets_def
      set_analysis_active_def sse_push_def mark_pipeline_idle_def)

lemma active_settings: "ap_active a = st_active (settings_of a)"
  by (simp add: settings_of_def)

lemma ready_at_rest:
  "pt_refs p \<Longrightarrow> pt_pipeline p = None \<Longrightarrow>
   ensure_startup_started now None p = (Inr started, p') \<Longrightarrow>
   (pt_pipeline p' \<noteq> None \<longleftrightarrow> active p) \<and> settings_of (pt_app p') = settings_of (pt_app p) \<and> started = active p \<and>
   ap_vlm_state (pt_app p') = ap_vlm_state (pt_app p) \<and> ap_vlm_current (pt_app p') = ap_vlm_current (pt_app p) \<and>
   (\<not> active p \<longrightarrow> ap_detail (pt_app p') = ''waiting_for_start'' \<and> ap_pipeline (pt_app p') = ''idle'')"
  by (auto simp: ensure_startup_started_def request_start_def start_pipeline_def mark_waiting_for_start_def on_app_def active_def Let_def mark_defs
      settings_of_def split: if_splits)

text \<open>
  C25. A restart resumes. On any settings file that loads, with a default model that is compiled or
  compiles and loads, and a pipeline that can be built: the process comes up with the model
  ready and shown, the saved settings in force, and a pipeline running exactly when analysis
  was on before; otherwise it reports that it waits for a start.
\<close>

theorem restart_resumes_analysis:
  assumes "load f = Some s" and "mc_models mc \<noteq> []"
    and "mc_exists mc (so_path (hd (mc_models mc))) \<or> mc_compiles mc (hd (mc_models mc))"
    and "mc_loaded mc 0 = Ready" and "mc_raised mc = None"
  shows "let (failed, sv) = bring_up mc (fresh_server s f) in
    failed = None \<and> settings_of (sv_app sv) = s \<and> ap_vlm_state (sv_app sv) = ''ready'' \<and>
    ap_vlm_current (sv_app sv) = hd (mc_models mc) \<and> is_ready (sv_vlm sv) \<and>
    (pt_pipeline (sv_plant sv) \<noteq> None \<longleftrightarrow> st_active s) \<and>
    (\<not> st_active s \<longrightarrow> ap_pipeline (sv_app sv) = ''idle'' \<and> ap_detail (sv_app sv) = ''waiting_for_start'')"
proof -
  let ?m = "hd (mc_models mc)"
  obtain av a1 where pre: "precompile_all (mc_exists mc) (mc_compiles mc) (mc_models mc)
      (set_vlm_models (mc_models mc) ?m (restore_app s)) = (Inr av, a1)"
    using precompiled_models[OF assms(2), of "mc_exists mc" "mc_compiles mc"] assms(3) by (metis prod.collapse)
  have a1: "settings_of a1 = s"
    using precompile_settings[of "mc_exists mc" "mc_compiles mc" ?m "mc_models mc"] pre by (metis precompile_all_def restore_settings snd_conv vlm_marks_settings(3))
  obtain v where v: "spawn (mc_loaded mc) (mc_dies mc) ?m no_child = (None, v)" "is_ready v"
    using assms(4) by (simp add: spawn_def no_child_def Let_def is_ready_def alive_def)
  define a3 where "a3 = set_config [(''min_infer_interval'', JFloat (mc_interval mc))] (set_source ''rtsp'' ''tcp'' (set_vlm_state ''ready'' []
      (set_vlm_state ''loading'' [] (set_vlm_current_model ?m (set_vlm_models av ?m a1)))))"
  define p where "p = (sv_plant (fresh_server s f))\<lparr>pt_app := a3, pt_refs := True\<rparr>"
  have p: "pt_refs p" "pt_pipeline p = None" "pt_app p = a3" by (simp_all add: p_def fresh_server_def)
  have a3: "settings_of a3 = s" "ap_vlm_state a3 = ''ready''" "ap_vlm_current a3 = ?m"
    by (simp_all add: a3_def a1) (simp_all add: set_config_def set_source_def)
  obtain started p' where e: "ensure_startup_started (mc_now mc) None p = (Inr started, p')"
    using ensure_total by blast
  have act: "active p = st_active s" using a3(1) by (simp add: active_def p(3) active_settings)
  note r = ready_at_rest[OF p(1,2) e]
  have "bring_up mc (fresh_server s f) = (None, (fresh_server s f)\<lparr>sv_available := av, sv_vlm := v,
      sv_holder := Some \<lparr>hd_name = ?m, hd_pending = None\<rparr>, sv_plant := p'\<rparr>)"
    using pre v(1) e assms(5) by (simp add: bring_up_def Let_def fresh_server_def a3_def p_def)
  then show ?thesis using r a3 act v(2) by (simp add: p(3))
qed

section \<open>Concrete requests\<close>

definition orin :: machine where
  "orin = \<lparr>mc_exists = \<lambda>_. True, mc_compiles = \<lambda>_. True, mc_loaded = \<lambda>_. Ready, mc_dies = \<lambda>_. OnTerm, mc_models = [''x/a''],
     mc_interval = 0, mc_now = 100, mc_raised = None\<rparr>"

definition saved :: doc where
  "saved = save True sample_settings Missing"

lemma saved_loads: "load saved = Some sample_settings"
  unfolding saved_def by (rule load_save[OF sample_settings_wf])

theorem restart_resumes_analysis_witness:
  "pt_pipeline (sv_plant (snd (bring_up orin (fresh_server sample_settings saved)))) \<noteq> None"
  using restart_resumes_analysis[OF saved_loads, of orin] by (simp add: orin_def sample_settings_def Let_def split: prod.splits)

definition fine :: conditions where
  "fine = \<lparr>cd_now = 200, cd_raised = None, cd_written = True\<rparr>"

theorem settings_file_follows_state_witness:
  "load (sv_file (snd (serve (\<lambda>_. []) fine (PostReq ''/stop'' \<lparr>bd_length = None, bd_raw = []\<rparr>) (fresh_server sample_settings saved)))) =
   Some (settings_of (sv_app (snd (serve (\<lambda>_. []) fine (PostReq ''/stop'' \<lparr>bd_length = None, bd_raw = []\<rparr>) (fresh_server sample_settings saved)))))"
  using settings_file_follows_state[OF saved_loads, of "fresh_server sample_settings saved"
      "[(fine, PostReq ''/stop'' \<lparr>bd_length = None, bd_raw = []\<rparr>)]" "\<lambda>_. []"]
  by (simp add: fresh_server_def fine_def Let_def)

lemma bodiless_refused:
  "serve rp c (PostReq ''/prompt'' \<lparr>bd_length = None, bd_raw = []\<rparr>) sv = (bad_request ''request body required'', sv)"
  by (simp add: serve_def do_post_def handle_prompt_def read_json_body_def)

theorem refused_request_changes_nothing_witness:
  "snd (serve (\<lambda>_. []) fine (PostReq ''/prompt'' \<lparr>bd_length = None, bd_raw = []\<rparr>) (fresh_server sample_settings saved)) =
   fresh_server sample_settings saved"
  using refused_request_changes_nothing[of "\<lambda>_. []" fine "PostReq ''/prompt'' \<lparr>bd_length = None, bd_raw = []\<rparr>" "fresh_server sample_settings saved"]
  by (simp add: bodiless_refused bad_request_def)

definition null_body :: body where
  "null_body = \<lparr>bd_length = Some ''16'', bd_raw = dumps (\<lambda>_. []) True (JObj [(''prompt'', JNull)])\<rparr>"

lemma null_body_reads: "read_json_body null_body = Inr [(''prompt'', JNull)]"
  by code_simp

theorem null_prompt_becomes_None_witness:
  "ap_prompt (sv_app (snd (handle_prompt (\<lambda>_. []) True null_body (fresh_server sample_settings saved)))) = JStr ''None''"
  using null_prompt_becomes_None[OF null_body_reads, of "\<lambda>_. []" True "fresh_server sample_settings saved"] by simp

lemma settings_flag: "settings_of (set_analysis_active b a) = (settings_of a)\<lparr>st_active := b\<rparr>"
  by (simp add: settings_of_def set_analysis_active_def sse_push_def)

lemma stop_succeeds:
  "settings_of (sv_app (snd (serve rp c (PostReq ''/stop'' b) sv))) = (settings_of (sv_app sv))\<lparr>st_active := False\<rparr> \<and>
   succeeded (fst (serve rp c (PostReq ''/stop'' b) sv))"
  by (simp add: serve_def do_post_def handle_stop_def Let_def stop_settings persist_settings_def settings_flag)

theorem concurrent_saves_lose_settings_witness:
  "\<exists>b sv2. sv2 = (snd (serve (\<lambda>_. []) fine (PostReq ''/stop'' b) (fresh_server sample_settings saved)))\<lparr>sv_file := save True sample_settings saved\<rparr> \<and>
     load (sv_file sv2) \<noteq> Some (settings_of (sv_app sv2))"
proof -
  have w: "settings_wf (settings_of (sv_app (fresh_server sample_settings saved)))"
    using sample_settings_wf by (simp add: fresh_server_def)
  let ?b = "\<lparr>bd_length = None, bd_raw = []\<rparr>"
  have "settings_of (sv_app (fresh_server sample_settings saved)) = sample_settings" by (simp add: fresh_server_def)
  moreover have "sample_settings\<lparr>st_active := False\<rparr> \<noteq> sample_settings" by (simp add: sample_settings_def)
  moreover have "save True x f = save True x g" for x f g by (simp add: save_def)
  ultimately show ?thesis
    using concurrent_saves_lose_settings[OF w, of "\<lambda>_. []" fine "PostReq ''/stop'' ?b"] stop_succeeds[of "\<lambda>_. []" fine ?b "fresh_server sample_settings saved"]
    by (intro exI[of _ ?b]) (simp add: Let_def save_def)
qed

end
