(* ===== verification/Recorder_Clips.thy ===== *)
theory Recorder_Clips
  imports Py_Values Prelude
begin

text \<open>
  The clip tree of the recorder: \<open>recorder/clip_storage.py\<close> (counter, capacity pruning) and
  the clip endpoints of \<open>recorder/main.py\<close> (name resolution, byte ranges, pages, deletion).

  A clip file is its directory below CLIP_DIR, its name, its size and modification time, and
  its sidecar when it has one: the size of that file and the dict it holds (\<open>None\<close> when it does
  not read as one). The tree is the list of its mp4 files in the
  order \<open>rglob\<close> finds them. What \<open>disk_usage\<close> reports is an argument: reading \<open>i\<close> of one call
  is \<open>free i\<close>.
\<close>

type_synonym sidecar = "nat \<times> dict option"

record clip =
  cp_dir :: "string list"
  cp_name :: string
  cp_size :: nat
  cp_mtime :: seconds
  cp_sidecar :: "sidecar option"

record clip_tree =
  clips :: "clip list"
  counter :: int

definition min_clip_size :: nat where "min_clip_size = 10240"

definition clip_path :: "clip \<Rightarrow> string list \<times> string" where
  "clip_path c = (cp_dir c, cp_name c)"

definition playable :: "clip \<Rightarrow> bool" where
  "playable c \<longleftrightarrow> min_clip_size \<le> cp_size c"

section \<open>Counter\<close>

definition recount_clips :: "clip_tree \<Rightarrow> clip_tree" where
  "recount_clips t = t\<lparr>counter := int (length (filter playable (clips t)))\<rparr>"

definition count_added_clip :: "nat \<Rightarrow> clip_tree \<Rightarrow> clip_tree" where
  "count_added_clip sz t = (if sz < min_clip_size then t else t\<lparr>counter := counter t + 1\<rparr>)"

definition count_removed_clip :: "nat \<Rightarrow> clip_tree \<Rightarrow> clip_tree" where
  "count_removed_clip sz t = (if sz < min_clip_size then t else t\<lparr>counter := max 0 (counter t - 1)\<rparr>)"

definition place_clip :: "clip \<Rightarrow> clip_tree \<Rightarrow> clip_tree" where
  "place_clip c t = t\<lparr>clips := filter (\<lambda>d. clip_path d \<noteq> clip_path c) (clips t) @ [c]\<rparr>"

text \<open>
  Publication of a finished clip under its final name, sidecar first, counter last; and the
  removal of one file with its sidecar.
\<close>

definition publish_clip :: "clip \<Rightarrow> clip_tree \<Rightarrow> clip_tree" where
  "publish_clip c t =
     count_added_clip (cp_size c) (place_clip c t)"

definition drop_clip :: "clip \<Rightarrow> clip_tree \<Rightarrow> clip_tree" where
  "drop_clip c t =
     count_removed_clip (cp_size c) (t\<lparr>clips := filter (\<lambda>d. clip_path d \<noteq> clip_path c) (clips t)\<rparr>)"

section \<open>Capacity\<close>

record storage_policy =
  min_free :: int
  target_free :: int

record storage_result =
  sr_ok :: bool
  sr_reason :: string
  sr_free :: int
  sr_deleted_files :: nat
  sr_deleted_bytes :: nat

definition list_clip_files :: "clip_tree \<Rightarrow> clip list" where
  "list_clip_files t = sort_key cp_mtime (clips t)"

definition pair_bytes :: "clip \<Rightarrow> nat" where
  "pair_bytes c = cp_size c + (case cp_sidecar c of Some (n, d) \<Rightarrow> n | None \<Rightarrow> 0)"

definition delete_clip_pair :: "clip \<Rightarrow> clip_tree \<Rightarrow> nat \<times> clip_tree" where
  "delete_clip_pair c t = (pair_bytes c, drop_clip c t)"

text \<open>The loop: reading \<open>i\<close> follows the i-th deletion.\<close>

fun prune_loop :: "int \<Rightarrow> (nat \<Rightarrow> int) \<Rightarrow> nat \<Rightarrow> int \<Rightarrow> nat \<Rightarrow> clip list \<Rightarrow> clip_tree \<Rightarrow> int \<times> nat \<times> nat \<times> clip_tree" where
  "prune_loop target free n cur bytes [] t = (cur, n, bytes, t)"
| "prune_loop target free n cur bytes (c # cs) t =
     (case delete_clip_pair c t of (b, t1) \<Rightarrow>
        (if target \<le> free (Suc n) then (free (Suc n), Suc n, bytes + b, t1)
         else prune_loop target free (Suc n) (free (Suc n)) (bytes + b) cs t1))"

definition ensure_clip_capacity :: "(nat \<Rightarrow> int) \<Rightarrow> storage_policy \<Rightarrow> clip_tree \<Rightarrow> storage_result \<times> clip_tree" where
  "ensure_clip_capacity free pol t =
     (if min_free pol \<le> free 0 then
        (\<lparr>sr_ok = True, sr_reason = ''ok'', sr_free = free 0, sr_deleted_files = 0, sr_deleted_bytes = 0\<rparr>, t)
      else
        (case prune_loop (max (min_free pol) (target_free pol)) free 0 (free 0) 0 (list_clip_files t) t of
           (cur, n, bytes, t1) \<Rightarrow>
             (if min_free pol \<le> cur then
                (\<lparr>sr_ok = True, sr_reason = (if 0 < n then ''pruned_old_clips'' else ''ok''), sr_free = cur,
                  sr_deleted_files = n, sr_deleted_bytes = bytes\<rparr>, t1)
              else
                (\<lparr>sr_ok = False, sr_reason = ''low_disk_space'', sr_free = cur,
                  sr_deleted_files = n, sr_deleted_bytes = bytes\<rparr>, t1))))"

section \<open>Name resolution\<close>

text \<open>
  The pattern language of \<open>rglob\<close> on one path component (\<open>fnmatch\<close>): \<open>*\<close>, \<open>?\<close> and
  bracketed sets with ranges and a leading \<open>!\<close>; an unclosed bracket is literal. The set
  itself is the text between the brackets.
\<close>

fun in_set :: "char \<Rightarrow> string \<Rightarrow> bool" where
  "in_set c (a # d # b # s) =
     (if d = CHR ''-'' then (ord a \<le> ord c \<and> ord c \<le> ord b) \<or> in_set c s
      else c = a \<or> in_set c (d # b # s))"
| "in_set c (a # s) = (c = a \<or> in_set c s)"
| "in_set c [] = False"

definition bracket :: "string \<Rightarrow> (bool \<times> string \<times> string) option" where
  "bracket p =
     (let (neg, p1) = (case p of c # r \<Rightarrow> if c = CHR ''!'' then (True, r) else (False, p) | [] \<Rightarrow> (False, []));
          (first, p2) = (case p1 of c # r \<Rightarrow> if c = CHR '']'' then ([c], r) else ([], p1) | [] \<Rightarrow> ([], []));
          body = takeWhile (\<lambda>c. c \<noteq> CHR '']'') p2;
          rest = dropWhile (\<lambda>c. c \<noteq> CHR '']'') p2
      in case rest of [] \<Rightarrow> None | _ # r \<Rightarrow> Some (neg, first @ body, r))"

text \<open>\<open>fuel\<close> bounds the pattern steps; \<open>length p + length s + 1\<close> are enough.\<close>

fun glob_fuel :: "nat \<Rightarrow> string \<Rightarrow> string \<Rightarrow> bool" where
  "glob_fuel 0 p s = False"
| "glob_fuel (Suc n) [] s = (s = [])"
| "glob_fuel (Suc n) (c # p) s =
     (if c = CHR ''*'' then glob_fuel n p s \<or> (case s of [] \<Rightarrow> False | _ # r \<Rightarrow> glob_fuel n (c # p) r)
      else case s of
          [] \<Rightarrow> False
        | a # r \<Rightarrow>
            (if c = CHR ''?'' then glob_fuel n p r
             else if c = CHR ''['' then
               (case bracket p of
                  None \<Rightarrow> a = c \<and> glob_fuel n p r
                | Some (neg, cs, q) \<Rightarrow> in_set a cs \<noteq> neg \<and> glob_fuel n q r)
             else a = c \<and> glob_fuel n p r))"

definition glob_match :: "string \<Rightarrow> string \<Rightarrow> bool" where
  "glob_match p s = glob_fuel (length p + length s + 1) p s"

definition resolve_clip :: "string \<Rightarrow> clip_tree \<Rightarrow> clip option" where
  "resolve_clip name t =
     (if \<not> ends_with ''.mp4'' name then None
      else if CHR ''/'' \<in> set name \<or> CHR 92 \<in> set name \<or> contains ''..'' name then None
      else
        case (if 8 \<le> length name \<and> list_all is_digit_char (take 8 name)
              then find (\<lambda>c. clip_path c = ([take 4 name, take 2 (drop 4 name)], name)) (clips t) else None) of
          Some c \<Rightarrow> Some c
        | None \<Rightarrow> find (\<lambda>c. glob_match name (cp_name c)) (clips t))"

section \<open>Deletion\<close>

fun delete_clips :: "string list \<Rightarrow> clip_tree \<Rightarrow> nat \<times> clip_tree" where
  "delete_clips [] t = (0, t)"
| "delete_clips (name # names) t =
     (case resolve_clip name t of
        None \<Rightarrow> delete_clips names t
      | Some c \<Rightarrow> (case delete_clips names (drop_clip c t) of (n, t') \<Rightarrow> (Suc n, t')))"

definition delete_all_clips :: "clip_tree \<Rightarrow> nat \<times> clip_tree" where
  "delete_all_clips t = (length (clips t), fold drop_clip (clips t) t)"

section \<open>Byte ranges and pages\<close>

text \<open>\<open>re.match(r"bytes=(\\d+)-(\\d*)", header)\<close>: text behind the match is ignored.\<close>

definition parse_byte_range :: "string \<Rightarrow> nat \<Rightarrow> (nat \<times> nat) option" where
  "parse_byte_range header sz =
     (if \<not> starts_with ''bytes='' header then None
      else
        let rest = drop 6 header; ds = takeWhile is_decimal rest; after = dropWhile is_decimal rest in
        if ds = [] \<or> \<not> starts_with ''-'' after then None
        else
          let es = takeWhile is_decimal (drop 1 after);
              start = int (digits_val ds);
              stop = min (if es = [] then int sz - 1 else int (digits_val es)) (int sz - 1)
          in if stop < start \<or> int sz \<le> start then None else Some (nat start, nat stop))"

text \<open>\<open>iter_range\<close>: chunks of at most 64 KiB until \<open>remaining\<close> bytes are out.\<close>

function iter_range :: "'b list \<Rightarrow> nat \<Rightarrow> nat \<Rightarrow> 'b list list" where
  "iter_range content pos remaining =
     (if remaining = 0 then []
      else
        let chunk = take (min 65536 remaining) (drop pos content) in
        if chunk = [] then [] else chunk # iter_range content (pos + length chunk) (remaining - length chunk))"
  by pat_completeness auto
termination
  by (relation "measure (\<lambda>(content, pos, remaining). remaining)") auto

declare iter_range.simps [simp del]

datatype 'b clip_answer = NotFound | BadRange | Whole "'b list" | Partial nat nat nat "'b list list"

definition get_clip :: "(clip \<Rightarrow> 'b list) \<Rightarrow> string \<Rightarrow> string option \<Rightarrow> clip_tree \<Rightarrow> 'b clip_answer" where
  "get_clip content name range_header t =
     (case resolve_clip name t of
        None \<Rightarrow> NotFound
      | Some c \<Rightarrow>
          (case range_header of
             None \<Rightarrow> Whole (content c)
           | Some h \<Rightarrow>
               if h = [] then Whole (content c)
               else (case parse_byte_range h (cp_size c) of
                       None \<Rightarrow> BadRange
                     | Some (start, stop) \<Rightarrow>
                         Partial start stop (cp_size c) (iter_range (content c) start (stop - start + 1)))))"

definition page :: "nat \<Rightarrow> nat \<Rightarrow> 'r list \<Rightarrow> 'r list \<times> nat" where
  "page limit offset rows = (take limit (drop offset rows), length rows)"

section \<open>The counter\<close>

definition tree_inv :: "clip_tree \<Rightarrow> bool" where
  "tree_inv t \<longleftrightarrow> distinct (map clip_path (clips t)) \<and> counter t = int (length (filter playable (clips t)))"

lemma image_neq: "k \<notin> f ` A \<Longrightarrow> d \<in> A \<Longrightarrow> f d \<noteq> k"
  by blast

lemma filter_other_path:
  assumes "distinct (map clip_path cs)" "c \<in> set cs"
  shows "filter (\<lambda>d. clip_path d \<noteq> clip_path c) cs = remove1 c cs"
  using assms
proof (induction cs)
  case (Cons a cs)
  show ?case
  proof (cases "a = c")
    case True
    then have "\<forall>d\<in>set cs. clip_path d \<noteq> clip_path c" using Cons.prems by (auto dest: image_neq)
    then show ?thesis using True by (simp add: filter_id_conv)
  next
    case False
    then have "clip_path a \<noteq> clip_path c" using Cons.prems by (auto simp: image_iff)
    then show ?thesis using False Cons by auto
  qed
qed simp

lemma drop_clips: "tree_inv t \<Longrightarrow> c \<in> set (clips t) \<Longrightarrow> clips (drop_clip c t) = remove1 c (clips t)"
  by (simp add: drop_clip_def count_removed_clip_def tree_inv_def filter_other_path)

lemma distinct_remove1_path: "distinct (map f cs) \<Longrightarrow> distinct (map f (remove1 c cs))"
  by (metis distinct_map distinct_remove1 inj_on_subset set_remove1_subset)

lemma length_filter_remove1:
  "c \<in> set cs \<Longrightarrow> length (filter P (remove1 c cs)) + (if P c then 1 else 0) = length (filter P cs)"
  by (induction cs) auto

lemma drop_inv: "tree_inv t \<Longrightarrow> c \<in> set (clips t) \<Longrightarrow> tree_inv (drop_clip c t)"
proof -
  assume inv: "tree_inv t" and c: "c \<in> set (clips t)"
  have n: "length (filter playable (remove1 c (clips t))) + (if playable c then 1 else 0) = length (filter playable (clips t))"
    using c by (rule length_filter_remove1)
  show ?thesis
    using inv c n drop_clips[OF inv c]
    by (auto simp: tree_inv_def drop_clip_def count_removed_clip_def distinct_remove1_path playable_def split: if_splits)
qed

lemma publish_inv:
  assumes "tree_inv t" "clip_path c \<notin> clip_path ` set (clips t)"
  shows "tree_inv (publish_clip c t)"
proof -
  have "filter (\<lambda>d. clip_path d \<noteq> clip_path c) (clips t) = clips t"
    using assms(2) by (auto simp: filter_id_conv dest: image_neq)
  then show ?thesis
    using assms by (auto simp: tree_inv_def publish_clip_def place_clip_def count_added_clip_def playable_def)
qed

lemma resolve_in: "resolve_clip name t = Some c \<Longrightarrow> c \<in> set (clips t)"
  by (auto simp: resolve_clip_def find_Some_iff split: if_splits option.splits)

lemma delete_inv: "tree_inv t \<Longrightarrow> tree_inv (snd (delete_clips names t))"
proof (induction names t rule: delete_clips.induct)
  case (2 name names t)
  show ?case
  proof (cases "resolve_clip name t")
    case None
    then show ?thesis using 2 by simp
  next
    case (Some c)
    then have "tree_inv (drop_clip c t)" using "2.prems" resolve_in by (blast intro: drop_inv)
    then have "tree_inv (snd (delete_clips names (drop_clip c t)))" using "2.IH"(2)[OF Some] by blast
    then show ?thesis using Some by (auto split: prod.split)
  qed
qed simp

lemma drop_all_inv:
  "tree_inv t \<Longrightarrow> set cs \<subseteq> set (clips t) \<Longrightarrow> distinct cs \<Longrightarrow>
   tree_inv (fold drop_clip cs t) \<and> set (clips (fold drop_clip cs t)) = set (clips t) - set cs"
proof (induction cs arbitrary: t)
  case (Cons c cs)
  have c: "c \<in> set (clips t)" and inv: "tree_inv t" using Cons.prems by auto
  have d: "distinct (clips t)" using inv by (auto simp: tree_inv_def distinct_map)
  have set1: "set (clips (drop_clip c t)) = set (clips t) - {c}"
    by (simp add: drop_clips[OF inv c] d)
  have "set cs \<subseteq> set (clips (drop_clip c t))" using Cons.prems set1 by auto
  from Cons.IH[OF drop_inv[OF inv c] this] Cons.prems(3) set1 show ?case by auto
qed simp

lemma delete_all_inv: "tree_inv t \<Longrightarrow> tree_inv (snd (delete_all_clips t)) \<and> clips (snd (delete_all_clips t)) = []"
proof -
  assume inv: "tree_inv t"
  then have "distinct (clips t)" by (auto simp: tree_inv_def distinct_map)
  from drop_all_inv[OF inv order_refl this] show ?thesis by (auto simp: delete_all_clips_def)
qed

section \<open>Pruning\<close>

lemma prune_loop_spec:
  assumes "tree_inv t" "set cs \<subseteq> set (clips t)" "distinct cs"
  shows "\<exists>k. k \<le> length cs \<and>
    prune_loop target free n cur bytes cs t =
      ((if k = 0 then cur else free (n + k)), n + k, bytes + sum_list (map pair_bytes (take k cs)),
       fold drop_clip (take k cs) t) \<and>
    (\<forall>j. 0 < j \<and> j < k \<longrightarrow> free (n + j) < target) \<and>
    (k < length cs \<longrightarrow> 0 < k \<and> target \<le> free (n + k))"
  using assms
proof (induction target free n cur bytes cs t rule: prune_loop.induct)
  case (1 target free n cur bytes t)
  then show ?case by auto
next
  case (2 target free n cur bytes c cs t)
  have c: "c \<in> set (clips t)" using 2 by auto
  have d: "distinct (clips t)" using "2.prems" by (auto simp: tree_inv_def distinct_map)
  show ?case
  proof (cases "target \<le> free (Suc n)")
    case True
    then show ?thesis by (intro exI[of _ 1]) (auto simp: delete_clip_pair_def)
  next
    case False
    have "set cs \<subseteq> set (clips (drop_clip c t))"
      using "2.prems" d by (auto simp: drop_clips[OF "2.prems"(1) c])
    from "2.IH"[OF delete_clip_pair_def[symmetric] False drop_inv[OF "2.prems"(1) c] this] "2.prems"(3)
    obtain k where k: "k \<le> length cs"
      "prune_loop target free (Suc n) (free (Suc n)) (bytes + pair_bytes c) cs (drop_clip c t) =
        ((if k = 0 then free (Suc n) else free (Suc n + k)), Suc n + k,
         bytes + pair_bytes c + sum_list (map pair_bytes (take k cs)), fold drop_clip (take k cs) (drop_clip c t))"
      "\<forall>j. 0 < j \<and> j < k \<longrightarrow> free (Suc n + j) < target" "k < length cs \<longrightarrow> 0 < k \<and> target \<le> free (Suc n + k)"
      by auto
    have "free (n + j) < target" if "0 < j" "j < Suc k" for j
      using that k(3) False by (cases "j = 1") (auto simp: not_le dest!: spec[of _ "j - 1"])
    then show ?thesis
      using k False by (intro exI[of _ "Suc k"]) (auto simp: delete_clip_pair_def)
  qed
qed


text \<open>The operations on the tree; a published clip has a path of its own.\<close>

datatype clip_op = Publish clip | DeleteNames "string list" | DeleteAll | Prune "nat \<Rightarrow> int" storage_policy | Recount

fun clip_step :: "clip_op \<Rightarrow> clip_tree \<Rightarrow> clip_tree" where
  "clip_step (Publish c) t = (if clip_path c \<in> clip_path ` set (clips t) then t else publish_clip c t)"
| "clip_step (DeleteNames ns) t = snd (delete_clips ns t)"
| "clip_step DeleteAll t = snd (delete_all_clips t)"
| "clip_step (Prune free pol) t = snd (ensure_clip_capacity free pol t)"
| "clip_step Recount t = recount_clips t"

lemma prune_inv: "tree_inv t \<Longrightarrow> tree_inv (snd (ensure_clip_capacity free pol t))"
proof -
  assume inv: "tree_inv t"
  have d: "distinct (clips t)" using inv by (auto simp: tree_inv_def distinct_map)
  then have cs: "set (list_clip_files t) \<subseteq> set (clips t)" "distinct (list_clip_files t)"
    by (simp_all add: list_clip_files_def)
  obtain k where "prune_loop (max (min_free pol) (target_free pol)) free 0 (free 0) 0 (list_clip_files t) t =
      ((if k = 0 then free 0 else free k), k, sum_list (map pair_bytes (take k (list_clip_files t))),
       fold drop_clip (take k (list_clip_files t)) t)"
    using prune_loop_spec[OF inv cs, of "max (min_free pol) (target_free pol)" free 0 "free 0" 0] by auto
  moreover have "set (take k (list_clip_files t)) \<subseteq> set (clips t)" using cs(1) set_take_subset by fast
  then have "tree_inv (fold drop_clip (take k (list_clip_files t)) t)"
    using drop_all_inv[OF inv] cs(2) by simp
  ultimately show ?thesis using inv by (simp add: ensure_clip_capacity_def)
qed

lemma clip_step_inv: "tree_inv t \<Longrightarrow> tree_inv (clip_step op t)"
  by (cases op) (simp_all add: publish_inv delete_inv prune_inv delete_all_inv, simp add: tree_inv_def recount_clips_def)

interpretation tree: keeps tree_inv clip_step
  by unfold_locales (rule clip_step_inv)

text \<open>
  The clip counter is exact: from an empty tree, after any sequence of publications,
  user deletions, prunings and recounts, the number \<open>/status\<close> serves is the number of files
  the listing shows, and no two clips share a path.
\<close>

theorem clip_counter_exact:
  "let t = fold clip_step ops \<lparr>clips = [], counter = 0\<rparr> in
     counter t = int (length (filter playable (clips t))) \<and> distinct (map clip_path (clips t))"
proof -
  have "tree_inv \<lparr>clips = [], counter = 0\<rparr>" by (simp add: tree_inv_def)
  then have "tree_inv (fold clip_step ops \<lparr>clips = [], counter = 0\<rparr>)" by (rule tree.run_keeps)
  then show ?thesis by (simp add: tree_inv_def Let_def)
qed

section \<open>Byte ranges\<close>

lemma iter_range_concat: "concat (iter_range content pos remaining) = take remaining (drop pos content)"
proof (induction content pos remaining rule: iter_range.induct)
  case (1 content pos remaining)
  let ?chunk = "take (min 65536 remaining) (drop pos content)"
  show ?case
  proof (cases "remaining = 0 \<or> ?chunk = []")
    case True
    then show ?thesis by (subst iter_range.simps) (auto simp: Let_def)
  next
    case False
    then have rest: "concat (iter_range content (pos + length ?chunk) (remaining - length ?chunk)) =
        take (remaining - length ?chunk) (drop (pos + length ?chunk) content)" using 1 by simp
    have "take remaining (drop pos content) =
        take (length ?chunk) (take remaining (drop pos content)) @ drop (length ?chunk) (take remaining (drop pos content))"
      by (rule append_take_drop_id[symmetric])
    also have "take (length ?chunk) (take remaining (drop pos content)) = ?chunk"
      by (simp add: min_def)
    also have "drop (length ?chunk) (take remaining (drop pos content)) =
        take (remaining - length ?chunk) (drop (pos + length ?chunk) content)"
      by (simp add: drop_take add.commute)
    finally have eq: "take remaining (drop pos content) =
        ?chunk @ take (remaining - length ?chunk) (drop (pos + length ?chunk) content)" .
    have "iter_range content pos remaining = ?chunk # iter_range content (pos + length ?chunk) (remaining - length ?chunk)"
      using False by (subst iter_range.simps) (simp only: Let_def if_False de_Morgan_disj simp_thms)
    then show ?thesis by (simp only: concat.simps rest eq)
  qed
qed

lemma iter_range_chunks: "\<forall>c\<in>set (iter_range content pos remaining). c \<noteq> [] \<and> length c \<le> 65536"
proof (induction content pos remaining rule: iter_range.induct)
  case (1 content pos remaining)
  then show ?case by (subst iter_range.simps) (auto simp: Let_def)
qed

lemma parse_range_bounds: "parse_byte_range h n = Some (a, b) \<Longrightarrow> a \<le> b \<and> b < n"
  by (auto simp: parse_byte_range_def Let_def split: if_splits)

lemma take_digits_num: "takeWhile is_decimal (nat_str i @ CHR ''-'' # r) = nat_str i"
  "dropWhile is_decimal (nat_str i @ CHR ''-'' # r) = CHR ''-'' # r"
proof -
  have d: "\<forall>c\<in>set (nat_str i). is_decimal c" by (simp add: nat_str_decimal)
  have m: "\<not> is_decimal (CHR ''-'')" by (simp add: is_decimal_def ord_def)
  show "takeWhile is_decimal (nat_str i @ CHR ''-'' # r) = nat_str i"
    "dropWhile is_decimal (nat_str i @ CHR ''-'' # r) = CHR ''-'' # r"
    using d m by (simp_all add: takeWhile_append dropWhile_append)
qed

lemma take_digits_all: "takeWhile is_decimal (nat_str i) = nat_str i"
  by (simp add: takeWhile_eq_all_conv nat_str_decimal)

lemma parse_range_header:
  "parse_byte_range (''bytes='' @ nat_str i @ CHR ''-'' # nat_str j) n =
     (if i \<le> j \<and> i < n then Some (i, min j (n - 1)) else None)"
  by (simp add: parse_byte_range_def Let_def starts_with_def take_digits_num take_digits_all)
    (auto simp: min_def nat_diff_distrib)

text \<open>
  A range answer is the range: an accepted header gives bounds inside the file, the
  chunks sent are at most 64 KiB each and together exactly those bytes; and \<open>bytes=i-j\<close> is
  accepted exactly when it is not empty and starts inside the file, cut to the file's end.
\<close>

theorem byte_range_exact:
  "(\<forall>a b. parse_byte_range h (length content) = Some (a, b) \<longrightarrow> a \<le> b \<and> b < length content \<and>
      concat (iter_range content a (b - a + 1)) = take (b - a + 1) (drop a content) \<and>
      length (concat (iter_range content a (b - a + 1))) = b - a + 1 \<and>
      (\<forall>c\<in>set (iter_range content a (b - a + 1)). length c \<le> 65536)) \<and>
   parse_byte_range (''bytes='' @ nat_str i @ CHR ''-'' # nat_str j) n =
     (if i \<le> j \<and> i < n then Some (i, min j (n - 1)) else None)"
proof (intro conjI allI impI)
  fix a b assume "parse_byte_range h (length content) = Some (a, b)"
  then show b: "a \<le> b" "b < length content" by (simp_all add: parse_range_bounds)
  show "concat (iter_range content a (b - a + 1)) = take (b - a + 1) (drop a content)"
    by (rule iter_range_concat)
  show "length (concat (iter_range content a (b - a + 1))) = b - a + 1"
    using b by (simp only: iter_range_concat) simp
  show "\<forall>c\<in>set (iter_range content a (b - a + 1)). length c \<le> 65536"
    using iter_range_chunks by blast
qed (rule parse_range_header)

lemma suffix_range_refused: "parse_byte_range (''bytes=-'' @ nat_str k) n = None"
proof -
  have "\<not> is_decimal (CHR ''-'')" by (simp add: is_decimal_def ord_def)
  then show ?thesis by (simp add: parse_byte_range_def starts_with_def)
qed

section \<open>Names\<close>

definition plain_name :: "string \<Rightarrow> bool" where
  "plain_name p \<longleftrightarrow> CHR ''*'' \<notin> set p \<and> CHR ''?'' \<notin> set p \<and> CHR ''['' \<notin> set p"

lemma glob_plain: "plain_name p \<Longrightarrow> length p < n \<Longrightarrow> glob_fuel n p s = (s = p)"
proof (induction p arbitrary: n s)
  case Nil
  then show ?case by (cases n) auto
next
  case (Cons c p)
  obtain m where n: "n = Suc m" using Cons.prems by (cases n) auto
  have "plain_name p" "length p < m" "c \<noteq> CHR ''*''" "c \<noteq> CHR ''?''" "c \<noteq> CHR ''[''"
    using Cons.prems n by (auto simp: plain_name_def)
  with Cons.IH n show ?case by (cases s) auto
qed

lemma glob_star: "plain_name p \<Longrightarrow> length a + length p + 1 < n \<Longrightarrow> glob_fuel n (CHR ''*'' # p) (a @ p)"
proof (induction a arbitrary: n)
  case Nil
  then obtain m where "n = Suc m" "length p < m" by (cases n) auto
  then show ?case using glob_plain[of p m p] Nil by simp
next
  case (Cons x a)
  then obtain m where "n = Suc m" "length a + length p + 1 < m" by (cases n) auto
  then show ?case using Cons.IH[of m] Cons.prems by simp
qed

definition admissible :: "string \<Rightarrow> bool" where
  "admissible name \<longleftrightarrow> ends_with ''.mp4'' name \<and> CHR ''/'' \<notin> set name \<and> CHR 92 \<notin> set name \<and> \<not> contains ''..'' name"

text \<open>
  A plain name reaches the clip of that name and no other: with no pattern character in
  it, what is resolved is a published clip whose name is the one asked for, and a clip that
  is there is found; a name with a path separator or two dots in a row reaches nothing.
\<close>

theorem resolve_exact_name:
  "(plain_name name \<longrightarrow> (\<forall>c. resolve_clip name t = Some c \<longrightarrow> c \<in> set (clips t) \<and> cp_name c = name) \<and>
      (admissible name \<and> name \<in> cp_name ` set (clips t) \<longrightarrow> resolve_clip name t \<noteq> None)) \<and>
   (\<not> admissible name \<longrightarrow> resolve_clip name t = None)"
proof (intro conjI impI allI)
  fix c assume p: "plain_name name" and r: "resolve_clip name t = Some c"
  show "c \<in> set (clips t)" using r by (rule resolve_in)
  have g: "glob_match name (cp_name d) = (cp_name d = name)" for d
    using glob_plain[OF p] by (auto simp: glob_match_def)
  show "cp_name c = name"
    using r by (auto simp: resolve_clip_def g find_Some_iff clip_path_def split: if_splits option.splits)
next
  assume p: "plain_name name" and a: "admissible name \<and> name \<in> cp_name ` set (clips t)"
  have g: "glob_match name (cp_name d) = (cp_name d = name)" for d
    using glob_plain[OF p] by (auto simp: glob_match_def)
  have "find (\<lambda>c. glob_match name (cp_name c)) (clips t) \<noteq> None"
    using a by (auto simp: find_None_iff g)
  then show "resolve_clip name t \<noteq> None"
    using a by (auto simp: resolve_clip_def admissible_def split: option.splits)
next
  assume "\<not> admissible name"
  then show "resolve_clip name t = None" by (auto simp: resolve_clip_def admissible_def)
qed

text \<open>
  A name is a pattern: deleting the single name \<open>*.mp4\<close> deletes the first clip of the
  tree, whatever it is called.
\<close>

theorem star_name_deletes_a_clip:
  assumes "tree_inv t" "clips t = c # cs" "ends_with ''.mp4'' (cp_name c)"
  shows "resolve_clip ''*.mp4'' t = Some c \<and> fst (delete_clips [''*.mp4''] t) = 1 \<and>
    clips (snd (delete_clips [''*.mp4''] t)) = cs"
proof -
  obtain a where a: "cp_name c = a @ ''.mp4''"
    using assms(3) by (metis append_take_drop_id ends_with_def)
  have "plain_name ''.mp4''" by (simp add: plain_name_def)
  from glob_star[OF this, of a "length ''*.mp4'' + length (cp_name c) + 1"]
  have "glob_match ''*.mp4'' (cp_name c)" by (simp add: glob_match_def a)
  moreover have "ends_with ''.mp4'' ''*.mp4''" "\<not> contains ''..'' ''*.mp4''"
    by (simp_all add: ends_with_def starts_with_def)
  ultimately have r: "resolve_clip ''*.mp4'' t = Some c"
    by (simp add: resolve_clip_def assms(2))
  then show ?thesis using drop_clips[OF assms(1)] assms(2) by simp
qed

section \<open>The properties on concrete trees\<close>

definition sample_clip :: "string \<Rightarrow> real \<Rightarrow> clip" where
  "sample_clip name t = \<lparr>cp_dir = [''2024'', ''01''], cp_name = name, cp_size = 20000, cp_mtime = t, cp_sidecar = Some (300, None)\<rparr>"

definition sample_tree :: clip_tree where
  "sample_tree = \<lparr>clips = [sample_clip ''b.mp4'' 20, sample_clip ''a.mp4'' 10], counter = 2\<rparr>"

lemma sample_tree_inv: "tree_inv sample_tree"
  by (simp add: tree_inv_def sample_tree_def sample_clip_def clip_path_def playable_def min_clip_size_def)


theorem byte_range_exact_witness:
  "parse_byte_range (''bytes='' @ nat_str 2 @ CHR ''-'' # nat_str 99) 10 = Some (2, 9)"
  using byte_range_exact[of "[]" "[] :: char list" 2 99 10] by simp

theorem resolve_exact_name_witness:
  "resolve_clip ''../x.mp4'' sample_tree = None \<and> resolve_clip ''a.mp4'' sample_tree \<noteq> None"
proof -
  have n: "\<not> admissible ''../x.mp4''" by (simp add: admissible_def)
  have a: "plain_name ''a.mp4''" "admissible ''a.mp4''"
    by (simp_all add: plain_name_def admissible_def ends_with_def starts_with_def)
  have "''a.mp4'' \<in> cp_name ` set (clips sample_tree)" by (simp add: sample_tree_def sample_clip_def)
  with a n show ?thesis
    using resolve_exact_name[of "''../x.mp4''" sample_tree] resolve_exact_name[of "''a.mp4''" sample_tree] by blast
qed

theorem star_name_deletes_a_clip_witness:
  "clips (snd (delete_clips [''*.mp4''] sample_tree)) = [sample_clip ''a.mp4'' 10]"
proof -
  have "ends_with ''.mp4'' (cp_name (sample_clip ''b.mp4'' 20))" by (simp add: sample_clip_def ends_with_def)
  moreover have "clips sample_tree = sample_clip ''b.mp4'' 20 # [sample_clip ''a.mp4'' 10]"
    by (simp add: sample_tree_def)
  ultimately show ?thesis using star_name_deletes_a_clip[OF sample_tree_inv] by blast
qed

end
