(* ===== verification/Recorder_Segments.thy ===== *)
theory Recorder_Segments
  imports Py_Values Prelude
begin

text \<open>
  The pre-event buffer of the recorder: rolling segments (\<open>recorder/rollover.py\<close>), the
  generations of the segment recorder thread and its watch loop (\<open>recorder/segments.py\<close>), and
  the status holder (\<open>recorder/status.py\<close>). How a time stamp in a file name reads as a time
  is the argument \<open>stem_time\<close> (\<open>strptime\<close> and \<open>mktime\<close> in the local zone), how a time prints
  as a stamp is \<open>stamp\<close>. A segment file is its name; \<open>list_segments\<close> sorts by name.
\<close>

section \<open>Configuration\<close>

record segment_settings =
  pre_event :: seconds
  post_event :: seconds

definition segment_time :: int where "segment_time = 1"

definition segment_retention :: "segment_settings \<Rightarrow> int" where
  "segment_retention st = \<lceil>pre_event st + post_event st + 2 * of_int segment_time\<rceil>"

section \<open>Segment files\<close>

definition segment_suffix :: string where "segment_suffix = ''.ts''"

definition segment_name_for_time :: "(seconds \<Rightarrow> string) \<Rightarrow> seconds \<Rightarrow> string" where
  "segment_name_for_time stamp started_at = stamp started_at @ segment_suffix"

definition parse_segment_start :: "(string \<Rightarrow> seconds option) \<Rightarrow> string \<Rightarrow> seconds option" where
  "parse_segment_start stem_time name =
     (if ends_with segment_suffix name then stem_time (take (length name - length segment_suffix) name) else None)"

fun before :: "string \<Rightarrow> string \<Rightarrow> bool" where
  "before [] s = True"
| "before (c # r) [] = False"
| "before (c # r) (d # s) = (ord c < ord d \<or> (c = d \<and> before r s))"

fun insert_name :: "string \<Rightarrow> string list \<Rightarrow> string list" where
  "insert_name x [] = [x]"
| "insert_name x (y # ys) = (if before x y then x # y # ys else y # insert_name x ys)"

definition list_segments :: "string list \<Rightarrow> string list" where
  "list_segments dir = foldr insert_name (filter (ends_with segment_suffix) dir) []"

definition latest_segment_age :: "(string \<Rightarrow> seconds option) \<Rightarrow> seconds \<Rightarrow> string list \<Rightarrow> seconds option" where
  "latest_segment_age stem_time now dir =
     (let segs = list_segments dir in
      if segs = [] then None
      else map_option (\<lambda>t. max 0 (now - t)) (parse_segment_start stem_time (last segs)))"

definition segment_entries :: "(string \<Rightarrow> seconds option) \<Rightarrow> string list \<Rightarrow> (string \<times> seconds) list" where
  "segment_entries stem_time dir =
     concat (map (\<lambda>p. case parse_segment_start stem_time p of Some t \<Rightarrow> [(p, t)] | None \<Rightarrow> []) (list_segments dir))"

text \<open>
  The loop over \<open>entries\<close>: a segment ends where the next starts, the last one at the current
  time or the retention horizon. \<open>now\<close> is the one clock reading the loop takes.
\<close>

fun segment_spans :: "seconds \<Rightarrow> int \<Rightarrow> (string \<times> seconds) list \<Rightarrow> (string \<times> seconds \<times> seconds) list" where
  "segment_spans now retention [] = []"
| "segment_spans now retention [(p, t)] = [(p, t, min now (t + of_int retention))]"
| "segment_spans now retention ((p, t) # (q, u) # es) = (p, t, u) # segment_spans now retention ((q, u) # es)"

definition overlaps :: "seconds \<Rightarrow> seconds \<Rightarrow> string \<times> seconds \<times> seconds \<Rightarrow> bool" where
  "overlaps ws we e = (case e of (p, started_at, ended_at) \<Rightarrow> \<not> ended_at \<le> ws \<and> \<not> we \<le> started_at)"

definition select_segments ::
  "(string \<Rightarrow> seconds option) \<Rightarrow> seconds \<Rightarrow> int \<Rightarrow> seconds \<Rightarrow> seconds \<Rightarrow> string list \<Rightarrow> string list" where
  "select_segments stem_time now retention ws we dir =
     map fst (filter (overlaps ws we) (segment_spans now retention (segment_entries stem_time dir)))"

text \<open>\<open>unlinkable p\<close>: removing the file raises no OSError.\<close>

definition purge_old_segments ::
  "(string \<Rightarrow> seconds option) \<Rightarrow> (string \<Rightarrow> bool) \<Rightarrow> seconds \<Rightarrow> string list \<Rightarrow> nat \<times> string list" where
  "purge_old_segments stem_time unlinkable retain_since dir =
     (let gone = (\<lambda>p. ends_with segment_suffix p \<and>
            (case parse_segment_start stem_time p of Some t \<Rightarrow> t < retain_since \<and> unlinkable p | None \<Rightarrow> False))
      in (length (filter gone dir), filter (\<lambda>p. \<not> gone p) dir))"

fun escape_quotes :: "string \<Rightarrow> string" where
  "escape_quotes [] = []"
| "escape_quotes (c # s) = (if ord c = 39 then [c, CHR 92, c, c] @ escape_quotes s else c # escape_quotes s)"

definition concat_manifest :: "string list \<Rightarrow> string" where
  "concat_manifest paths = concat (map (\<lambda>p. ''file '' @ CHR 39 # escape_quotes p @ [CHR 39, CHR 10]) paths)"

section \<open>Selection and retention\<close>

lemma purge_keeps:
  "parse_segment_start stem_time p = Some t \<Longrightarrow> retain_since \<le> t \<Longrightarrow> p \<in> set dir \<Longrightarrow>
   p \<in> set (snd (purge_old_segments stem_time unlinkable retain_since dir))"
  by (simp add: purge_old_segments_def Let_def)

lemma spans_start: "(p, t, u) \<in> set (segment_spans now r es) \<Longrightarrow> (p, t) \<in> set es"
  by (induction now r es rule: segment_spans.induct) auto

lemma spans_long:
  "sorted (map snd es) \<Longrightarrow> (p, t, u) \<in> set (segment_spans now r es) \<Longrightarrow> successively (\<lambda>a b. snd b \<le> snd a + d) es \<Longrightarrow>
   u \<le> t + d \<or> (p, t) = last es"
  by (induction now r es rule: segment_spans.induct) auto

text \<open>
  What a clip needs is still there: while the buffer runs with segments at most a
  second apart, a purge made no later than one second after the end of an event's window
  removes no segment that starts within a second before the window or later, so every
  segment overlapping the window is kept for the clip.
\<close>

theorem retention_covers_window:
  assumes "now \<le> anchor + post_event st + 1"
    and "parse_segment_start stem_time p = Some t" "anchor - pre_event st - 1 \<le> t" "p \<in> set dir"
  shows "p \<in> set (snd (purge_old_segments stem_time unlinkable (now - of_int (segment_retention st)) dir))"
proof (rule purge_keeps[OF assms(2) _ assms(4)])
  have "pre_event st + post_event st + 2 \<le> of_int (segment_retention st)"
    by (simp add: segment_retention_def segment_time_def)
  then show "now - of_int (segment_retention st) \<le> t" using assms(1,3) by linarith
qed

text \<open>
  The other side of that bound: retention is measured from the purge, the window from the
  frame the model saw, so an inference that takes longer than the retention finds the window
  already gone.
\<close>

lemma late_purge_loses_window:
  assumes "anchor + post_event st < now - of_int (segment_retention st)"
    and "parse_segment_start stem_time p = Some t" "t \<le> anchor + post_event st" "unlinkable p"
  shows "p \<notin> set (snd (purge_old_segments stem_time unlinkable (now - of_int (segment_retention st)) dir))"
proof -
  have "ends_with segment_suffix p" using assms(2) by (auto simp: parse_segment_start_def split: if_splits)
  moreover have "t < now - of_int (segment_retention st)" using assms(1,3) by linarith
  ultimately show ?thesis using assms(2,4) by (simp add: purge_old_segments_def Let_def)
qed

lemma filter_middle:
  assumes "xs = as @ bs @ cs" "filter P xs = bs"
  shows "filter P as = []"
proof -
  have "filter P bs = bs" unfolding assms(2)[symmetric] by simp
  then have "length (filter P as) + length bs \<le> length bs"
    using arg_cong[OF assms(2), of length] assms(1) by simp
  then show ?thesis by simp
qed

lemma filter_interval:
  assumes "sorted_wrt R xs" and between: "\<And>x a y. R x a \<Longrightarrow> R a y \<Longrightarrow> P x \<Longrightarrow> P y \<Longrightarrow> P a"
  shows "\<exists>as cs. xs = as @ filter P xs @ cs"
  using assms(1)
proof (induction xs)
  case Nil
  then show ?case by simp
next
  case (Cons x xs)
  then obtain as cs where sp: "xs = as @ filter P xs @ cs" by auto
  obtain bs where bs: "filter P xs = bs" by blast
  have split: "xs = as @ bs @ cs" using sp unfolding bs .
  show ?case
  proof (cases "P x \<and> as \<noteq> [] \<and> bs \<noteq> []")
    case True
    then obtain a as' y ys where as: "as = a # as'" and y: "bs = y # ys"
      by (meson neq_Nil_conv)
    have sorted: "sorted_wrt R (x # a # as' @ y # ys @ cs)" using Cons.prems split as y by simp
    then have "R x a" "R a y" by (simp_all add: sorted_wrt_append)
    moreover have "y \<in> set (filter P xs)" unfolding bs y by simp
    then have "P y" by simp
    ultimately have "P a" using between True by blast
    moreover have "\<not> P a" using filter_middle[OF split bs] as by (auto split: if_splits)
    ultimately show ?thesis by blast
  next
    case False
    show ?thesis
    proof (cases "P x")
      case True
      show ?thesis
      proof (cases "as = []")
        case True
        then show ?thesis using \<open>P x\<close> split bs by (intro exI[of _ "[]"] exI[of _ cs]) simp
      next
        case False
        then have "filter P xs = []" using \<open>\<not> (P x \<and> as \<noteq> [] \<and> bs \<noteq> [])\<close> \<open>P x\<close> bs by blast
        then show ?thesis using \<open>P x\<close> by (intro exI[of _ "[]"] exI[of _ xs]) simp
      qed
    next
      case False
      then show ?thesis using split bs by (intro exI[of _ "x # as"] exI[of _ cs]) simp
    qed
  qed
qed

definition spans_ordered :: "(string \<times> seconds \<times> seconds) list \<Rightarrow> bool" where
  "spans_ordered es \<longleftrightarrow> sorted_wrt (\<lambda>a b. fst (snd a) \<le> fst (snd b) \<and> snd (snd a) \<le> snd (snd b)) es"

lemma spans_lower: "sorted (map snd es) \<Longrightarrow> e \<in> set (segment_spans now r es) \<Longrightarrow> snd (hd es) \<le> fst (snd e)"
  by (induction now r es rule: segment_spans.induct) auto

lemma spans_upper:
  "sorted (map snd es) \<Longrightarrow> snd (last es) \<le> now \<Longrightarrow> 0 \<le> r \<Longrightarrow> e \<in> set (segment_spans now r es) \<Longrightarrow>
   snd (hd es) \<le> snd (snd e)"
proof (induction now r es rule: segment_spans.induct)
  case (3 now retention p t q u es)
  then show ?case by (auto intro: order_trans)
qed auto

lemma spans_sorted:
  "sorted (map snd es) \<Longrightarrow> snd (last es) \<le> now \<Longrightarrow> 0 \<le> r \<Longrightarrow> spans_ordered (segment_spans now r es)"
proof (induction now r es rule: segment_spans.induct)
  case (3 now retention p t q u es)
  have "sorted (map snd ((q, u) # es))" "snd (last ((q, u) # es)) \<le> now" using 3 by auto
  then have "u \<le> fst (snd e) \<and> u \<le> snd (snd e)" if "e \<in> set (segment_spans now retention ((q, u) # es))" for e
    using spans_lower[of "(q, u) # es" e now retention] spans_upper[of "(q, u) # es" now retention e] that 3 by auto
  then show ?case using 3 by (fastforce simp: spans_ordered_def)
qed (simp_all add: spans_ordered_def)

text \<open>
  The clip is cut out of the buffer without holes: when the time stamps grow with the
  names, the segments chosen for a window are consecutive ones, exactly those whose measured
  span meets the window, in playing order.
\<close>

theorem selected_segments_contiguous:
  assumes "sorted (map snd (segment_entries stem_time dir))"
    and "\<forall>e\<in>set (segment_entries stem_time dir). snd e \<le> now" "0 \<le> retention"
  shows "\<exists>as bs cs. segment_spans now retention (segment_entries stem_time dir) = as @ bs @ cs \<and>
    select_segments stem_time now retention ws we dir = map fst bs \<and>
    (\<forall>p t u. (p, t, u) \<in> set bs \<longrightarrow> ws < u \<and> t < we) \<and>
    (\<forall>p t u. (p, t, u) \<in> set (as @ cs) \<longrightarrow> u \<le> ws \<or> we \<le> t)"
proof -
  let ?es = "segment_entries stem_time dir"
  let ?spans = "segment_spans now retention ?es"
  have "spans_ordered ?spans"
  proof (cases "?es = []")
    case False
    then have "snd (last ?es) \<le> now" using assms(2) by (meson last_in_set)
    then show ?thesis using assms by (intro spans_sorted)
  qed (simp add: spans_ordered_def)
  then have "\<exists>as cs. ?spans = as @ filter (overlaps ws we) ?spans @ cs"
    unfolding spans_ordered_def by (rule filter_interval) (auto simp: overlaps_def)
  then obtain as cs where s: "?spans = as @ filter (overlaps ws we) ?spans @ cs" by blast
  obtain bs where bs: "filter (overlaps ws we) ?spans = bs" by blast
  have split: "?spans = as @ bs @ cs" using s unfolding bs .
  have "filter (overlaps ws we) as = []" by (rule filter_middle[OF split bs])
  moreover have "rev ?spans = rev cs @ rev bs @ rev as" using split by simp
  then have "filter (overlaps ws we) (rev cs) = []"
    by (rule filter_middle) (simp add: rev_filter[symmetric] bs)
  ultimately have out: "\<not> overlaps ws we e" if "e \<in> set (as @ cs)" for e
    using that by (auto simp: filter_empty_conv)
  have in_bs: "overlaps ws we e" if "e \<in> set bs" for e
    using that unfolding bs[symmetric] by simp
  show ?thesis
  proof (intro exI conjI allI impI)
    show "?spans = as @ bs @ cs" by (rule split)
    show "select_segments stem_time now retention ws we dir = map fst bs"
      by (simp only: select_segments_def bs)
    show "ws < u" "t < we" if "(p, t, u) \<in> set bs" for p t u
      using in_bs[OF that] by (simp_all add: overlaps_def)
    show "u \<le> ws \<or> we \<le> t" if "(p, t, u) \<in> set (as @ cs)" for p t u
      using out[OF that] by (auto simp: overlaps_def)
  qed
qed

section \<open>Generations of the recorder thread\<close>

text \<open>
  Every start that finds no live, unstopped worker makes a new generation with a stop event
  of its own; its thread first joins the previous one, then runs the pipeline until its stop
  event is set. A worker can also die of an exception. \<open>generation\<close>s are listed oldest first;
  the last one is \<open>self._thread\<close> and \<open>self._stop\<close>.
\<close>

datatype phase = Joining | Running | Ended

record generation =
  gn_stop :: bool
  gn_phase :: phase

definition rec_start :: "generation list \<Rightarrow> generation list" where
  "rec_start gs =
     (if gs \<noteq> [] \<and> gn_phase (last gs) \<noteq> Ended \<and> \<not> gn_stop (last gs) then gs
      else gs @ [\<lparr>gn_stop = False, gn_phase = Joining\<rparr>])"

definition rec_stop :: "generation list \<Rightarrow> generation list" where
  "rec_stop gs = (if gs = [] then gs else gs[length gs - 1 := (last gs)\<lparr>gn_stop := True\<rparr>])"

definition set_phase :: "nat \<Rightarrow> phase \<Rightarrow> generation list \<Rightarrow> generation list" where
  "set_phase i ph gs = gs[i := (gs ! i)\<lparr>gn_phase := ph\<rparr>]"

inductive worker_step :: "generation list \<Rightarrow> generation list \<Rightarrow> bool" where
  joined: "i < length gs \<Longrightarrow> gn_phase (gs ! i) = Joining \<Longrightarrow> i = 0 \<or> gn_phase (gs ! (i - 1)) = Ended \<Longrightarrow>
     worker_step gs (set_phase i Running gs)"
| finished: "i < length gs \<Longrightarrow> gn_phase (gs ! i) = Running \<Longrightarrow> gn_stop (gs ! i) \<Longrightarrow>
     worker_step gs (set_phase i Ended gs)"

inductive rec_step :: "generation list \<Rightarrow> generation list \<Rightarrow> bool" where
  start: "rec_step gs (rec_start gs)"
| stop: "rec_step gs (rec_stop gs)"
| worker: "worker_step gs gs' \<Longrightarrow> rec_step gs gs'"
| died: "i < length gs \<Longrightarrow> gn_phase (gs ! i) = Running \<Longrightarrow> rec_step gs (set_phase i Ended gs)"

inductive_cases worker_stepE: "worker_step gs gs'"
inductive_cases rec_stepE: "rec_step gs gs'"

definition gens_inv :: "generation list \<Rightarrow> bool" where
  "gens_inv gs \<longleftrightarrow> (\<forall>i j. i < j \<and> j < length gs \<longrightarrow>
     (gn_phase (gs ! j) \<noteq> Joining \<longrightarrow> gn_phase (gs ! i) = Ended) \<and>
     (gn_phase (gs ! i) \<noteq> Ended \<longrightarrow> gn_stop (gs ! i)))"

lemma gens_invD:
  "gens_inv gs \<Longrightarrow> i < j \<Longrightarrow> j < length gs \<Longrightarrow> gn_phase (gs ! j) \<noteq> Joining \<Longrightarrow> gn_phase (gs ! i) = Ended"
  "gens_inv gs \<Longrightarrow> i < j \<Longrightarrow> j < length gs \<Longrightarrow> gn_phase (gs ! i) \<noteq> Ended \<Longrightarrow> gn_stop (gs ! i)"
  by (auto simp: gens_inv_def)

lemma set_phase_nth [simp]:
  "i < length gs \<Longrightarrow> j < length gs \<Longrightarrow>
   set_phase i ph gs ! j = (if i = j then (gs ! j)\<lparr>gn_phase := ph\<rparr> else gs ! j)"
  by (simp add: set_phase_def)

lemma set_phase_length [simp]: "length (set_phase i ph gs) = length gs"
  by (simp add: set_phase_def)

lemma start_inv: "gens_inv gs \<Longrightarrow> gens_inv (rec_start gs)"
proof -
  assume inv: "gens_inv gs"
  have "gn_stop (gs ! i)" if "i < length gs" "gn_phase (gs ! i) \<noteq> Ended"
    "gn_phase (last gs) = Ended \<or> gn_stop (last gs)" for i
  proof (cases "i = length gs - 1")
    case True
    then have "gs ! i = last gs" using that by (metis last_conv_nth length_0_conv not_less_zero)
    then show ?thesis using that by auto
  next
    case False
    then have "i < length gs - 1" "length gs - 1 < length gs" using that(1) by auto
    then show ?thesis using gens_invD(2)[OF inv] that(2) by blast
  qed
  then show ?thesis
    using inv by (auto simp: rec_start_def gens_inv_def nth_append less_Suc_eq)
qed

lemma stop_inv: "gens_inv gs \<Longrightarrow> gens_inv (rec_stop gs)"
proof -
  assume inv: "gens_inv gs"
  have "gn_phase (rec_stop gs ! i) = gn_phase (gs ! i)" "gn_stop (gs ! i) \<Longrightarrow> gn_stop (rec_stop gs ! i)"
    if "i < length gs" for i
    using that by (auto simp: rec_stop_def nth_list_update last_conv_nth)
  moreover have "length (rec_stop gs) = length gs" by (simp add: rec_stop_def)
  ultimately show ?thesis using inv by (auto simp: gens_inv_def)
qed

lemma ended_inv: "gens_inv gs \<Longrightarrow> i < length gs \<Longrightarrow> gn_phase (gs ! i) = Running \<Longrightarrow> gens_inv (set_phase i Ended gs)"
  by (auto simp: gens_inv_def)

lemma joined_inv:
  assumes inv: "gens_inv gs" and i: "i < length gs" "gn_phase (gs ! i) = Joining"
    and prev: "i = 0 \<or> gn_phase (gs ! (i - 1)) = Ended"
  shows "gens_inv (set_phase i Running gs)"
proof -
  have earlier: "gn_phase (gs ! k) = Ended" if "k < i" for k
  proof (cases "k = i - 1")
    case False
    then have "k < i - 1" "i - 1 < length gs" "gn_phase (gs ! (i - 1)) \<noteq> Joining" using that prev i by auto
    then show ?thesis using gens_invD(1)[OF inv] by blast
  qed (use that prev in auto)
  have later: "gn_phase (gs ! k) = Joining" if "i < k" "k < length gs" for k
    using gens_invD(1)[OF inv that] i(2) by auto
  show ?thesis
    unfolding gens_inv_def
  proof (intro allI impI, elim conjE)
    fix k l
    assume "k < l" "l < length (set_phase i Running gs)"
    then show "(gn_phase (set_phase i Running gs ! l) \<noteq> Joining \<longrightarrow> gn_phase (set_phase i Running gs ! k) = Ended) \<and>
      (gn_phase (set_phase i Running gs ! k) \<noteq> Ended \<longrightarrow> gn_stop (set_phase i Running gs ! k))"
      using earlier[of k] later[of l] gens_invD[OF inv, of k l] i by (cases "l = i"; cases "k = i") auto
  qed
qed

lemma rec_step_inv: "rec_step gs gs' \<Longrightarrow> gens_inv gs \<Longrightarrow> gens_inv gs'"
  by (auto elim!: rec_stepE worker_stepE intro: start_inv stop_inv ended_inv joined_inv)

lemma reachable_inv: "rec_step\<^sup>*\<^sup>* [] gs \<Longrightarrow> gens_inv gs"
proof (induction rule: rtranclp_induct)
  case base
  show ?case by (simp add: gens_inv_def)
next
  case (step gs gs')
  then show ?case by (blast intro: rec_step_inv)
qed

lemma worker_progress:
  assumes inv: "gens_inv gs" and last: "gs \<noteq> []" "gn_phase (last gs) = Joining"
  shows "\<exists>gs'. worker_step gs gs'"
proof -
  define i where "i = (LEAST i. i < length gs \<and> gn_phase (gs ! i) \<noteq> Ended)"
  have ex: "length gs - 1 < length gs \<and> gn_phase (gs ! (length gs - 1)) \<noteq> Ended"
    using last by (simp add: last_conv_nth)
  then have i: "i < length gs" "gn_phase (gs ! i) \<noteq> Ended"
    using LeastI[of "\<lambda>i. i < length gs \<and> gn_phase (gs ! i) \<noteq> Ended"] unfolding i_def by blast+
  have before: "gn_phase (gs ! k) = Ended" if "k < i" for k
    using not_less_Least[OF that[unfolded i_def]] that i(1) by auto
  show ?thesis
  proof (cases "gn_phase (gs ! i)")
    case Joining
    then show ?thesis using worker_step.joined[of i gs] i(1) before[of "i - 1"] by (cases "i = 0") auto
  next
    case Running
    then have "i \<noteq> length gs - 1" using last by (auto simp: last_conv_nth)
    then have "gn_stop (gs ! i)" using gens_invD(2)[OF inv, of i "length gs - 1"] i by auto
    then show ?thesis using worker_step.finished[OF i(1) Running] by blast
  next
    case Ended
    then show ?thesis using i(2) by simp
  qed
qed

text \<open>
  C9. Two encoders never run at once, and no start is swallowed: in every reachable state at
  most one generation runs the pipeline; a start leaves a live last generation that is not
  stopped; and while that generation still waits for its predecessors, some worker can
  always make a step.
\<close>

theorem one_encoder_no_lost_start:
  assumes "rec_step\<^sup>*\<^sup>* [] gs"
  shows "(\<forall>i j. i < length gs \<and> j < length gs \<and> gn_phase (gs ! i) = Running \<and> gn_phase (gs ! j) = Running \<longrightarrow> i = j) \<and>
    rec_start gs \<noteq> [] \<and> \<not> gn_stop (last (rec_start gs)) \<and> gn_phase (last (rec_start gs)) \<noteq> Ended \<and>
    (gs \<noteq> [] \<and> gn_phase (last gs) = Joining \<longrightarrow> (\<exists>gs'. worker_step gs gs'))"
proof (intro conjI allI impI)
  have inv: "gens_inv gs" using assms by (rule reachable_inv)
  fix i j
  assume a: "i < length gs \<and> j < length gs \<and> gn_phase (gs ! i) = Running \<and> gn_phase (gs ! j) = Running"
  show "i = j"
    using gens_invD(1)[OF inv, of i j] gens_invD(1)[OF inv, of j i] a by (cases i j rule: linorder_cases) auto
next
  show "rec_start gs \<noteq> []" "\<not> gn_stop (last (rec_start gs))" "gn_phase (last (rec_start gs)) \<noteq> Ended"
    by (auto simp: rec_start_def)
next
  assume "gs \<noteq> [] \<and> gn_phase (last gs) = Joining"
  then show "\<exists>gs'. worker_step gs gs'" using worker_progress reachable_inv[OF assms] by blast
qed

section \<open>Watching the pipeline\<close>

text \<open>
  One round of \<open>_watch\<close>: whether the stop event was set, whether the bus had a message, the
  age of the newest segment, and the clock readings of the stall check and of the health
  check.
\<close>

record poll =
  po_stopped :: bool
  po_message :: bool
  po_age :: "seconds option"
  po_stall_at :: seconds
  po_health_at :: seconds

datatype watch_end = Stopped | PipelineEnded | Stalled

definition stall_grace :: seconds where "stall_grace = 10"
definition stall_timeout :: seconds where "stall_timeout = of_int segment_time * 5"

fun watch :: "seconds \<Rightarrow> seconds option \<Rightarrow> real \<Rightarrow> poll list \<Rightarrow> watch_end option \<times> real" where
  "watch started healthy d [] = (None, d)"
| "watch started healthy d (p # ps) =
     (if po_stopped p then (Some Stopped, d)
      else if po_message p then (Some PipelineEnded, d)
      else if stall_grace < po_stall_at p - started \<and>
          (case po_age p of None \<Rightarrow> True | Some a \<Rightarrow> stall_timeout < a) then (Some Stalled, d)
      else if (case po_age p of None \<Rightarrow> False | Some a \<Rightarrow> a < of_int segment_time * 3) then
        (case healthy of
           None \<Rightarrow> watch started (Some (po_health_at p)) d ps
         | Some h \<Rightarrow> watch started healthy (if 10 < po_health_at p - h then 1 else d) ps)
      else watch started None d ps)"

definition next_segment_delay :: "real \<Rightarrow> real" where
  "next_segment_delay d = min (d * 2) 10"

interpretation segment_backoff: backoff 1 10 next_segment_delay
  by unfold_locales (simp_all add: next_segment_delay_def)

lemma watch_delay: "snd (watch started healthy d ps) \<in> {1, d}"
  by (induction started healthy d ps rule: watch.induct) (auto split: option.splits)

text \<open>The delays of a worker over its pipeline runs.\<close>

fun worker_delays :: "(seconds \<times> poll list) list \<Rightarrow> real \<Rightarrow> real list" where
  "worker_delays [] d = []"
| "worker_delays ((started, ps) # rs) d =
     (let b = snd (watch started None d ps) in b # worker_delays rs (next_segment_delay b))"

lemma worker_delays_bounded:
  "1 \<le> d \<Longrightarrow> d \<le> 10 \<Longrightarrow> b \<in> set (worker_delays rs d) \<Longrightarrow> 1 \<le> b \<and> b \<le> 10"
proof (induction rs d rule: worker_delays.induct)
  case (2 started ps rs d)
  have w: "1 \<le> snd (watch started None d ps) \<and> snd (watch started None d ps) \<le> 10"
    using watch_delay[of started None d ps] "2.prems" by auto
  then show ?case
    using 2 segment_backoff.next_in_range[of "snd (watch started None d ps)"] by (auto simp: Let_def)
qed simp

section \<open>Status\<close>

record recorder_status =
  rs_start_time :: seconds
  rs_buffer_active :: bool
  rs_clip_state :: string
  rs_clip_reason :: string
  rs_clip_free_mb :: "int option"
  rs_segment_state :: string
  rs_segment_error :: string
  rs_segment_count :: nat
  rs_segment_age :: "seconds option"

definition initial_status :: "seconds \<Rightarrow> recorder_status" where
  "initial_status now = \<lparr>rs_start_time = now, rs_buffer_active = False, rs_clip_state = ''ok'', rs_clip_reason = [],
     rs_clip_free_mb = None, rs_segment_state = ''disabled'', rs_segment_error = [], rs_segment_count = 0,
     rs_segment_age = None\<rparr>"

definition set_clip_storage :: "string \<Rightarrow> string \<Rightarrow> int option \<Rightarrow> recorder_status \<Rightarrow> recorder_status" where
  "set_clip_storage state reason free_mb s =
     s\<lparr>rs_clip_state := state, rs_clip_reason := reason, rs_clip_free_mb := free_mb\<rparr>"

definition set_segment_recorder ::
  "string \<Rightarrow> string \<Rightarrow> nat option \<Rightarrow> seconds option \<Rightarrow> recorder_status \<Rightarrow> recorder_status" where
  "set_segment_recorder state error count age s =
     s\<lparr>rs_segment_state := state, rs_segment_error := error,
       rs_segment_count := (case count of Some n \<Rightarrow> n | None \<Rightarrow> rs_segment_count s), rs_segment_age := age\<rparr>"

definition two_digits :: "int \<Rightarrow> string" where
  "two_digits n = (let t = int_str n in if length t < 2 then CHR ''0'' # t else t)"

definition uptime_text :: "seconds \<Rightarrow> recorder_status \<Rightarrow> string" where
  "uptime_text now s =
     (let up = py_int_of_float (now - rs_start_time s); h = up div 3600; r = up mod 3600
      in int_str h @ ''h '' @ two_digits (r div 60) @ ''m '' @ two_digits (r mod 60) @ ''s'')"

section \<open>Concrete runs\<close>

lemma retention_covers_window_witness:
  "''a.ts'' \<in> set (snd (purge_old_segments (\<lambda>_. Some 4) (\<lambda>_. True)
     (16 - of_int (segment_retention \<lparr>pre_event = 5, post_event = 5\<rparr>)) [''0.ts'', ''a.ts'']))"
proof (rule retention_covers_window)
  show "(16 :: real) \<le> 10 + post_event \<lparr>pre_event = 5, post_event = 5\<rparr> + 1" by simp
  show "parse_segment_start (\<lambda>_. Some 4) ''a.ts'' = Some 4"
    by (simp add: parse_segment_start_def ends_with_def segment_suffix_def)
  show "(10 :: real) - pre_event \<lparr>pre_event = 5, post_event = 5\<rparr> - 1 \<le> 4" by simp
qed simp

definition letter_time :: "string \<Rightarrow> seconds option" where
  "letter_time s = (if s = ''a'' then Some 10 else if s = ''b'' then Some 11 else if s = ''c'' then Some 12 else None)"

lemma letter_entries: "segment_entries letter_time [''c.ts'', ''a.ts'', ''x.tmp'', ''b.ts''] = [(''a.ts'', 10), (''b.ts'', 11), (''c.ts'', 12)]"
  by (simp add: segment_entries_def list_segments_def parse_segment_start_def letter_time_def ends_with_def
      segment_suffix_def ord_def)

lemma selected_segments_contiguous_witness:
  "select_segments letter_time 13 12 (21 / 2) (23 / 2) [''c.ts'', ''a.ts'', ''x.tmp'', ''b.ts''] = [''a.ts'', ''b.ts''] \<and>
   (\<exists>as bs cs. segment_spans 13 12 (segment_entries letter_time [''c.ts'', ''a.ts'', ''x.tmp'', ''b.ts'']) = as @ bs @ cs \<and>
     select_segments letter_time 13 12 (21 / 2) (23 / 2) [''c.ts'', ''a.ts'', ''x.tmp'', ''b.ts''] = map fst bs)"
proof
  show "select_segments letter_time 13 12 (21 / 2) (23 / 2) [''c.ts'', ''a.ts'', ''x.tmp'', ''b.ts''] = [''a.ts'', ''b.ts'']"
    by (simp add: select_segments_def letter_entries overlaps_def)
  have "sorted (map snd (segment_entries letter_time [''c.ts'', ''a.ts'', ''x.tmp'', ''b.ts'']))"
    "\<forall>e\<in>set (segment_entries letter_time [''c.ts'', ''a.ts'', ''x.tmp'', ''b.ts'']). snd e \<le> 13"
    by (simp_all add: letter_entries)
  from selected_segments_contiguous[OF this, of 12 "21 / 2" "23 / 2"]
  show "\<exists>as bs cs. segment_spans 13 12 (segment_entries letter_time [''c.ts'', ''a.ts'', ''x.tmp'', ''b.ts'']) = as @ bs @ cs \<and>
     select_segments letter_time 13 12 (21 / 2) (23 / 2) [''c.ts'', ''a.ts'', ''x.tmp'', ''b.ts''] = map fst bs"
    by fastforce
qed

lemma restarted_while_running:
  "rec_step\<^sup>*\<^sup>* [] [\<lparr>gn_stop = True, gn_phase = Running\<rparr>, \<lparr>gn_stop = False, gn_phase = Joining\<rparr>]"
proof -
  let ?g = "\<lambda>st ph. \<lparr>gn_stop = st, gn_phase = ph\<rparr>"
  have "rec_step [] [?g False Joining]" using rec_step.start[of "[]"] by (simp add: rec_start_def)
  moreover have "rec_step [?g False Joining] [?g False Running]"
    using rec_step.worker[OF worker_step.joined[of 0 "[?g False Joining]"]] by (simp add: set_phase_def)
  moreover have "rec_step [?g False Running] [?g True Running]"
    using rec_step.stop[of "[?g False Running]"] by (simp add: rec_stop_def)
  moreover have "rec_step [?g True Running] [?g True Running, ?g False Joining]"
    using rec_step.start[of "[?g True Running]"] by (simp add: rec_start_def)
  ultimately show ?thesis by (meson rtranclp.rtrancl_into_rtrancl rtranclp.rtrancl_refl)
qed

lemma one_encoder_no_lost_start_witness:
  "\<exists>gs'. worker_step [\<lparr>gn_stop = True, gn_phase = Running\<rparr>, \<lparr>gn_stop = False, gn_phase = Joining\<rparr>] gs'"
  using one_encoder_no_lost_start[OF restarted_while_running] by simp

end
