(* ===== verification/Recorder_Events.thy ===== *)
theory Recorder_Events
  imports Atomic_File Recorder_Clips Recorder_Segments
begin

text \<open>
  The event path of the recorder: the operating-state file (\<open>recorder/state_store.py\<close>), the
  history tables (\<open>recorder/events_db.py\<close>), the cooldown gate, the two ways of making a clip and
  the history row (\<open>recorder/finalize.py\<close>), and the sidecar's content
  (\<open>recorder/diagnostics.py\<close>).

  What the machine answers is an argument: clock readings \<open>tm i\<close>, free disk space \<open>free i\<close>, how
  a time prints in the local zone (\<open>local fmt t\<close>) and in UTC (\<open>utc t\<close>), how a string reads as a
  float (\<open>rd\<close>) and what \<open>repr\<close> prints (\<open>rp\<close>), and a record \<open>capture\<close> of what ffmpeg and the
  file system did during one capture.
\<close>

section \<open>The operating-state file\<close>

text \<open>\<open>None\<close>: the value is not a dict, so the caller's \<open>get\<close> or \<open>update\<close> raises.\<close>

definition state_load :: "doc \<Rightarrow> dict option" where
  "state_load f = (case f of Doc (JObj d) \<Rightarrow> Some d | Doc v \<Rightarrow> None | Missing \<Rightarrow> Some [] | Torn \<Rightarrow> Some [])"

definition state_update :: "dict \<Rightarrow> doc \<Rightarrow> doc option" where
  "state_update kvs f = map_option (\<lambda>d. Doc (JObj (update_all d kvs))) (state_load f)"

section \<open>The history tables\<close>

record event_row =
  ev_id :: nat
  ev_trigger :: string
  ev_clip :: "string option"
  ev_created :: string

record inference_row =
  inf_id :: nat
  inf_created :: string
  inf_text :: string
  inf_labels :: string
  inf_preset :: string
  inf_model :: string
  inf_elapsed_ms :: "int option"

text \<open>The tables and, for AUTOINCREMENT, the last id each has given out.\<close>

record history =
  events :: "event_row list"
  event_seq :: nat
  inferences :: "inference_row list"
  inference_seq :: nat

definition insert_event :: "string \<Rightarrow> string option \<Rightarrow> string \<Rightarrow> history \<Rightarrow> history" where
  "insert_event trigger clip_name created_at h =
     h\<lparr>events := events h @ [\<lparr>ev_id = Suc (event_seq h), ev_trigger = trigger, ev_clip = clip_name,
         ev_created = created_at\<rparr>], event_seq := Suc (event_seq h)\<rparr>"

definition delete_events_for_clips :: "string list \<Rightarrow> history \<Rightarrow> nat \<times> history" where
  "delete_events_for_clips names h =
     (if names = [] then (0, h)
      else let hit = (\<lambda>r. \<exists>n\<in>set names. ev_clip r = Some n) in
        (row_count hit (events h), h\<lparr>events := delete_where hit (events h)\<rparr>))"

text \<open>\<open>_last_prune_at\<close> is passed along; \<open>now\<close> is the clock of the prune.\<close>

definition prune_inferences ::
  "(seconds \<Rightarrow> string) \<Rightarrow> nat \<Rightarrow> seconds \<Rightarrow> seconds \<Rightarrow> history \<Rightarrow> seconds \<times> history" where
  "prune_inferences utc days now pruned h =
     (if now - pruned < 3600 then (pruned, h)
      else (now, h\<lparr>inferences := delete_where (\<lambda>r. \<not> before (utc (now - real days * 86400)) (inf_created r))
              (inferences h)\<rparr>))"

definition insert_inference ::
  "(seconds \<Rightarrow> string) \<Rightarrow> nat \<Rightarrow> seconds \<Rightarrow> string \<Rightarrow> string \<Rightarrow> string \<Rightarrow> string \<Rightarrow> string \<Rightarrow> int option \<Rightarrow>
   seconds \<Rightarrow> history \<Rightarrow> seconds \<times> history" where
  "insert_inference utc days now created_at vlm_text labels preset model elapsed pruned h =
     prune_inferences utc days now pruned
       (h\<lparr>inferences := inferences h @ [\<lparr>inf_id = Suc (inference_seq h), inf_created = created_at, inf_text = vlm_text,
            inf_labels = labels, inf_preset = preset, inf_model = model, inf_elapsed_ms = elapsed\<rparr>],
          inference_seq := Suc (inference_seq h)\<rparr>)"

section \<open>The cooldown gate\<close>

record gate =
  anchor :: seconds
  state_file :: doc

text \<open>\<open>float(payload.get("event_time") or time.time())\<close>.\<close>

definition event_clock :: "(string \<Rightarrow> real option) \<Rightarrow> seconds \<Rightarrow> dict \<Rightarrow> seconds option" where
  "event_clock rd now payload =
     (let v = get_null payload ''event_time'' in if truthy v then py_float rd v else Some now)"

definition anchor_key :: string where "anchor_key = ''last_event_accepted_at''"

text \<open>The answer and whether a worker thread was started for the payload.\<close>

definition accept_event ::
  "(string \<Rightarrow> real option) \<Rightarrow> seconds \<Rightarrow> seconds \<Rightarrow> dict \<Rightarrow> gate \<Rightarrow> (http_error + bool) \<times> gate" where
  "accept_event rd cooldown now payload g =
     (case event_clock rd now payload of
        None \<Rightarrow> (Inl internal_error, g)
      | Some t \<Rightarrow>
          (if t - anchor g < cooldown then (Inr False, g)
           else
             (case state_update [(anchor_key, JFloat t)] (state_file g) of
                None \<Rightarrow> (Inl internal_error, g\<lparr>anchor := t\<rparr>)
              | Some f \<Rightarrow> (Inr True, g\<lparr>anchor := t, state_file := f\<rparr>))))"

text \<open>\<open>float(state_store.load().get("last_event_accepted_at") or 0.0)\<close> at import; \<open>None\<close> when it raises.\<close>

definition restored_anchor :: "(string \<Rightarrow> real option) \<Rightarrow> doc \<Rightarrow> seconds option" where
  "restored_anchor rd f =
     (case state_load f of
        None \<Rightarrow> None
      | Some d \<Rightarrow> (let v = get_null d anchor_key in if truthy v then py_float rd v else Some 0))"

text \<open>
  What happens to the gate over the life of the device: a notification at clock \<open>now\<close>, the
  buffer switched on or off (which writes the same file), and a restart of the container. The
  trace collects the times of the accepted events, newest first.
\<close>

datatype gate_event = Notify seconds dict | BufferSet bool | Restart

definition gate_step :: "(string \<Rightarrow> real option) \<Rightarrow> seconds \<Rightarrow> gate_event \<Rightarrow> gate \<times> seconds list \<Rightarrow> gate \<times> seconds list" where
  "gate_step rd cooldown e gt =
     (case gt of (g, accepted) \<Rightarrow>
       (case e of
          Notify now payload \<Rightarrow>
            (case accept_event rd cooldown now payload g of
               (Inr True, g') \<Rightarrow> (g', anchor g' # accepted)
             | (_, g') \<Rightarrow> (g', accepted))
        | BufferSet b \<Rightarrow>
            (case state_update [(''buffer_active'', JBool b)] (state_file g) of
               Some f \<Rightarrow> (g\<lparr>state_file := f\<rparr>, accepted)
             | None \<Rightarrow> (g, accepted))
        | Restart \<Rightarrow>
            (case restored_anchor rd (state_file g) of
               Some a \<Rightarrow> (g\<lparr>anchor := a\<rparr>, accepted)
             | None \<Rightarrow> (g, accepted))))"

definition gate_inv :: "(string \<Rightarrow> real option) \<Rightarrow> seconds \<Rightarrow> gate \<times> seconds list \<Rightarrow> bool" where
  "gate_inv rd cooldown gt \<longleftrightarrow>
     (case gt of (g, accepted) \<Rightarrow>
        (\<exists>d. state_load (state_file g) = Some d \<and> restored_anchor rd (state_file g) = Some (anchor g)) \<and>
        (accepted \<noteq> [] \<longrightarrow> anchor g = hd accepted) \<and>
        successively (\<lambda>later earlier. cooldown \<le> later - earlier) accepted)"

lemma state_load_update:
  "state_load f = Some d \<Longrightarrow> state_update kvs f = Some (Doc (JObj (update_all d kvs)))"
  by (simp add: state_update_def)

lemma state_load_Doc [simp]: "state_load (Doc (JObj d)) = Some d"
  by (simp add: state_load_def)

lemma restored_written [simp]: "restored_anchor rd (Doc (JObj (set_key anchor_key (JFloat t) d))) = Some t"
  by (simp add: restored_anchor_def)

lemma restored_other:
  "state_load f = Some d \<Longrightarrow> k \<noteq> anchor_key \<Longrightarrow>
   restored_anchor rd (Doc (JObj (set_key k v d))) = restored_anchor rd f"
  by (simp add: restored_anchor_def)

lemma buffer_key [simp]: "''buffer_active'' \<noteq> anchor_key"
  by (simp add: anchor_key_def)

lemma gate_step_inv: "gate_inv rd cooldown gt \<Longrightarrow> gate_inv rd cooldown (gate_step rd cooldown e gt)"
proof -
  assume inv: "gate_inv rd cooldown gt"
  obtain g accepted where gt: "gt = (g, accepted)" by (cases gt)
  obtain d where d: "state_load (state_file g) = Some d" "restored_anchor rd (state_file g) = Some (anchor g)"
    and hd: "accepted = [] \<or> anchor g = hd accepted"
    and apart: "successively (\<lambda>later earlier. cooldown \<le> later - earlier) accepted"
    using inv by (auto simp: gate_inv_def gt)
  show ?thesis
  proof (cases e)
    case (Notify now payload)
    then show ?thesis
      using inv hd apart
      by (cases accepted) (auto simp: gt gate_step_def accept_event_def state_load_update[OF d(1)] gate_inv_def successively_Cons
          split: option.split)
  next
    case (BufferSet b)
    then show ?thesis
      using inv d by (simp add: gt gate_step_def state_load_update[OF d(1)] gate_inv_def restored_other[OF d(1)])
  next
    case Restart
    then show ?thesis using inv d by (simp add: gt gate_step_def gate_inv_def)
  qed
qed

interpretation gate_run: keeps "gate_inv rd cooldown" "gate_step rd cooldown"
  by unfold_locales (rule gate_step_inv)

text \<open>
  C3. The cooldown holds across restarts: from a readable state file, over any sequence of
  notifications, buffer switches and restarts of the container, any two accepted events are at
  least the cooldown apart in event time, and the remembered anchor is always the last one.
\<close>

theorem cooldown_survives_restart:
  assumes "state_load f = Some d" "restored_anchor rd f = Some a" "0 \<le> cooldown"
    and run: "fold (gate_step rd cooldown) es (\<lparr>anchor = a, state_file = f\<rparr>, []) = (g, accepted)"
  shows "sorted_wrt (\<lambda>later earlier. cooldown \<le> later - earlier) accepted \<and>
    restored_anchor rd (state_file g) = Some (anchor g) \<and> (accepted \<noteq> [] \<longrightarrow> anchor g = hd accepted)"
proof -
  have "gate_inv rd cooldown (\<lparr>anchor = a, state_file = f\<rparr>, [])"
    using assms(1,2) by (simp add: gate_inv_def)
  from gate_run.run_keeps[OF this, of es] have inv: "gate_inv rd cooldown (g, accepted)" by (simp only: run)
  have "sorted_wrt (\<lambda>later earlier. cooldown \<le> later - earlier) xs"
    if "successively (\<lambda>later earlier. cooldown \<le> later - earlier) xs" for xs :: "real list"
    using that assms(3)
  proof (induction xs)
    case (Cons x xs)
    then show ?case by (cases xs) force+
  qed simp
  then show ?thesis using inv by (auto simp: gate_inv_def)
qed

section \<open>Clip making\<close>

record recorder_env =
  rd_float :: "string \<Rightarrow> real option"
  repr_of :: "json \<Rightarrow> string"
  local_text :: "string \<Rightarrow> seconds \<Rightarrow> string"
  utc_text :: "seconds \<Rightarrow> string"
  seg_time :: "string \<Rightarrow> seconds option"
  seg_settings :: segment_settings
  policy :: storage_policy

datatype ffmpeg = Exit int | TimedOut | Failed

text \<open>
  One attempt at a clip: the clock readings (at the start, when ffmpeg starts and ends, and in
  the choice of segments), the disk readings of the pruning and of the status, whether the
  directory and the manifest could be made, the segments there, ffmpeg's answer, the size of
  the \<open>.part\<close> file it left, and the size of the sidecar if writing it succeeds.
\<close>

record capture =
  ca_requested :: seconds
  ca_started :: seconds
  ca_ended :: seconds
  ca_select_at :: seconds
  ca_free :: "nat \<Rightarrow> int"
  ca_disk :: int
  ca_mkdir :: bool
  ca_manifest :: bool
  ca_segments :: "string list"
  ca_ffmpeg :: ffmpeg
  ca_part :: "nat option"
  ca_mtime :: seconds
  ca_duration :: "real option"
  ca_sidecar :: "nat option"

record recorder =
  tree_of :: clip_tree
  status_of :: recorder_status
  history_of :: history

datatype outcome = Raised | Made "string option"

definition bytes_to_mb :: "int \<Rightarrow> int" where
  "bytes_to_mb n = max 0 (n div (1024 * 1024))"

text \<open>\<open>f"{ms:03d}"\<close>: the sign counts for the width.\<close>

definition pad3 :: "int \<Rightarrow> string" where
  "pad3 n = (if 0 \<le> n then pad_str 3 (nat n) else CHR ''-'' # pad_str 2 (nat (- n)))"

definition event_base_name :: "recorder_env \<Rightarrow> seconds \<Rightarrow> string \<times> string list" where
  "event_base_name env t =
     (local_text env ''%Y%m%d_%H%M%S'' t @ CHR ''_'' #
        pad3 (py_int_of_float ((t - of_int (py_int_of_float t)) * 1000)),
      [local_text env ''%Y'' t, local_text env ''%m'' t])"

definition clip_name_of :: "string \<Rightarrow> string" where
  "clip_name_of base = base @ ''.mp4''"

definition prune_with_history :: "(nat \<Rightarrow> int) \<Rightarrow> storage_policy \<Rightarrow> recorder \<Rightarrow> storage_result \<times> recorder" where
  "prune_with_history free pol r =
     (case ensure_clip_capacity free pol (tree_of r) of
        (res, t) \<Rightarrow>
          (res,
           if 0 < sr_deleted_files res then
             r\<lparr>tree_of := t, history_of := snd (delete_events_for_clips
                 (filter (\<lambda>n. n \<notin> cp_name ` set (clips t)) (map cp_name (list_clip_files (tree_of r)))) (history_of r))\<rparr>
           else r\<lparr>tree_of := t\<rparr>))"

definition note_storage :: "string \<Rightarrow> string \<Rightarrow> int \<Rightarrow> recorder \<Rightarrow> recorder" where
  "note_storage state reason mb r = r\<lparr>status_of := set_clip_storage state reason (Some mb) (status_of r)\<rparr>"

section \<open>Sidecars\<close>

text \<open>A JSON number in Python arithmetic; \<open>None\<close> is a TypeError.\<close>

fun number :: "json \<Rightarrow> real option" where
  "number (JBool b) = Some (if b then 1 else 0)"
| "number (JInt n) = Some (of_int n)"
| "number (JFloat x) = Some x"
| "number v = None"

definition opt_items :: "json \<Rightarrow> (json \<Rightarrow> dict option) \<Rightarrow> dict option" where
  "opt_items v f = (if v = JNull then Some [] else f v)"

definition build_trigger_clip_meta ::
  "seconds \<Rightarrow> string list \<Rightarrow> string \<Rightarrow> seconds \<Rightarrow> seconds \<Rightarrow> int \<Rightarrow> nat \<Rightarrow> real option \<Rightarrow> json \<Rightarrow> json \<Rightarrow> json \<Rightarrow>
   dict option" where
  "build_trigger_clip_meta event_time ks vlm_text requested started elapsed_ms sz duration frame inf_started inf_elapsed =
     (case (opt_items frame (\<lambda>v. map_option (\<lambda>x. [(''frame_time_ms'', JInt (to_ms x)),
                (''frame_to_event_ms'', JInt (to_ms (event_time - x)))]) (number v)),
            opt_items inf_started (\<lambda>v. map_option (\<lambda>x. [(''inference_started_at_ms'', JInt (to_ms x))]) (number v)),
            opt_items inf_elapsed (\<lambda>v. map_option (\<lambda>n. [(''inference_elapsed_ms'', JInt n)]) (py_int v))) of
        (Some fr, Some st, Some el) \<Rightarrow>
          Some ([(''timestamp'', JInt (py_int_of_float event_time)), (''event_time_ms'', JInt (to_ms event_time)),
                 (''keywords'', JList (map JStr ks)), (''vlm_text'', JStr vlm_text),
                 (''record_requested_at_ms'', JInt (to_ms requested)), (''ffmpeg_started_at_ms'', JInt (to_ms started)),
                 (''start_delay_ms'', JInt (to_ms (started - event_time))), (''ffmpeg_elapsed_ms'', JInt elapsed_ms),
                 (''clip_size_bytes'', JInt (int sz)),
                 (''clip_duration_s'', case duration of Some x \<Rightarrow> JFloat x | None \<Rightarrow> JNull),
                 (''capture_source'', JStr ''mediamtx_rtsp''), (''video_codec_mode'', JStr ''copy'')] @ fr @ st @ el)
      | _ \<Rightarrow> None)"

definition rollover_items :: "seconds \<Rightarrow> seconds \<Rightarrow> nat \<Rightarrow> dict" where
  "rollover_items ws we n =
     [(''record_mode'', JStr ''segment_rollover''), (''segment_window_start_ms'', JInt (to_ms ws)),
      (''segment_window_end_ms'', JInt (to_ms we)), (''selected_segment_count'', JInt (int n)),
      (''capture_source'', JStr ''streamer_rollover_segments''), (''video_codec_mode'', JStr ''copy_concat'')]"

definition sidecar_at :: "string list \<times> string \<Rightarrow> clip_tree \<Rightarrow> sidecar option" where
  "sidecar_at path t = (case find (\<lambda>c. clip_path c = path) (clips t) of Some c \<Rightarrow> cp_sidecar c | None \<Rightarrow> None)"

definition set_sidecar :: "string list \<times> string \<Rightarrow> sidecar option \<Rightarrow> clip_tree \<Rightarrow> clip_tree" where
  "set_sidecar path sc t = t\<lparr>clips := map (\<lambda>c. if clip_path c = path then c\<lparr>cp_sidecar := sc\<rparr> else c) (clips t)\<rparr>"

text \<open>
  From ffmpeg's answer to the published clip, as both ways of making a clip end: failures
  clean up and are noted; success renames the \<open>.part\<close> file into place, writes the sidecar,
  and only then counts the clip. \<open>meta\<close> is the dict of the sidecar, from the size and the
  duration of the clip; building it can raise.
\<close>

definition publish ::
  "capture \<Rightarrow> string \<Rightarrow> string list \<Rightarrow> (nat \<Rightarrow> real option \<Rightarrow> dict option) \<Rightarrow> string \<Rightarrow> recorder \<Rightarrow> outcome \<times> recorder" where
  "publish ca base dir meta reason r =
     (let name = clip_name_of base; path = (dir, name); mb = bytes_to_mb (ca_disk ca);
          cleaned = r\<lparr>tree_of := set_sidecar path None (tree_of r)\<rparr> in
      case ca_ffmpeg ca of
        TimedOut \<Rightarrow> (Made None, note_storage ''error'' ''ffmpeg_timeout'' mb cleaned)
      | Failed \<Rightarrow> (Made None, note_storage ''error'' ''ffmpeg_error'' mb cleaned)
      | Exit code \<Rightarrow>
          (if code \<noteq> 0 then (Made None, note_storage ''error'' ''ffmpeg_failed'' mb cleaned)
           else
             (case ca_part ca of
                None \<Rightarrow> (Made None, note_storage ''error'' ''ffmpeg_failed'' mb r)
              | Some sz \<Rightarrow>
                  (let placed = r\<lparr>tree_of := place_clip \<lparr>cp_dir = dir, cp_name = name, cp_size = sz, cp_mtime = ca_mtime ca,
                                    cp_sidecar = sidecar_at path (tree_of r)\<rparr> (tree_of r)\<rparr> in
                   case meta sz (ca_duration ca) of
                     None \<Rightarrow> (Raised, placed)
                   | Some d \<Rightarrow>
                       (let described = (case ca_sidecar ca of
                            Some n \<Rightarrow> placed\<lparr>tree_of := set_sidecar path (Some (n, Some d)) (tree_of placed)\<rparr>
                          | None \<Rightarrow> placed)
                        in (Made (Some name),
                            note_storage ''ok'' reason mb
                              (described\<lparr>tree_of := count_added_clip sz (tree_of described)\<rparr>)))))))"

record event_info =
  ei_keywords :: "string list"
  ei_text :: string
  ei_time :: seconds
  ei_frame :: json
  ei_started :: json
  ei_elapsed :: json

definition ffmpeg_ms :: "capture \<Rightarrow> int" where
  "ffmpeg_ms ca = to_ms (ca_ended ca - ca_started ca)"

definition event_meta :: "event_info \<Rightarrow> capture \<Rightarrow> nat \<Rightarrow> real option \<Rightarrow> dict option" where
  "event_meta ei ca sz duration =
     build_trigger_clip_meta (ei_time ei) (ei_keywords ei) (ei_text ei) (ca_requested ca) (ca_started ca) (ffmpeg_ms ca)
       sz duration (ei_frame ei) (ei_started ei) (ei_elapsed ei)"

text \<open>
  Both ways of making a clip start with the pruning, which is passed in: \<open>None\<close> from it is an
  exception, which no handler of the two functions catches.
\<close>

definition finalize_rollover_with ::
  "recorder_env \<Rightarrow> event_info \<Rightarrow> capture \<Rightarrow> (recorder \<Rightarrow> storage_result option \<times> recorder) \<Rightarrow> recorder \<Rightarrow>
     outcome \<times> recorder" where
  "finalize_rollover_with env ei ca prune r =
     (case (if truthy (ei_frame ei) then py_float (rd_float env) (ei_frame ei) else Some (ei_time ei)) of
        None \<Rightarrow> (Raised, r)
      | Some frame_at \<Rightarrow>
          (let ws = frame_at - pre_event (seg_settings env); we = frame_at + post_event (seg_settings env) in
           if \<not> ca_mkdir ca then (Raised, r)
           else
             (case event_base_name env (ei_time ei) of
                (base, dir) \<Rightarrow>
             (case prune r of
                (None, r1) \<Rightarrow> (Raised, r1)
              | (Some cap, r1) \<Rightarrow>
                  (if \<not> sr_ok cap then (Made None, note_storage ''skipped'' (sr_reason cap) (bytes_to_mb (sr_free cap)) r1)
                   else
                     (let segs = select_segments (seg_time env) (ca_select_at ca) (segment_retention (seg_settings env))
                            ws we (ca_segments ca) in
                      if segs = [] then (Made None, note_storage ''error'' ''segment_window_empty'' (bytes_to_mb (ca_disk ca)) r1)
                      else if \<not> ca_manifest ca then (Raised, r1)
                      else publish ca base dir
                             (\<lambda>sz dur. map_option (\<lambda>m. update_all m (rollover_items ws we (length segs))) (event_meta ei ca sz dur))
                             (if sr_reason cap \<noteq> ''ok'' then sr_reason cap else []) r1))))))"

definition record_direct_with ::
  "recorder_env \<Rightarrow> event_info \<Rightarrow> capture \<Rightarrow> (recorder \<Rightarrow> storage_result option \<times> recorder) \<Rightarrow> recorder \<Rightarrow>
     outcome \<times> recorder" where
  "record_direct_with env ei ca prune r =
     (if \<not> ca_mkdir ca then (Raised, r)
      else
        (case event_base_name env (ei_time ei) of
           (base, dir) \<Rightarrow>
        (case prune r of
           (None, r1) \<Rightarrow> (Raised, r1)
         | (Some cap, r1) \<Rightarrow>
             (if \<not> sr_ok cap then (Made None, note_storage ''skipped'' (sr_reason cap) (bytes_to_mb (sr_free cap)) r1)
              else publish ca base dir (event_meta ei ca) [] r1))))"

text \<open>The pruning with no other thread at the clip tree.\<close>

definition prune_alone :: "recorder_env \<Rightarrow> capture \<Rightarrow> recorder \<Rightarrow> storage_result option \<times> recorder" where
  "prune_alone env ca r = (case prune_with_history (ca_free ca) (policy env) r of (res, r1) \<Rightarrow> (Some res, r1))"

definition finalize_rollover_clip :: "recorder_env \<Rightarrow> event_info \<Rightarrow> capture \<Rightarrow> recorder \<Rightarrow> outcome \<times> recorder" where
  "finalize_rollover_clip env ei ca = finalize_rollover_with env ei ca (prune_alone env ca)"

definition record_direct_clip :: "recorder_env \<Rightarrow> event_info \<Rightarrow> capture \<Rightarrow> recorder \<Rightarrow> outcome \<times> recorder" where
  "record_direct_clip env ei ca = record_direct_with env ei ca (prune_alone env ca)"

lemma prune_alone_cases: "(case prune_alone env ca r of (None, r1) \<Rightarrow> A r1 | (Some cap, r1) \<Rightarrow> B cap r1) =
  (case prune_with_history (ca_free ca) (policy env) r of (cap, r1) \<Rightarrow> B cap r1)"
  by (simp add: prune_alone_def split: prod.split)

lemmas finalize_rollover_clip_eq = finalize_rollover_clip_def finalize_rollover_with_def prune_alone_cases
lemmas record_direct_clip_eq = record_direct_clip_def record_direct_with_def prune_alone_cases

section \<open>An event from the notification to the history row\<close>

text \<open>\<open>[str(k) for k in v]\<close>: \<open>None\<close> when \<open>v\<close> cannot be iterated.\<close>

fun iter_strs :: "(json \<Rightarrow> string) \<Rightarrow> json \<Rightarrow> string list option" where
  "iter_strs rp (JList l) = Some (map (py_str rp) l)"
| "iter_strs rp (JStr s) = Some (map (\<lambda>c. [c]) s)"
| "iter_strs rp (JObj d) = Some (map fst d)"
| "iter_strs rp v = None"

definition event_keywords :: "(json \<Rightarrow> string) \<Rightarrow> dict \<Rightarrow> string list option" where
  "event_keywords rp payload =
     (let v = get_null payload ''keywords'' in if truthy v then iter_strs rp v else Some [])"

definition str_or :: "(json \<Rightarrow> string) \<Rightarrow> string \<Rightarrow> json \<Rightarrow> string" where
  "str_or rp d v = (if truthy v then py_str rp v else d)"

definition capture_with ::
  "(recorder \<Rightarrow> outcome \<times> recorder) \<Rightarrow> (recorder \<Rightarrow> outcome \<times> recorder) \<Rightarrow> recorder \<Rightarrow> string option \<times> recorder" where
  "capture_with rollover direct r =
     (case rollover r of
        (Raised, r1) \<Rightarrow> (None, r1)
      | (Made (Some n), r1) \<Rightarrow> (Some n, r1)
      | (Made None, r1) \<Rightarrow>
          (case direct r1 of
             (Raised, r2) \<Rightarrow> (None, r2)
           | (Made c, r2) \<Rightarrow> (c, r2)))"

text \<open>
  The worker of one event, over its two captures; \<open>now\<close> is the worker's own clock reading; an
  exception before the capture ends the thread.
\<close>

definition process_event_with ::
  "(event_info \<Rightarrow> recorder \<Rightarrow> string option \<times> recorder) \<Rightarrow> recorder_env \<Rightarrow> seconds \<Rightarrow> dict \<Rightarrow> recorder \<Rightarrow> recorder" where
  "process_event_with capt env now payload r =
     (case event_keywords (repr_of env) payload of
        None \<Rightarrow> r
      | Some ks \<Rightarrow>
          (case event_clock (rd_float env) now payload of
             None \<Rightarrow> r
           | Some t \<Rightarrow>
               (case capt \<lparr>ei_keywords = ks, ei_text = str_or (repr_of env) [] (get_null payload ''vlm_text''),
                       ei_time = t, ei_frame = get_null payload ''last_frame_time'',
                       ei_started = get_null payload ''inference_started_at'',
                       ei_elapsed = get_null payload ''inference_elapsed_ms''\<rparr> r of
                  (clip_name, r1) \<Rightarrow>
                    r1\<lparr>history_of := insert_event (join_with (CHR '','') ks) clip_name (utc_text env t) (history_of r1)\<rparr>)))"

definition capture_clip :: "recorder_env \<Rightarrow> event_info \<Rightarrow> capture \<Rightarrow> capture \<Rightarrow> recorder \<Rightarrow> string option \<times> recorder" where
  "capture_clip env ei ca1 ca2 = capture_with (finalize_rollover_clip env ei ca1) (record_direct_clip env ei ca2)"

definition process_event :: "recorder_env \<Rightarrow> seconds \<Rightarrow> capture \<Rightarrow> capture \<Rightarrow> dict \<Rightarrow> recorder \<Rightarrow> recorder" where
  "process_event env now ca1 ca2 = process_event_with (\<lambda>ei. capture_clip env ei ca1 ca2) env now"

lemmas capture_clip_eq = capture_clip_def capture_with_def
lemmas process_event_eq = process_event_def process_event_with_def

section \<open>Pruning and the history\<close>

abbreviation clip_names :: "recorder \<Rightarrow> string set" where
  "clip_names r \<equiv> cp_name ` set (clips (tree_of r))"

lemma prune_loop_subset:
  "case prune_loop target free n cur bytes cs t of (cur', n', bytes', t') \<Rightarrow>
     set (clips t') \<subseteq> set (clips t) \<and> n \<le> n' \<and> (n' = n \<longrightarrow> t' = t)"
proof (induction target free n cur bytes cs t rule: prune_loop.induct)
  case (2 target free n cur bytes c cs t)
  have sub: "set (clips (drop_clip c t)) \<subseteq> set (clips t)"
    by (auto simp: drop_clip_def count_removed_clip_def)
  show ?case
  proof (cases "target \<le> free (Suc n)")
    case True
    then show ?thesis using sub by (simp add: delete_clip_pair_def)
  next
    case False
    from "2.IH"[OF delete_clip_pair_def[symmetric] False] sub False show ?thesis
      by (auto simp: delete_clip_pair_def split: prod.splits)
  qed
qed simp

lemma ensure_subset:
  assumes "ensure_clip_capacity free pol t = (res, t')"
  shows "set (clips t') \<subseteq> set (clips t)" "sr_deleted_files res = 0 \<Longrightarrow> t' = t"
  using assms prune_loop_subset[where target = "max (min_free pol) (target_free pol)" and free = free and n = 0 and cur = "free 0"
      and bytes = 0 and cs = "list_clip_files t" and t = t]
  by (auto simp: ensure_clip_capacity_def split: if_splits prod.splits)

lemma prune_history_tree:
  "prune_with_history free pol r = (res, r') \<Longrightarrow> tree_of r' = snd (ensure_clip_capacity free pol (tree_of r)) \<and>
   res = fst (ensure_clip_capacity free pol (tree_of r))"
  by (auto simp: prune_with_history_def split: prod.splits if_splits)

lemma prune_names: "prune_with_history free pol r = (res, r') \<Longrightarrow> clip_names r' \<subseteq> clip_names r"
  using prune_history_tree[of free pol r res r'] ensure_subset(1)[of free pol "tree_of r"]
  by (cases "ensure_clip_capacity free pol (tree_of r)") auto

lemma keep_all_rows: "(\<And>x. P x) \<Longrightarrow> h\<lparr>events := filter P (events h)\<rparr> = (h :: history)"
  by simp

lemma prune_rows:
  "prune_with_history free pol r = (res, r') \<Longrightarrow>
   history_of r' = (history_of r)\<lparr>events := filter (\<lambda>x. \<not> (\<exists>n. ev_clip x = Some n \<and> n \<in> clip_names r - clip_names r'))
     (events (history_of r))\<rparr>"
proof -
  assume p: "prune_with_history free pol r = (res, r')"
  obtain res0 t where e: "ensure_clip_capacity free pol (tree_of r) = (res0, t)" by (cases "ensure_clip_capacity free pol (tree_of r)")
  have tr: "tree_of r' = t" using prune_history_tree[OF p] e by simp
  have files: "set (list_clip_files (tree_of r)) = set (clips (tree_of r))" by (simp add: list_clip_files_def)
  show ?thesis
  proof (cases "0 < sr_deleted_files res0")
    case True
    let ?gone = "filter (\<lambda>n. n \<notin> cp_name ` set (clips t)) (map cp_name (list_clip_files (tree_of r)))"
    have gone: "set ?gone = clip_names r - clip_names r'" by (auto simp: files tr)
    have h: "history_of r' = snd (delete_events_for_clips ?gone (history_of r))"
      using p True by (auto simp: prune_with_history_def e)
    show ?thesis
    proof (cases "?gone = []")
      case True
      then have none: "clip_names r - clip_names r' = {}" using gone by simp
      have "history_of r' = history_of r" using h True by (simp add: delete_events_for_clips_def)
      then show ?thesis unfolding none by (subst keep_all_rows) simp_all
    next
      case False
      then show ?thesis
        unfolding h delete_events_for_clips_def gone[symmetric] delete_where_def Let_def
        by (auto intro!: arg_cong[where f = "\<lambda>es. events_update (\<lambda>_. es) (history_of r)"] filter_cong)
    qed
  next
    case False
    then have "t = tree_of r" using ensure_subset(2)[OF e] by simp
    moreover have "history_of r' = history_of r" using p False by (auto simp: prune_with_history_def e)
    ultimately show ?thesis by (subst keep_all_rows) (simp_all add: tr)
  qed
qed

text \<open>
  Capacity pruning takes the history along: a row disappears exactly when it names a clip
  that the pruning removed from the tree; every other row, the clipless ones included, stays
  in place, and the inference history is untouched.
\<close>

theorem pruning_takes_history_along:
  "case prune_with_history free pol r of
     (res, r') \<Rightarrow>
       events (history_of r') = filter (\<lambda>x. \<not> (\<exists>n. ev_clip x = Some n \<and> n \<in> clip_names r - clip_names r')) (events (history_of r)) \<and>
       inferences (history_of r') = inferences (history_of r) \<and> clip_names r' \<subseteq> clip_names r"
  using prune_rows[of free pol r] prune_names[of free pol r]
  by (cases "prune_with_history free pol r") auto

section \<open>What one event leaves behind\<close>

text \<open>
  \<open>after_capture name r r'\<close>: a capture under the name \<open>name\<close> may lose history rows to the
  pruning, those whose clip is gone, and adds no row; it adds no clip but the one of that name.
\<close>

definition after_capture :: "string \<Rightarrow> recorder \<Rightarrow> recorder \<Rightarrow> bool" where
  "after_capture name r r' \<longleftrightarrow>
     event_seq (history_of r') = event_seq (history_of r) \<and>
     inferences (history_of r') = inferences (history_of r) \<and>
     clip_names r' \<subseteq> insert name (clip_names r) \<and>
     set (events (history_of r')) \<subseteq> set (events (history_of r)) \<and>
     (\<forall>x\<in>set (events (history_of r)) - set (events (history_of r')).
        \<exists>n. ev_clip x = Some n \<and> (n \<in> clip_names r' \<longrightarrow> n = name))"

lemma after_capture_refl: "after_capture name r r"
  by (auto simp: after_capture_def)

lemma after_capture_trans:
  assumes "after_capture name r r1" "after_capture name r1 r2"
  shows "after_capture name r r2"
proof -
  have lost: "\<exists>n. ev_clip x = Some n \<and> (n \<in> clip_names r2 \<longrightarrow> n = name)"
    if x: "x \<in> set (events (history_of r)) - set (events (history_of r2))" for x
  proof (cases "x \<in> set (events (history_of r1))")
    case True
    then show ?thesis using assms(2) x unfolding after_capture_def by blast
  next
    case False
    then obtain n where n: "ev_clip x = Some n" "n \<in> clip_names r1 \<longrightarrow> n = name"
      using assms(1) x unfolding after_capture_def by blast
    moreover have "clip_names r2 \<subseteq> insert name (clip_names r1)" using assms(2) by (simp add: after_capture_def)
    ultimately show ?thesis by blast
  qed
  have "set (events (history_of r2)) \<subseteq> set (events (history_of r))"
    "clip_names r2 \<subseteq> insert name (clip_names r)"
    using assms unfolding after_capture_def by (blast, blast)
  moreover have "event_seq (history_of r2) = event_seq (history_of r)" "inferences (history_of r2) = inferences (history_of r)"
    using assms by (simp_all add: after_capture_def)
  ultimately show ?thesis using lost unfolding after_capture_def by blast
qed

lemma note_storage_frame [frame_simps, simp]:
  "tree_of (note_storage st re mb r) = tree_of r" "history_of (note_storage st re mb r) = history_of r"
  by (simp_all add: note_storage_def)

lemma set_sidecar_names [simp]: "cp_name ` set (clips (set_sidecar path sc t)) = cp_name ` set (clips t)"
proof -
  have "map cp_name (clips (set_sidecar path sc t)) = map cp_name (clips t)" by (simp add: set_sidecar_def)
  then show ?thesis by (metis list.set_map)
qed

lemma count_added_clips [simp]: "clips (count_added_clip sz t) = clips t"
  by (simp add: count_added_clip_def)

lemma after_prune: "prune_with_history free pol r = (res, r') \<Longrightarrow> after_capture name r r'"
  using prune_rows[of free pol r res r'] prune_names[of free pol r res r']
  by (auto simp: after_capture_def)

lemma place_names: "cp_name ` set (clips (place_clip c t)) \<subseteq> insert (cp_name c) (cp_name ` set (clips t))"
  by (auto simp: place_clip_def)

lemma publish_history: "publish ca base dir meta reason r = (oc, r') \<Longrightarrow> history_of r' = history_of r"
  by (auto simp: publish_def Let_def split: ffmpeg.splits if_splits option.splits)

lemma publish_names: "publish ca base dir meta reason r = (oc, r') \<Longrightarrow> clip_names r' \<subseteq> insert (clip_name_of base) (clip_names r)"
proof -
  assume p: "publish ca base dir meta reason r = (oc, r')"
  have r': "clip_names r' = clip_names (snd (publish ca base dir meta reason r))" by (simp add: p)
  show ?thesis
  proof (cases "ca_ffmpeg ca = Exit 0 \<and> ca_part ca \<noteq> None")
    case True
    then obtain sz where sz: "ca_ffmpeg ca = Exit 0" "ca_part ca = Some sz" by blast
    let ?c = "\<lparr>cp_dir = dir, cp_name = clip_name_of base, cp_size = sz, cp_mtime = ca_mtime ca,
      cp_sidecar = sidecar_at (dir, clip_name_of base) (tree_of r)\<rparr>"
    have "clip_names r' = cp_name ` set (clips (place_clip ?c (tree_of r)))"
      unfolding r' by (simp add: publish_def Let_def sz split: option.split)
    then show ?thesis using place_names[of ?c "tree_of r"] by simp
  next
    case False
    then have "clip_names r' = clip_names r"
      unfolding r' by (simp add: publish_def Let_def split: ffmpeg.split)
    then show ?thesis by blast
  qed
qed

lemma after_publish: "publish ca base dir meta reason r = (oc, r') \<Longrightarrow> after_capture (clip_name_of base) r r'"
  using publish_history[of ca base dir meta reason r oc r'] publish_names[of ca base dir meta reason r oc r']
  by (simp add: after_capture_def)

lemma after_note: "after_capture name r r1 \<Longrightarrow> after_capture name r (note_storage st re mb r1)"
  by (simp add: after_capture_def)

lemmas after_intros = after_capture_refl after_note after_prune

lemma after_rollover:
  "finalize_rollover_clip env ei ca r = (oc, r') \<Longrightarrow>
   after_capture (clip_name_of (fst (event_base_name env (ei_time ei)))) r r'"
  by (auto simp: finalize_rollover_clip_eq Let_def split: option.splits if_splits prod.splits
      intro: after_intros after_capture_trans[OF after_prune after_publish])

lemma after_direct:
  "record_direct_clip env ei ca r = (oc, r') \<Longrightarrow>
   after_capture (clip_name_of (fst (event_base_name env (ei_time ei)))) r r'"
  by (auto simp: record_direct_clip_eq split: option.splits if_splits prod.splits
      intro: after_intros after_capture_trans[OF after_prune after_publish])

lemma after_capture_clip:
  "capture_clip env ei ca1 ca2 r = (c, r') \<Longrightarrow>
   after_capture (clip_name_of (fst (event_base_name env (ei_time ei)))) r r'"
  by (auto simp: capture_clip_eq split: prod.splits outcome.splits option.splits
      dest!: after_rollover after_direct intro: after_capture_trans)

lemma process_event_row:
  assumes "event_keywords (repr_of env) payload = Some ks" "event_clock (rd_float env) now payload = Some t"
  shows "\<exists>clip_name kept.
    events (history_of (process_event env now ca1 ca2 payload r)) =
      kept @ [\<lparr>ev_id = Suc (event_seq (history_of r)), ev_trigger = join_with (CHR '','') ks, ev_clip = clip_name,
               ev_created = utc_text env t\<rparr>] \<and>
    set kept \<subseteq> set (events (history_of r)) \<and>
    (\<forall>x\<in>set (events (history_of r)) - set kept. \<exists>n. ev_clip x = Some n \<and>
       (n \<in> clip_names (process_event env now ca1 ca2 payload r) \<longrightarrow> n = clip_name_of (fst (event_base_name env t)))) \<and>
    inferences (history_of (process_event env now ca1 ca2 payload r)) = inferences (history_of r)"
proof -
  let ?ei = "\<lparr>ei_keywords = ks, ei_text = str_or (repr_of env) [] (get_null payload ''vlm_text''),
                       ei_time = t, ei_frame = get_null payload ''last_frame_time'',
                       ei_started = get_null payload ''inference_started_at'',
                       ei_elapsed = get_null payload ''inference_elapsed_ms''\<rparr>"
  obtain c r1 where c: "capture_clip env ?ei ca1 ca2 r = (c, r1)" by (cases "capture_clip env ?ei ca1 ca2 r")
  have "after_capture (clip_name_of (fst (event_base_name env t))) r r1" using after_capture_clip[OF c] by simp
  then show ?thesis
    by (intro exI[of _ c] exI[of _ "events (history_of r1)"])
      (auto simp: process_event_eq assms c insert_event_def after_capture_def)
qed

text \<open>
  Every accepted event ends in a history row, whatever happened to its clip: when the
  keywords can be listed, the worker appends exactly one row, with the next id, the keywords
  joined by commas and the event's own time; the rows before it stay, except those whose clip
  the capacity pruning removed.
\<close>

theorem event_gets_one_row:
  assumes "event_keywords (repr_of env) payload = Some ks" "event_clock (rd_float env) now payload = Some t"
  shows "\<exists>clip_name kept.
    events (history_of (process_event env now ca1 ca2 payload r)) =
      kept @ [\<lparr>ev_id = Suc (event_seq (history_of r)), ev_trigger = join_with (CHR '','') ks, ev_clip = clip_name,
               ev_created = utc_text env t\<rparr>] \<and>
    set kept \<subseteq> set (events (history_of r)) \<and>
    (\<forall>x\<in>set (events (history_of r)) - set kept. \<exists>n. ev_clip x = Some n \<and>
       (n \<in> clip_names (process_event env now ca1 ca2 payload r) \<longrightarrow> n = clip_name_of (fst (event_base_name env t)))) \<and>
    inferences (history_of (process_event env now ca1 ca2 payload r)) = inferences (history_of r)"
  using assms by (rule process_event_row)

text \<open>
  The gate accepts what the worker cannot record: with keywords that are a number, the
  notification is answered as accepted and starts the cooldown, but no clip and no history
  row ever comes of it.
\<close>

theorem accepted_event_without_row:
  assumes "state_load (state_file g) = Some d" "cooldown \<le> t - anchor g" "t \<noteq> 0"
  shows "fst (accept_event (rd_float env) cooldown now [(''keywords'', JInt 5), (''event_time'', JFloat t)] g) = Inr True \<and>
    process_event env now ca1 ca2 [(''keywords'', JInt 5), (''event_time'', JFloat t)] r = r"
  using assms
  by (simp add: accept_event_def event_clock_def get_null_def state_load_update process_event_eq event_keywords_def)

section \<open>A published clip is complete\<close>

lemma map_other_path:
  "(\<And>c. c \<in> set cs \<Longrightarrow> clip_path c \<noteq> path) \<Longrightarrow> map (\<lambda>c. if clip_path c = path then f c else c) cs = cs"
  by (induction cs) auto

lemma set_sidecar_fresh [simp]: "path \<notin> clip_path ` set (clips t) \<Longrightarrow> set_sidecar path sc t = t"
proof -
  assume "path \<notin> clip_path ` set (clips t)"
  then have "map (\<lambda>c. if clip_path c = path then c\<lparr>cp_sidecar := sc\<rparr> else c) (clips t) = clips t"
    by (intro map_other_path) (auto dest: image_neq)
  then show ?thesis by (simp add: set_sidecar_def)
qed

lemma sidecar_fresh [simp]: "path \<notin> clip_path ` set (clips t) \<Longrightarrow> sidecar_at path t = None"
  by (auto simp: sidecar_at_def split: option.splits simp: find_Some_iff)

lemma place_fresh: "clip_path c \<notin> clip_path ` set (clips t) \<Longrightarrow> clips (place_clip c t) = clips t @ [c]"
  by (auto simp: place_clip_def filter_id_conv dest: image_neq)

lemma describe_placed:
  "clip_path c \<notin> clip_path ` set (clips t) \<Longrightarrow>
   set_sidecar (clip_path c) sc (place_clip c t) = place_clip (c\<lparr>cp_sidecar := sc\<rparr>) t"
proof -
  assume f: "clip_path c \<notin> clip_path ` set (clips t)"
  have p: "clip_path (c\<lparr>cp_sidecar := sc\<rparr>) = clip_path c" by (simp add: clip_path_def)
  have "map (\<lambda>d. if clip_path d = clip_path c then d\<lparr>cp_sidecar := sc\<rparr> else d) (clips t) = clips t"
    using f by (intro map_other_path) (auto dest: image_neq)
  then show ?thesis
    using f place_fresh[OF f] by (simp add: set_sidecar_def) (simp add: place_clip_def p filter_id_conv image_iff)
qed

text \<open>The clip a successful attempt publishes, and that a failed one publishes nothing.\<close>

definition published :: "capture \<Rightarrow> string \<Rightarrow> string list \<Rightarrow> (nat \<Rightarrow> real option \<Rightarrow> dict option) \<Rightarrow> clip \<Rightarrow> bool" where
  "published ca base dir meta c \<longleftrightarrow>
     cp_name c = clip_name_of base \<and> cp_dir c = dir \<and> ca_part ca = Some (cp_size c) \<and> ca_ffmpeg ca = Exit 0 \<and>
     cp_sidecar c = map_option (\<lambda>n. (n, meta (cp_size c) (ca_duration ca))) (ca_sidecar ca)"

lemma publish_complete:
  assumes p: "publish ca base dir meta reason r = (oc, r')" and inv: "tree_inv (tree_of r)"
    and fresh: "(dir, clip_name_of base) \<notin> clip_path ` set (clips (tree_of r))"
    and meta: "\<And>sz dur. meta sz dur \<noteq> None"
  shows "tree_inv (tree_of r') \<and>
    (oc = Made None \<and> tree_of r' = tree_of r \<or>
     oc = Made (Some (clip_name_of base)) \<and> (\<exists>c. clips (tree_of r') = clips (tree_of r) @ [c] \<and> published ca base dir meta c))"
proof (cases "ca_ffmpeg ca = Exit 0 \<and> ca_part ca \<noteq> None")
  case False
  then have "oc = Made None \<and> tree_of r' = tree_of r"
    using p fresh by (auto simp: publish_def Let_def split: ffmpeg.splits if_splits)
  then show ?thesis using inv by simp
next
  case True
  then obtain sz where sz: "ca_ffmpeg ca = Exit 0" "ca_part ca = Some sz" by auto
  obtain d where d: "meta sz (ca_duration ca) = Some d" using meta by blast
  define c where "c = \<lparr>cp_dir = dir, cp_name = clip_name_of base, cp_size = sz, cp_mtime = ca_mtime ca,
    cp_sidecar = map_option (\<lambda>n. (n, Some d)) (ca_sidecar ca)\<rparr>"
  have path: "clip_path c = (dir, clip_name_of base)" by (simp add: c_def clip_path_def)
  have "tree_of r' = count_added_clip sz (place_clip c (tree_of r)) \<and> oc = Made (Some (clip_name_of base))"
  proof (cases "ca_sidecar ca")
    case None
    then show ?thesis using p by (auto simp: publish_def Let_def sz d c_def fresh)
  next
    case (Some n)
    let ?bare = "\<lparr>cp_dir = dir, cp_name = clip_name_of base, cp_size = sz, cp_mtime = ca_mtime ca, cp_sidecar = None\<rparr>"
    have "set_sidecar (dir, clip_name_of base) (Some (n, Some d)) (place_clip ?bare (tree_of r)) = place_clip c (tree_of r)"
      using describe_placed[of ?bare "tree_of r" "Some (n, Some d)"] fresh by (simp add: c_def clip_path_def Some)
    then show ?thesis using p by (auto simp: publish_def Let_def sz d Some fresh)
  qed
  moreover have "count_added_clip sz (place_clip c (tree_of r)) = publish_clip c (tree_of r)"
    by (simp add: publish_clip_def c_def)
  ultimately have t: "tree_of r' = publish_clip c (tree_of r)" "oc = Made (Some (clip_name_of base))" by auto
  have "tree_inv (tree_of r')" unfolding t using publish_inv[OF inv] fresh path by simp
  moreover have "clips (tree_of r') = clips (tree_of r) @ [c]"
    unfolding t publish_clip_def using place_fresh[of c "tree_of r"] fresh path by simp
  moreover have "published ca base dir meta c" by (auto simp: published_def c_def sz d map_option_case split: option.split)
  ultimately show ?thesis using t by blast
qed

text \<open>The time fields of a payload are JSON numbers or absent, as the analyzer sends them.\<close>

definition well_timed :: "event_info \<Rightarrow> bool" where
  "well_timed ei \<longleftrightarrow> (ei_frame ei = JNull \<or> number (ei_frame ei) \<noteq> None) \<and>
     (ei_started ei = JNull \<or> number (ei_started ei) \<noteq> None) \<and> (ei_elapsed ei = JNull \<or> py_int (ei_elapsed ei) \<noteq> None)"

definition describes :: "event_info \<Rightarrow> sidecar option \<Rightarrow> bool" where
  "describes ei sc \<longleftrightarrow> (case sc of None \<Rightarrow> True
     | Some (n, None) \<Rightarrow> False
     | Some (n, Some d) \<Rightarrow> map_of d ''event_time_ms'' = Some (JInt (to_ms (ei_time ei))) \<and>
         map_of d ''timestamp'' = Some (JInt (py_int_of_float (ei_time ei))) \<and>
         map_of d ''keywords'' = Some (JList (map JStr (ei_keywords ei))) \<and> map_of d ''vlm_text'' = Some (JStr (ei_text ei)))"

lemma event_meta_total:
  "well_timed ei \<Longrightarrow> \<exists>d. event_meta ei ca sz dur = Some d \<and> describes ei (Some (n, Some d)) \<and>
     describes ei (Some (n, Some (update_all d (rollover_items ws we k))))"
  by (auto simp: well_timed_def event_meta_def build_trigger_clip_meta_def opt_items_def describes_def rollover_items_def)

definition clip_done :: "event_info \<Rightarrow> string \<Rightarrow> string list \<Rightarrow> recorder \<Rightarrow> outcome \<Rightarrow> recorder \<Rightarrow> bool" where
  "clip_done ei base dir r oc r' \<longleftrightarrow> tree_inv (tree_of r') \<and>
     (case oc of
        Made (Some n) \<Rightarrow> n = clip_name_of base \<and>
          (\<exists>old c. clips (tree_of r') = old @ [c] \<and> set old \<subseteq> set (clips (tree_of r)) \<and>
             cp_name c = n \<and> cp_dir c = dir \<and> describes ei (cp_sidecar c))
      | _ \<Rightarrow> set (clips (tree_of r')) \<subseteq> set (clips (tree_of r)))"

lemma prune_tree:
  assumes "prune_with_history free pol r = (res, r1)" "tree_inv (tree_of r)"
  shows "tree_inv (tree_of r1)" "set (clips (tree_of r1)) \<subseteq> set (clips (tree_of r))"
  using prune_history_tree[OF assms(1)] prune_inv[OF assms(2), of free pol] ensure_subset(1)[of free pol "tree_of r"]
  by (cases "ensure_clip_capacity free pol (tree_of r)"; simp)+

lemma publish_done:
  assumes p: "publish ca base dir meta reason r1 = (oc, r')" and inv: "tree_inv (tree_of r1)"
    and sub: "set (clips (tree_of r1)) \<subseteq> set (clips (tree_of r))"
    and fresh: "(dir, clip_name_of base) \<notin> clip_path ` set (clips (tree_of r))"
    and meta: "\<And>sz dur n. \<exists>d. meta sz dur = Some d \<and> describes ei (Some (n, Some d))"
  shows "clip_done ei base dir r oc r'"
proof -
  have f: "(dir, clip_name_of base) \<notin> clip_path ` set (clips (tree_of r1))" using fresh sub by blast
  have m: "\<And>sz dur. meta sz dur \<noteq> None" using meta by fastforce
  note pd = publish_complete[OF p inv f m]
  show ?thesis
  proof (cases oc)
    case (Made cn)
    then show ?thesis
    proof (cases cn)
      case (Some n)
      then obtain c where c: "n = clip_name_of base" "clips (tree_of r') = clips (tree_of r1) @ [c]"
        "published ca base dir meta c" using pd Made by auto
      have "describes ei (cp_sidecar c)"
        using c(3) meta[of "cp_size c" "ca_duration ca"]
        by (cases "ca_sidecar ca") (fastforce simp: published_def describes_def)+
      then show ?thesis using c Made Some pd sub by (auto simp: clip_done_def published_def)
    qed (use pd Made sub in \<open>auto simp: clip_done_def\<close>)
  qed (use pd in simp)
qed

lemma rollover_done:
  assumes "finalize_rollover_clip env ei ca r = (oc, r')" and inv: "tree_inv (tree_of r)" and wt: "well_timed ei"
    and base: "event_base_name env (ei_time ei) = (base, dir)"
    and fresh: "(dir, clip_name_of base) \<notin> clip_path ` set (clips (tree_of r))"
  shows "clip_done ei base dir r oc r'"
proof -
  obtain cap r1 where pr: "prune_with_history (ca_free ca) (policy env) r = (cap, r1)"
    by (cases "prune_with_history (ca_free ca) (policy env) r")
  note tree = prune_tree[OF pr inv]
  have plain: "clip_done ei base dir r (Made None) (note_storage st re mb r1)" "clip_done ei base dir r Raised r1"
    "clip_done ei base dir r Raised r" for st re mb
    using tree inv by (simp_all add: clip_done_def)
  have pub: "publish ca base dir (\<lambda>sz dur. map_option (\<lambda>m. update_all m (rollover_items ws we k)) (event_meta ei ca sz dur)) reason r1
      = (oc, r') \<Longrightarrow> clip_done ei base dir r oc r'" for ws we k reason
    by (rule publish_done[OF _ tree fresh], assumption) (use event_meta_total[OF wt] in fastforce)
  obtain fr where fr: "(if truthy (ei_frame ei) then py_float (rd_float env) (ei_frame ei) else Some (ei_time ei)) = fr"
    by blast
  have run: "(case fr of None \<Rightarrow> (Raised, r)
      | Some frame_at \<Rightarrow>
          (let ws = frame_at - pre_event (seg_settings env); we = frame_at + post_event (seg_settings env) in
           if \<not> ca_mkdir ca then (Raised, r)
           else if \<not> sr_ok cap then (Made None, note_storage ''skipped'' (sr_reason cap) (bytes_to_mb (sr_free cap)) r1)
           else (let segs = select_segments (seg_time env) (ca_select_at ca) (segment_retention (seg_settings env))
                       ws we (ca_segments ca) in
                 if segs = [] then (Made None, note_storage ''error'' ''segment_window_empty'' (bytes_to_mb (ca_disk ca)) r1)
                 else if \<not> ca_manifest ca then (Raised, r1)
                 else publish ca base dir
                        (\<lambda>sz dur. map_option (\<lambda>m. update_all m (rollover_items ws we (length segs))) (event_meta ei ca sz dur))
                        (if sr_reason cap \<noteq> ''ok'' then sr_reason cap else []) r1))) = (oc, r')"
    using assms(1) by (simp only: finalize_rollover_clip_eq fr base pr prod.case)
  show ?thesis
  proof (cases fr)
    case None
    then show ?thesis using run plain(3) by simp
  next
    case (Some frame_at)
    show ?thesis
      using run plain pub by (simp add: Some Let_def split: if_splits) blast+
  qed
qed

lemma direct_done:
  assumes "record_direct_clip env ei ca r = (oc, r')" and inv: "tree_inv (tree_of r)" and wt: "well_timed ei"
    and base: "event_base_name env (ei_time ei) = (base, dir)"
    and fresh: "(dir, clip_name_of base) \<notin> clip_path ` set (clips (tree_of r))"
  shows "clip_done ei base dir r oc r'"
proof -
  obtain cap r1 where pr: "prune_with_history (ca_free ca) (policy env) r = (cap, r1)"
    by (cases "prune_with_history (ca_free ca) (policy env) r")
  note tree = prune_tree[OF pr inv]
  have plain: "clip_done ei base dir r (Made None) (note_storage st re mb r1)" "clip_done ei base dir r Raised r" for st re mb
    using tree inv by (simp_all add: clip_done_def)
  have pub: "publish ca base dir (event_meta ei ca) [] r1 = (oc, r') \<Longrightarrow> clip_done ei base dir r oc r'"
    by (rule publish_done[OF _ tree fresh], assumption) (use event_meta_total[OF wt] in fastforce)
  show ?thesis
    using assms(1) plain pub
    by (simp add: record_direct_clip_eq base pr split: if_splits) blast+
qed

lemma capture_complete:
  assumes "tree_inv (tree_of r)" "well_timed ei" "event_base_name env (ei_time ei) = (base, dir)"
    and fresh: "(dir, clip_name_of base) \<notin> clip_path ` set (clips (tree_of r))"
    and run: "capture_clip env ei ca1 ca2 r = (res, r')"
  shows "tree_inv (tree_of r') \<and>
    (case res of
       None \<Rightarrow> set (clips (tree_of r')) \<subseteq> set (clips (tree_of r)) \<and>
         (dir, clip_name_of base) \<notin> clip_path ` set (clips (tree_of r'))
     | Some n \<Rightarrow> n = clip_name_of base \<and>
         (\<exists>old c. clips (tree_of r') = old @ [c] \<and> set old \<subseteq> set (clips (tree_of r)) \<and>
            clip_path c = (dir, n) \<and> describes ei (cp_sidecar c)))"
proof -
  let ?res = "\<lambda>oc. case oc of Made c \<Rightarrow> c | Raised \<Rightarrow> None"
  have finish: ?thesis
    if d: "clip_done ei base dir p oc r'" and sub: "set (clips (tree_of p)) \<subseteq> set (clips (tree_of r))" and res: "res = ?res oc" for p oc
  proof (cases "?res oc")
    case None
    then have "tree_inv (tree_of r')" "set (clips (tree_of r')) \<subseteq> set (clips (tree_of r))"
      using d sub by (auto simp: clip_done_def split: outcome.splits option.splits)
    then show ?thesis using None fresh res by auto
  next
    case (Some n)
    then have "oc = Made (Some n)" by (cases oc) auto
    then obtain old c where "tree_inv (tree_of r')" "n = clip_name_of base" "clips (tree_of r') = old @ [c]"
      "set old \<subseteq> set (clips (tree_of p))" "clip_path c = (dir, n)" "describes ei (cp_sidecar c)"
      using d by (auto simp: clip_done_def clip_path_def)
    then show ?thesis using Some sub res by auto
  qed
  obtain oc1 r1 where c1: "finalize_rollover_clip env ei ca1 r = (oc1, r1)" by (cases "finalize_rollover_clip env ei ca1 r")
  note d1 = rollover_done[OF c1 assms(1,2,3) fresh]
  show ?thesis
  proof (cases "oc1 = Made None")
    case True
    obtain oc2 r2 where c2: "record_direct_clip env ei ca2 r1 = (oc2, r2)" by (cases "record_direct_clip env ei ca2 r1")
    have sub: "set (clips (tree_of r1)) \<subseteq> set (clips (tree_of r))" and inv: "tree_inv (tree_of r1)"
      using d1 True by (simp_all add: clip_done_def)
    then have "(dir, clip_name_of base) \<notin> clip_path ` set (clips (tree_of r1))" using fresh by blast
    note d2 = direct_done[OF c2 inv assms(2,3) this]
    have "r' = r2 \<and> res = ?res oc2"
      using run by (simp add: capture_clip_eq c1 c2 True split: outcome.splits)
    then show ?thesis using finish[of r1 oc2] d2 sub by blast
  next
    case False
    then have "r' = r1 \<and> res = ?res oc1"
      using run by (simp add: capture_clip_eq c1 split: outcome.splits option.splits)
    then show ?thesis using finish[of r oc1] d1 by blast
  qed
qed


section \<open>Retention of the inference history\<close>

lemma before_refl [simp]: "before s s"
  by (induction s) simp_all

lemma before_trans: "before a b \<Longrightarrow> before b c \<Longrightarrow> before a c"
proof (induction a b arbitrary: c rule: before.induct)
  case (3 c1 r d s)
  then show ?case by (cases c) auto
qed simp_all

text \<open>
  One insertion of the run: the clock (the time stamp of the row and the clock of the prune),
  then text, labels, preset, model and elapsed time.
\<close>

type_synonym insertion = "seconds \<times> string \<times> string \<times> string \<times> string \<times> int option"

definition insert_one :: "(seconds \<Rightarrow> string) \<Rightarrow> nat \<Rightarrow> insertion \<Rightarrow> seconds \<times> history \<Rightarrow> seconds \<times> history" where
  "insert_one utc days x ph =
     (case x of (now, vlm, labels, preset, model, elapsed) \<Rightarrow>
        insert_inference utc days now (utc now) vlm labels preset model elapsed (fst ph) (snd ph))"

definition retention_inv :: "(seconds \<Rightarrow> string) \<Rightarrow> nat \<Rightarrow> seconds \<Rightarrow> insertion list \<Rightarrow> seconds \<times> history \<Rightarrow> bool" where
  "retention_inv utc days now xs ph \<longleftrightarrow> fst ph \<le> now \<and> now - fst ph < 3600 \<and>
     (\<forall>r\<in>set (inferences (snd ph)). before (utc (fst ph - real days * 86400)) (inf_created r)) \<and>
     (\<forall>x\<in>set xs. now - real days * 86400 \<le> fst x \<longrightarrow>
        (\<exists>r\<in>set (inferences (snd ph)). inf_created r = utc (fst x) \<and> inf_text r = fst (snd x)))"

lemma insert_one_inv:
  assumes mono: "\<And>a b. lo \<le> a \<Longrightarrow> a \<le> b \<Longrightarrow> b < hi \<Longrightarrow> before (utc a) (utc b)"
    and inv: "xs \<noteq> [] \<longrightarrow> retention_inv utc days past xs ph" "xs = [] \<longrightarrow> 3600 \<le> fst x - fst ph"
    and order: "past \<le> fst x" "\<forall>y\<in>set xs. fst y \<le> past" and range: "lo + real days * 86400 + 3600 \<le> fst x" "fst x < hi"
  shows "retention_inv utc days (fst x) (xs @ [x]) (insert_one utc days x ph)"
proof -
  obtain now vlm labels preset model elapsed where x: "x = (now, vlm, labels, preset, model, elapsed)" by (cases x)
  obtain pruned h where ph: "ph = (pruned, h)" by (cases ph)
  have fx: "fst x = now" by (simp add: x)
  define h1 where "h1 = inferences h @ [\<lparr>inf_id = Suc (inference_seq h), inf_created = utc now, inf_text = vlm,
     inf_labels = labels, inf_preset = preset, inf_model = model, inf_elapsed_ms = elapsed\<rparr>]"
  have kept: "now - real days * 86400 \<le> fst y \<Longrightarrow> y \<in> set (xs @ [x]) \<Longrightarrow>
      \<exists>r\<in>set h1. inf_created r = utc (fst y) \<and> inf_text r = fst (snd y)" for y
    using inv(1) order unfolding h1_def by (fastforce simp: retention_inv_def ph x)
  show ?thesis
  proof (cases "now - pruned < 3600")
    case True
    then have "xs \<noteq> []" using inv(2) by (auto simp: x ph)
    then have old: "\<forall>r\<in>set (inferences h). before (utc (pruned - real days * 86400)) (inf_created r)" "pruned \<le> now"
      using inv(1) order by (auto simp: retention_inv_def ph x)
    have "before (utc (pruned - real days * 86400)) (utc now)" using old(2) True range by (intro mono) (simp_all add: x)
    then have "\<forall>r\<in>set h1. before (utc (pruned - real days * 86400)) (inf_created r)" using old(1) by (simp add: h1_def)
    moreover have "insert_one utc days x ph = (pruned, h\<lparr>inferences := h1, inference_seq := Suc (inference_seq h)\<rparr>)"
      using True by (simp add: insert_one_def x ph insert_inference_def prune_inferences_def h1_def)
    ultimately show ?thesis using True old(2) kept by (simp add: retention_inv_def x)
  next
    case False
    let ?cut = "now - real days * 86400"
    have run: "insert_one utc days x ph = (now, h\<lparr>inferences := filter (\<lambda>r. before (utc ?cut) (inf_created r)) h1,
        inference_seq := Suc (inference_seq h)\<rparr>)"
      using False by (simp add: insert_one_def x ph insert_inference_def prune_inferences_def h1_def delete_where_def)
    have "\<exists>r\<in>set h1. before (utc ?cut) (inf_created r) \<and> inf_created r = utc (fst y) \<and> inf_text r = fst (snd y)"
      if y: "?cut \<le> fst y" "y \<in> set (xs @ [x])" for y
    proof -
      obtain r where "r \<in> set h1" "inf_created r = utc (fst y)" "inf_text r = fst (snd y)" using kept[OF y] by blast
      moreover have "before (utc ?cut) (utc (fst y))"
        using y order range by (intro mono) (auto simp: x)
      ultimately show ?thesis by (intro bexI[of _ r]) auto
    qed
    then have "\<forall>y\<in>set (xs @ [x]). ?cut \<le> fst y \<longrightarrow>
        (\<exists>r\<in>set (filter (\<lambda>r. before (utc ?cut) (inf_created r)) h1). inf_created r = utc (fst y) \<and> inf_text r = fst (snd y))"
      unfolding set_filter by blast
    then show ?thesis unfolding retention_inv_def run fx by (intro conjI) simp_all
  qed
qed

text \<open>
  Retention of the inference history: with time stamps that sort like the times they
  print, over any sequence of insertions in time order after a start, the table never holds a
  row more than an hour older than the retention window (rows from before the start
  included), and no row inserted within the window is lost.
\<close>

theorem inference_retention:
  assumes mono: "\<And>a b. lo \<le> a \<Longrightarrow> a \<le> b \<Longrightarrow> b < hi \<Longrightarrow> before (utc a) (utc b)"
    and order: "sorted (map fst (xs @ [x]))" "3600 \<le> fst (hd (xs @ [x]))"
    and range: "lo + real days * 86400 + 3600 \<le> fst (hd (xs @ [x]))" "fst x < hi"
  shows "case fold (insert_one utc days) (xs @ [x]) (0, h) of (pruned, h') \<Rightarrow>
    (\<forall>r\<in>set (inferences h'). before (utc (fst x - real days * 86400 - 3600)) (inf_created r)) \<and>
    (\<forall>y\<in>set (xs @ [x]). fst x - real days * 86400 \<le> fst y \<longrightarrow>
       (\<exists>r\<in>set (inferences h'). inf_created r = utc (fst y) \<and> inf_text r = fst (snd y)))"
proof -
  have inv: "retention_inv utc days (fst x) (xs @ [x]) (fold (insert_one utc days) (xs @ [x]) (0, h))"
    using order range
  proof (induction xs arbitrary: x rule: rev_induct)
    case Nil
    then show ?case
      using insert_one_inv[of lo hi utc "[]" days "fst x" "(0, h)" x] mono by simp
  next
    case (snoc y ys)
    have "sorted (map fst (ys @ [y]))" "3600 \<le> fst (hd (ys @ [y]))" "fst y \<le> fst x"
      "lo + real days * 86400 + 3600 \<le> fst (hd (ys @ [y]))" "fst y < hi" "\<forall>z\<in>set (ys @ [y]). fst z \<le> fst y"
      using snoc.prems by (auto simp: sorted_append hd_append)
    moreover have "fst (hd (ys @ [y])) \<le> fst y" using \<open>sorted (map fst (ys @ [y]))\<close> by (cases ys) auto
    moreover have "retention_inv utc days (fst y) (ys @ [y]) (fold (insert_one utc days) (ys @ [y]) (0, h))"
      using snoc.IH calculation by blast
    ultimately show ?case
      using insert_one_inv[of lo hi utc "ys @ [y]" days "fst y" _ x] mono snoc.prems(4) by simp
  qed
  obtain pruned h' where f: "fold (insert_one utc days) (xs @ [x]) (0, h) = (pruned, h')"
    by (cases "fold (insert_one utc days) (xs @ [x]) (0, h)")
  have "lo + real days * 86400 + 3600 \<le> fst x" using range order(1) by (cases xs) auto
  then have "before (utc (fst x - real days * 86400 - 3600)) (utc (pruned - real days * 86400))"
    using inv f range(2) by (intro mono) (simp_all add: retention_inv_def)
  then show ?thesis using inv f by (auto simp: retention_inv_def intro: before_trans)
qed

section \<open>Concrete runs\<close>

definition sample_gate :: gate where
  "sample_gate = \<lparr>anchor = 100, state_file = Doc (JObj [(anchor_key, JFloat 100)])\<rparr>"

lemma sample_anchor: "restored_anchor rd (Doc (JObj [(anchor_key, JFloat 100)])) = Some 100"
  by (simp add: restored_anchor_def get_null_def)

theorem cooldown_survives_restart_witness:
  "\<exists>g accepted. fold (gate_step (\<lambda>_. None) 30)
      [Notify 120 [], Notify 131 [], Restart, Notify 140 [], BufferSet True, Notify 200 []]
      (\<lparr>anchor = 100, state_file = Doc (JObj [(anchor_key, JFloat 100)])\<rparr>, []) = (g, accepted) \<and>
    sorted_wrt (\<lambda>later earlier. 30 \<le> later - earlier) accepted \<and> anchor g = 200"
proof -
  let ?es = "[Notify 120 [], Notify 131 [], Restart, Notify 140 [], BufferSet True, Notify 200 []]"
  obtain g accepted where run: "fold (gate_step (\<lambda>_. None) 30) ?es
      (\<lparr>anchor = 100, state_file = Doc (JObj [(anchor_key, JFloat 100)])\<rparr>, []) = (g, accepted)"
    by fastforce
  have "anchor g = 200"
    using run by (auto simp: gate_step_def accept_event_def event_clock_def get_null_def state_update_def state_load_def
        restored_anchor_def set_key_def)
  then show ?thesis
    using cooldown_survives_restart[OF state_load_Doc sample_anchor _ run] run by auto
qed

lemma prune_plenty:
  "min_free pol \<le> free 0 \<Longrightarrow> prune_with_history free pol r =
     (\<lparr>sr_ok = True, sr_reason = ''ok'', sr_free = free 0, sr_deleted_files = 0, sr_deleted_bytes = 0\<rparr>, r)"
  by (simp add: prune_with_history_def ensure_clip_capacity_def)

definition sample_capture :: capture where
  "sample_capture = \<lparr>ca_requested = 10, ca_started = 11, ca_ended = 12, ca_select_at = 12, ca_free = (\<lambda>_. 1000), ca_disk = 1000,
     ca_mkdir = True, ca_manifest = True, ca_segments = [], ca_ffmpeg = Exit 0, ca_part = Some 20000, ca_mtime = 12,
     ca_duration = Some 5, ca_sidecar = Some 300\<rparr>"

definition sample_env :: recorder_env where
  "sample_env = \<lparr>rd_float = (\<lambda>_. None), repr_of = (\<lambda>_. []), local_text = (\<lambda>f t. ''t''), utc_text = (\<lambda>t. ''u''),
     seg_time = (\<lambda>_. None), seg_settings = \<lparr>pre_event = 2, post_event = 5\<rparr>, policy = \<lparr>min_free = 10, target_free = 20\<rparr>\<rparr>"

definition sample_recorder :: recorder where
  "sample_recorder = \<lparr>tree_of = sample_tree, status_of = initial_status 0,
     history_of = \<lparr>events = [], event_seq = 0, inferences = [], inference_seq = 0\<rparr>\<rparr>"

theorem event_gets_one_row_witness:
  "\<exists>c kept. events (history_of (process_event sample_env 10 sample_capture sample_capture
       [(''keywords'', JList [JStr ''cat'', JStr ''fire'']), (''event_time'', JFloat 10)] sample_recorder)) =
     kept @ [\<lparr>ev_id = 1, ev_trigger = ''cat,fire'', ev_clip = c, ev_created = ''u''\<rparr>]"
proof -
  have "event_keywords (repr_of sample_env) [(''keywords'', JList [JStr ''cat'', JStr ''fire'']), (''event_time'', JFloat 10)]
      = Some [''cat'', ''fire'']"
    "event_clock (rd_float sample_env) 10 [(''keywords'', JList [JStr ''cat'', JStr ''fire'']), (''event_time'', JFloat 10)] = Some 10"
    by (simp_all add: event_keywords_def event_clock_def get_null_def)
  from event_gets_one_row[OF this, of sample_capture sample_capture sample_recorder] show ?thesis
    by (auto simp: sample_recorder_def sample_env_def)
qed

theorem accepted_event_without_row_witness:
  "process_event sample_env 200 sample_capture sample_capture
     [(''keywords'', JInt 5), (''event_time'', JFloat 200)] sample_recorder = sample_recorder"
proof -
  have "state_load (state_file sample_gate) = Some [(anchor_key, JFloat 100)]" "(30 :: real) \<le> 200 - anchor sample_gate"
    by (simp_all add: sample_gate_def)
  from accepted_event_without_row[OF this] show ?thesis by simp
qed


definition two_stamps :: "seconds \<Rightarrow> string" where
  "two_stamps t = (if t < 100000 then ''a'' else ''b'')"

theorem inference_retention_witness:
  "list_all (\<lambda>r. before ''b'' (inf_created r)) (inferences (snd (fold (insert_one two_stamps 1)
      [(4000, ''old'', [], [], [], None), (200000, ''new'', [], [], [], None)] (0, history_of sample_recorder)))) \<and>
   list_ex (\<lambda>r. inf_text r = ''new'') (inferences (snd (fold (insert_one two_stamps 1)
      [(4000, ''old'', [], [], [], None), (200000, ''new'', [], [], [], None)] (0, history_of sample_recorder))))"
proof -
  have mono: "\<And>a b. - 100000 \<le> a \<Longrightarrow> a \<le> b \<Longrightarrow> b < 300000 \<Longrightarrow> before (two_stamps a) (two_stamps b)"
    by (simp add: two_stamps_def ord_def)
  from inference_retention[of "- 100000" 300000 two_stamps, OF mono, where xs = "[(4000, ''old'', [], [], [], None)]" and days = 1
      and x = "(200000, ''new'', [], [], [], None)" and h = "history_of sample_recorder"]
  show ?thesis by (auto simp: two_stamps_def split_beta list_all_iff list_ex_iff intro: bexI)
qed

end
