(* ===== verification/Recorder_History.thy ===== *)
theory Recorder_History
  imports Recorder_Events
begin

text \<open>
  The service of the recorder (\<open>recorder/main.py\<close>): the notifications it takes, the buffer
  switch and its restoration at start, the clip listing, the queries over the two history
  tables with SQLite's LIKE, the label summary by local hours or days, and the deletions.

  The calendar is an argument: \<open>norm_date\<close> is \<open>strptime\<close> and \<open>strftime\<close> with \<open>%Y-%m-%d\<close>,
  \<open>day_start\<close> and \<open>day_end\<close> print the first and last second of a local day in UTC,
  \<open>local_date\<close> is the local date of a time stamp, \<open>parse_utc\<close> reads \<open>created_at\<close> as a number of
  seconds, \<open>midnight\<close> is the instant a local date starts and \<open>utc_offset\<close> the offset of the
  local zone at an instant, in seconds.
\<close>

record calendar =
  norm_date :: "string \<Rightarrow> string option"
  day_start :: "string \<Rightarrow> string"
  day_end :: "string \<Rightarrow> string"
  local_date :: "int \<Rightarrow> string"
  parse_utc :: "string \<Rightarrow> int option"
  midnight :: "string \<Rightarrow> int"
  utc_offset :: "int \<Rightarrow> int"

definition bad_request :: "string \<Rightarrow> http_error" where
  "bad_request detail = HttpError 400 detail None"

section \<open>Notifications\<close>

record service =
  gate_of :: gate
  store_of :: recorder
  pruned_at :: seconds
  generations :: "generation list"
  workers :: "dict list"

text \<open>A request body: \<open>None\<close> when it is not JSON. An accepted event starts a worker thread.\<close>

definition notify :: "(string \<Rightarrow> real option) \<Rightarrow> seconds \<Rightarrow> seconds \<Rightarrow> json option \<Rightarrow> service \<Rightarrow> (http_error + bool) \<times> service" where
  "notify rd cooldown now body s =
     (case body of
        Some (JObj payload) \<Rightarrow>
          (case accept_event rd cooldown now payload (gate_of s) of
             (Inr True, g) \<Rightarrow> (Inr True, s\<lparr>gate_of := g, workers := workers s @ [payload]\<rparr>)
           | (ans, g) \<Rightarrow> (ans, s\<lparr>gate_of := g\<rparr>))
      | _ \<Rightarrow> (Inl (bad_request ''invalid request body''), s))"

text \<open>\<open>isinstance(v, (int, float))\<close> and \<open>isinstance(v, int)\<close>; a bool is an int.\<close>

definition as_elapsed :: "json \<Rightarrow> int option" where
  "as_elapsed v = (case v of JInt n \<Rightarrow> Some n | JBool b \<Rightarrow> Some (if b then 1 else 0) | _ \<Rightarrow> None)"

definition label_list :: "json \<Rightarrow> string list" where
  "label_list v = (case v of JList l \<Rightarrow> map str_of (filter is_str l) | _ \<Rightarrow> [])"

definition post_inference :: "recorder_env \<Rightarrow> nat \<Rightarrow> seconds \<Rightarrow> seconds \<Rightarrow> json option \<Rightarrow> service \<Rightarrow> (http_error + unit) \<times> service" where
  "post_inference env days now prune_now body s =
     (case body of
        Some (JObj payload) \<Rightarrow>
          (if \<not> is_str (get_null payload ''vlm_text'') then (Inl (bad_request ''vlm_text required''), s)
           else
             let created_at = utc_text env (case number (get_null payload ''judged_at'') of Some t \<Rightarrow> t | None \<Rightarrow> now) in
             (case insert_inference (utc_text env) days prune_now created_at (str_of (get_null payload ''vlm_text''))
                     (dumps (\<lambda>_. []) False (JList (map JStr (label_list (get_null payload ''labels'')))))
                     (str_or (repr_of env) ''default'' (get_null payload ''preset''))
                     (str_or (repr_of env) [] (get_null payload ''model''))
                     (as_elapsed (get_null payload ''inference_elapsed_ms'')) (pruned_at s) (history_of (store_of s)) of
                (p, h) \<Rightarrow> (Inr (), s\<lparr>pruned_at := p, store_of := (store_of s)\<lparr>history_of := h\<rparr>\<rparr>)))
      | _ \<Rightarrow> (Inl internal_error, s))"

section \<open>The buffer switch\<close>

definition set_buffer_active :: "bool \<Rightarrow> recorder_status \<Rightarrow> recorder_status" where
  "set_buffer_active b st = st\<lparr>rs_buffer_active := b\<rparr>"

definition buffer_status :: "bool \<Rightarrow> service \<Rightarrow> service" where
  "buffer_status b s = s\<lparr>store_of := (store_of s)\<lparr>status_of := set_buffer_active b (status_of (store_of s))\<rparr>\<rparr>"

definition buffer_start :: "service \<Rightarrow> (http_error + unit) \<times> service" where
  "buffer_start s =
     (let s1 = buffer_status True s in
      case state_update [(''buffer_active'', JBool True)] (state_file (gate_of s)) of
        None \<Rightarrow> (Inl internal_error, s1)
      | Some f \<Rightarrow> (Inr (), s1\<lparr>gate_of := (gate_of s)\<lparr>state_file := f\<rparr>, generations := rec_start (generations s)\<rparr>))"

definition buffer_stop :: "service \<Rightarrow> (http_error + unit) \<times> service" where
  "buffer_stop s =
     (let s1 = buffer_status False s in
      case state_update [(''buffer_active'', JBool False)] (state_file (gate_of s)) of
        None \<Rightarrow> (Inl internal_error, s1)
      | Some f \<Rightarrow> (Inr (), s1\<lparr>gate_of := (gate_of s)\<lparr>state_file := f\<rparr>, generations := rec_stop (generations s)\<rparr>))"

text \<open>
  A restart of the container: files and tables stay, the process state is new. \<open>None\<close> when
  the state file is not a dict, so that the import or the lifespan raises.
\<close>

definition boot :: "(string \<Rightarrow> real option) \<Rightarrow> seconds \<Rightarrow> service \<Rightarrow> service option" where
  "boot rd now s =
     (case (restored_anchor rd (state_file (gate_of s)), state_load (state_file (gate_of s))) of
        (Some a, Some d) \<Rightarrow>
          (let fresh = \<lparr>gate_of = (gate_of s)\<lparr>anchor := a\<rparr>,
                 store_of = \<lparr>tree_of = recount_clips (tree_of (store_of s)), status_of = initial_status now,
                   history_of = history_of (store_of s)\<rparr>,
                 pruned_at = 0, generations = [], workers = []\<rparr>
           in Some (if truthy (get_null d ''buffer_active'')
                    then (buffer_status True fresh)\<lparr>generations := rec_start []\<rparr> else fresh))
      | _ \<Rightarrow> None)"

section \<open>Queries over the history\<close>

text \<open>SQLite's LIKE: \<open>%\<close> any text, \<open>_\<close> one character, ASCII letters in either case.\<close>

definition ascii_lower :: "char \<Rightarrow> char" where
  "ascii_lower c = (if 65 \<le> ord c \<and> ord c \<le> 90 then chr (ord c + 32) else c)"

fun like :: "string \<Rightarrow> string \<Rightarrow> bool" where
  "like [] s = (s = [])"
| "like (c # p) [] = (c = CHR ''%'' \<and> like p [])"
| "like (c # p) (a # s) =
     (if c = CHR ''%'' then like p (a # s) \<or> like (c # p) s
      else (c = CHR ''_'' \<or> ascii_lower c = ascii_lower a) \<and> like p s)"

definition like_clause :: "string option \<Rightarrow> (string \<Rightarrow> string) \<Rightarrow> string \<Rightarrow> bool" where
  "like_clause q pat s = (case q of Some x \<Rightarrow> x = [] \<or> like (CHR ''%'' # pat x @ ''%'') s | None \<Rightarrow> True)"

definition in_days :: "calendar \<Rightarrow> string option \<Rightarrow> string option \<Rightarrow> string \<Rightarrow> bool" where
  "in_days cal date_from date_to created \<longleftrightarrow>
     (case date_from of Some d \<Rightarrow> before (day_start cal d) created | None \<Rightarrow> True) \<and>
     (case date_to of Some d \<Rightarrow> before created (day_end cal d) | None \<Rightarrow> True)"

definition normalize_date_query :: "calendar \<Rightarrow> string \<Rightarrow> string option \<Rightarrow> http_error + string option" where
  "normalize_date_query cal name v =
     (case v of None \<Rightarrow> Inr None
      | Some d \<Rightarrow> (case norm_date cal d of Some n \<Rightarrow> Inr (Some n) | None \<Rightarrow> Inl (bad_request (''invalid '' @ name))))"

definition with_dates ::
  "calendar \<Rightarrow> string option \<Rightarrow> string option \<Rightarrow> (string option \<Rightarrow> string option \<Rightarrow> http_error + 'a) \<Rightarrow> http_error + 'a" where
  "with_dates cal date_from date_to f =
     (case normalize_date_query cal ''date_from'' date_from of Inl e \<Rightarrow> Inl e
      | Inr a \<Rightarrow> (case normalize_date_query cal ''date_to'' date_to of Inl e \<Rightarrow> Inl e | Inr b \<Rightarrow> f a b))"

definition matching_events :: "calendar \<Rightarrow> string option \<Rightarrow> string option \<Rightarrow> string option \<Rightarrow> history \<Rightarrow> event_row list" where
  "matching_events cal q a b h =
     rev (sort_key ev_id (filter (\<lambda>r. like_clause q (\<lambda>x. x) (ev_trigger r) \<and> in_days cal a b (ev_created r)) (events h)))"

definition list_events ::
  "calendar \<Rightarrow> string option \<Rightarrow> string option \<Rightarrow> string option \<Rightarrow> nat \<Rightarrow> nat \<Rightarrow> history \<Rightarrow> http_error + event_row list \<times> nat" where
  "list_events cal q date_from date_to limit offset h =
     with_dates cal date_from date_to (\<lambda>a b. Inr (page limit offset (matching_events cal q a b h)))"

definition matching_inferences :: "calendar \<Rightarrow> string option \<Rightarrow> string option \<Rightarrow> string option \<Rightarrow> history \<Rightarrow> inference_row list" where
  "matching_inferences cal label a b h =
     rev (sort_key inf_id (filter (\<lambda>r. like_clause label (dumps_str False) (inf_labels r) \<and> in_days cal a b (inf_created r))
       (inferences h)))"

definition stored_labels :: "string \<Rightarrow> json" where
  "stored_labels s = (case loads s of Some v \<Rightarrow> v | None \<Rightarrow> JList [])"

definition list_inferences ::
  "calendar \<Rightarrow> string option \<Rightarrow> string option \<Rightarrow> string option \<Rightarrow> nat \<Rightarrow> nat \<Rightarrow> history \<Rightarrow>
   http_error + (inference_row \<times> json) list \<times> nat" where
  "list_inferences cal label date_from date_to limit offset h =
     with_dates cal date_from date_to (\<lambda>a b.
       case page limit offset (matching_inferences cal label a b h) of
         (rows, n) \<Rightarrow> Inr (map (\<lambda>r. (r, stored_labels (inf_labels r))) rows, n))"

definition delete_event :: "nat \<Rightarrow> history \<Rightarrow> (http_error + nat) \<times> history" where
  "delete_event i h =
     (if row_count (\<lambda>r. ev_id r = i) (events h) = 0 then (Inl (HttpError 404 ''event not found'' None), h)
      else (Inr 1, h\<lparr>events := delete_where (\<lambda>r. ev_id r = i) (events h)\<rparr>))"

definition delete_events :: "history \<Rightarrow> nat \<times> history" where
  "delete_events h = (length (events h), h\<lparr>events := []\<rparr>)"

section \<open>The clip listing\<close>

record clip_out =
  co_name :: string
  co_size :: nat
  co_created :: string
  co_timestamp :: json
  co_keywords :: json
  co_text :: json

definition read_clip_meta :: "clip \<Rightarrow> dict" where
  "read_clip_meta c = (case cp_sidecar c of Some (n, Some d) \<Rightarrow> d | _ \<Rightarrow> [])"

definition get_default :: "dict \<Rightarrow> string \<Rightarrow> json \<Rightarrow> json" where
  "get_default d k v = (case map_of d k of Some w \<Rightarrow> w | None \<Rightarrow> v)"

definition clip_stamp :: "clip \<Rightarrow> json" where
  "clip_stamp c = get_default (read_clip_meta c) ''timestamp'' (JInt (py_int_of_float (cp_mtime c)))"

text \<open>A filter on the text: \<open>None\<close> or an empty text keeps every clip.\<close>

definition text_matches :: "string option \<Rightarrow> clip \<Rightarrow> bool" where
  "text_matches q c =
     (case q of None \<Rightarrow> True
      | Some x \<Rightarrow> x = [] \<or>
          (case get_null (read_clip_meta c) ''vlm_text'' of
             JStr t \<Rightarrow> contains (py_lower x) (py_lower t) | _ \<Rightarrow> False))"

text \<open>
  \<open>datetime.fromtimestamp\<close> rounds to microseconds before it cuts to the second (how it rounds ties
  does not change the second: the one tie before a full second goes up).
\<close>

definition timestamp_second :: "real \<Rightarrow> int" where
  "timestamp_second t = round (t * 1000000) div 1000000"

text \<open>The date test; \<open>None\<close>: the time stamp is not a number and \<open>fromtimestamp\<close> raises.\<close>

definition date_matches :: "calendar \<Rightarrow> string option \<Rightarrow> string option \<Rightarrow> clip \<Rightarrow> bool option" where
  "date_matches cal a b c =
     (if a = None \<and> b = None then Some True
      else map_option (\<lambda>t. let d = local_date cal (timestamp_second t) in
               (case a of Some x \<Rightarrow> before x d | None \<Rightarrow> True) \<and> (case b of Some x \<Rightarrow> before d x | None \<Rightarrow> True))
             (number (clip_stamp c)))"

definition clip_view :: "(seconds \<Rightarrow> string) \<Rightarrow> clip \<Rightarrow> clip_out" where
  "clip_view utc c =
     \<lparr>co_name = cp_name c, co_size = cp_size c, co_created = utc (cp_mtime c), co_timestamp = clip_stamp c,
      co_keywords = get_default (read_clip_meta c) ''keywords'' (JList []), co_text = get_null (read_clip_meta c) ''vlm_text''\<rparr>"

fun listed :: "calendar \<Rightarrow> (seconds \<Rightarrow> string) \<Rightarrow> string option \<Rightarrow> string option \<Rightarrow> string option \<Rightarrow> clip list \<Rightarrow> clip_out list option" where
  "listed cal utc q a b [] = Some []"
| "listed cal utc q a b (c # cs) =
     (if \<not> text_matches q c then listed cal utc q a b cs
      else
        (case date_matches cal a b c of
           None \<Rightarrow> None
         | Some False \<Rightarrow> listed cal utc q a b cs
         | Some True \<Rightarrow> map_option ((#) (clip_view utc c)) (listed cal utc q a b cs)))"

definition newest_first :: "clip_tree \<Rightarrow> clip list" where
  "newest_first t = rev (sort_key cp_mtime (rev (filter playable (clips t))))"

definition list_clips ::
  "calendar \<Rightarrow> (seconds \<Rightarrow> string) \<Rightarrow> string option \<Rightarrow> string option \<Rightarrow> string option \<Rightarrow> nat \<Rightarrow> nat \<Rightarrow> clip_tree \<Rightarrow>
   http_error + clip_out list \<times> nat" where
  "list_clips cal utc q date_from date_to limit offset t =
     with_dates cal date_from date_to (\<lambda>a b.
       case listed cal utc q a b (newest_first t) of
         None \<Rightarrow> Inl internal_error
       | Some cs \<Rightarrow> Inr (page limit offset cs))"

section \<open>The label summary\<close>

record bucket =
  bk_start :: "int \<times> int"
  bk_counts :: "(string \<times> nat) list"
  bk_total :: nat

text \<open>
  A bucket's key is \<open>isoformat\<close> of its start, that is the local civil time and the offset. The
  loop over \<open>cur\<close> steps in UTC with the offset of \<open>lo\<close>, since \<open>astimezone\<close> fixes it.
\<close>

function bucket_starts :: "int \<Rightarrow> int \<Rightarrow> int \<Rightarrow> int list" where
  "bucket_starts step cur hi = (if 0 < step \<and> cur < hi then cur # bucket_starts step (cur + step) hi else [])"
  by pat_completeness auto
termination
  by (relation "measure (\<lambda>(step, cur, hi). nat (hi - cur))") auto

declare bucket_starts.simps [simp del]

definition empty_buckets :: "int \<Rightarrow> int \<Rightarrow> int \<Rightarrow> int \<Rightarrow> bucket list" where
  "empty_buckets off step lo hi =
     map (\<lambda>cur. \<lparr>bk_start = (cur + off, off), bk_counts = [], bk_total = 0\<rparr>) (bucket_starts step lo hi)"

text \<open>Where a row belongs: its local time cut to the hour or the day, with the offset it has.\<close>

definition row_bucket :: "calendar \<Rightarrow> int \<Rightarrow> int \<Rightarrow> int \<times> int" where
  "row_bucket cal step t =
     (let off = utc_offset cal t; civil = t + off in (civil - civil mod step, off))"

definition count_label :: "string \<Rightarrow> (string \<times> nat) list \<Rightarrow> (string \<times> nat) list" where
  "count_label l cs = AList.update l (case map_of cs l of Some n \<Rightarrow> Suc n | None \<Rightarrow> 1) cs"

definition count_row :: "string list \<Rightarrow> bucket \<Rightarrow> bucket" where
  "count_row ls b = b\<lparr>bk_total := Suc (bk_total b), bk_counts := fold count_label ls (bk_counts b)\<rparr>"

text \<open>The labels a stored text is iterated into; \<open>None\<close>: not iterable.\<close>

definition summary_labels :: "json \<Rightarrow> string list option" where
  "summary_labels v =
     (case v of JList l \<Rightarrow> Some (map str_of (filter is_str l)) | JStr s \<Rightarrow> Some (map (\<lambda>c. [c]) s)
      | JObj d \<Rightarrow> Some (map fst d) | _ \<Rightarrow> None)"

text \<open>One row: its time and labels; a row without a bucket is skipped before its labels are read.\<close>

definition add_row :: "calendar \<Rightarrow> int \<Rightarrow> int \<Rightarrow> string \<Rightarrow> bucket list \<Rightarrow> bucket list option" where
  "add_row cal step t labels bs =
     (let k = row_bucket cal step t in
      if k \<notin> bk_start ` set bs then Some bs
      else map_option (\<lambda>ls. map (\<lambda>b. if bk_start b = k then count_row ls b else b) bs)
             (summary_labels (stored_labels labels)))"

fun add_rows :: "calendar \<Rightarrow> int \<Rightarrow> (string \<times> string) list \<Rightarrow> bucket list \<Rightarrow> bucket list option" where
  "add_rows cal step [] bs = Some bs"
| "add_rows cal step ((created, labels) # rows) bs =
     (case parse_utc cal created of
        None \<Rightarrow> None
      | Some t \<Rightarrow> (case add_row cal step t labels bs of None \<Rightarrow> None | Some bs' \<Rightarrow> add_rows cal step rows bs'))"

definition rows_of_days :: "calendar \<Rightarrow> string \<Rightarrow> string \<Rightarrow> history \<Rightarrow> (string \<times> string) list" where
  "rows_of_days cal a b h =
     map (\<lambda>r. (inf_created r, inf_labels r)) (filter (\<lambda>r. in_days cal (Some a) (Some b) (inf_created r)) (inferences h))"

definition bucket_message :: string where
  "bucket_message = ''bucket must be '' @ CHR 39 # ''hour'' @ CHR 39 # '' or '' @ CHR 39 # ''day'' @ [CHR 39]"

definition summary :: "calendar \<Rightarrow> string \<Rightarrow> string \<Rightarrow> string \<Rightarrow> history \<Rightarrow> http_error + bucket list" where
  "summary cal date_from date_to bucket h =
     (if bucket \<noteq> ''hour'' \<and> bucket \<noteq> ''day'' then Inl (bad_request bucket_message)
      else with_dates cal (Some date_from) (Some date_to) (\<lambda>a b.
        case (a, b) of
          (Some x, Some y) \<Rightarrow>
            (let lo = midnight cal x; hi = midnight cal y + 86400; step = (if bucket = ''hour'' then 3600 else 86400) in
             if hi \<le> lo then Inl (bad_request ''date_from must not be after date_to'')
             else (case add_rows cal step (rows_of_days cal x y h) (empty_buckets (utc_offset cal lo) step lo hi) of
                     None \<Rightarrow> Inl internal_error
                   | Some bs \<Rightarrow> Inr bs))
        | _ \<Rightarrow> Inl internal_error))"

section \<open>Status\<close>

definition opt_int :: "int option \<Rightarrow> json" where
  "opt_int v = (case v of Some n \<Rightarrow> JInt n | None \<Rightarrow> JNull)"

definition status_snapshot :: "seconds \<Rightarrow> recorder_status \<Rightarrow> dict" where
  "status_snapshot now st =
     [(''buffer_active'', JBool (rs_buffer_active st)), (''clip_storage_state'', JStr (rs_clip_state st)),
      (''clip_storage_reason'', JStr (rs_clip_reason st)), (''clip_storage_free_mb'', opt_int (rs_clip_free_mb st)),
      (''segment_recorder_state'', JStr (rs_segment_state st)), (''segment_recorder_error'', JStr (rs_segment_error st)),
      (''segment_recorder_segment_count'', JInt (int (rs_segment_count st))),
      (''segment_recorder_last_segment_age_s'', case rs_segment_age st of Some x \<Rightarrow> JFloat x | None \<Rightarrow> JNull),
      (''uptime'', JStr (uptime_text now st))]"

text \<open>\<open>hw\<close> and \<open>disk\<close> are the dicts of the hardware monitor.\<close>

definition get_status :: "dict \<Rightarrow> dict \<Rightarrow> seconds \<Rightarrow> recorder \<Rightarrow> dict" where
  "get_status hw disk now r =
     update_all (update_all (update_all (update_all [] hw) disk) (status_snapshot now (status_of r)))
       [(''clip_count'', JInt (counter (tree_of r))), (''event_count'', JInt (int (length (events (history_of r)))))]"

section \<open>The buffer switch over restarts\<close>

datatype service_event =
  Notified seconds "json option" | Inferred seconds seconds "json option" | Switch bool | Boot seconds

text \<open>A container that does not come up stays as it was.\<close>

fun service_step :: "recorder_env \<Rightarrow> seconds \<Rightarrow> nat \<Rightarrow> service_event \<Rightarrow> service \<Rightarrow> service" where
  "service_step env cooldown days (Notified now body) s = snd (notify (rd_float env) cooldown now body s)"
| "service_step env cooldown days (Inferred now prune_now body) s = snd (post_inference env days now prune_now body s)"
| "service_step env cooldown days (Switch b) s = snd (if b then buffer_start s else buffer_stop s)"
| "service_step env cooldown days (Boot now) s = (case boot (rd_float env) now s of Some s' \<Rightarrow> s' | None \<Rightarrow> s)"

abbreviation buffer_flag :: "service \<Rightarrow> bool" where
  "buffer_flag s \<equiv> rs_buffer_active (status_of (store_of s))"

text \<open>Switch, state file and recorder thread say the same.\<close>

definition switch_inv :: "(string \<Rightarrow> real option) \<Rightarrow> service \<Rightarrow> bool" where
  "switch_inv rd s \<longleftrightarrow>
     (\<exists>d a. state_load (state_file (gate_of s)) = Some d \<and> restored_anchor rd (state_file (gate_of s)) = Some a \<and>
        truthy (get_null d ''buffer_active'') = buffer_flag s) \<and>
     (buffer_flag s \<longleftrightarrow> generations s \<noteq> [] \<and> \<not> gn_stop (last (generations s)))"

lemma buffer_key_anchor [simp]: "anchor_key \<noteq> ''buffer_active''"
  by (simp add: anchor_key_def)

lemma rec_start_live: "rec_start gs \<noteq> [] \<and> \<not> gn_stop (last (rec_start gs))"
  by (auto simp: rec_start_def)

lemma rec_stop_dead: "rec_stop gs \<noteq> [] \<Longrightarrow> gn_stop (last (rec_stop gs))"
  by (auto simp: rec_stop_def last_list_update)

lemma accept_event_file:
  assumes "state_load (state_file g) = Some d" "restored_anchor rd (state_file g) = Some a" "accept_event rd cooldown now payload g = (ans, g')"
  shows "\<exists>d' a'. state_load (state_file g') = Some d' \<and> restored_anchor rd (state_file g') = Some a' \<and>
    get_null d' ''buffer_active'' = get_null d ''buffer_active''"
  using assms
  by (auto simp: accept_event_def state_load_update[OF assms(1)] split: option.splits if_splits)

lemma notify_inv: "switch_inv rd s \<Longrightarrow> switch_inv rd (snd (notify rd cooldown now body s))"
proof -
  assume inv: "switch_inv rd s"
  then obtain d a where d: "state_load (state_file (gate_of s)) = Some d" "restored_anchor rd (state_file (gate_of s)) = Some a"
      "truthy (get_null d ''buffer_active'') = buffer_flag s"
    by (auto simp: switch_inv_def)
  show ?thesis
  proof (cases "\<exists>payload. body = Some (JObj payload)")
    case True
    then obtain payload where b: "body = Some (JObj payload)" by blast
    obtain ans g' where e: "accept_event rd cooldown now payload (gate_of s) = (ans, g')"
      by (cases "accept_event rd cooldown now payload (gate_of s)")
    have "gate_of (snd (notify rd cooldown now body s)) = g'" "store_of (snd (notify rd cooldown now body s)) = store_of s"
      "generations (snd (notify rd cooldown now body s)) = generations s"
      by (simp_all add: notify_def b e split: sum.split bool.split)
    then show ?thesis using accept_event_file[OF d(1,2) e] d(3) inv by (simp add: switch_inv_def) metis
  next
    case False
    then have "snd (notify rd cooldown now body s) = s"
      by (cases body) (auto simp: notify_def split: json.split)
    then show ?thesis using inv by simp
  qed
qed

lemma post_inference_frame:
  "gate_of (snd (post_inference env days now prune_now body s)) = gate_of s"
  "generations (snd (post_inference env days now prune_now body s)) = generations s"
  "status_of (store_of (snd (post_inference env days now prune_now body s))) = status_of (store_of s)"
  by (simp_all add: post_inference_def Let_def split: option.split json.split prod.split)

lemma switch_inv_cong:
  "gate_of s' = gate_of s \<Longrightarrow> generations s' = generations s \<Longrightarrow> status_of (store_of s') = status_of (store_of s) \<Longrightarrow>
   switch_inv rd s' = switch_inv rd s"
  by (simp add: switch_inv_def)

lemma switch_step_inv:
  assumes inv: "switch_inv rd s"
  shows "switch_inv rd (snd (if b then buffer_start s else buffer_stop s)) \<and>
    (buffer_flag (snd (if b then buffer_start s else buffer_stop s)) \<longleftrightarrow> b)"
proof -
  obtain d a where d: "state_load (state_file (gate_of s)) = Some d" "restored_anchor rd (state_file (gate_of s)) = Some a"
    using inv by (auto simp: switch_inv_def)
  show ?thesis
    using d rec_start_live[of "generations s"] rec_stop_dead[of "generations s"]
    by (auto simp: switch_inv_def buffer_start_def buffer_stop_def Let_def buffer_status_def set_buffer_active_def
        state_load_update[OF d(1)] restored_other[OF d(1)])
qed

lemma boot_inv:
  assumes inv: "switch_inv rd s"
  shows "\<exists>s'. boot rd now s = Some s' \<and> switch_inv rd s' \<and> buffer_flag s' = buffer_flag s"
proof -
  obtain d a where d: "state_load (state_file (gate_of s)) = Some d" "restored_anchor rd (state_file (gate_of s)) = Some a"
    "truthy (get_null d ''buffer_active'') = buffer_flag s"
    using inv by (auto simp: switch_inv_def)
  then show ?thesis
    using rec_start_live[of "[]"]
    by (auto simp: boot_def Let_def switch_inv_def buffer_status_def set_buffer_active_def initial_status_def)
qed

lemma service_step_inv: "switch_inv (rd_float env) s \<Longrightarrow> switch_inv (rd_float env) (service_step env cooldown days e s)"
proof (cases e)
  case (Inferred now prune_now body)
  assume "switch_inv (rd_float env) s"
  then show ?thesis by (simp add: Inferred switch_inv_cong[OF post_inference_frame])
next
  case (Boot now)
  assume "switch_inv (rd_float env) s"
  then show ?thesis using boot_inv[of "rd_float env" s now] by (auto simp: Boot)
qed (simp_all only: service_step.simps notify_inv switch_step_inv)

interpretation service_run: keeps "switch_inv (rd_float env)" "service_step env cooldown days"
  by unfold_locales (rule service_step_inv)

text \<open>
  The buffer switch survives: from a readable state file, over any sequence of
  notifications, switches and restarts, the status flag, the flag in the file and the
  recorder thread agree (the flag is set exactly while the last generation is not stopped),
  and a restart brings the container up with the flag it had.
\<close>

theorem buffer_switch_agrees:
  assumes "switch_inv (rd_float env) s"
  shows "let s' = fold (service_step env cooldown days) es s in
    (buffer_flag s' \<longleftrightarrow> generations s' \<noteq> [] \<and> \<not> gn_stop (last (generations s'))) \<and>
    (\<exists>s''. boot (rd_float env) now s' = Some s'' \<and> buffer_flag s'' = buffer_flag s') \<and>
    buffer_flag (service_step env cooldown days (Switch b) s') = b"
proof -
  have inv: "switch_inv (rd_float env) (fold (service_step env cooldown days) es s)"
    using assms by (rule service_run.run_keeps)
  show ?thesis
    using inv boot_inv[OF inv, of now] switch_step_inv[OF inv, of b] by (auto simp: Let_def switch_inv_def)
qed

section \<open>The listing and the counter\<close>

lemma listed_all: "listed cal utc None None None cs = Some (map (clip_view utc) cs)"
  by (induction cs) (simp_all add: text_matches_def date_matches_def)

lemma length_newest: "length (newest_first t) = length (filter playable (clips t))"
  by (simp add: newest_first_def)

text \<open>
  The listing and the counter show the same clips: without filters the listing gives
  exactly the playable files of the tree, newest first, each page the slice that was asked
  for, and as total the number \<open>/status\<close> serves.
\<close>

theorem clip_listing_matches_counter:
  assumes "tree_inv t"
  shows "list_clips cal utc None None None limit offset t =
      Inr (take limit (drop offset (map (clip_view utc) (newest_first t))), nat (counter t)) \<and>
    set (newest_first t) = {c \<in> set (clips t). playable c} \<and> sorted (rev (map cp_mtime (newest_first t)))"
  using assms
  by (simp add: list_clips_def with_dates_def normalize_date_query_def listed_all page_def tree_inv_def length_newest)
    (simp add: newest_first_def rev_map)

section \<open>Pages\<close>

lemma pages_concat: "length rows \<le> n * limit \<Longrightarrow> concat (map (\<lambda>i. fst (page limit (i * limit) rows)) [0..<n]) = rows"
proof -
  have "concat (map (\<lambda>i. fst (page limit (i * limit) rows)) [0..<n]) = take (n * limit) rows" for n
  proof (induction n)
    case (Suc n)
    have "Suc n * limit = n * limit + limit" by simp
    then show ?case using Suc by (simp only: take_add) (simp add: page_def)
  qed simp
  then show "length rows \<le> n * limit \<Longrightarrow> ?thesis" by simp
qed

lemma matching_events_ids:
  "distinct (map ev_id (events h)) \<Longrightarrow> sorted_wrt (\<lambda>r s. ev_id s < ev_id r) (matching_events cal q a b h)"
proof -
  assume d: "distinct (map ev_id (events h))"
  let ?rows = "sort_key ev_id (filter (\<lambda>r. like_clause q (\<lambda>x. x) (ev_trigger r) \<and> in_days cal a b (ev_created r)) (events h))"
  have "distinct (map ev_id (filter (\<lambda>r. like_clause q (\<lambda>x. x) (ev_trigger r) \<and> in_days cal a b (ev_created r)) (events h)))"
    using d by (rule distinct_map_filter)
  then have "distinct (map ev_id ?rows)" by (simp add: distinct_map)
  moreover have "sorted (map ev_id ?rows)" by simp
  ultimately have "sorted_wrt (<) (map ev_id ?rows)" by (simp only: strict_sorted_iff)
  then show ?thesis by (simp add: matching_events_def sorted_wrt_map sorted_wrt_rev)
qed

text \<open>
  Paging through the event history shows every matching row once: with valid dates, the
  pages of a client that asks for \<open>limit\<close> rows at a time are, one after the other, all rows
  that match the text and the days, newest first, and every page carries their number.
\<close>

theorem event_pages_cover:
  assumes "distinct (map ev_id (events h))"
    and "normalize_date_query cal ''date_from'' date_from = Inr a" "normalize_date_query cal ''date_to'' date_to = Inr b"
    and "length (events h) \<le> n * limit"
  shows "\<exists>pages. map (\<lambda>i. list_events cal q date_from date_to limit (i * limit) h) [0..<n] =
      map (\<lambda>p. Inr (p, length (concat pages))) pages \<and>
    set (concat pages) = {r \<in> set (events h). like_clause q (\<lambda>x. x) (ev_trigger r) \<and> in_days cal a b (ev_created r)} \<and>
    sorted_wrt (\<lambda>r s. ev_id s < ev_id r) (concat pages)"
proof (intro exI[of _ "map (\<lambda>i. fst (page limit (i * limit) (matching_events cal q a b h))) [0..<n]"] conjI)
  let ?rows = "matching_events cal q a b h"
  have "length ?rows \<le> n * limit"
    using assms(4) by (simp add: matching_events_def) (rule le_trans[OF length_filter_le])
  note all = pages_concat[OF this]
  show "map (\<lambda>i. list_events cal q date_from date_to limit (i * limit) h) [0..<n] =
      map (\<lambda>p. Inr (p, length (concat (map (\<lambda>i. fst (page limit (i * limit) ?rows)) [0..<n]))))
        (map (\<lambda>i. fst (page limit (i * limit) ?rows)) [0..<n])"
    unfolding all by (simp add: list_events_def with_dates_def assms(2,3) page_def)
  show "set (concat (map (\<lambda>i. fst (page limit (i * limit) ?rows)) [0..<n])) =
      {r \<in> set (events h). like_clause q (\<lambda>x. x) (ev_trigger r) \<and> in_days cal a b (ev_created r)}"
    unfolding all by (auto simp: matching_events_def)
  show "sorted_wrt (\<lambda>r s. ev_id s < ev_id r) (concat (map (\<lambda>i. fst (page limit (i * limit) ?rows)) [0..<n]))"
    unfolding all using assms(1) by (rule matching_events_ids)
qed

section \<open>Filtering by label\<close>

lemma like_self: "like q s \<Longrightarrow> like (p @ q) (p @ s)"
proof (induction p)
  case (Cons c p)
  have percent: "like r s \<Longrightarrow> like (CHR ''%'' # r) s" for r s by (cases s) auto
  show ?case
  proof (cases "c = CHR ''%''")
    case True
    then show ?thesis using Cons percent[of "p @ q" "p @ s"] by simp
  next
    case False
    then show ?thesis using Cons by simp
  qed
qed simp

lemma like_percent: "like (CHR ''%'' # p) s \<Longrightarrow> like (CHR ''%'' # p) (t @ s)"
  by (induction t) simp_all

lemma like_rest: "like ''%'' s"
  by (induction s) simp_all

lemma like_contains: "contains p s \<Longrightarrow> like (CHR ''%'' # p @ ''%'') s"
proof -
  assume "contains p s"
  then obtain t u where s: "s = t @ p @ u" by (auto simp: contains_sublist sublist_def)
  have "like (p @ ''%'') (p @ u)" by (rule like_self) (rule like_rest)
  then have "like (CHR ''%'' # p @ ''%'') (p @ u)" by (cases "p @ u") auto
  then show ?thesis unfolding s by (rule like_percent)
qed

lemma sublist_after: "sublist x y \<Longrightarrow> sublist x (p @ y)"
  by (metis append_assoc sublist_def)

lemma label_in_text: "l \<in> set ls \<Longrightarrow> contains (dumps_str False l) (dumps rp False (JList (map JStr ls)))"
proof -
  have "l \<in> set ls \<Longrightarrow> sublist (dumps_str False l) (dumps_items rp False (map JStr ls))"
  proof (induction ls)
    case (Cons a ls)
    show ?case
    proof (cases "l = a")
      case True
      then show ?thesis by (cases ls) (auto simp: sublist_appendI)
    next
      case False
      then obtain b bs where ls: "ls = b # bs" using Cons by (cases ls) auto
      then have "sublist (dumps_str False l) (dumps_items rp False (map JStr ls))" using Cons False by simp
      then show ?thesis
        using sublist_after[of "dumps_str False l" "dumps_items rp False (map JStr ls)" "dumps_str False a @ '', ''"] by (simp add: ls)
    qed
  qed simp
  moreover have "sublist x y \<Longrightarrow> sublist x (p @ y @ q)" for x y p q :: string
    by (metis append_assoc sublist_def)
  from this[of _ _ "''[''" "'']''"] have "sublist x y \<Longrightarrow> sublist x (CHR ''['' # y @ '']'')" for x y by simp
  ultimately show "l \<in> set ls \<Longrightarrow> ?thesis" by (simp add: contains_sublist)
qed

lemma sort_key_snoc: "(\<And>y. y \<in> set xs \<Longrightarrow> f y \<le> f x) \<Longrightarrow> sort_key f (xs @ [x]) = sort_key f xs @ [x]"
  for f :: "'r \<Rightarrow> nat"
proof (induction xs)
  case (Cons a xs)
  have "insort_key f a (zs @ [x]) = insort_key f a zs @ [x]" if "f a \<le> f x" for zs
    using that by (induction zs) auto
  then show ?case using Cons by simp
qed simp

lemma stored_labels_dumps [simp]: "stored_labels (dumps rp False (JList (map JStr ls))) = JList (map JStr ls)"
proof -
  have "plain_json (JList (map JStr ls))" by (induction ls) simp_all
  then show ?thesis by (simp add: stored_labels_def loads_dumps del: dumps.simps)
qed

lemma label_clause_dumps:
  "l \<in> set ls \<Longrightarrow> like_clause (Some l) (dumps_str False) (dumps rp False (JList (map JStr ls)))"
  using like_contains[OF label_in_text] by (simp add: like_clause_def)

text \<open>
  A recorded inference is found under each of its labels: after a notification with a
  text and a list of labels, the query for any of these labels shows the new row first, with
  exactly the text and the labels (the strings of the list) that were sent.
\<close>

theorem recorded_inference_found:
  assumes "get_null payload ''vlm_text'' = JStr vlm" "get_null payload ''labels'' = JList labels"
    and "l \<in> set (label_list (JList labels))" "0 < limit"
    and recent: "prune_now - pruned_at s < 3600" and ids: "\<forall>r\<in>set (inferences (history_of (store_of s))). inf_id r \<le> inference_seq (history_of (store_of s))"
  shows "\<exists>r rest n.
    list_inferences cal (Some l) None None limit 0
      (history_of (store_of (snd (post_inference env days now prune_now (Some (JObj payload)) s)))) =
      Inr ((r, JList (map JStr (label_list (JList labels)))) # rest, n) \<and>
    inf_text r = vlm \<and> inf_id r = Suc (inference_seq (history_of (store_of s)))"
proof -
  let ?h = "history_of (store_of s)"
  let ?h' = "history_of (store_of (snd (post_inference env days now prune_now (Some (JObj payload)) s)))"
  let ?ls = "label_list (JList labels)"
  let ?keep = "\<lambda>r. like_clause (Some l) (dumps_str False) (inf_labels r) \<and> in_days cal None None (inf_created r)"
  obtain r where new: "inferences ?h' = inferences ?h @ [r]" "inf_text r = vlm"
    "inf_labels r = dumps (\<lambda>_. []) False (JList (map JStr ?ls))" "inf_id r = Suc (inference_seq ?h)"
    using recent by (simp add: post_inference_def assms(1,2) insert_inference_def prune_inferences_def Let_def)
  have "?keep r" using label_clause_dumps[OF assms(3)] by (simp add: new(3) in_days_def)
  then have f: "filter ?keep (inferences ?h') = filter ?keep (inferences ?h) @ [r]" by (simp add: new(1))
  have "sort_key inf_id (filter ?keep (inferences ?h) @ [r]) = sort_key inf_id (filter ?keep (inferences ?h)) @ [r]"
    using ids new(4) by (intro sort_key_snoc) auto
  then have "matching_inferences cal (Some l) None None ?h' = r # rev (sort_key inf_id (filter ?keep (inferences ?h)))"
    unfolding matching_inferences_def f by simp
  moreover have "stored_labels (inf_labels r) = JList (map JStr ?ls)" unfolding new(3) by (rule stored_labels_dumps)
  ultimately show ?thesis
    using assms(4) new(2,4) by (cases limit) (auto simp: list_inferences_def with_dates_def normalize_date_query_def page_def)
qed

text \<open>
  The label filter is not exact: LIKE reads \<open>_\<close> and \<open>%\<close> in the label as wildcards and
  ignores the case of ASCII letters, so the query for \<open>a_b\<close> returns a row labelled \<open>AxB\<close> only.
\<close>

theorem label_filter_overmatches:
  assumes "inferences h = [r]" "inf_labels r = dumps rp False (JList [JStr ''AxB''])"
  shows "list_inferences cal (Some ''a_b'') None None (Suc n) 0 h = Inr ([(r, JList [JStr ''AxB''])], 1)"
proof -
  have "like_clause (Some ''a_b'') (dumps_str False) (inf_labels r)"
    unfolding assms(2) by code_simp
  moreover have "stored_labels (inf_labels r) = JList [JStr ''AxB'']"
    unfolding assms(2) using stored_labels_dumps[of rp "[''AxB'']"] by simp
  ultimately show ?thesis
    by (simp add: list_inferences_def with_dates_def normalize_date_query_def matching_inferences_def assms(1) in_days_def page_def)
qed

section \<open>What the summary counts\<close>

definition label_count :: "string \<Rightarrow> (string \<times> nat) list \<Rightarrow> nat" where
  "label_count l cs = (case map_of cs l of Some n \<Rightarrow> n | None \<Rightarrow> 0)"

definition row_labels :: "string \<times> string \<Rightarrow> string list" where
  "row_labels r = (case summary_labels (stored_labels (snd r)) of Some ls \<Rightarrow> ls | None \<Rightarrow> [])"

definition bucket_rows :: "calendar \<Rightarrow> int \<Rightarrow> int \<times> int \<Rightarrow> (string \<times> string) list \<Rightarrow> (string \<times> string) list" where
  "bucket_rows cal step k rows = filter (\<lambda>r. map_option (row_bucket cal step) (parse_utc cal (fst r)) = Some k) rows"

lemma count_label_count: "label_count l (count_label m cs) = label_count l cs + (if l = m then 1 else 0)"
  by (simp add: label_count_def count_label_def update_conv' split: option.split)

lemma count_labels_count: "label_count l (fold count_label ls cs) = label_count l cs + count_list ls l"
  by (induction ls arbitrary: cs) (simp_all add: count_label_count)

lemma bucket_rows_Cons:
  "parse_utc cal created = Some t \<Longrightarrow> bucket_rows cal step k ((created, labels) # rows) =
     (if row_bucket cal step t = k then (created, labels) # bucket_rows cal step k rows else bucket_rows cal step k rows)"
  by (simp add: bucket_rows_def)

text \<open>What a run over the rows adds to the bucket \<open>b\<close>.\<close>

definition counted :: "calendar \<Rightarrow> int \<Rightarrow> (string \<times> string) list \<Rightarrow> bucket \<Rightarrow> bucket \<Rightarrow> bool" where
  "counted cal step rows b b' \<longleftrightarrow> bk_start b' = bk_start b \<and>
     bk_total b' = bk_total b + length (bucket_rows cal step (bk_start b) rows) \<and>
     (\<forall>l. label_count l (bk_counts b') = label_count l (bk_counts b) +
        (\<Sum>r\<leftarrow>bucket_rows cal step (bk_start b) rows. count_list (row_labels r) l))"

lemma add_rows_counted:
  "add_rows cal step rows bs = Some bs' \<Longrightarrow> list_all2 (counted cal step rows) bs bs'"
proof (induction cal step rows bs rule: add_rows.induct)
  case (1 cal step bs)
  then show ?case by (simp add: list_all2_same counted_def bucket_rows_def)
next
  case (2 cal step created labels rows bs)
  obtain t where t: "parse_utc cal created = Some t" using "2.prems" by (auto split: option.splits)
  obtain bs1 where bs1: "add_row cal step t labels bs = Some bs1" using "2.prems" t by (auto split: option.splits)
  have rest: "list_all2 (counted cal step rows) bs1 bs'" using 2 t bs1 by simp
  let ?k = "row_bucket cal step t"
  have first: "list_all2 (\<lambda>b b1. b1 = (if bk_start b = ?k then count_row (row_labels (created, labels)) b else b)) bs bs1"
  proof (cases "?k \<in> bk_start ` set bs")
    case True
    then obtain ls where ls: "summary_labels (stored_labels labels) = Some ls"
      "bs1 = map (\<lambda>b. if bk_start b = ?k then count_row ls b else b) bs"
      using bs1 by (auto simp: add_row_def Let_def)
    then show ?thesis by (simp add: list_all2_map2 list_all2_same row_labels_def)
  next
    case False
    then have "bs1 = bs" using bs1 by (simp add: add_row_def Let_def)
    moreover have "bk_start b \<noteq> ?k" if "b \<in> set bs" for b using that False by (metis imageI)
    ultimately show ?thesis by (simp add: list_all2_same)
  qed
  have step: "counted cal step ((created, labels) # rows) b b'"
    if "b1 = (if bk_start b = ?k then count_row (row_labels (created, labels)) b else b)" "counted cal step rows b1 b'" for b b1 b'
    using that by (cases "bk_start b = ?k")
      (auto simp: counted_def count_row_def bucket_rows_Cons[OF t] count_labels_count)
  show ?case by (rule list_all2_trans[OF _ first rest]) (rule step)
qed

lemma add_rows_total:
  "(\<And>r. r \<in> set rows \<Longrightarrow> parse_utc cal (fst r) \<noteq> None \<and> summary_labels (stored_labels (snd r)) \<noteq> None) \<Longrightarrow>
   \<exists>bs'. add_rows cal step rows bs = Some bs'"
proof (induction rows arbitrary: bs)
  case (Cons r rows)
  obtain created labels where r: "r = (created, labels)" by (cases r)
  obtain t ls where t: "parse_utc cal created = Some t" "summary_labels (stored_labels labels) = Some ls"
    using Cons.prems[of r] r by auto
  have "\<exists>bs1. add_row cal step t labels bs = Some bs1" using t by (simp add: add_row_def Let_def)
  then obtain bs1 where "add_row cal step t labels bs = Some bs1" by blast
  then show ?case using Cons r t by simp
qed simp

lemma bucket_starts_set:
  "0 < step \<Longrightarrow> s \<in> set (bucket_starts step cur hi) \<longleftrightarrow> cur \<le> s \<and> s < hi \<and> step dvd s - cur"
proof (induction step cur hi rule: bucket_starts.induct)
  case (1 step cur hi)
  show ?case
  proof (cases "cur < hi")
    case True
    have "s = cur \<or> cur + step \<le> s \<and> s < hi \<and> step dvd s - (cur + step) \<longleftrightarrow> cur \<le> s \<and> s < hi \<and> step dvd s - cur"
    proof -
      have "step dvd (s - cur) - step \<longleftrightarrow> step dvd s - cur" using dvd_add_right_iff[of step "- step" "s - cur"] by simp
      then have d: "step dvd s - (cur + step) \<longleftrightarrow> step dvd s - cur" by (simp only: diff_diff_eq)
      have "cur \<le> s \<Longrightarrow> step dvd s - cur \<Longrightarrow> s \<noteq> cur \<Longrightarrow> cur + step \<le> s"
        using zdvd_imp_le[of step "s - cur"] by linarith
      then show ?thesis using d True "1.prems" by auto
    qed
    then show ?thesis using 1 True by (subst bucket_starts.simps) simp
  next
    case False
    then show ?thesis by (subst bucket_starts.simps) simp
  qed
qed

lemma bucket_starts_distinct: "distinct (bucket_starts step cur hi)"
proof (induction step cur hi rule: bucket_starts.induct)
  case (1 step cur hi)
  show ?case
  proof (cases "0 < step \<and> cur < hi")
    case True
    then have "cur \<notin> set (bucket_starts step (cur + step) hi)" by (simp add: bucket_starts_set)
    then show ?thesis using 1 True by (subst bucket_starts.simps) simp
  next
    case False
    then show ?thesis by (subst bucket_starts.simps) (simp only: if_False distinct.simps)
  qed
qed

lemma sum_by_key:
  "distinct ks \<Longrightarrow> (\<And>r. r \<in> set rows \<Longrightarrow> key r \<in> Some ` set ks) \<Longrightarrow>
   (\<Sum>k\<leftarrow>ks. length (filter (\<lambda>r. key r = Some k) rows)) = length rows"
proof (induction rows)
  case (Cons r rows)
  obtain k where k: "k \<in> set ks" "key r = Some k" using Cons.prems(2)[of r] by auto
  have one: "distinct ks \<Longrightarrow> k \<in> set ks \<Longrightarrow> (\<Sum>j\<leftarrow>ks. if k = j then 1 else 0) = (1 :: nat)"
    by (induction ks) (auto simp: sum_list_0)
  have "(\<Sum>j\<leftarrow>ks. length (filter (\<lambda>r. key r = Some j) (r # rows))) =
      (\<Sum>j\<leftarrow>ks. length (filter (\<lambda>r. key r = Some j) rows) + (if k = j then 1 else 0))"
    by (rule arg_cong[where f = sum_list]) (simp add: k(2))
  also have "\<dots> = (\<Sum>j\<leftarrow>ks. length (filter (\<lambda>r. key r = Some j) rows)) + 1"
    using one[OF Cons.prems(1) k(1)] by (simp add: sum_list_addf)
  finally show ?case using Cons by simp
qed simp

lemma floor_in_starts:
  assumes step: "0 < step" "step dvd lo + off" "step dvd hi - lo"
  shows "t - (t + off) mod step \<in> set (bucket_starts step lo hi) \<longleftrightarrow> lo \<le> t \<and> t < hi"
proof -
  let ?s = "t - (t + off) mod step"
  have m: "0 \<le> (t + off) mod step" "(t + off) mod step < step" using step(1) by simp_all
  have "step dvd ?s + off" using minus_mod_eq_div_mult[of "t + off" step] by (simp add: algebra_simps)
  then have d: "step dvd ?s - lo" using dvd_diff[OF _ step(2)] by fastforce
  have "lo \<le> t \<Longrightarrow> lo \<le> ?s"
  proof (rule ccontr)
    assume a: "lo \<le> t" "\<not> lo \<le> ?s"
    have "step dvd lo - ?s" using d dvd_diff_commute by blast
    then have "step \<le> lo - ?s" using a zdvd_imp_le[of step "lo - ?s"] by linarith
    then show False using a m by linarith
  qed
  moreover have "?s < hi \<Longrightarrow> t < hi"
  proof (rule ccontr)
    assume a: "?s < hi" "\<not> t < hi"
    have "step dvd (hi - lo) - (?s - lo)" using d step(3) by (rule dvd_diff[rotated])
    moreover have "(hi - lo) - (?s - lo) = hi - ?s" by simp
    ultimately have "step dvd hi - ?s" by (simp only:)
    then have "step \<le> hi - ?s" using a zdvd_imp_le[of step "hi - ?s"] by linarith
    then show False using a m by linarith
  qed
  ultimately show ?thesis using d m by (auto simp: bucket_starts_set[OF step(1)])
qed

definition step_of :: "string \<Rightarrow> int" where
  "step_of b = (if b = ''hour'' then 3600 else 86400)"

lemma summary_run:
  assumes "b = ''hour'' \<or> b = ''day''" "norm_date cal d1 = Some x" "norm_date cal d2 = Some y"
    and "midnight cal x < midnight cal y + 86400"
  shows "summary cal d1 d2 b h =
    (case add_rows cal (step_of b) (rows_of_days cal x y h)
            (empty_buckets (utc_offset cal (midnight cal x)) (step_of b) (midnight cal x) (midnight cal y + 86400)) of
       None \<Rightarrow> Inl internal_error | Some bs \<Rightarrow> Inr bs)"
  using assms by (auto simp: summary_def with_dates_def normalize_date_query_def Let_def step_of_def)

lemma summary_buckets:
  assumes "add_rows cal step rows (empty_buckets off step lo hi) = Some bs"
  shows "map bk_start bs = map (\<lambda>s. (s + off, off)) (bucket_starts step lo hi)"
    "b \<in> set bs \<Longrightarrow> bk_total b = length (bucket_rows cal step (bk_start b) rows)"
    "b \<in> set bs \<Longrightarrow> label_count l (bk_counts b) = (\<Sum>r\<leftarrow>bucket_rows cal step (bk_start b) rows. count_list (row_labels r) l)"
proof -
  have all: "list_all2 (counted cal step rows) (empty_buckets off step lo hi) bs"
    using assms by (rule add_rows_counted)
  then have "map bk_start bs = map bk_start (empty_buckets off step lo hi)"
    by (induction rule: list_all2_induct) (simp_all add: counted_def)
  then show "map bk_start bs = map (\<lambda>s. (s + off, off)) (bucket_starts step lo hi)" by (simp add: empty_buckets_def)
  fix b assume "b \<in> set bs"
  then obtain i where i: "i < length bs" "bs ! i = b" by (auto simp: in_set_conv_nth)
  then have c: "counted cal step rows (empty_buckets off step lo hi ! i) b" using all by (auto simp: list_all2_conv_all_nth)
  have "i < length (bucket_starts step lo hi)" using i(1) list_all2_lengthD[OF all] by (simp add: empty_buckets_def)
  then have "bk_total (empty_buckets off step lo hi ! i) = 0" "bk_counts (empty_buckets off step lo hi ! i) = []"
    by (simp_all add: empty_buckets_def)
  then show "bk_total b = length (bucket_rows cal step (bk_start b) rows)"
    "label_count l (bk_counts b) = (\<Sum>r\<leftarrow>bucket_rows cal step (bk_start b) rows. count_list (row_labels r) l)"
    using c by (simp_all add: counted_def label_count_def)
qed

text \<open>
  The summary counts every inference once: when the range starts at local midnights and
  the offset of the zone does not change inside it, every readable row of the days lands in
  exactly one bucket, the totals add up to the number of rows, and a bucket counts, for every
  label, its occurrences in the rows that fall into it.
\<close>

theorem summary_counts_every_row:
  assumes "b = ''hour'' \<or> b = ''day''" "norm_date cal d1 = Some x" "norm_date cal d2 = Some y"
    and range: "midnight cal x = lo" "midnight cal y + 86400 = hi" "lo < hi" "86400 dvd hi - lo"
      "86400 dvd lo + off" "\<forall>t. lo \<le> t \<and> t < hi \<longrightarrow> utc_offset cal t = off"
    and rows: "\<forall>r\<in>set (rows_of_days cal x y h). \<exists>t. parse_utc cal (fst r) = Some t \<and> lo \<le> t \<and> t < hi \<and>
      summary_labels (stored_labels (snd r)) \<noteq> None"
  shows "\<exists>bs. summary cal d1 d2 b h = Inr bs \<and>
    sum_list (map bk_total bs) = length (rows_of_days cal x y h) \<and>
    (\<forall>k\<in>set bs. \<forall>l. label_count l (bk_counts k) =
       (\<Sum>r\<leftarrow>bucket_rows cal (step_of b) (bk_start k) (rows_of_days cal x y h). count_list (row_labels r) l))"
proof -
  let ?rows = "rows_of_days cal x y h" and ?step = "step_of b"
  have off: "utc_offset cal lo = off" using range by auto
  have step: "0 < ?step" "?step dvd lo + off" "?step dvd hi - lo"
    using range dvd_trans[of "3600 :: int" 86400] by (auto simp: step_of_def)
  have "\<exists>bs. add_rows cal ?step ?rows (empty_buckets off ?step lo hi) = Some bs"
    using rows by (intro add_rows_total) fastforce
  then obtain bs where bs: "add_rows cal ?step ?rows (empty_buckets off ?step lo hi) = Some bs" by blast
  have run: "summary cal d1 d2 b h = Inr bs"
    using summary_run[OF assms(1-3)] range(1-3) by (simp add: off bs)
  have keys: "distinct (map bk_start bs)"
    unfolding summary_buckets(1)[OF bs] by (simp add: distinct_map bucket_starts_distinct inj_on_def)
  have row_in: "map_option (row_bucket cal ?step) (parse_utc cal (fst r)) \<in> Some ` set (map bk_start bs)"
    if r: "r \<in> set ?rows" for r
  proof -
    obtain t where t: "parse_utc cal (fst r) = Some t" "lo \<le> t" "t < hi" using bspec[OF rows r] by blast
    then have "t - (t + off) mod ?step \<in> set (bucket_starts ?step lo hi)" using floor_in_starts[OF step] by blast
    then have k: "(t - (t + off) mod ?step + off, off) \<in> set (map bk_start bs)"
      unfolding summary_buckets(1)[OF bs] set_map by (rule imageI)
    have "row_bucket cal ?step t = (t - (t + off) mod ?step + off, off)"
      using range(6) t by (simp add: row_bucket_def Let_def)
    then have eq: "map_option (row_bucket cal ?step) (parse_utc cal (fst r)) = Some (t - (t + off) mod ?step + off, off)"
      by (simp only: t(1) option.map)
    show ?thesis unfolding eq using k by (rule imageI)
  qed
  have "map bk_total bs = map (\<lambda>k. length (filter (\<lambda>r. map_option (row_bucket cal ?step) (parse_utc cal (fst r)) = Some k) ?rows))
      (map bk_start bs)"
    using summary_buckets(2)[OF bs] by (simp add: bucket_rows_def)
  moreover have "(\<Sum>k\<leftarrow>map bk_start bs. length (filter (\<lambda>r. map_option (row_bucket cal ?step) (parse_utc cal (fst r)) = Some k) ?rows))
      = length ?rows"
    by (rule sum_by_key[OF keys]) (rule row_in)
  ultimately have "sum_list (map bk_total bs) = length ?rows" by (simp only:)
  then show ?thesis using run summary_buckets(3)[OF bs] by blast
qed

text \<open>
  A change of the offset loses rows: a row that falls into the range of days but has
  another offset than the first midnight of the range is in no bucket, so it is missing from
  every total and count.
\<close>

theorem summary_drops_rows_after_offset_change:
  assumes "b = ''hour'' \<or> b = ''day''" "norm_date cal d1 = Some x" "norm_date cal d2 = Some y"
    and "midnight cal x < midnight cal y + 86400"
    and "rows_of_days cal x y h = [(created, labels)]" "parse_utc cal created = Some t"
    and "utc_offset cal t \<noteq> utc_offset cal (midnight cal x)"
  shows "\<exists>bs. summary cal d1 d2 b h = Inr bs \<and> (\<forall>k\<in>set bs. bk_total k = 0 \<and> bk_counts k = [])"
proof -
  let ?off = "utc_offset cal (midnight cal x)"
  let ?bs = "empty_buckets ?off (step_of b) (midnight cal x) (midnight cal y + 86400)"
  have "row_bucket cal (step_of b) t \<notin> bk_start ` set ?bs"
    using assms(7) by (auto simp: row_bucket_def Let_def empty_buckets_def)
  then have "add_rows cal (step_of b) (rows_of_days cal x y h) ?bs = Some ?bs"
    by (simp add: assms(5,6) add_row_def Let_def)
  then have "summary cal d1 d2 b h = Inr ?bs" using summary_run[OF assms(1-4)] by simp
  then show ?thesis by (auto simp: empty_buckets_def)
qed

section \<open>Concrete histories\<close>

definition sample_service :: service where
  "sample_service = \<lparr>gate_of = \<lparr>anchor = 0, state_file = Missing\<rparr>, store_of = sample_recorder, pruned_at = 0,
     generations = [], workers = []\<rparr>"

lemma sample_switch_inv: "switch_inv rd sample_service"
  by (simp add: switch_inv_def sample_service_def state_load_def restored_anchor_def get_null_def sample_recorder_def
      initial_status_def)

theorem buffer_switch_agrees_witness:
  "buffer_flag (service_step sample_env 30 90 (Switch True)
     (fold (service_step sample_env 30 90) [Switch True, Notified 50 (Some (JObj [])), Boot 60, Switch False] sample_service))"
  using buffer_switch_agrees[OF sample_switch_inv, of sample_env 30 90
      "[Switch True, Notified 50 (Some (JObj [])), Boot 60, Switch False]" 70 True]
  by (simp only: Let_def)

definition sample_calendar :: "(int \<Rightarrow> int) \<Rightarrow> calendar" where
  "sample_calendar off = \<lparr>norm_date = Some, day_start = (\<lambda>_. ''0''), day_end = (\<lambda>_. ''9''), local_date = (\<lambda>_. ''d''),
     parse_utc = (\<lambda>s. Some (if s = ''5'' then 7500 else 100)), midnight = (\<lambda>d. 0), utc_offset = off\<rparr>"

theorem clip_listing_matches_counter_witness:
  "snd (projr (list_clips (sample_calendar (\<lambda>_. 0)) (\<lambda>_. []) None None None 1 0 sample_tree)) = 2"
  using clip_listing_matches_counter[OF sample_tree_inv, of "sample_calendar (\<lambda>_. 0)" "\<lambda>_. []" 1 0]
  by (simp add: sample_tree_def)

definition sample_event :: "nat \<Rightarrow> string \<Rightarrow> event_row" where
  "sample_event i t = \<lparr>ev_id = i, ev_trigger = t, ev_clip = None, ev_created = ''1''\<rparr>"

definition sample_history :: history where
  "sample_history = \<lparr>events = [sample_event 1 ''cat'', sample_event 2 ''fire'', sample_event 3 ''cat,dog''], event_seq = 3,
     inferences = [\<lparr>inf_id = 1, inf_created = ''5'', inf_text = ''t'', inf_labels = dumps (\<lambda>_. []) False (JList [JStr ''cat'']),
        inf_preset = [], inf_model = [], inf_elapsed_ms = None\<rparr>], inference_seq = 1\<rparr>"

theorem event_pages_cover_witness:
  "\<exists>pages. map (\<lambda>i. list_events (sample_calendar (\<lambda>_. 0)) (Some ''cat'') None None 1 (i * 1) sample_history) [0..<3] =
     map (\<lambda>p. Inr (p, length (concat pages))) pages \<and> sorted_wrt (\<lambda>r s. ev_id s < ev_id r) (concat pages)"
proof -
  have "distinct (map ev_id (events sample_history))" "length (events sample_history) \<le> 3 * 1"
    "normalize_date_query (sample_calendar (\<lambda>_. 0)) ''date_from'' None = Inr None"
    "normalize_date_query (sample_calendar (\<lambda>_. 0)) ''date_to'' None = Inr None"
    by (simp_all add: sample_history_def sample_event_def normalize_date_query_def)
  from event_pages_cover[OF this(1,3,4,2), of "Some ''cat''"] show ?thesis by blast
qed

theorem recorded_inference_found_witness:
  "\<exists>r rest n. list_inferences (sample_calendar (\<lambda>_. 0)) (Some ''dog'') None None 5 0
     (history_of (store_of (snd (post_inference sample_env 90 10 10
        (Some (JObj [(''vlm_text'', JStr ''a dog''), (''labels'', JList [JStr ''cat'', JInt 3, JStr ''dog''])])) sample_service)))) =
     Inr ((r, JList [JStr ''cat'', JStr ''dog'']) # rest, n) \<and> inf_text r = ''a dog''"
proof -
  let ?p = "[(''vlm_text'', JStr ''a dog''), (''labels'', JList [JStr ''cat'', JInt 3, JStr ''dog''])]"
  have "get_null ?p ''vlm_text'' = JStr ''a dog''" "get_null ?p ''labels'' = JList [JStr ''cat'', JInt 3, JStr ''dog'']"
    "''dog'' \<in> set (label_list (JList [JStr ''cat'', JInt 3, JStr ''dog'']))" "(0 :: nat) < 5"
    "(10 :: real) - pruned_at sample_service < 3600"
    "\<forall>r\<in>set (inferences (history_of (store_of sample_service))). inf_id r \<le> inference_seq (history_of (store_of sample_service))"
    by (simp_all add: get_null_def label_list_def sample_service_def sample_recorder_def)
  from recorded_inference_found[OF this] show ?thesis by (simp add: label_list_def) blast
qed

theorem label_filter_overmatches_witness:
  "\<exists>r. list_inferences (sample_calendar (\<lambda>_. 0)) (Some ''a_b'') None None (Suc 0) 0
     (sample_history\<lparr>inferences := [r]\<rparr>) = Inr ([(r, JList [JStr ''AxB''])], 1)"
proof -
  let ?r = "\<lparr>inf_id = 1, inf_created = ''5'', inf_text = ''t'', inf_labels = dumps (\<lambda>_. []) False (JList [JStr ''AxB'']),
        inf_preset = [], inf_model = [], inf_elapsed_ms = None\<rparr>"
  have "inferences (sample_history\<lparr>inferences := [?r]\<rparr>) = [?r]"
    "inf_labels ?r = dumps (\<lambda>_. []) False (JList [JStr ''AxB''])" by simp_all
  from label_filter_overmatches[OF this] show ?thesis by blast
qed

lemma sample_rows: "rows_of_days (sample_calendar off) ''a'' ''a'' sample_history =
    [(''5'', dumps (\<lambda>_. []) False (JList (map JStr [''cat''])))]"
  by (simp add: rows_of_days_def sample_calendar_def sample_history_def in_days_def ord_def)

theorem summary_counts_every_row_witness:
  "\<exists>bs. summary (sample_calendar (\<lambda>_. 0)) ''a'' ''a'' ''hour'' sample_history = Inr bs \<and> sum_list (map bk_total bs) = 1"
proof -
  let ?cal = "sample_calendar (\<lambda>_. 0)"
  have "\<forall>r\<in>set (rows_of_days ?cal ''a'' ''a'' sample_history). \<exists>t. parse_utc ?cal (fst r) = Some t \<and> 0 \<le> t \<and> t < 86400 \<and>
      summary_labels (stored_labels (snd r)) \<noteq> None"
    unfolding sample_rows
    by (simp del: dumps.simps list.map add: summary_labels_def) (simp add: sample_calendar_def)
  from summary_counts_every_row[OF _ _ _ _ _ _ _ _ _ this, of "''hour''" "''a''" "''a''" 0]
  show ?thesis unfolding sample_rows by (auto simp: sample_calendar_def)
qed

theorem summary_drops_rows_after_offset_change_witness:
  "\<exists>bs. summary (sample_calendar (\<lambda>t. if t < 7200 then 0 else 3600)) ''a'' ''a'' ''hour'' sample_history = Inr bs \<and>
     (\<forall>k\<in>set bs. bk_total k = 0)"
proof -
  let ?cal = "sample_calendar (\<lambda>t. if t < 7200 then 0 else 3600)"
  have "norm_date ?cal ''a'' = Some ''a''" "midnight ?cal ''a'' < midnight ?cal ''a'' + 86400" "parse_utc ?cal ''5'' = Some 7500"
    "utc_offset ?cal 7500 \<noteq> utc_offset ?cal (midnight ?cal ''a'')"
    by (simp_all add: sample_calendar_def)
  from summary_drops_rows_after_offset_change[OF _ this(1,1,2) sample_rows this(3,4), of "''hour''"]
  show ?thesis by blast
qed

end
