(* ===== verification/Analyzer_Notify.thy ===== *)
theory Analyzer_Notify
  imports Analyzer_Worker Analyzer_Server Recorder_History
begin

text \<open>
  The notifications of the analyzer (\<open>analyzer/notify.py\<close>) together with the recorder that
  receives them: what a judgment becomes in the recorder's tables. The payload travels as
  the dict itself; the JSON text in between is the round trip of \<open>Py_Json\<close>.
\<close>

section \<open>Payloads\<close>

definition event_payload :: "string list \<Rightarrow> string \<Rightarrow> seconds \<Rightarrow> seconds \<Rightarrow> seconds \<Rightarrow> int \<Rightarrow> dict" where
  "event_payload keywords vlm_text event_time last_frame_time inference_started_at elapsed_ms =
     [(''keywords'', JList (map JStr keywords)), (''vlm_text'', JStr vlm_text), (''event_time'', JFloat event_time),
      (''last_frame_time'', JFloat last_frame_time), (''inference_started_at'', JFloat inference_started_at),
      (''inference_elapsed_ms'', JInt elapsed_ms)]"

definition inference_payload :: "seconds \<Rightarrow> string \<Rightarrow> string list \<Rightarrow> string \<Rightarrow> string \<Rightarrow> int \<Rightarrow> dict" where
  "inference_payload judged_at vlm_text labels preset model elapsed_ms =
     [(''judged_at'', JFloat judged_at), (''vlm_text'', JStr vlm_text), (''labels'', JList (map JStr labels)),
      (''preset'', JStr preset), (''model'', JStr model), (''inference_elapsed_ms'', JInt elapsed_ms)]"

lemma event_payload_fields:
  "get_null (event_payload ks raw t f st ms) ''keywords'' = JList (map JStr ks)"
  "get_null (event_payload ks raw t f st ms) ''event_time'' = JFloat t"
  by (simp_all add: event_payload_def get_null_def)

lemma iter_map_JStr: "event_keywords rp (event_payload ks raw t f st ms) = Some ks"
  by (cases ks) (simp_all add: event_keywords_def event_payload_fields o_def)

lemma event_payload_clock: "t \<noteq> 0 \<Longrightarrow> event_clock rd now (event_payload ks raw t f st ms) = Some t"
  by (simp add: event_clock_def event_payload_fields)

section \<open>An event reaches the history\<close>

text \<open>
  C4. From judgment to history row. When a round of the worker finds one of its keywords in the
  text (keywords as \<open>/prompt\<close> stores them, without commas), one of the notices it sends is
  an event notice whose payload the recorder's gate lets through exactly when the cooldown has
  passed, and whose processing appends one row with the next id; splitting the trigger of that
  row at its commas gives back exactly the keywords that occur in the text.
\<close>

theorem event_row_names_the_keywords:
  assumes "begin_inference minutes tm gap n w = (Some j, w1)" and "active (meanwhile (wk_plant w1))"
    and "list_all keyword_ok (ap_triggers (wk_app w))" and "list_ex (\<lambda>k. contains k (py_lower raw)) (ap_triggers (wk_app w))"
    and "0 < tm' 1" and "state_load (state_file g) = Some d"
  shows "\<exists>hits f st ms clip kept.
    hits = filter (\<lambda>k. contains k (py_lower raw)) (ap_triggers (wk_app w)) \<and>
    EventNotice hits raw (tm' 1) f st ms \<in> set (wk_sent (finish_inference tm' j (Inr raw) (w1\<lparr>wk_plant := meanwhile (wk_plant w1)\<rparr>))) \<and>
    fst (accept_event rd cooldown now (event_payload hits raw (tm' 1) f st ms) g) = Inr (cooldown \<le> tm' 1 - anchor g) \<and>
    events (history_of (process_event env now ca1 ca2 (event_payload hits raw (tm' 1) f st ms) r)) =
      kept @ [\<lparr>ev_id = Suc (event_seq (history_of r)), ev_trigger = join_with (CHR '','') hits, ev_clip = clip,
               ev_created = utc_text env (tm' 1)\<rparr>] \<and>
    split_on (CHR '','') (join_with (CHR '','') hits) = hits"
proof -
  define hits where "hits = filter (\<lambda>k. contains k (py_lower raw)) (ap_triggers (wk_app w))"
  let ?f = "jb_last_frame j" and ?st = "jb_started j" and ?ms = "to_ms (tm' 0 - jb_started j)"
  let ?p = "event_payload hits raw (tm' 1) ?f ?st ?ms"
  have ne: "hits \<noteq> []" using assms(4) by (auto simp: hits_def list_ex_iff filter_empty_conv)
  have m: "matched_keywords (jb_triggers j) raw = hits"
    using begin_settings[OF assms(1)] by (simp add: matched_keywords_def hits_def)
  have sent: "EventNotice hits raw (tm' 1) ?f ?st ?ms \<in> set (wk_sent (finish_inference tm' j (Inr raw) (w1\<lparr>wk_plant := meanwhile (wk_plant w1)\<rparr>)))"
    using assms(2) ne by (simp add: finish_inference_def Let_def Analyzer_Worker.publish_def m)
  have t: "tm' 1 \<noteq> 0" using assms(5) by simp
  have gate: "fst (accept_event rd cooldown now ?p g) = Inr (cooldown \<le> tm' 1 - anchor g)"
    using event_payload_clock[OF t] assms(6) by (auto simp: accept_event_def state_load_update)
  obtain clip kept where row: "events (history_of (process_event env now ca1 ca2 ?p r)) =
      kept @ [\<lparr>ev_id = Suc (event_seq (history_of r)), ev_trigger = join_with (CHR '','') hits, ev_clip = clip, ev_created = utc_text env (tm' 1)\<rparr>]"
    using process_event_row[OF iter_map_JStr event_payload_clock[OF t]] by blast
  have "split_on (CHR '','') (join_with (CHR '','') hits) = hits"
  proof (rule split_join[OF ne])
    fix k assume "k \<in> set hits"
    then have "keyword_ok k" using assms(3) by (auto simp: hits_def list_all_iff)
    then show "CHR '','' \<notin> set k" by (simp add: keyword_ok_def)
  qed
  with sent gate row show ?thesis unfolding hits_def[symmetric] by blast
qed

section \<open>A judgment reaches the statistics\<close>

lemma label_list_map: "label_list (JList (map JStr ls)) = ls"
  by (simp add: label_list_def o_def filter_True)

lemma inference_payload_fields:
  "get_null (inference_payload t raw ls p m ms) ''vlm_text'' = JStr raw"
  "get_null (inference_payload t raw ls p m ms) ''labels'' = JList (map JStr ls)"
  by (simp_all add: inference_payload_def get_null_def)


section \<open>Concrete notices\<close>

lemma working_split:
  "begin_inference 0 (\<lambda>_. 3) 0 4 working =
     (Some (the (fst (begin_inference 0 (\<lambda>_. 3) 0 4 working))), snd (begin_inference 0 (\<lambda>_. 3) 0 4 working))"
  by (simp add: working_begins)

lemma working_triggers: "ap_triggers (wk_app working) = [''fire'', ''cat'']" "settings_now 0 (wk_app working) = (''default'', JStr [], [(''pet'', [''cat'', ''dog''])])"
  by (simp_all add: working_def playing_def settings_now_def resolve_preset_def initial_app_def set_analysis_active_def sse_push_def)

lemma working_keywords: "keyword_ok ''fire''" "keyword_ok ''cat''"
  by code_simp+

theorem event_row_names_the_keywords_witness:
  "\<exists>clip kept f st ms. events (history_of (process_event sample_env 9 sample_capture sample_capture
       (event_payload [''cat''] ''A CAT'' 4 f st ms) sample_recorder)) =
     kept @ [\<lparr>ev_id = 1, ev_trigger = ''cat'', ev_clip = clip, ev_created = ''u''\<rparr>]"
proof -
  have gate: "state_load (state_file sample_gate) = Some [(anchor_key, JFloat 100)]" by (simp add: sample_gate_def)
  have kws: "list_all keyword_ok (ap_triggers (wk_app working))"
    "list_ex (\<lambda>k. contains k (py_lower ''A CAT'')) (ap_triggers (wk_app working))" "(0 :: real) < (\<lambda>_. 4) (1 :: nat)"
    using working_keywords working_says by (simp_all add: working_triggers)
  obtain hits f st ms clip kept where h: "hits = filter (\<lambda>k. contains k (py_lower ''A CAT'')) (ap_triggers (wk_app working))"
    "events (history_of (process_event sample_env 9 sample_capture sample_capture (event_payload hits ''A CAT'' 4 f st ms) sample_recorder)) =
      kept @ [\<lparr>ev_id = Suc (event_seq (history_of sample_recorder)), ev_trigger = join_with (CHR '','') hits, ev_clip = clip, ev_created = utc_text sample_env 4\<rparr>]"
    using event_row_names_the_keywords[OF working_split _ kws gate, of "\<lambda>p. p" "\<lambda>_. None" 30 9 sample_env sample_capture sample_capture sample_recorder]
      working_active by blast
  have "hits = [''cat'']" using working_says by (simp add: h(1) working_triggers)
  moreover have "event_seq (history_of sample_recorder) = 0" "utc_text sample_env 4 = ''u''" by (simp_all add: sample_recorder_def sample_env_def)
  ultimately have "events (history_of (process_event sample_env 9 sample_capture sample_capture (event_payload [''cat''] ''A CAT'' 4 f st ms) sample_recorder)) =
      kept @ [\<lparr>ev_id = 1, ev_trigger = ''cat'', ev_clip = clip, ev_created = ''u''\<rparr>]"
    using h(2) by simp
  then show ?thesis by blast
qed


end
