(* ===== verification/Router_Monitor.thy ===== *)
theory Router_Monitor
  imports Py_Json Prelude
begin

text \<open>
  The monitoring synthesis of \<open>router/monitor.py\<close>: three source parts, a sequence number that
  every update advances, the merged snapshot, the availability log, and the SSE client loop.
  A part is the JSON value last received, with \<open>JNull\<close> for Python's \<open>None\<close>; a part that is
  neither empty nor an object makes \<open>dict.update\<close> raise (\<open>None\<close> here; a JSON list of pairs,
  which it would accept, is outside the model).
\<close>

datatype source = FromAnalyzer | FromRecorder | FromStreamer

fun source_name :: "source \<Rightarrow> string" where
  "source_name FromAnalyzer = ''analyzer''"
| "source_name FromRecorder = ''recorder''"
| "source_name FromStreamer = ''streamer''"

text \<open>The sources in the order of \<open>_merged_snapshot\<close>, as the enumeration of the type.\<close>

instantiation source :: enum
begin

definition enum_source :: "source list" where
  "enum_source = [FromAnalyzer, FromRecorder, FromStreamer]"

definition enum_all_source :: "(source \<Rightarrow> bool) \<Rightarrow> bool" where
  "enum_all_source P \<longleftrightarrow> P FromAnalyzer \<and> P FromRecorder \<and> P FromStreamer"

definition enum_ex_source :: "(source \<Rightarrow> bool) \<Rightarrow> bool" where
  "enum_ex_source P \<longleftrightarrow> P FromAnalyzer \<or> P FromRecorder \<or> P FromStreamer"

instance
proof
  have all: "(\<forall>s. P s) = (P FromAnalyzer \<and> P FromRecorder \<and> P FromStreamer)" for P :: "source \<Rightarrow> bool"
    by (metis source.exhaust)
  have ex: "(\<exists>s. P s) = (P FromAnalyzer \<or> P FromRecorder \<or> P FromStreamer)" for P :: "source \<Rightarrow> bool"
    by (metis source.exhaust)
  show "UNIV = set (Enum.enum :: source list)"
    unfolding enum_source_def set_eq_iff all by simp
  show "distinct (Enum.enum :: source list)" by (simp add: enum_source_def)
  show "Enum.enum_all P = Ball UNIV P" for P :: "source \<Rightarrow> bool" by (simp add: enum_all_source_def all)
  show "Enum.enum_ex P = Bex UNIV P" for P :: "source \<Rightarrow> bool" by (simp add: enum_ex_source_def ex)
qed

end

abbreviation sources :: "source list" where
  "sources \<equiv> Enum.enum"

lemmas sources_def = enum_source_def

record monitor =
  mo_parts :: "source \<Rightarrow> json"
  mo_seq :: nat
  mo_available :: "source \<Rightarrow> bool option"

definition fresh_monitor :: monitor where
  "fresh_monitor = \<lparr>mo_parts = (\<lambda>_. JNull), mo_seq = 0, mo_available = (\<lambda>_. None)\<rparr>"

definition bump :: "source \<Rightarrow> json \<Rightarrow> monitor \<Rightarrow> monitor" where
  "bump src v m = m\<lparr>mo_parts := (mo_parts m)(src := v), mo_seq := mo_seq m + 1\<rparr>"

text \<open>\<open>_note_availability\<close>, with whether it logged.\<close>

definition note_availability :: "source \<Rightarrow> bool \<Rightarrow> monitor \<Rightarrow> bool \<times> monitor" where
  "note_availability src good m =
     (if mo_available m src = Some good then (False, m)
      else (True, m\<lparr>mo_available := (mo_available m)(src := Some good)\<rparr>))"

text \<open>One line of the analyzer's event stream.\<close>

definition sse_line :: "string \<Rightarrow> monitor \<Rightarrow> monitor" where
  "sse_line raw m =
     (let line = strip raw in
      if starts_with ''data: '' line then
        (case loads (drop 6 line) of Some v \<Rightarrow> bump FromAnalyzer v m | None \<Rightarrow> m)
      else m)"

text \<open>
  One round of a poll: \<open>None\<close> is any exception of the request or of \<open>json.loads\<close>. The
  analyzer reader runs \<open>reader_connected\<close> when a subscription opens and \<open>reader_failed\<close>
  when it breaks.
\<close>

definition poll_json :: "source \<Rightarrow> json option \<Rightarrow> monitor \<Rightarrow> monitor" where
  "poll_json src answer m =
     (case answer of
        None \<Rightarrow> bump src JNull (snd (note_availability src False m))
      | Some v \<Rightarrow> bump src v (snd (note_availability src True m)))"

definition reader_connected :: "monitor \<Rightarrow> monitor" where
  "reader_connected m = snd (note_availability FromAnalyzer True m)"

definition reader_failed :: "monitor \<Rightarrow> monitor" where
  "reader_failed m = bump FromAnalyzer JNull (snd (note_availability FromAnalyzer False m))"

fun merge_part :: "json \<Rightarrow> dict option \<Rightarrow> dict option" where
  "merge_part part None = None"
| "merge_part part (Some merged) =
     (if truthy part then (case part of JObj d \<Rightarrow> Some (update_all merged d) | _ \<Rightarrow> None) else Some merged)"

definition merged_snapshot :: "monitor \<Rightarrow> nat \<times> dict option" where
  "merged_snapshot m =
     (let merged = fold (\<lambda>s. merge_part (mo_parts m s)) sources (Some []);
          flags = JObj (map (\<lambda>s. (source_name s, JBool (mo_parts m s \<noteq> JNull))) sources)
      in (mo_seq m, map_option (set_key ''monitor_sources'' flags) merged))"

section \<open>The client loop\<close>

text \<open>
  A client keeps the sequence number of its last snapshot (-1 at first). \<open>sse_tick\<close> is one
  round of \<open>sse_generator\<close>: what it yields and the number it keeps. A run interleaves source
  updates with the rounds of one client.
\<close>

definition sse_tick :: "int \<Rightarrow> monitor \<Rightarrow> dict option \<times> int" where
  "sse_tick last_seq m =
     (case merged_snapshot m of (s, merged) \<Rightarrow>
        if int s \<noteq> last_seq then (merged, int s) else (None, last_seq))"

datatype monitor_event =
    Line string | Poll source "json option" | Connected | Failed | Tick

record client =
  cl_monitor :: monitor
  cl_last_seq :: int
  cl_received :: "dict list"

fun client_step :: "monitor_event \<Rightarrow> client \<Rightarrow> client" where
  "client_step (Line l) c = c\<lparr>cl_monitor := sse_line l (cl_monitor c)\<rparr>"
| "client_step (Poll s a) c = c\<lparr>cl_monitor := poll_json s a (cl_monitor c)\<rparr>"
| "client_step Connected c = c\<lparr>cl_monitor := reader_connected (cl_monitor c)\<rparr>"
| "client_step Failed c = c\<lparr>cl_monitor := reader_failed (cl_monitor c)\<rparr>"
| "client_step Tick c =
     (case sse_tick (cl_last_seq c) (cl_monitor c) of
        (Some d, s) \<Rightarrow> c\<lparr>cl_last_seq := s, cl_received := cl_received c @ [d]\<rparr>
      | (None, s) \<Rightarrow> c\<lparr>cl_last_seq := s\<rparr>)"

definition new_client :: "monitor \<Rightarrow> client" where
  "new_client m = \<lparr>cl_monitor = m, cl_last_seq = -1, cl_received = []\<rparr>"

section \<open>What a snapshot holds\<close>

definition part_dict :: "json \<Rightarrow> dict" where
  "part_dict v = (case v of JObj d \<Rightarrow> d | _ \<Rightarrow> [])"

definition part_ok :: "json \<Rightarrow> bool" where
  "part_ok v \<longleftrightarrow> (\<not> truthy v) \<or> (\<exists>d. v = JObj d \<and> distinct (map fst d))"

lemma merge_part_ok:
  "part_ok v \<Longrightarrow> \<exists>d'. merge_part v (Some d) = Some d' \<and> map_of d' = map_of d ++ map_of (part_dict v)"
  by (cases v) (auto simp: part_ok_def part_dict_def map_of_update_all)

text \<open>
  The snapshot survives a missing source: when every part is empty or an object, each
  client gets a snapshot whose fields come from the streamer where it has them, else from the
  recorder, else from the analyzer, a source without data contributing nothing and hiding
  nothing; \<open>monitor_sources\<close> says which of the three have data.
\<close>

theorem snapshot_merges_sources:
  assumes "\<forall>s. part_ok (mo_parts m s)"
  shows "\<exists>d. merged_snapshot m = (mo_seq m, Some d) \<and>
    (\<forall>k. k \<noteq> ''monitor_sources'' \<longrightarrow> map_of d k =
      (case map_of (part_dict (mo_parts m FromStreamer)) k of Some v \<Rightarrow> Some v
       | None \<Rightarrow> (case map_of (part_dict (mo_parts m FromRecorder)) k of Some v \<Rightarrow> Some v
       | None \<Rightarrow> map_of (part_dict (mo_parts m FromAnalyzer)) k))) \<and>
    map_of d ''monitor_sources'' = Some (JObj
      [(''analyzer'', JBool (mo_parts m FromAnalyzer \<noteq> JNull)),
       (''recorder'', JBool (mo_parts m FromRecorder \<noteq> JNull)),
       (''streamer'', JBool (mo_parts m FromStreamer \<noteq> JNull))])"
proof -
  obtain d1 where 1: "merge_part (mo_parts m FromAnalyzer) (Some []) = Some d1"
    "map_of d1 = map_of [] ++ map_of (part_dict (mo_parts m FromAnalyzer))"
    using merge_part_ok assms by blast
  obtain d2 where 2: "merge_part (mo_parts m FromRecorder) (Some d1) = Some d2"
    "map_of d2 = map_of d1 ++ map_of (part_dict (mo_parts m FromRecorder))"
    using merge_part_ok assms by blast
  obtain d3 where 3: "merge_part (mo_parts m FromStreamer) (Some d2) = Some d3"
    "map_of d3 = map_of d2 ++ map_of (part_dict (mo_parts m FromStreamer))"
    using merge_part_ok assms by blast
  show ?thesis
    using 1 2 3 by (auto simp: merged_snapshot_def sources_def Let_def map_add_def simp del: merge_part.simps
        split: option.split)
qed

definition client_inv :: "client \<Rightarrow> bool" where
  "client_inv c \<longleftrightarrow> cl_last_seq c \<le> int (mo_seq (cl_monitor c)) \<and>
     (cl_last_seq c = int (mo_seq (cl_monitor c)) \<longrightarrow>
       (\<forall>d. snd (merged_snapshot (cl_monitor c)) = Some d \<longrightarrow> cl_received c \<noteq> [] \<and> last (cl_received c) = d))"

lemma snapshot_parts: "mo_parts m' = mo_parts m \<Longrightarrow> snd (merged_snapshot m') = snd (merged_snapshot m)"
  by (simp add: merged_snapshot_def Let_def)

lemma note_frame [frame_simps]:
  "mo_parts (snd (note_availability s b m)) = mo_parts m"
  "mo_seq (snd (note_availability s b m)) = mo_seq m"
  by (simp_all add: note_availability_def)

lemma bump_seq [frame_simps]: "mo_seq (bump s v m) = Suc (mo_seq m)"
  by (simp add: bump_def)

lemma inv_bumped:
  "client_inv c \<Longrightarrow> mo_seq m = mo_seq (cl_monitor c) \<Longrightarrow> client_inv (c\<lparr>cl_monitor := bump s v m\<rparr>)"
  by (simp add: client_inv_def frame_simps)

lemma inv_same:
  "client_inv c \<Longrightarrow> mo_seq m = mo_seq (cl_monitor c) \<Longrightarrow> mo_parts m = mo_parts (cl_monitor c) \<Longrightarrow>
   client_inv (c\<lparr>cl_monitor := m\<rparr>)"
  using snapshot_parts[of m "cl_monitor c"] by (simp add: client_inv_def)

lemma tick_current:
  assumes "client_inv c"
  shows "client_inv (client_step Tick c)" "cl_last_seq (client_step Tick c) = int (mo_seq (cl_monitor c))"
    "cl_monitor (client_step Tick c) = cl_monitor c"
proof -
  obtain d where d: "merged_snapshot (cl_monitor c) = (mo_seq (cl_monitor c), d)"
    by (simp add: merged_snapshot_def Let_def)
  show "cl_last_seq (client_step Tick c) = int (mo_seq (cl_monitor c))"
    "cl_monitor (client_step Tick c) = cl_monitor c"
    by (cases d; simp add: sse_tick_def d)+
  show "client_inv (client_step Tick c)"
    using assms d by (cases d) (auto simp: sse_tick_def client_inv_def)
qed

lemma client_step_inv: "client_inv c \<Longrightarrow> client_inv (client_step e c)"
proof (cases e)
  case (Line l)
  assume "client_inv c"
  then show ?thesis using Line
    by (auto simp: sse_line_def Let_def intro: inv_bumped inv_same split: option.split)
next
  case (Poll s a)
  assume "client_inv c"
  then show ?thesis using Poll
    by (auto simp: poll_json_def frame_simps intro: inv_bumped split: option.split)
next
  case Connected
  assume "client_inv c"
  then show ?thesis using Connected by (auto simp: reader_connected_def frame_simps intro: inv_same)
next
  case Failed
  assume "client_inv c"
  then show ?thesis using Failed by (auto simp: reader_failed_def frame_simps intro: inv_bumped)
next
  case Tick
  assume "client_inv c"
  then show ?thesis using Tick tick_current(1) by blast
qed

interpretation client: keeps client_inv client_step
  by unfold_locales (rule client_step_inv)


theorem snapshot_merges_sources_witness:
  "\<exists>d. merged_snapshot (bump FromRecorder (JObj [(''a'', JInt 1)]) fresh_monitor) = (1, Some d) \<and>
     map_of d ''a'' = Some (JInt 1)"
proof -
  let ?m = "bump FromRecorder (JObj [(''a'', JInt 1)]) fresh_monitor"
  have "\<forall>s. part_ok (mo_parts ?m s)" by (simp add: bump_def fresh_monitor_def part_ok_def)
  from snapshot_merges_sources[OF this] show ?thesis
    by (auto simp: bump_def fresh_monitor_def part_dict_def)
qed


end
