(* ===== verification/Recorder_Hardware.thy ===== *)
theory Recorder_Hardware
  imports Py_Values
begin

text \<open>
  The hardware monitor of the recorder (\<open>recorder/hardware.py\<close>): CPU utilization from two
  readings of \<open>/proc/stat\<close>, memory from \<open>/proc/meminfo\<close>, the scaled sysfs values, and disk
  usage. The texts of the files are inputs (\<open>None\<close>: reading raised), as are which paths
  exist and what \<open>shutil.disk_usage\<close> gives.
\<close>

section \<open>Words of a line\<close>

text \<open>\<open>s.split()\<close>: runs of white space separate, no empty words.\<close>

fun split_ws :: "string \<Rightarrow> string list" where
  "split_ws [] = []"
| "split_ws (c # s) =
     (if is_space c then split_ws s
      else (case s of
              [] \<Rightarrow> [[c]]
            | d # _ \<Rightarrow> (if is_space d then [c] # split_ws s
                       else (case split_ws s of [] \<Rightarrow> [[c]] | w # ws \<Rightarrow> (c # w) # ws))))"

text \<open>\<open>[int(x) for x in xs]\<close>.\<close>

fun all_ints :: "string list \<Rightarrow> int list option" where
  "all_ints [] = Some []"
| "all_ints (x # xs) =
     (case py_int_of_str x of None \<Rightarrow> None | Some n \<Rightarrow> map_option ((#) n) (all_ints xs))"

section \<open>CPU\<close>

record cpu_monitor =
  cm_prev :: "(int \<times> int) option"
  cm_percent :: real

definition fresh_cpu :: cpu_monitor where
  "fresh_cpu = \<lparr>cm_prev = None, cm_percent = 0\<rparr>"

text \<open>Total and idle time of a line; \<open>None\<close> when it has no eight numbers to sum or fewer than five.\<close>

definition cpu_times :: "string \<Rightarrow> (int \<times> int) option" where
  "cpu_times line =
     (case all_ints (take 8 (drop 1 (split_ws line))) of
        None \<Rightarrow> None
      | Some values \<Rightarrow> if length values < 5 then None else Some (sum_list values, values ! 3 + values ! 4))"

definition cpu_update :: "int \<times> int \<Rightarrow> cpu_monitor \<Rightarrow> cpu_monitor" where
  "cpu_update now m =
     (let m1 = (case cm_prev m of
          None \<Rightarrow> m
        | Some prev \<Rightarrow>
            (let d_total = fst now - fst prev; d_idle = snd now - snd prev in
             if 0 < d_total then m\<lparr>cm_percent := (1 - of_int d_idle / of_int d_total) * 100\<rparr> else m))
      in m1\<lparr>cm_prev := Some now\<rparr>)"

definition cpu_percent :: "string option \<Rightarrow> cpu_monitor \<Rightarrow> real \<times> cpu_monitor" where
  "cpu_percent file m =
     (case file of
        None \<Rightarrow> (0, m)
      | Some line \<Rightarrow>
          (case cpu_times line of
             None \<Rightarrow> (0, m)
           | Some now \<Rightarrow> (let m1 = cpu_update now m in (cm_percent m1, m1))))"

section \<open>Memory and sysfs\<close>

text \<open>The lines of \<open>/proc/meminfo\<close>; a blank line or a bad number raises.\<close>

fun meminfo :: "string list \<Rightarrow> (string \<times> int) list \<Rightarrow> (string \<times> int) list option" where
  "meminfo [] info = Some info"
| "meminfo (line # ls) info =
     (case split_ws line of
        [] \<Rightarrow> None
      | k # rest \<Rightarrow>
          if k = ''MemTotal:'' \<or> k = ''MemAvailable:'' then
            (case rest of
               [] \<Rightarrow> None
             | v # _ \<Rightarrow> (case py_int_of_str v of None \<Rightarrow> None | Some n \<Rightarrow> meminfo ls (AList.update k n info)))
          else meminfo ls info)"

definition ram_usage :: "string list option \<Rightarrow> int \<times> int" where
  "ram_usage file =
     (case (case file of None \<Rightarrow> None | Some ls \<Rightarrow> meminfo ls []) of
        None \<Rightarrow> (0, 0)
      | Some info \<Rightarrow>
          (let tot = (case map_of info ''MemTotal:'' of Some n \<Rightarrow> n | None \<Rightarrow> 0);
               avail = (case map_of info ''MemAvailable:'' of Some n \<Rightarrow> n | None \<Rightarrow> 0)
           in ((tot - avail) div 1024, tot div 1024)))"

definition read_sysfs :: "string option \<Rightarrow> string option" where
  "read_sysfs file =
     (case file of
        None \<Rightarrow> None
      | Some raw \<Rightarrow> if raw = [] then None else (let s = strip (take 4096 raw) in if s = [] then None else Some s))"

definition scaled_sysfs :: "string option \<Rightarrow> real \<Rightarrow> real option" where
  "scaled_sysfs file divisor =
     (case read_sysfs file of
        None \<Rightarrow> None
      | Some s \<Rightarrow> map_option (\<lambda>n. of_int n / divisor) (py_int_of_str s))"

text \<open>\<open>round(x, 1)\<close> or \<open>None\<close>.\<close>

definition round_or_none :: "real option \<Rightarrow> json" where
  "round_or_none v = (case v of Some x \<Rightarrow> JFloat (of_int (py_round (x * 10)) / 10) | None \<Rightarrow> JNull)"

text \<open>The first zone, in sorted order, whose type matches; a zone whose type cannot be read is skipped.\<close>

definition thermal_zone :: "string \<Rightarrow> (string \<times> string option) list \<Rightarrow> string option" where
  "thermal_zone zone_type zones =
     map_option (\<lambda>z. fst z @ ''/temp'')
       (find (\<lambda>z. case snd z of None \<Rightarrow> False | Some t \<Rightarrow> strip t = zone_type) zones)"

record readings =
  rg_stat :: "string option"
  rg_meminfo :: "string list option"
  rg_gpu :: "string option"
  rg_cpu_temp :: "string option"
  rg_gpu_temp :: "string option"

definition hw_snapshot :: "readings \<Rightarrow> cpu_monitor \<Rightarrow> dict \<times> cpu_monitor" where
  "hw_snapshot r m =
     (let (used, tot) = ram_usage (rg_meminfo r); (percent, m1) = cpu_percent (rg_stat r) m in
      ([(''cpu_percent'', round_or_none (Some percent)), (''ram_used_mb'', JInt used), (''ram_total_mb'', JInt tot),
        (''gpu_load'', round_or_none (scaled_sysfs (rg_gpu r) 10)), (''cpu_temp'', round_or_none (scaled_sysfs (rg_cpu_temp r) 1000)),
        (''gpu_temp'', round_or_none (scaled_sysfs (rg_gpu_temp r) 1000))], m1))"

section \<open>Disk\<close>

text \<open>A path is the list of its components below the root; its parent drops the last one.\<close>

function nearest_existing :: "(string list \<Rightarrow> bool) \<Rightarrow> string list \<Rightarrow> string list option" where
  "nearest_existing exists p = (if exists p then Some p else if p = [] then None else nearest_existing exists (butlast p))"
  by pat_completeness auto
termination by (relation "measure (\<lambda>(e, p). length p)") auto

declare nearest_existing.simps [simp del]

definition disk_usage :: "(string list \<Rightarrow> bool) \<Rightarrow> (string list \<Rightarrow> (int \<times> int \<times> int) option) \<Rightarrow> (string list \<Rightarrow> string) \<Rightarrow> string list \<Rightarrow> dict" where
  "disk_usage exists usage_of text_of path =
     (let empty = [(''disk_used_mb'', JInt 0), (''disk_total_mb'', JInt 0), (''disk_free_mb'', JInt 0), (''disk_path'', JStr (text_of path))] in
      if text_of path = [] then empty
      else
        case nearest_existing exists path of
          None \<Rightarrow> empty
        | Some p \<Rightarrow>
            (case usage_of p of
               None \<Rightarrow> empty
             | Some (used, tot, free) \<Rightarrow>
                 [(''disk_used_mb'', JInt (used div 1048576)), (''disk_total_mb'', JInt (tot div 1048576)),
                  (''disk_free_mb'', JInt (free div 1048576)), (''disk_path'', JStr (text_of p))]))"

section \<open>What the numbers mean\<close>

lemma nearest_exists: "nearest_existing exists p = Some q \<Longrightarrow> exists q \<and> (\<exists>n \<le> length p. q = take n p \<and> (\<forall>k. n < k \<longrightarrow> k \<le> length p \<longrightarrow> \<not> exists (take k p)))"
proof (induction exists p rule: nearest_existing.induct)
  case (1 exists p)
  show ?case
  proof (cases "exists p")
    case True
    then show ?thesis using "1.prems" by (auto simp: nearest_existing.simps[of exists p])
  next
    case False
    then have ne: "p \<noteq> []" and r: "nearest_existing exists (butlast p) = Some q"
      using "1.prems" by (auto simp: nearest_existing.simps[of exists p] split: if_splits)
    obtain n where n: "exists q" "n \<le> length p - 1" "q = take n (butlast p)"
      "\<forall>k. n < k \<longrightarrow> k \<le> length p - 1 \<longrightarrow> \<not> exists (take k (butlast p))"
      using "1.IH"[OF False ne r] by auto
    have t: "take k (butlast p) = take k p" if "k \<le> length p - 1" for k
      by (rule take_butlast) (use that ne in \<open>cases p; simp\<close>)
    have "\<not> exists (take k p)" if "n < k" "k \<le> length p" for k
      using that n(4) t[of k] False by (cases "k = length p") auto
    then show ?thesis using n t[of n] by (intro conjI exI[of _ n]) auto
  qed
qed

text \<open>
  CPU utilization stays a percentage as long as the counters behave: when of two readings
  neither the idle time nor the busy time went back, the value shown is between 0 and 100.
\<close>

theorem cpu_percent_in_range:
  assumes "cm_prev m = Some (tot, idle)" and "cpu_times line = Some (tot', idle')"
    and "idle \<le> idle'" and "tot - idle \<le> tot' - idle'" and "0 \<le> cm_percent m" and "cm_percent m \<le> 100"
  shows "0 \<le> fst (cpu_percent (Some line) m) \<and> fst (cpu_percent (Some line) m) \<le> 100"
proof (cases "0 < tot' - tot")
  case True
  define q where "q = (of_int (idle' - idle) / of_int (tot' - tot) :: real)"
  have "0 \<le> q" "q \<le> 1" using True assms(3,4) by (simp_all add: q_def divide_le_eq)
  moreover have "fst (cpu_percent (Some line) m) = (1 - q) * 100"
    using True assms(1,2) by (simp add: cpu_percent_def cpu_update_def q_def Let_def)
  ultimately show ?thesis by simp
next
  case False
  then show ?thesis using assms by (simp add: cpu_percent_def cpu_update_def Let_def)
qed

text \<open>
  Nothing clamps the value: the iowait counter may go back on Linux, and then the percentage
  shown exceeds 100.
\<close>

theorem cpu_percent_exceeds_100:
  assumes "cm_prev m = Some (tot, idle)" and "cpu_times line = Some (tot', idle')" and "idle' < idle" and "tot < tot'"
  shows "100 < fst (cpu_percent (Some line) m)"
proof -
  define q where "q = (of_int (idle' - idle) / of_int (tot' - tot) :: real)"
  have "q < 0" using assms(3,4) by (simp add: q_def divide_neg_pos)
  moreover have "fst (cpu_percent (Some line) m) = (1 - q) * 100"
    using assms by (simp add: cpu_percent_def cpu_update_def q_def Let_def)
  ultimately show ?thesis by simp
qed

text \<open>A failed reading shows 0 but keeps the last counters, so the next one is right again.\<close>

lemma failed_reading_keeps_state: "cpu_percent None m = (0, m)" "cpu_times line = None \<Longrightarrow> cpu_percent (Some line) m = (0, m)"
  by (simp_all add: cpu_percent_def)

lemma stat_line: "cpu_times ''cpu  10 0 20 50 20 0 0 0 0 0'' = Some (100, 70)" "cpu_times ''cpu  20 0 30 100 19 0 0 0 0 0'' = Some (169, 119)"
  by code_simp+

theorem cpu_percent_in_range_witness:
  "fst (cpu_percent (Some ''cpu  20 0 30 100 19 0 0 0 0 0'') \<lparr>cm_prev = Some (100, 70), cm_percent = 0\<rparr>) \<le> 100"
  using cpu_percent_in_range[of "\<lparr>cm_prev = Some (100, 70), cm_percent = 0\<rparr>" 100 70, OF _ stat_line(2)] by simp

theorem cpu_percent_exceeds_100_witness:
  "100 < fst (cpu_percent (Some ''cpu  20 0 30 100 19 0 0 0 0 0'') \<lparr>cm_prev = Some (160, 120), cm_percent = 0\<rparr>)"
  using cpu_percent_exceeds_100[of "\<lparr>cm_prev = Some (160, 120), cm_percent = 0\<rparr>" 160 120, OF _ stat_line(2)] by simp

end
