(* ===== verification/Monitoring.thy ===== *)
theory Monitoring
  imports Router_Monitor Recorder_History Recorder_Hardware Analyzer_State Streamer_Service
begin

text \<open>
  The monitoring path across the four containers: the streamer's and the recorder's
  \<open>GET /status\<close>, the analyzer's event stream, and the router that merges them into one flat
  dict per client. The merge overwrites equal keys silently, so it shows every source's
  fields only if no two sources use the same name.
\<close>

section \<open>The streamer's status\<close>

definition coordinate :: "(position \<Rightarrow> real) \<Rightarrow> ptz \<Rightarrow> json" where
  "coordinate f p = (case current p of None \<Rightarrow> JNull | Some q \<Rightarrow> JFloat (f q))"

definition streamer_status :: "lib \<Rightarrow> streamer \<Rightarrow> dict" where
  "streamer_status lb s =
     (let (streaming, pending) = status_view lb s in
      [(''ptz_pan'', coordinate pan (ptz s)), (''ptz_tilt'', coordinate tilt (ptz s)),
       (''ptz_presets'', JList (map JInt (sort (map fst (presets (ptz s)))))),
       (''streaming_active'', JBool streaming), (''profile_pending'', JBool pending)])"

section \<open>Names in use\<close>

definition keys :: "dict \<Rightarrow> string set" where
  "keys d = fst ` set d"

lemma keys_simps [simp]: "keys [] = {}" "keys ((k, v) # d) = insert k (keys d)"
  by (simp_all add: keys_def)

lemma keys_update_all [simp]: "keys (update_all d e) = keys d \<union> keys e"
proof (induction d e rule: update_all.induct)
  case (2 d k v kvs)
  have "keys (set_key k v d) = insert k (keys d)" by (simp add: keys_def set_key_def dom_update)
  with 2 show ?case by simp
qed simp

definition analyzer_names :: "string set" where
  "analyzer_names = {''frame_w'', ''frame_h'', ''infer_raw'', ''infer_ms'', ''pipeline_state'', ''pipeline_state_detail'',
     ''pipeline_source_protocol'', ''pipeline_source_transport'', ''pipeline_active_for_s'', ''pipeline_last_frame_age_s'',
     ''pipeline_restart_count'', ''inference_prompt'', ''trigger_keywords'', ''label_groups'', ''presets'', ''active_preset'',
     ''event_triggered'', ''analysis_active'', ''vlm_state'', ''vlm_error'', ''vlm_models'', ''vlm_current_model''}"

definition recorder_names :: "string set" where
  "recorder_names = {''cpu_percent'', ''ram_used_mb'', ''ram_total_mb'', ''gpu_load'', ''cpu_temp'', ''gpu_temp'',
     ''disk_used_mb'', ''disk_total_mb'', ''disk_free_mb'', ''disk_path'', ''buffer_active'', ''clip_storage_state'',
     ''clip_storage_reason'', ''clip_storage_free_mb'', ''segment_recorder_state'', ''segment_recorder_error'',
     ''segment_recorder_segment_count'', ''segment_recorder_last_segment_age_s'', ''uptime'', ''clip_count'', ''event_count''}"

definition streamer_names :: "string set" where
  "streamer_names = {''ptz_pan'', ''ptz_tilt'', ''ptz_presets'', ''streaming_active'', ''profile_pending''}"

lemma analyzer_keys: "keys (snapshot now a) \<subseteq> analyzer_names \<union> {k. take 4 k = ''cfg_''}"
proof -
  have "keys (cfg_items c) \<subseteq> {k. take 4 k = ''cfg_''}" for c using cfg_key by (auto simp: keys_def)
  then have "keys (runtime_snapshot a) \<subseteq> analyzer_names \<union> {k. take 4 k = ''cfg_''}"
    unfolding runtime_split keys_update_all by (auto simp: runtime_base_def runtime_snapshot_def analyzer_names_def)
  then show ?thesis
    unfolding snapshot_def keys_update_all by (auto simp: inference_snapshot_def stream_snapshot_def analyzer_names_def)
qed

lemma hw_keys: "keys (fst (hw_snapshot r m)) \<subseteq> recorder_names"
  by (simp add: hw_snapshot_def recorder_names_def split: prod.split)

lemma disk_keys: "keys (disk_usage ex us tx path) \<subseteq> recorder_names"
  by (auto simp: disk_usage_def Let_def recorder_names_def split: option.split prod.split)

lemma recorder_keys: "keys (get_status (fst (hw_snapshot r m)) (disk_usage ex us tx path) now rec) \<subseteq> recorder_names"
proof -
  have "keys (status_snapshot now st) \<subseteq> recorder_names" for st by (simp add: status_snapshot_def recorder_names_def)
  moreover have "{''clip_count'', ''event_count''} \<subseteq> recorder_names" by (simp add: recorder_names_def)
  ultimately show ?thesis
    using hw_keys[of r m] disk_keys[of ex us tx path] unfolding get_status_def keys_update_all by auto
qed

lemma streamer_keys: "keys (streamer_status lb s) = streamer_names"
  by (simp add: streamer_status_def streamer_names_def split: prod.split)

lemma names_apart:
  "(analyzer_names \<union> {k. take 4 k = ''cfg_''}) \<inter> recorder_names = {}"
  "(analyzer_names \<union> {k. take 4 k = ''cfg_''}) \<inter> streamer_names = {}"
  "recorder_names \<inter> streamer_names = {}"
  "''monitor_sources'' \<notin> analyzer_names \<union> {k. take 4 k = ''cfg_''} \<union> recorder_names \<union> streamer_names"
  by (auto simp: analyzer_names_def recorder_names_def streamer_names_def)

section \<open>Nothing is shadowed\<close>

lemma distinct_snapshot: "distinct (map fst (snapshot now a))"
  unfolding snapshot_def by (intro distinct_update_all) (simp add: inference_snapshot_def)

lemma distinct_status: "distinct (map fst (get_status hw disk now rec))"
  unfolding get_status_def by (intro distinct_update_all) simp

lemma distinct_streamer: "distinct (map fst (streamer_status lb s))"
  by (simp add: streamer_status_def split: prod.split)

lemma some_key: "map_of d k = Some v \<Longrightarrow> k \<in> keys d"
  by (force simp: keys_def dest: map_of_SomeD)

lemma no_key: "k \<notin> keys d \<Longrightarrow> map_of d k = None"
  by (auto simp: keys_def map_of_eq_None_iff)

text \<open>
  The merged snapshot shows everything: when the router holds the current status of all three
  sources, each field of the analyzer's snapshot (the deployment's \<open>cfg_\<close> fields included),
  of the recorder's and of the streamer's status reaches the client under its name with its
  own value. No source can hide a field of another.
\<close>

theorem no_source_hides_another:
  assumes "mo_parts m FromAnalyzer = JObj (snapshot t1 a)"
    and "mo_parts m FromRecorder = JObj (get_status (fst (hw_snapshot r c)) (disk_usage ex us tx path) t2 rec)"
    and "mo_parts m FromStreamer = JObj (streamer_status lb s)"
  shows "\<exists>d. merged_snapshot m = (mo_seq m, Some d) \<and>
    map_of (snapshot t1 a) \<subseteq>\<^sub>m map_of d \<and>
    map_of (get_status (fst (hw_snapshot r c)) (disk_usage ex us tx path) t2 rec) \<subseteq>\<^sub>m map_of d \<and>
    map_of (streamer_status lb s) \<subseteq>\<^sub>m map_of d"
proof -
  let ?A = "snapshot t1 a" and ?R = "get_status (fst (hw_snapshot r c)) (disk_usage ex us tx path) t2 rec" and ?S = "streamer_status lb s"
  have ok: "\<forall>src. part_ok (mo_parts m src)"
  proof
    fix src show "part_ok (mo_parts m src)"
      by (cases src) (use assms distinct_snapshot distinct_status distinct_streamer in \<open>auto simp: part_ok_def\<close>)
  qed
  have pd: "part_dict (mo_parts m FromAnalyzer) = ?A" "part_dict (mo_parts m FromRecorder) = ?R" "part_dict (mo_parts m FromStreamer) = ?S"
    using assms by (simp_all add: part_dict_def)
  obtain d where d: "merged_snapshot m = (mo_seq m, Some d)"
    "\<And>k. k \<noteq> ''monitor_sources'' \<Longrightarrow> map_of d k =
      (case map_of ?S k of Some v \<Rightarrow> Some v | None \<Rightarrow> (case map_of ?R k of Some v \<Rightarrow> Some v | None \<Rightarrow> map_of ?A k))"
    using snapshot_merges_sources[OF ok] unfolding pd by blast
  note ks = analyzer_keys[of t1 a] recorder_keys[of r c ex us tx path t2 rec] streamer_keys[of lb s]
  have "map_of d k = Some v" if "map_of ?A k = Some v" for k v
  proof -
    have "k \<in> analyzer_names \<union> {k. take 4 k = ''cfg_''}" using some_key[OF that] ks(1) by blast
    then have "k \<notin> keys ?R" "k \<notin> keys ?S" "k \<noteq> ''monitor_sources''" using names_apart ks(2,3) by blast+
    then show ?thesis using d(2)[of k] that by (simp add: no_key)
  qed
  moreover have "map_of d k = Some v" if "map_of ?R k = Some v" for k v
  proof -
    have "k \<in> recorder_names" using some_key[OF that] ks(2) by blast
    then have "k \<notin> keys ?S" "k \<noteq> ''monitor_sources''" using names_apart ks(3) by blast+
    then show ?thesis using d(2)[of k] that by (simp add: no_key)
  qed
  moreover have "map_of d k = Some v" if "map_of ?S k = Some v" for k v
  proof -
    have "k \<noteq> ''monitor_sources''" using some_key[OF that] names_apart(4) ks(3) by blast
    then show ?thesis using d(2)[of k] that by simp
  qed
  ultimately show ?thesis using d(1) by (intro exI[of _ d]) (auto simp: map_le_def dom_def)
qed

section \<open>A concrete merge\<close>

definition no_readings :: readings where
  "no_readings = \<lparr>rg_stat = None, rg_meminfo = None, rg_gpu = None, rg_cpu_temp = None, rg_gpu_temp = None\<rparr>"

definition full_monitor :: "lib \<Rightarrow> streamer \<Rightarrow> monitor" where
  "full_monitor lb s = fresh_monitor\<lparr>mo_parts := (\<lambda>src. case src of
     FromAnalyzer \<Rightarrow> JObj (snapshot 5 initial_app)
   | FromRecorder \<Rightarrow> JObj (get_status (fst (hw_snapshot no_readings fresh_cpu)) (disk_usage (\<lambda>_. True) (\<lambda>_. None) (\<lambda>_. ''/c'') [''c'']) 5 sample_recorder)
   | FromStreamer \<Rightarrow> JObj (streamer_status lb s))\<rparr>"

theorem no_source_hides_another_witness:
  "\<forall>lb s. \<exists>d. merged_snapshot (full_monitor lb s) = (0, Some d) \<and> map_of d ''vlm_state'' = Some (JStr ''initializing'')"
proof (intro allI)
  fix lb s
  have "map_of (snapshot 5 initial_app) ''vlm_state'' = Some (JStr ''initializing'')"
    by (simp add: snapshot_value map_add_def runtime_base_def runtime_snapshot_def initial_app_def)
  moreover obtain d where "merged_snapshot (full_monitor lb s) = (mo_seq (full_monitor lb s), Some d)"
    "map_of (snapshot 5 initial_app) \<subseteq>\<^sub>m map_of d"
    using no_source_hides_another[of "full_monitor lb s" 5 initial_app no_readings fresh_cpu "\<lambda>_. True" "\<lambda>_. None" "\<lambda>_. ''/c''" "[''c'']" 5 sample_recorder lb s]
    by (auto simp: full_monitor_def)
  ultimately show "\<exists>d. merged_snapshot (full_monitor lb s) = (0, Some d) \<and> map_of d ''vlm_state'' = Some (JStr ''initializing'')"
    by (auto simp: map_le_def dom_def full_monitor_def fresh_monitor_def)
qed

end
