(* ===== verification/Event_Stream.thy ===== *)
theory Event_Stream
  imports Monitoring Analyzer_Server
begin

text \<open>
  The monitoring path as text. The analyzer prints its snapshot as one server-sent event
  (\<open>analyzer/server.py\<close>), the router reads the stream line by line, keeps the value and prints the
  merged snapshot as an event of its own (\<open>router/monitor.py\<close>); here the texts are followed through
  both ends.
\<close>

section \<open>Events as text\<close>

abbreviation newline :: char where "newline \<equiv> CHR 0x0A"

text \<open>\<open>for raw_line in resp\<close>: a line ends with its newline; the last one may lack it.\<close>

fun byte_lines :: "string \<Rightarrow> string list" where
  "byte_lines [] = []"
| "byte_lines (c # s) =
     (if c = newline then [c] # byte_lines s
      else case byte_lines s of [] \<Rightarrow> [[c]] | l # ls \<Rightarrow> (c # l) # ls)"

definition event_text :: "(real \<Rightarrow> string) \<Rightarrow> dict \<Rightarrow> string" where
  "event_text num d = ''data: '' @ dumps num False (JObj d) @ [newline, newline]"

text \<open>What one line carries.\<close>

definition event_data :: "string \<Rightarrow> json option" where
  "event_data raw = (let line = strip raw in if starts_with ''data: '' line then loads (drop 6 line) else None)"

text \<open>What one client of the router is sent in one round.\<close>

definition client_event :: "(real \<Rightarrow> string) \<Rightarrow> int \<Rightarrow> monitor \<Rightarrow> string option" where
  "client_event num last_seq m = map_option (event_text num) (fst (sse_tick last_seq m))"

lemma sse_message_event: "sse_message num now a = event_text num (snapshot now a)"
  by (simp add: sse_message_def event_text_def)

lemma sse_line_data: "sse_line raw m = (case event_data raw of Some v \<Rightarrow> bump FromAnalyzer v m | None \<Rightarrow> m)"
  by (simp add: sse_line_def event_data_def Let_def)

lemma byte_lines_line: "newline \<notin> set s \<Longrightarrow> byte_lines (s @ newline # r) = (s @ [newline]) # byte_lines r"
  by (induction s) auto

lemma strip_blank: "strip [newline] = []"
  by (simp add: strip_def rstrip_def lstrip_def is_space_def ord_def)

lemma dumps_obj_ends: "\<exists>s. dumps num ascii (JObj d) = s @ ''}''"
  by simp

lemma strip_event: "strip (''data: '' @ s @ ''}'' @ [newline]) = ''data: '' @ s @ ''}''"
  by (simp add: strip_def rstrip_def lstrip_def is_space_def ord_def)

context float_text begin

lemma one_line:
  assumes "printable P (JObj d)"
  shows "newline \<notin> set (''data: '' @ dumps rp ascii (JObj d))"
proof -
  have "\<forall>c\<in>set (dumps rp ascii (JObj d)). 32 \<le> ord c" using dumps_printing(1)[OF float_text_axioms assms] .
  then have "newline \<notin> set (dumps rp ascii (JObj d))" by (auto simp: ord_def)
  then show ?thesis by (simp del: dumps.simps)
qed

text \<open>An event is one line with its document, and an empty line.\<close>

lemma event_lines:
  assumes "printable P (JObj d)"
  shows "map event_data (byte_lines (event_text rp d)) = [Some (JObj d), None]"
proof -
  obtain s where s: "dumps rp False (JObj d) = s @ ''}''" using dumps_obj_ends by blast
  have "byte_lines (event_text rp d) = [''data: '' @ s @ ''}'' @ [newline], [newline]]"
    using byte_lines_line[OF one_line[OF assms, of False], of "[newline]"] unfolding s
    by (simp add: event_text_def s del: dumps.simps)
  moreover have "loads (s @ ''}'') = Some (JObj d)" using loads_printed[OF assms, of False] by (simp only: s)
  ultimately show ?thesis
    using strip_event[of s] by (simp add: event_data_def Let_def strip_blank starts_with_def)
qed

lemma read_event: "printable P (JObj d) \<Longrightarrow> fold sse_line (byte_lines (event_text rp d)) m = bump FromAnalyzer (JObj d) m"
proof -
  assume "printable P (JObj d)"
  from event_lines[OF this] obtain l e where "byte_lines (event_text rp d) = [l, e]" "event_data l = Some (JObj d)" "event_data e = None"
    by (auto simp: map_eq_Cons_conv)
  then show ?thesis by (simp add: sse_line_data)
qed

end

section \<open>What can be printed\<close>

lemma printable_set_key: "printable P (JObj d) \<Longrightarrow> printable P v \<Longrightarrow> printable P (JObj (set_key k v d))"
proof -
  assume d: "printable P (JObj d)" and v: "printable P v"
  have "distinct (map fst (set_key k v d))" using d by (simp add: set_key_def distinct_update)
  moreover have "set (set_key k v d) \<subseteq> insert (k, v) (set d)" unfolding set_key_def by (induction d) auto
  ultimately show ?thesis using d v by auto
qed

lemma printable_update_all: "printable P (JObj d) \<Longrightarrow> \<forall>m\<in>set e. printable P (snd m) \<Longrightarrow> printable P (JObj (update_all d e))"
  by (induction d e rule: update_all.induct) (use printable_set_key in \<open>simp_all del: printable.simps(3)\<close>)

lemma round1_tenth: "is_tenth (round1 x)"
  by (auto simp: is_tenth_def round1_def)

text \<open>The settings an analyzer holds are JSON it has read or built.\<close>

definition app_printable :: "(real \<Rightarrow> bool) \<Rightarrow> app \<Rightarrow> bool" where
  "app_printable P a \<longleftrightarrow> printable P (ap_prompt a) \<and> printable P (labels_json (ap_labels a)) \<and>
     (\<forall>p\<in>set (ap_presets a). printable P (preset_json p)) \<and> (\<forall>m\<in>set (ap_config a). printable P (snd m))"

lemma snapshot_printable:
  assumes "app_printable P a" and tenths: "\<And>x. is_tenth x \<Longrightarrow> P x"
  shows "printable P (JObj (snapshot now a))"
proof -
  have "printable P (JObj (inference_snapshot a))" by (simp add: inference_snapshot_def tenths round1_tenth)
  moreover have "\<forall>m\<in>set (stream_snapshot now a). printable P (snd m)"
    by (simp add: stream_snapshot_def age_since_def tenths round1_tenth)
  moreover have "printable P (JObj (runtime_snapshot a))"
    unfolding runtime_snapshot_def
    by (rule printable_update_all) (use assms(1) in \<open>auto simp: app_printable_def\<close>)
  ultimately show ?thesis unfolding snapshot_def by (intro printable_update_all) simp_all
qed

lemma merge_printable:
  assumes "merge_part v (Some d) = Some d'" "printable P (JObj d)" "printable P v"
  shows "printable P (JObj d')"
proof (cases "truthy v")
  case True
  then obtain e where e: "v = JObj e" "d' = update_all d e" using assms(1) by (cases v) auto
  then have "\<forall>m\<in>set e. printable P (snd m)" using assms(3) by simp
  then show ?thesis unfolding e(2) by (rule printable_update_all[OF assms(2)])
next
  case False
  then have "d' = d" using assms(1) by simp
  then show ?thesis using assms(2) by simp
qed

lemma merges_printable:
  assumes "fold (\<lambda>s. merge_part (mo_parts m s)) ss (Some d1) = Some d2" and "printable P (JObj d1)"
    and parts: "\<forall>src. printable P (mo_parts m src)"
  shows "printable P (JObj d2)"
  using assms(1,2)
proof (induction ss arbitrary: d1)
  case (Cons src ss)
  have none: "fold (\<lambda>s. merge_part (mo_parts m s)) ss None = None" for ss by (induction ss) simp_all
  obtain d' where d': "merge_part (mo_parts m src) (Some d1) = Some d'"
    using Cons.prems(1) by (cases "merge_part (mo_parts m src) (Some d1)") (simp_all add: none)
  have "printable P (JObj d')" using merge_printable[OF d' Cons.prems(2)] parts by blast
  moreover have "fold (\<lambda>s. merge_part (mo_parts m s)) ss (Some d') = Some d2" using Cons.prems(1) d' by simp
  ultimately show ?case using Cons.IH by blast
qed simp

lemma merged_printable:
  assumes "merged_snapshot m = (s, Some d)" and parts: "\<forall>src. printable P (mo_parts m src)"
  shows "printable P (JObj d)"
proof -
  let ?flags = "JObj (map (\<lambda>s. (source_name s, JBool (mo_parts m s \<noteq> JNull))) sources)"
  obtain d0 where d0: "fold (\<lambda>s. merge_part (mo_parts m s)) sources (Some []) = Some d0" "d = set_key ''monitor_sources'' ?flags d0"
    using assms(1) by (auto simp: merged_snapshot_def Let_def)
  have "printable P (JObj d0)" by (rule merges_printable[OF d0(1) _ parts]) simp
  moreover have "printable P ?flags" by (simp add: sources_def)
  ultimately show ?thesis unfolding d0(2) by (rule printable_set_key)
qed

lemma round_printable: "(\<And>x. is_tenth x \<Longrightarrow> P x) \<Longrightarrow> printable P (round_or_none v)"
  by (cases v) (auto simp: round_or_none_def is_tenth_def)

lemma hw_printable: "(\<And>x. is_tenth x \<Longrightarrow> P x) \<Longrightarrow> printable P (JObj (fst (hw_snapshot r c)))"
  by (simp add: hw_snapshot_def round_printable split: prod.split)

lemma disk_printable: "\<forall>m\<in>set (disk_usage ex us tx path). printable P (snd m)"
  by (auto simp: disk_usage_def Let_def split: option.split prod.split)

lemma status_printable:
  assumes tenths: "\<And>x. is_tenth x \<Longrightarrow> P x" and age: "\<And>x. rs_segment_age (status_of rec) = Some x \<Longrightarrow> P x"
  shows "printable P (JObj (get_status (fst (hw_snapshot r c)) (disk_usage ex us tx path) t rec))"
proof -
  have hw: "\<forall>m\<in>set (fst (hw_snapshot r c)). printable P (snd m)" using hw_printable[OF tenths, where r = r and c = c] by simp
  have "\<forall>m\<in>set (status_snapshot t (status_of rec)). printable P (snd m)"
    using age by (simp add: status_snapshot_def opt_int_def split: option.split)
  then show ?thesis
    unfolding get_status_def by (intro printable_update_all hw disk_printable) simp_all
qed

lemma streamer_printable:
  "(\<And>q. current (ptz s) = Some q \<Longrightarrow> P (pan q) \<and> P (tilt q)) \<Longrightarrow> printable P (JObj (streamer_status lb s))"
  by (auto simp: streamer_status_def coordinate_def split: prod.split option.split)

section \<open>From the analyzer to the client\<close>

text \<open>
  C15. What the analyzer publishes is what the client reads: the bytes of one analyzer event, read line by
  line by the router, merged with the current status of recorder and streamer and printed as
  the event of a client that has not seen it, are one line whose document reads back with every field
  of the analyzer's snapshot, of the recorder's and of the streamer's status, each with its own
  value. Of the printed floats it is asked that their text reads back (\<open>float_text\<close>), of the
  analyzer's settings that they are JSON documents of such floats.
\<close>

theorem state_reaches_client:
  assumes reads: "float_text num P" and tenths: "\<forall>x. is_tenth x \<longrightarrow> P x" and app: "app_printable P a"
    and recorder: "mo_parts m FromRecorder = JObj (get_status (fst (hw_snapshot r c)) (disk_usage ex us tx path) t2 rec)"
    and streamer: "mo_parts m FromStreamer = JObj (streamer_status lb s)"
    and floats: "\<forall>x. rs_segment_age (status_of rec) = Some x \<longrightarrow> P x" "\<forall>q. current (ptz s) = Some q \<longrightarrow> P (pan q) \<and> P (tilt q)"
    and unseen: "last_seq \<le> int (mo_seq m)"
  shows "\<exists>d. client_event num last_seq (fold sse_line (byte_lines (sse_message num now a)) m) = Some (event_text num d) \<and>
    map event_data (byte_lines (event_text num d)) = [Some (JObj d), None] \<and>
    map_of (snapshot now a) \<subseteq>\<^sub>m map_of d \<and>
    map_of (get_status (fst (hw_snapshot r c)) (disk_usage ex us tx path) t2 rec) \<subseteq>\<^sub>m map_of d \<and>
    map_of (streamer_status lb s) \<subseteq>\<^sub>m map_of d"
proof -
  let ?m = "bump FromAnalyzer (JObj (snapshot now a)) m"
  have snap: "printable P (JObj (snapshot now a))" using snapshot_printable[OF app] tenths by blast
  have read: "fold sse_line (byte_lines (sse_message num now a)) m = ?m"
    unfolding sse_message_event by (rule float_text.read_event[OF reads snap])
  have parts: "mo_parts ?m FromAnalyzer = JObj (snapshot now a)"
    "mo_parts ?m FromRecorder = JObj (get_status (fst (hw_snapshot r c)) (disk_usage ex us tx path) t2 rec)"
    "mo_parts ?m FromStreamer = JObj (streamer_status lb s)"
    using recorder streamer by (simp_all add: bump_def)
  obtain d where d: "merged_snapshot ?m = (mo_seq ?m, Some d)" and shown: "map_of (snapshot now a) \<subseteq>\<^sub>m map_of d"
    "map_of (get_status (fst (hw_snapshot r c)) (disk_usage ex us tx path) t2 rec) \<subseteq>\<^sub>m map_of d"
    "map_of (streamer_status lb s) \<subseteq>\<^sub>m map_of d"
    using no_source_hides_another[OF parts] by blast
  have "printable P (mo_parts ?m src)" for src
    using snap status_printable[of P rec r c ex us tx path t2, OF tenths[rule_format] floats(1)[rule_format]] streamer_printable[OF floats(2)[rule_format]]
    by (cases src) (simp_all add: parts del: printable.simps(3))
  then have pd: "printable P (JObj d)" using merged_printable[OF d] by blast
  have "client_event num last_seq ?m = Some (event_text num d)"
    using unseen by (simp add: client_event_def sse_tick_def d) (simp add: bump_def)
  then show ?thesis
    unfolding read using float_text.event_lines[OF reads pd] shown by (intro exI[of _ d] conjI)
qed

lemma submap_value: "m \<subseteq>\<^sub>m m' \<Longrightarrow> m k = Some v \<Longrightarrow> m' k = Some v"
  by (metis domI map_le_def)

theorem state_reaches_client_witness:
  "\<exists>d. client_event tenth_repr (-1)
      (fold sse_line (byte_lines (sse_message tenth_repr 5 initial_app)) (full_monitor sample_lib sample_streamer)) =
      Some (event_text tenth_repr d) \<and> map_of d ''vlm_state'' = Some (JStr ''initializing'')"
proof -
  let ?m = "full_monitor sample_lib sample_streamer"
  have app: "app_printable is_tenth initial_app" by (simp add: app_printable_def initial_app_def labels_json_def)
  have age: "\<forall>x. rs_segment_age (status_of sample_recorder) = Some x \<longrightarrow> is_tenth x"
    by (simp add: sample_recorder_def initial_status_def)
  have position: "\<forall>q. current (ptz sample_streamer) = Some q \<longrightarrow> is_tenth (pan q) \<and> is_tenth (tilt q)"
    by (auto simp: sample_streamer_def is_tenth_def intro: exI[of _ 0])
  have "mo_parts ?m FromRecorder = JObj (get_status (fst (hw_snapshot no_readings fresh_cpu))
      (disk_usage (\<lambda>_. True) (\<lambda>_. None) (\<lambda>_. ''/c'') [''c'']) 5 sample_recorder)"
    "mo_parts ?m FromStreamer = JObj (streamer_status sample_lib sample_streamer)" "(-1 :: int) \<le> int (mo_seq ?m)"
    by (simp_all add: full_monitor_def)
  note parts = this
  have all: "\<forall>x. is_tenth x \<longrightarrow> is_tenth x" by simp
  note reach = state_reaches_client[OF tenths.float_text_axioms all app parts(1,2) age position parts(3), where now = 5]
  obtain d where d: "client_event tenth_repr (-1) (fold sse_line (byte_lines (sse_message tenth_repr 5 initial_app)) ?m) =
      Some (event_text tenth_repr d)" and shown: "map_of (snapshot 5 initial_app) \<subseteq>\<^sub>m map_of d"
    using reach by (elim exE conjE) (rule that)
  have v: "map_of (snapshot 5 initial_app) ''vlm_state'' = Some (JStr ''initializing'')"
    by (simp add: snapshot_value map_add_def runtime_base_def runtime_snapshot_def initial_app_def)
  have "map_of d ''vlm_state'' = Some (JStr ''initializing'')"
    using v by (rule submap_value[OF shown])
  with d show ?thesis by (intro exI[of _ d] conjI)
qed

end
