(* ===== verification/Session_Spec.thy ===== *)
theory Session_Spec
  imports Router_Sessions
begin

text \<open>
  What the account database promises, without its tables: per account an epoch, and the set of
  refresh tokens (by hash) that are not revoked. Every request of the router is one step of this
  abstract machine, and its invariant, at most one refresh token alive per account, holds
  of the tables.
\<close>

section \<open>The abstract machine\<close>

record sessions =
  se_epoch :: "string \<Rightarrow> int option"
  se_live :: "(string \<times> string) set"

definition others :: "string \<Rightarrow> (string \<times> string) set \<Rightarrow> (string \<times> string) set" where
  "others u L = {p \<in> L. fst p \<noteq> u}"

text \<open>
  \<open>forget\<close>: tokens end, nothing else changes (requests that read, refused ones, expiry).
  \<open>replace\<close>: a login or a password change; \<open>new\<close> is the token of the new session, if any.
  \<open>leave\<close>: a logout. \<open>rotate\<close>: a refresh exchanges one token of an account for another.
\<close>

inductive session_request :: "sessions \<Rightarrow> sessions \<Rightarrow> bool" where
  forget: "L \<subseteq> se_live s \<Longrightarrow> session_request s (s\<lparr>se_live := L\<rparr>)"
| replace: "se_epoch s u = Some e \<Longrightarrow> L \<subseteq> others u (se_live s) \<Longrightarrow> new \<in> {{}, {(u, h)}} \<Longrightarrow>
     session_request s \<lparr>se_epoch = (se_epoch s)(u \<mapsto> e + 1), se_live = L \<union> new\<rparr>"
| leave: "se_epoch s u = Some e \<Longrightarrow> L \<subseteq> se_live s \<Longrightarrow>
     session_request s \<lparr>se_epoch = (se_epoch s)(u \<mapsto> e + 1), se_live = L\<rparr>"
| rotate: "(u, h) \<in> se_live s \<Longrightarrow> L \<subseteq> se_live s - {(u, h)} \<Longrightarrow>
     session_request s (s\<lparr>se_live := insert (u, h') L\<rparr>)"

definition single :: "sessions \<Rightarrow> bool" where
  "single s \<longleftrightarrow> (\<forall>u h h'. (u, h) \<in> se_live s \<longrightarrow> (u, h') \<in> se_live s \<longrightarrow> h = h')"

lemma single_step: "session_request s s' \<Longrightarrow> single s \<Longrightarrow> single s'"
proof (induction rule: session_request.induct)
  case (replace s u e L new h)
  have "k = k'" if "(v, k) \<in> L \<union> new" "(v, k') \<in> L \<union> new" for v k k'
  proof (cases "v = u")
    case True
    then have "(v, k) \<notin> L" "(v, k') \<notin> L" using replace(2) by (auto simp: others_def)
    then show ?thesis using that replace(3) by auto
  next
    case False
    then have "(v, k) \<in> se_live s" "(v, k') \<in> se_live s" using that replace(2,3) by (auto simp: others_def)
    then show ?thesis using replace(4) unfolding single_def by blast
  qed
  then show ?case unfolding single_def by simp
qed (unfold single_def, simp_all, blast+)

definition sessions_of :: "router_db \<Rightarrow> sessions" where
  "sessions_of db = \<lparr>se_epoch = (\<lambda>u. get_epoch u db),
     se_live = (\<lambda>r. (rt_username r, token_hash r)) ` set (filter (\<lambda>r. \<not> revoked r) (refresh_tokens db))\<rparr>"

section \<open>Every request is a step\<close>

abbreviation live :: "router_db \<Rightarrow> (string \<times> string) set" where
  "live db \<equiv> se_live (sessions_of db)"

lemma live_iff: "(u, h) \<in> live db \<longleftrightarrow> (\<exists>r\<in>set (refresh_tokens db). rt_username r = u \<and> token_hash r = h \<and> \<not> revoked r)"
  by (auto simp: sessions_of_def)

lemma epochs [simp]: "se_epoch (sessions_of db) u = get_epoch u db"
  by (simp add: sessions_of_def)

lemma sessions_cong: "users db' = users db \<Longrightarrow> refresh_tokens db' = refresh_tokens db \<Longrightarrow> sessions_of db' = sessions_of db"
  by (simp add: sessions_of_def get_epoch_def)

lemma sessions_terminate [simp]: "sessions_of (snd (terminate_whep_sessions u db)) = sessions_of db"
  by (rule sessions_cong) (simp_all add: frame_simps)

lemma forgotten: "(\<And>v. get_epoch v db' = get_epoch v db) \<Longrightarrow> live db' \<subseteq> live db \<Longrightarrow> session_request (sessions_of db) (sessions_of db')"
  using forget[of "live db'" "sessions_of db"] by (simp add: sessions_of_def)

lemma bumped: "get_epoch u db = Some e \<Longrightarrow> (\<And>v. get_epoch v db' = get_epoch v (bump_epoch u db)) \<Longrightarrow>
   se_epoch (sessions_of db') = (se_epoch (sessions_of db))(u \<mapsto> e + 1)"
  by (rule ext) (auto simp: get_epoch_bump)

lemma live_tokens: "refresh_tokens db' = refresh_tokens db \<Longrightarrow> live db' = live db"
  by (simp add: sessions_of_def)

lemma live_purge: "live (purge_expired t db) \<subseteq> live db"
  by (auto simp: sessions_of_def purge_expired_def Let_def delete_where_def)

lemma live_revoke_one: "live (snd (revoke_refresh_token env t db)) \<subseteq> live db"
  by (auto simp: sessions_of_def revoke_refresh_token_def Let_def set_update_where set_revoked_def image_iff)

lemma live_revoke_all: "live (snd (revoke_all_refresh_tokens u db)) \<subseteq> others u (live db)"
  by (auto simp: sessions_of_def others_def revoke_all_refresh_tokens_def set_update_where set_revoked_def live_of_def image_iff)

lemma live_issue: "issue_refresh_token env u now fresh db = Some db' \<Longrightarrow> live db' = insert (u, hash_refresh env fresh) (live db)"
  by (drule issue_Some) (simp add: sessions_of_def)

lemma unchanged: "users db' = users db \<Longrightarrow> refresh_tokens db' = refresh_tokens db \<Longrightarrow>
   session_request (sessions_of db) (sessions_of db')"
  using forget[OF order_refl, of "sessions_of db"] by (simp add: sessions_cong[of db' db])

text \<open>The critical section of a login.\<close>

lemma replaced:
  assumes "get_epoch u db = Some e" and "replace_session env tm fresh u row rem db = (r, db')"
  shows "(\<forall>v. get_epoch v db' = get_epoch v (bump_epoch u db)) \<and>
    (\<exists>new\<in>{{}, {(u, hash_refresh env fresh)}}. live db' = live (snd (revoke_all_refresh_tokens u db)) \<union> new)"
proof -
  let ?swept = "bump_epoch u (snd (revoke_all_refresh_tokens u db))"
  have e: "get_epoch v ?swept = get_epoch v (bump_epoch u db)" for v by (simp add: get_epoch_bump get_epoch_frames)
  have l: "live ?swept = live (snd (revoke_all_refresh_tokens u db))" by (rule live_tokens) (simp add: frame_simps)
  consider "db' = ?swept" | "issue_refresh_token env u (tm 5) fresh ?swept = Some db'"
    using assms(2) by (auto simp: replace_session_def Let_def split: if_splits option.splits)
  then show ?thesis
  proof cases
    case 1
    then show ?thesis using e l by auto
  next
    case 2
    then have "get_epoch v db' = get_epoch v (bump_epoch u db)" for v using e get_epoch_issue by simp
    moreover have "live db' = live (snd (revoke_all_refresh_tokens u db)) \<union> {(u, hash_refresh env fresh)}"
      using live_issue[OF 2] l by simp
    ultimately show ?thesis by blast
  qed
qed

lemma replace_step:
  assumes "get_epoch u db = Some e" and "\<And>v. get_epoch v db' = get_epoch v (bump_epoch u db)"
    and "live db' \<subseteq> others u (live db) \<union> new" and "new \<in> {{}, {(u, h)}}" and "new \<subseteq> live db'"
  shows "session_request (sessions_of db) (sessions_of db')"
proof -
  have "sessions_of db' = \<lparr>se_epoch = (se_epoch (sessions_of db))(u \<mapsto> e + 1), se_live = (live db' - new) \<union> new\<rparr>"
    using bumped[OF assms(1,2)] assms(5) by (simp add: sessions_of_def Un_absorb2)
  moreover have "session_request (sessions_of db) \<lparr>se_epoch = (se_epoch (sessions_of db))(u \<mapsto> e + 1), se_live = (live db' - new) \<union> new\<rparr>"
    by (rule replace) (use assms in auto)
  ultimately show ?thesis by simp
qed

lemma login_step: "session_request (sessions_of db) (sessions_of (fst (snd (login env tm fresh u p rem db))))"
proof -
  let ?db1 = "purge_expired (tm 0) db"
  obtain r db2 where a: "authenticate env tm fresh u p rem db = (r, db2)" by (cases "authenticate env tm fresh u p rem db")
  have out: "sessions_of (fst (snd (login env tm fresh u p rem db))) = sessions_of db2"
    using sessions_terminate[of u db2]
    by (cases "terminate_whep_sessions u db2") (simp add: login_def a split: sum.split option.split prod.split)
  have purged: "session_request (sessions_of db) (sessions_of db2)" if "\<And>v. get_epoch v db2 = get_epoch v ?db1" "refresh_tokens db2 = refresh_tokens ?db1"
    using that live_purge[of "tm 0" db] live_tokens[OF that(2)] by (intro forgotten) (simp_all add: get_epoch_frames)
  show ?thesis
  proof (cases "\<exists>row. find_user u ?db1 = Some row \<and> check_lockout row (tm 1) \<le> 0 \<and> verify_password env p (salt row) (password_hash row)")
    case True
    then obtain row where row: "find_user u ?db1 = Some row" "check_lockout row (tm 1) \<le> 0" "verify_password env p (salt row) (password_hash row)" by blast
    let ?db0 = "?db1\<lparr>users := update_where (\<lambda>x. user_name x = u) (set_lock 0 0) (users ?db1)\<rparr>"
    have rep: "replace_session env tm fresh u row rem ?db0 = (r, db2)" using a row by (simp add: authenticate_def Let_def)
    have e0: "get_epoch v ?db0 = get_epoch v db" for v by (simp add: get_epoch_limiter(1) get_epoch_frames)
    obtain e where e: "get_epoch u db = Some e" using row(1) by (simp add: get_epoch_def users_frame)
    obtain new where new: "new \<in> {{}, {(u, hash_refresh env fresh)}}" "live db2 = live (snd (revoke_all_refresh_tokens u ?db0)) \<union> new"
      and ep: "\<forall>v. get_epoch v db2 = get_epoch v (bump_epoch u ?db0)"
      using replaced[OF _ rep] e e0 by auto
    have "live ?db0 \<subseteq> live db" using live_purge[of "tm 0" db] live_tokens[of ?db0 ?db1] by simp
    then have "live db2 \<subseteq> others u (live db) \<union> new"
      using new(2) live_revoke_all[of u ?db0] by (auto simp: others_def)
    then show ?thesis unfolding out
      by (intro replace_step[OF e _ _ new(1)]) (use ep e0 new in \<open>auto simp: get_epoch_bump\<close>)
  next
    case False
    then have "db2 = ?db1 \<or> (\<exists>n. record_failure u (tm 2) ?db1 = (n, db2))"
      using a by (auto simp: authenticate_def Let_def split: option.splits if_splits prod.splits)
    then show ?thesis unfolding out
      using get_epoch_record_failure[of _ u "tm 2" ?db1] failure_frame(1)[of u "tm 2" ?db1]
      by (intro purged) (auto dest!: arg_cong[where f = snd])
  qed
qed

lemma refresh_step: "session_request (sessions_of db) (sessions_of (snd (refresh env tm fresh t db)))"
proof -
  let ?h = "hash_refresh env t" and ?db1 = "purge_expired (tm 0) db"
  let ?db2 = "?db1\<lparr>refresh_tokens := update_where (live_hash ?h) set_revoked (refresh_tokens ?db1)\<rparr>"
  obtain r db' where rot: "rotate_refresh_token env tm fresh t db = (r, db')" by (cases "rotate_refresh_token env tm fresh t db")
  have out: "snd (refresh env tm fresh t db) = db'" by (simp add: refresh_def rot split: option.split prod.split)
  have purged: "session_request (sessions_of db) (sessions_of ?db1)"
    by (rule forgotten) (simp_all add: get_epoch_frames live_purge)
  consider "db' = ?db1" | row where "find_refresh ?h ?db1 = Some row" "\<not> revoked row" "issue_refresh_token env (rt_username row) (tm 2) fresh ?db2 = Some db'"
    using rot by (auto simp: rotate_refresh_token_def Let_def split: option.splits if_splits)
  then show ?thesis unfolding out
  proof cases
    case 1
    then show "session_request (sessions_of db) (sessions_of db')" using purged by simp
  next
    case 2
    note row = select_one_Some[OF 2(1)]
    have "(rt_username row, ?h) \<in> live ?db1" using row 2(2) by (auto simp: live_iff)
    then have held: "(rt_username row, ?h) \<in> live db" using live_purge by blast
    have "live ?db2 \<subseteq> live ?db1 - {(rt_username row, ?h)}"
      by (auto simp: sessions_of_def set_update_where set_revoked_def live_hash_def image_iff)
    then have rest: "live ?db2 \<subseteq> live db - {(rt_username row, ?h)}" using live_purge by blast
    have "get_epoch v db' = get_epoch v db" for v
    proof -
      have "get_epoch v db' = get_epoch v ?db2" by (rule get_epoch_issue[OF 2(3)])
      also have "\<dots> = get_epoch v ?db1" by (rule get_epoch_users) simp
      also have "\<dots> = get_epoch v db" by (rule get_epoch_frames)
      finally show ?thesis .
    qed
    then have "sessions_of db' = (sessions_of db)\<lparr>se_live := insert (rt_username row, hash_refresh env fresh) (live ?db2)\<rparr>"
      using live_issue[OF 2(3)] by (simp add: sessions_of_def)
    then show "session_request (sessions_of db) (sessions_of db')" using rotate[OF held rest] by simp
  qed
qed

lemma snd_logout_user: "snd (logout_user env now h t db) =
  (case t of None \<Rightarrow> db | Some x \<Rightarrow> if x = [] then db else snd (revoke_refresh_token env x db))"
  by (cases t; cases "revoke_refresh_token env (the t) db")
    (simp_all add: logout_user_def Let_def split: option.split)

lemma logout_step: "session_request (sessions_of db) (sessions_of (fst (logout env now h t db)))"
proof -
  obtain who db1 where u: "logout_user env now h t db = (who, db1)" by (cases "logout_user env now h t db")
  have "db1 = (case t of None \<Rightarrow> db | Some x \<Rightarrow> if x = [] then db else snd (revoke_refresh_token env x db))"
    using snd_logout_user[of env now h t db] u by simp
  then have l: "live db1 \<subseteq> live db" and e: "get_epoch v db1 = get_epoch v db" for v
    using live_revoke_one by (auto simp: get_epoch_frames split: option.split)
  have out: "sessions_of (fst (logout env now h t db)) = (case who of None \<Rightarrow> sessions_of db1 | Some v \<Rightarrow> sessions_of (bump_epoch v db1))"
    by (simp add: logout_def u case_prod_unfold split: option.split)
  show ?thesis
  proof (cases "\<exists>v k. who = Some v \<and> get_epoch v db = Some k")
    case True
    then obtain v k where v: "who = Some v" "get_epoch v db = Some k" by blast
    have "se_epoch (sessions_of (bump_epoch v db1)) = (se_epoch (sessions_of db))(v \<mapsto> k + 1)"
      using v(2) e by (intro bumped) (simp_all add: get_epoch_bump)
    moreover have "live (bump_epoch v db1) = live db1" by (rule live_tokens) (simp add: frame_simps)
    ultimately have "sessions_of (bump_epoch v db1) = \<lparr>se_epoch = (se_epoch (sessions_of db))(v \<mapsto> k + 1), se_live = live db1\<rparr>" by simp
    then show ?thesis using leave[of "sessions_of db" v k "live db1"] v l out by simp
  next
    case False
    have "session_request (sessions_of db) (sessions_of (bump_epoch v db1))" if "who = Some v" for v
      using False that l e by (intro forgotten) (auto simp: get_epoch_bump live_tokens[of "bump_epoch v db1" db1] frame_simps)
    moreover have "session_request (sessions_of db) (sessions_of db1)" by (rule forgotten[OF e l])
    ultimately show ?thesis using out by (cases who) simp_all
  qed
qed

lemma change_step: "session_request (sessions_of db) (sessions_of (fst (snd (api_change_password env now slt h q cur new db))))"
proof -
  have chg: "session_request (sessions_of db) (sessions_of db1)" if c: "change_password env slt u cur new db = (ok, db1)" for u ok db1
  proof (cases ok)
    case False
    then have "db1 = db" using c change_refused[of env slt u cur new db db1] by simp
    then show ?thesis by (simp add: unchanged)
  next
    case True
    let ?pw = "db\<lparr>users := update_where (\<lambda>x. user_name x = u) (set_password (hash_password env new slt) slt) (users db)\<rparr>"
    obtain row where row: "find_user u db = Some row" and db1: "db1 = bump_epoch u (snd (revoke_all_refresh_tokens u ?pw))"
      using change_ok[of env slt u cur new db db1] c[unfolded eqTrueI[OF True]] by blast
    have l: "live db1 \<subseteq> others u (live db)"
      using live_revoke_all[of u ?pw] live_tokens[of db1 "snd (revoke_all_refresh_tokens u ?pw)"] live_tokens[of ?pw db]
      by (simp add: db1 frame_simps)
    show ?thesis
      by (rule replace_step[where new = "{}" and u = u and e = "token_epoch row"])
        (use row l in \<open>simp_all add: db1 get_epoch_bump get_epoch_frames get_epoch_limiter(3)\<close>, simp add: get_epoch_def)
  qed
  have t: "sessions_of b = sessions_of db1" if "terminate_whep_sessions u db1 = (a, b)" for u db1 a b
    using sessions_terminate[of u db1] that by simp
  show ?thesis
    using unchanged[of db db] chg
    by (auto simp: api_change_password_def t split: sum.split prod.split bool.split)
qed

lemma others_step:
  "session_request (sessions_of db) (sessions_of (fst (snd (whep_open env tm h q answer db))))"
  "session_request (sessions_of db) (sessions_of (snd (whep_close env now h q session db)))"
  "session_request (sessions_of db) (sessions_of (snd (api_put_storage env rp now h q k document db)))"
proof -
  have r: "sessions_of b = sessions_of db" if "register_whep_and_recheck u e p i db = (a, b)" for u e p i a b
    using sessions_cong[of b db] whep_frame(4,8)[of u e p i db] that by simp
  show "session_request (sessions_of db) (sessions_of (fst (snd (whep_open env tm h q answer db))))"
    using unchanged[of db db] by (auto simp: whep_open_def r split: sum.split prod.split option.split)
  show "session_request (sessions_of db) (sessions_of (snd (whep_close env now h q session db)))"
    by (rule unchanged) (simp_all add: whep_close_def frame_simps split: sum.split)
  have "users (upsert_storage u k d db) = users db" "refresh_tokens (upsert_storage u k d db) = refresh_tokens db" for u k d
    by (simp_all add: frame_simps)
  then show "session_request (sessions_of db) (sessions_of (snd (api_put_storage env rp now h q k document db)))"
    by (intro unchanged) (auto simp: api_put_storage_def put_client_storage_def Let_def split: sum.split)
qed

lemma serve_step: "session_request (sessions_of db) (sessions_of (serve env rp c db))"
  by (cases "cl_request c") (simp_all add: serve_def login_step refresh_step logout_step change_step others_step)

interpretation rs: simulation sessions_of "\<lambda>_. True" "serve env rp" session_request for env rp
  by unfold_locales (simp_all add: serve_step)


section \<open>The invariant, from the machine to the tables\<close>

definition one_session_each :: "router_db \<Rightarrow> bool" where
  "one_session_each db \<longleftrightarrow> (\<forall>r\<in>set (refresh_tokens db). \<forall>r'\<in>set (refresh_tokens db).
     \<not> revoked r \<longrightarrow> \<not> revoked r' \<longrightarrow> rt_username r = rt_username r' \<longrightarrow> token_hash r = token_hash r')"

lemma one_session_each_abs: "one_session_each db \<longleftrightarrow> single (sessions_of db)"
  unfolding one_session_each_def single_def by (simp add: live_iff) blast

lemma epoch_step: "session_request s s' \<Longrightarrow> \<exists>e'\<ge>e. se_epoch s u = Some e' \<Longrightarrow> \<exists>e'\<ge>e. se_epoch s' u = Some e'"
  by (induction rule: session_request.induct) auto

text \<open>
  C17. At most one kept login per account: where no account has two refresh tokens alive, no run
  of requests, whoever logs in, refreshes, logs out or changes a password, in any order, gives
  one two; and an account's epoch never falls.
\<close>

theorem one_live_session:
  assumes "one_session_each db" and "get_epoch u db = Some e"
  shows "one_session_each (fold (serve env rp) cs db) \<and> (\<exists>e'\<ge>e. get_epoch u (fold (serve env rp) cs db) = Some e')"
proof
  show "one_session_each (fold (serve env rp) cs db)"
    using rs.run_keeps_abstract[of single db env rp cs, OF single_step] assms(1) by (simp add: one_session_each_abs)
  have "\<exists>e'\<ge>e. se_epoch (sessions_of (fold (serve env rp) cs db)) u = Some e'"
    by (rule rs.run_keeps_abstract[of "\<lambda>s. \<exists>e'\<ge>e. se_epoch s u = Some e'", OF epoch_step]) (use assms(2) in simp_all)
  then show "\<exists>e'\<ge>e. get_epoch u (fold (serve env rp) cs db) = Some e'" by simp
qed

theorem one_live_session_witness:
  "one_session_each (fold (serve sample_env (\<lambda>_. []))
     [\<lparr>cl_clock = sample_clock, cl_fresh = ''r2'', cl_request = Login ''ann'' ''pw'' True\<rparr>,
      \<lparr>cl_clock = sample_clock, cl_fresh = ''r3'', cl_request = Refresh ''r2''\<rparr>] sample_db)"
proof (rule one_live_session[THEN conjunct1])
  show "one_session_each sample_db" by (simp add: one_session_each_def sample_db_def)
  show "get_epoch ''ann'' sample_db = Some 4" by (simp add: get_epoch_def sample_db_def)
qed

section \<open>A logout by access token\<close>

lemma purged_tokens: "refresh_tokens db' = refresh_tokens db \<Longrightarrow>
   refresh_tokens (purge_expired t db') = refresh_tokens (purge_expired t db)"
  by (simp add: purge_expired_def Let_def)

lemma rotate_cong:
  assumes "refresh_tokens db' = refresh_tokens db"
  shows "fst (rotate_refresh_token env tm fresh t db') = fst (rotate_refresh_token env tm fresh t db)"
proof -
  note p = purged_tokens[OF assms, of "tm 0"]
  have "select_one q (refresh_tokens (purge_expired (tm 0) db')) = select_one q (refresh_tokens (purge_expired (tm 0) db))" for q
    by (simp add: p)
  then show ?thesis
    by (auto simp: rotate_refresh_token_def issue_refresh_token_def Let_def p split: option.split)
qed

text \<open>
  A logout that sends the access token but no refresh token ends the epoch and the WHEP
  sessions, and leaves the refresh token usable: a refresh that worked before it works after it.
\<close>

theorem access_token_logout_keeps_refresh:
  assumes "refresh env tm fresh t db = (Inr out, db')"
  shows "\<exists>out' db''. refresh env tm fresh t (fst (logout env now h None db)) = (Inr out', db'')"
proof -
  let ?db = "fst (logout env now h None db)"
  have "snd (logout_user env now h None db) = db" by (simp add: snd_logout_user)
  then have "refresh_tokens ?db = refresh_tokens db"
    by (simp add: logout_def case_prod_unfold frame_simps split: option.split)
  from rotate_cong[OF this, of env tm fresh t] assms show ?thesis
    by (auto simp: refresh_def case_prod_unfold split: option.splits)
qed

theorem access_token_logout_keeps_refresh_witness:
  "\<exists>out db'. refresh sample_env sample_clock ''r2'' ''r1''
     (fst (logout sample_env 1000 (bearer (create_token sample_env 900 900 ''ann'' 4)) None sample_db)) = (Inr out, db')"
proof -
  obtain out db' where "refresh sample_env sample_clock ''r2'' ''r1'' sample_db = (Inr out, db')" using sample_refresh by blast
  from access_token_logout_keeps_refresh[OF this] show ?thesis by blast
qed

end
