(* ===== verification/Router_Transactions.thy ===== *)
theory Router_Transactions
  imports Router_Races "HOL-Library.State_Monad"
begin

text \<open>
  The router's requests statement by statement: every execute and commit of \<open>router/auth.py\<close> and
  \<open>router/main.py\<close> on the connection of \<open>get_db\<close> (\<open>router/database.py\<close>), which commits when the handler
  returns and rolls back when it raises. The other theories take each handler as one function from
  database to database; here that is proved of the statements, and a request is cut off between
  its commits, as when the process dies.
\<close>

section \<open>A connection\<close>

text \<open>
  \<open>pending\<close> is the open transaction, which Python starts at the first statement that writes;
  \<open>commits\<close> are the databases the file has held since the connection was opened.
\<close>

record connection =
  committed :: router_db
  pending :: "router_db option"
  commits :: "router_db list"

definition seen :: "connection \<Rightarrow> router_db" where
  "seen c = (case pending c of Some db \<Rightarrow> db | None \<Rightarrow> committed c)"

definition query :: "(router_db \<Rightarrow> 'a) \<Rightarrow> (connection, 'a) state" where
  "query f = State (\<lambda>c. (f (seen c), c))"

definition execute :: "(router_db \<Rightarrow> 'a \<times> router_db) \<Rightarrow> (connection, 'a) state" where
  "execute f = State (\<lambda>c. case f (seen c) of (x, db) \<Rightarrow> (x, c\<lparr>pending := Some db\<rparr>))"

abbreviation update :: "(router_db \<Rightarrow> router_db) \<Rightarrow> (connection, unit) state" where
  "update f \<equiv> execute (\<lambda>db. ((), f db))"

text \<open>An INSERT that a constraint may refuse (\<open>None\<close>, IntegrityError); the transaction is open all the same.\<close>

definition insert_row :: "(router_db \<Rightarrow> router_db option) \<Rightarrow> (connection, bool) state" where
  "insert_row f = execute (\<lambda>db. case f db of Some db' \<Rightarrow> (True, db') | None \<Rightarrow> (False, db))"

definition commit :: "(connection, unit) state" where
  "commit = State (\<lambda>c. ((), case pending c of
     None \<Rightarrow> c | Some db \<Rightarrow> \<lparr>committed = db, pending = None, commits = commits c @ [db]\<rparr>))"

definition rollback :: "(connection, unit) state" where
  "rollback = State (\<lambda>c. ((), c\<lparr>pending := None\<rparr>))"

text \<open>
  A transaction of another connection of the same request (\<open>_whep_db\<close>); while this one is writing
  the database is locked (\<open>None\<close>, OperationalError). A reader is not locked out (WAL).
\<close>

definition elsewhere :: "(router_db \<Rightarrow> 'a \<times> router_db) \<Rightarrow> (connection, 'a option) state" where
  "elsewhere f = State (\<lambda>c. case pending c of
      Some _ \<Rightarrow> (None, c)
    | None \<Rightarrow> (case f (committed c) of
        (x, db) \<Rightarrow> (Some x, \<lparr>committed = db, pending = None, commits = commits c @ [db]\<rparr>)))"

definition read_elsewhere :: "(router_db \<Rightarrow> 'a) \<Rightarrow> (connection, 'a) state" where
  "read_elsewhere f = State (\<lambda>c. (f (committed c), c))"

text \<open>\<open>get_db\<close> around a handler: an exception of the handler is an \<open>Inl\<close>.\<close>

definition with_db :: "(connection, http_error + 'a) state \<Rightarrow> (connection, http_error + 'a) state" where
  "with_db handler = do {
     r \<leftarrow> handler;
     _ \<leftarrow> (case r of Inl _ \<Rightarrow> rollback | Inr _ \<Rightarrow> commit);
     State_Monad.return r
   }"

section \<open>The functions of auth.py, by statements\<close>

definition purge_expired_tx :: "seconds \<Rightarrow> (connection, unit) state" where
  "purge_expired_tx t = (let now = py_int_of_float t in do {
     _ \<leftarrow> update (\<lambda>db. db\<lparr>refresh_tokens := delete_where (\<lambda>r. expires_at r < now \<or> revoked r) (refresh_tokens db)\<rparr>);
     _ \<leftarrow> update (\<lambda>db. db\<lparr>whep_sessions := delete_where (\<lambda>w. whep_created w < now - whep_session_max_age) (whep_sessions db)\<rparr>);
     commit
   })"

definition bump_epoch_tx :: "string \<Rightarrow> (connection, unit) state" where
  "bump_epoch_tx u = do { _ \<leftarrow> update (bump_epoch u); commit }"

definition record_failure_tx :: "string \<Rightarrow> seconds \<Rightarrow> (connection, int) state" where
  "record_failure_tx u now = do {
     row \<leftarrow> query (find_user u);
     (case row of
        None \<Rightarrow> State_Monad.return 0
      | Some x \<Rightarrow>
          (let count = failed_count x + 1 in
           if lockout_threshold \<le> count then do {
             _ \<leftarrow> update (\<lambda>db. db\<lparr>users := update_where (\<lambda>x. user_name x = u)
               (set_lock 0 (now + of_int lockout_seconds)) (users db)\<rparr>);
             _ \<leftarrow> commit;
             State_Monad.return lockout_seconds
           } else do {
             _ \<leftarrow> update (\<lambda>db. db\<lparr>users := update_where (\<lambda>x. user_name x = u) (set_failures count) (users db)\<rparr>);
             _ \<leftarrow> commit;
             State_Monad.return 0
           }))
   }"

text \<open>\<open>False\<close>: the hash is stored already, IntegrityError.\<close>

definition issue_refresh_token_tx :: "auth_env \<Rightarrow> string \<Rightarrow> seconds \<Rightarrow> string \<Rightarrow> (connection, bool) state" where
  "issue_refresh_token_tx env u now fresh = do {
     ok \<leftarrow> insert_row (issue_refresh_token env u now fresh);
     (if ok then do { _ \<leftarrow> commit; State_Monad.return True } else State_Monad.return False)
   }"

definition revoke_refresh_token_tx :: "auth_env \<Rightarrow> string \<Rightarrow> (connection, string option) state" where
  "revoke_refresh_token_tx env token = (let h = hash_refresh env token in do {
     row \<leftarrow> query (find_refresh h);
     n \<leftarrow> execute (\<lambda>db. (row_count (live_hash h) (refresh_tokens db),
       db\<lparr>refresh_tokens := update_where (live_hash h) set_revoked (refresh_tokens db)\<rparr>));
     _ \<leftarrow> commit;
     State_Monad.return (case row of Some r \<Rightarrow> if 0 < n then Some (rt_username r) else None | None \<Rightarrow> None)
   })"

definition revoke_all_tx :: "string \<Rightarrow> (connection, nat) state" where
  "revoke_all_tx u = do { n \<leftarrow> execute (revoke_all_refresh_tokens u); _ \<leftarrow> commit; State_Monad.return n }"

definition rotate_refresh_token_tx ::
  "auth_env \<Rightarrow> clock \<Rightarrow> string \<Rightarrow> string \<Rightarrow> (connection, (string \<times> string) option option) state" where
  "rotate_refresh_token_tx env tm fresh token = (let h = hash_refresh env token in do {
     _ \<leftarrow> purge_expired_tx (tm 0);
     row \<leftarrow> query (find_refresh h);
     (case row of
        None \<Rightarrow> State_Monad.return (Some None)
      | Some r \<Rightarrow>
          if revoked r \<or> expires_at r < py_int_of_float (tm 1) then State_Monad.return (Some None)
          else do {
            n \<leftarrow> execute (\<lambda>db. (row_count (live_hash h) (refresh_tokens db),
              db\<lparr>refresh_tokens := update_where (live_hash h) set_revoked (refresh_tokens db)\<rparr>));
            (if n = 0 then do { _ \<leftarrow> commit; State_Monad.return (Some None) }
             else do {
               ok \<leftarrow> issue_refresh_token_tx env (rt_username r) (tm 2) fresh;
               State_Monad.return (if ok then Some (Some (rt_username r, fresh)) else None)
             })
          })
   })"

definition replace_session_tx ::
  "auth_env \<Rightarrow> clock \<Rightarrow> string \<Rightarrow> string \<Rightarrow> user_row \<Rightarrow> bool \<Rightarrow> (connection, http_error + login_result option) state" where
  "replace_session_tx env tm fresh u row rem = do {
     _ \<leftarrow> revoke_all_tx u;
     _ \<leftarrow> bump_epoch_tx u;
     epoch \<leftarrow> query (get_epoch u);
     (let token = create_token env (tm 3) (tm 4) u (case epoch of Some e \<Rightarrow> e | None \<Rightarrow> 0) in
      if rem then do {
        ok \<leftarrow> issue_refresh_token_tx env u (tm 5) fresh;
        State_Monad.return (if ok then Inr (Some \<lparr>lr_token = token, lr_must_change = \<not> password_changed row, lr_refresh = Some fresh\<rparr>)
          else Inl internal_error)
      } else State_Monad.return (Inr (Some \<lparr>lr_token = token, lr_must_change = \<not> password_changed row, lr_refresh = None\<rparr>)))
   }"

definition authenticate_tx ::
  "auth_env \<Rightarrow> clock \<Rightarrow> string \<Rightarrow> string \<Rightarrow> string \<Rightarrow> bool \<Rightarrow> (connection, http_error + login_result option) state" where
  "authenticate_tx env tm fresh u p rem = do {
     _ \<leftarrow> purge_expired_tx (tm 0);
     row \<leftarrow> query (find_user u);
     (let remaining = (case row of Some x \<Rightarrow> check_lockout x (tm 1) | None \<Rightarrow> 0) in
      if 0 < remaining then State_Monad.return (Inl (too_many_attempts remaining))
      else case (case row of Some x \<Rightarrow>
                   if verify_password env p (salt x) (password_hash x) then Some x else None
                 | None \<Rightarrow> None) of
          None \<Rightarrow> do {
            locked_for \<leftarrow> record_failure_tx u (tm 2);
            State_Monad.return (if locked_for \<noteq> 0 then Inl (too_many_attempts locked_for) else Inr None)
          }
        | Some x \<Rightarrow> do {
            _ \<leftarrow> update (\<lambda>db. db\<lparr>users := update_where (\<lambda>x. user_name x = u) (set_lock 0 0) (users db)\<rparr>);
            _ \<leftarrow> commit;
            replace_session_tx env tm fresh u x rem
          })
   }"

definition change_password_tx ::
  "auth_env \<Rightarrow> string \<Rightarrow> string \<Rightarrow> string \<Rightarrow> string \<Rightarrow> (connection, bool) state" where
  "change_password_tx env new_salt u cur new = do {
     row \<leftarrow> query (find_user u);
     (case row of
        None \<Rightarrow> State_Monad.return False
      | Some x \<Rightarrow>
          if \<not> verify_password env cur (salt x) (password_hash x) then State_Monad.return False
          else do {
            _ \<leftarrow> update (\<lambda>db. db\<lparr>users := update_where (\<lambda>x. user_name x = u)
              (set_password (hash_password env new new_salt) new_salt) (users db)\<rparr>);
            _ \<leftarrow> commit;
            _ \<leftarrow> revoke_all_tx u;
            _ \<leftarrow> bump_epoch_tx u;
            State_Monad.return True
          })
   }"

definition seed_default_user_tx :: "auth_env \<Rightarrow> string \<Rightarrow> string \<Rightarrow> string \<Rightarrow> (connection, unit) state" where
  "seed_default_user_tx env name pass slt = do {
     row \<leftarrow> query (find_user name);
     (case row of
        Some _ \<Rightarrow> State_Monad.return ()
      | None \<Rightarrow> do { _ \<leftarrow> update (\<lambda>db. db\<lparr>users := users db @ [new_user env name pass slt]\<rparr>); commit })
   }"

section \<open>The handlers of main.py\<close>

definition locked :: "'a option \<Rightarrow> http_error + 'a" where
  "locked r = (case r of None \<Rightarrow> Inl internal_error | Some x \<Rightarrow> Inr x)"

definition login_tx ::
  "auth_env \<Rightarrow> clock \<Rightarrow> string \<Rightarrow> string \<Rightarrow> string \<Rightarrow> bool \<Rightarrow> (connection, http_error + token_out \<times> string list) state" where
  "login_tx env tm fresh u p rem = do {
     result \<leftarrow> authenticate_tx env tm fresh u p rem;
     (case result of
        Inl e \<Rightarrow> State_Monad.return (Inl e)
      | Inr None \<Rightarrow> State_Monad.return (Inl (HttpError 401 ''invalid credentials'' None))
      | Inr (Some r) \<Rightarrow> do {
          ended \<leftarrow> elsewhere (terminate_whep_sessions u);
          State_Monad.return (map_sum id (\<lambda>ended. (\<lparr>to_token = lr_token r, to_expires_in = jwt_expiry env,
              to_must_change = lr_must_change r, to_refresh = lr_refresh r,
              to_refresh_expires = (case lr_refresh r of
                Some t \<Rightarrow> if t = [] then None else Some (refresh_expiry env) | None \<Rightarrow> None)\<rparr>, ended)) (locked ended))
        })
   }"

definition refresh_tx :: "auth_env \<Rightarrow> clock \<Rightarrow> string \<Rightarrow> string \<Rightarrow> (connection, http_error + token_out) state" where
  "refresh_tx env tm fresh token = do {
     rotated \<leftarrow> rotate_refresh_token_tx env tm fresh token;
     (case rotated of
        None \<Rightarrow> State_Monad.return (Inl internal_error)
      | Some None \<Rightarrow> State_Monad.return (Inl (HttpError 401 ''invalid or expired refresh token'' None))
      | Some (Some (u, new_token)) \<Rightarrow> do {
          epoch \<leftarrow> query (get_epoch u);
          State_Monad.return (Inr \<lparr>to_token = create_token env (tm 3) (tm 4) u (case epoch of Some e \<Rightarrow> e | None \<Rightarrow> 0),
            to_expires_in = jwt_expiry env, to_must_change = False,
            to_refresh = Some new_token, to_refresh_expires = Some (refresh_expiry env)\<rparr>)
        })
   }"

definition logout_tx ::
  "auth_env \<Rightarrow> seconds \<Rightarrow> string \<Rightarrow> string option \<Rightarrow> (connection, http_error + string list) state" where
  "logout_tx env now auth_header refresh_token = do {
     by_refresh \<leftarrow> (case refresh_token of
        Some t \<Rightarrow> if t = [] then State_Monad.return None else revoke_refresh_token_tx env t
      | None \<Rightarrow> State_Monad.return None);
     username \<leftarrow> (case by_refresh of
        Some u \<Rightarrow> State_Monad.return (if u = [] then None else Some u)
      | None \<Rightarrow>
          (case bearer_token auth_header of
             None \<Rightarrow> State_Monad.return None
           | Some t \<Rightarrow>
               (case verify_token env now t of
                  None \<Rightarrow> State_Monad.return None
                | Some claims \<Rightarrow> query (\<lambda>db.
                    if claims \<noteq> [] \<and> epoch_current claims db \<and> claim_sub claims \<noteq> []
                    then Some (claim_sub claims) else None))));
     (case username of
        None \<Rightarrow> State_Monad.return (Inr [])
      | Some u \<Rightarrow> do {
          _ \<leftarrow> bump_epoch_tx u;
          ended \<leftarrow> elsewhere (terminate_whep_sessions u);
          State_Monad.return (locked ended)
        })
   }"

definition require_auth_tx ::
  "auth_env \<Rightarrow> seconds \<Rightarrow> string \<Rightarrow> string option \<Rightarrow> (dict \<Rightarrow> (connection, http_error + 'a) state) \<Rightarrow>
     (connection, http_error + 'a) state" where
  "require_auth_tx env now auth_header q handler = do {
     user \<leftarrow> query (require_auth env now auth_header q);
     (case user of Inl e \<Rightarrow> State_Monad.return (Inl e) | Inr claims \<Rightarrow> handler claims)
   }"

definition with_sub :: "dict \<Rightarrow> (string \<Rightarrow> (connection, http_error + 'a) state) \<Rightarrow> (connection, http_error + 'a) state" where
  "with_sub user k = (case user_sub user of Inl e \<Rightarrow> State_Monad.return (Inl e) | Inr u \<Rightarrow> k u)"

definition api_change_password_tx ::
  "auth_env \<Rightarrow> string \<Rightarrow> string \<Rightarrow> string \<Rightarrow> dict \<Rightarrow> (connection, http_error + string list) state" where
  "api_change_password_tx env new_salt cur new user = with_sub user (\<lambda>u. do {
     ok \<leftarrow> change_password_tx env new_salt u cur new;
     (if \<not> ok then State_Monad.return (Inl (HttpError 400 ''current password is incorrect'' None))
      else do {
        ended \<leftarrow> elsewhere (terminate_whep_sessions u);
        State_Monad.return (locked ended)
      })
   })"

definition register_whep_and_recheck_tx ::
  "string \<Rightarrow> json \<Rightarrow> string \<Rightarrow> int \<Rightarrow> (connection, http_error + string list) state" where
  "register_whep_and_recheck_tx u epoch path now = do {
     done \<leftarrow> elsewhere (\<lambda>db. ((), register_whep_session u path now db));
     (case done of
        None \<Rightarrow> State_Monad.return (Inl internal_error)
      | Some _ \<Rightarrow> do {
          current \<leftarrow> read_elsewhere (get_epoch u);
          (if claim_eq epoch current then State_Monad.return (Inr [])
           else do { ended \<leftarrow> elsewhere (terminate_whep_sessions u); State_Monad.return (locked ended) })
        })
   }"

definition whep_open_tx ::
  "clock \<Rightarrow> nat \<times> string option \<Rightarrow> dict \<Rightarrow> (connection, http_error + nat \<times> string list) state" where
  "whep_open_tx tm answer user =
     (case answer of
        (status, Some location) \<Rightarrow>
          if status = 201 \<and> location \<noteq> [] then
            (case (user_sub user, map_of user ''epoch'') of
               (Inr u, Some epoch) \<Rightarrow> do {
                 r \<leftarrow> register_whep_and_recheck_tx u epoch location (py_int_of_float (tm 1));
                 State_Monad.return (map_sum id (\<lambda>ended. (status, ended)) r)
               }
             | _ \<Rightarrow> State_Monad.return (Inl internal_error))
          else State_Monad.return (Inr (status, []))
      | (status, None) \<Rightarrow> State_Monad.return (Inr (status, [])))"

definition whep_close_tx :: "string \<Rightarrow> dict \<Rightarrow> (connection, http_error + unit) state" where
  "whep_close_tx session user = with_sub user (\<lambda>u. do {
     done \<leftarrow> elsewhere (\<lambda>db. ((), unregister_whep_session u (''/live/whep/'' @ session) db));
     State_Monad.return (locked done)
   })"

definition put_client_storage_tx ::
  "(real \<Rightarrow> string) \<Rightarrow> string \<Rightarrow> dict \<Rightarrow> dict \<Rightarrow> (connection, http_error + unit) state" where
  "put_client_storage_tx rp k document user =
     (case validate_storage_key k of
        Inl e \<Rightarrow> State_Monad.return (Inl e)
      | Inr _ \<Rightarrow>
          (let data = dumps rp False (JObj document) in
           if client_storage_max_bytes < utf8_length data
           then State_Monad.return (Inl (HttpError 413 ''document too large'' None))
           else with_sub user (\<lambda>u. do {
             _ \<leftarrow> update (upsert_storage u k data);
             State_Monad.return (Inr ())
           })))"

definition error_of :: "http_error + 'a \<Rightarrow> http_error option" where
  "error_of r = (case r of Inl e \<Rightarrow> Some e | Inr _ \<Rightarrow> None)"

text \<open>A request from \<open>get_db\<close> to \<open>get_db\<close>, with the error it is answered with, if any.\<close>

definition serve_tx :: "auth_env \<Rightarrow> (real \<Rightarrow> string) \<Rightarrow> call \<Rightarrow> (connection, http_error option) state" where
  "serve_tx env rp c =
     (let tm = cl_clock c; fresh = cl_fresh c in
      case cl_request c of
        Login u p m \<Rightarrow> do { r \<leftarrow> with_db (login_tx env tm fresh u p m); State_Monad.return (error_of r) }
      | Refresh t \<Rightarrow> do { r \<leftarrow> with_db (refresh_tx env tm fresh t); State_Monad.return (error_of r) }
      | Logout h t \<Rightarrow> do { r \<leftarrow> with_db (logout_tx env (tm 0) h t); State_Monad.return (error_of r) }
      | ChangePassword h q cur new \<Rightarrow> do {
          r \<leftarrow> with_db (require_auth_tx env (tm 0) h q (api_change_password_tx env fresh cur new));
          State_Monad.return (error_of r) }
      | WhepOpen h q answer \<Rightarrow> do {
          r \<leftarrow> with_db (require_auth_tx env (tm 0) h q (whep_open_tx tm answer)); State_Monad.return (error_of r) }
      | WhepClose h q session \<Rightarrow> do {
          r \<leftarrow> with_db (require_auth_tx env (tm 0) h q (whep_close_tx session)); State_Monad.return (error_of r) }
      | PutStorage h q k document \<Rightarrow> do {
          r \<leftarrow> with_db (require_auth_tx env (tm 0) h q (put_client_storage_tx rp k document));
          State_Monad.return (error_of r) })"

text \<open>The error of the same request in \<open>Router_Sessions\<close>.\<close>

definition refusal :: "auth_env \<Rightarrow> (real \<Rightarrow> string) \<Rightarrow> call \<Rightarrow> router_db \<Rightarrow> http_error option" where
  "refusal env rp c db =
     (let tm = cl_clock c; fresh = cl_fresh c in
      case cl_request c of
        Login u p m \<Rightarrow> error_of (fst (login env tm fresh u p m db))
      | Refresh t \<Rightarrow> error_of (fst (refresh env tm fresh t db))
      | Logout h t \<Rightarrow> None
      | ChangePassword h q cur new \<Rightarrow> error_of (fst (api_change_password env (tm 0) fresh h q cur new db))
      | WhepOpen h q answer \<Rightarrow> error_of (fst (whep_open env tm h q answer db))
      | WhepClose h q session \<Rightarrow> fst (whep_close env (tm 0) h q session db)
      | PutStorage h q k document \<Rightarrow> error_of (fst (api_put_storage env rp (tm 0) h q k document db)))"

section \<open>Statements against functions\<close>

abbreviation conn :: "router_db \<Rightarrow> router_db option \<Rightarrow> router_db list \<Rightarrow> connection" where
  "conn db w past \<equiv> \<lparr>committed = db, pending = w, commits = past\<rparr>"

lemma run_statements [simp]:
  "run_state (query f) (conn db None past) = (f db, conn db None past)"
  "run_state (query f) (conn db (Some w) past) = (f w, conn db (Some w) past)"
  "run_state (execute g) (conn db None past) = (fst (g db), conn db (Some (snd (g db))) past)"
  "run_state (execute g) (conn db (Some w) past) = (fst (g w), conn db (Some (snd (g w))) past)"
  "run_state commit (conn db (Some w) past) = ((), conn w None (past @ [w]))"
  "run_state commit (conn db None past) = ((), conn db None past)"
  "run_state rollback (conn db v past) = ((), conn db None past)"
  "run_state (elsewhere g) (conn db None past) = (Some (fst (g db)), conn (snd (g db)) None (past @ [snd (g db)]))"
  "run_state (elsewhere g) (conn db (Some w) past) = (None, conn db (Some w) past)"
  "run_state (read_elsewhere f) (conn db v past) = (f db, conn db v past)"
  by (simp_all add: query_def execute_def commit_def rollback_def elsewhere_def read_elsewhere_def seen_def split: prod.split)

lemma run_purge [simp]:
  "run_state (purge_expired_tx t) (conn db None past) = ((), conn (purge_expired t db) None (past @ [purge_expired t db]))"
  by (simp add: purge_expired_tx_def purge_expired_def Let_def)

lemma run_bump [simp]:
  "run_state (bump_epoch_tx u) (conn db None past) = ((), conn (bump_epoch u db) None (past @ [bump_epoch u db]))"
  by (simp add: bump_epoch_tx_def)

lemma run_revoke_all [simp]:
  "run_state (revoke_all_tx u) (conn db None past) = (fst (revoke_all_refresh_tokens u db),
     conn (snd (revoke_all_refresh_tokens u db)) None (past @ [snd (revoke_all_refresh_tokens u db)]))"
  by (simp add: revoke_all_tx_def)

lemma run_revoke_one [simp]:
  "run_state (revoke_refresh_token_tx env t) (conn db None past) = (fst (revoke_refresh_token env t db),
     conn (snd (revoke_refresh_token env t db)) None (past @ [snd (revoke_refresh_token env t db)]))"
  by (simp add: revoke_refresh_token_tx_def revoke_refresh_token_def Let_def)

lemma run_failure [simp]:
  "run_state (record_failure_tx u now) (conn db None past) = (fst (record_failure u now db),
     conn (snd (record_failure u now db)) None
       (past @ (case find_user u db of None \<Rightarrow> [] | Some _ \<Rightarrow> [snd (record_failure u now db)])))"
  by (simp add: record_failure_tx_def record_failure_def Let_def split: option.split)

lemma run_issue [simp]:
  "run_state (issue_refresh_token_tx env u now fresh) (conn db None past) =
     (case issue_refresh_token env u now fresh db of
        Some db' \<Rightarrow> (True, conn db' None (past @ [db'])) | None \<Rightarrow> (False, conn db (Some db) past))"
  "run_state (issue_refresh_token_tx env u now fresh) (conn db (Some w) past) =
     (case issue_refresh_token env u now fresh w of
        Some db' \<Rightarrow> (True, conn db' None (past @ [db'])) | None \<Rightarrow> (False, conn db (Some w) past))"
  by (simp_all add: issue_refresh_token_tx_def insert_row_def split: option.split)

text \<open>
  \<open>handles\<close>: the handler answers \<open>r\<close>, and the file ends at \<open>db'\<close> once \<open>get_db\<close> has committed or
  rolled back; every database in the file on the way is \<open>good\<close>.
\<close>

definition closes :: "http_error + 'a \<Rightarrow> router_db option \<Rightarrow> router_db list" where
  "closes r w = (case r of Inl _ \<Rightarrow> [] | Inr _ \<Rightarrow> (case w of None \<Rightarrow> [] | Some db \<Rightarrow> [db]))"

definition handles ::
  "(router_db \<Rightarrow> bool) \<Rightarrow> (connection, http_error + 'a) state \<Rightarrow> router_db \<Rightarrow> http_error + 'a \<Rightarrow> router_db \<Rightarrow> bool" where
  "handles good h db r db' \<longleftrightarrow> (\<forall>past. \<exists>w dbs. run_state h (conn db None past) = (r, conn (last (db # dbs)) w (past @ dbs)) \<and>
     db' = last (db # dbs @ closes r w) \<and> list_all good (dbs @ closes r w))"

text \<open>A step that leaves no transaction open.\<close>

definition txn ::
  "(router_db \<Rightarrow> bool) \<Rightarrow> (connection, 'a) state \<Rightarrow> router_db \<Rightarrow> 'a \<Rightarrow> router_db \<Rightarrow> bool" where
  "txn good m db x db' \<longleftrightarrow> (\<forall>past. \<exists>dbs. run_state m (conn db None past) = (x, conn (last (db # dbs)) None (past @ dbs)) \<and>
     db' = last (db # dbs) \<and> list_all good dbs)"

lemma last_more: "last (last (x # xs) # ys) = last (x # xs @ ys)"
  by simp

lemma txn_return: "txn good (State_Monad.return x) db x db"
  by (simp add: txn_def exI[of _ "[]"])

lemma txn_query: "txn good (query f) db (f db) db" "txn good (read_elsewhere f) db (f db) db"
  by (simp_all add: txn_def exI[of _ "[]"])

lemma txn_one:
  assumes "\<And>past. run_state m (conn db None past) = (x, conn db' None (past @ [db']))" "good db'"
  shows "txn good m db x db'"
  using assms by (simp add: txn_def exI[of _ "[db']"])

lemma txn_none:
  assumes "\<And>past. run_state m (conn db None past) = (x, conn db None past)"
  shows "txn good m db x db"
  using assms by (simp add: txn_def exI[of _ "[]"])

lemma txn_bind:
  assumes "txn good m db x db1" "txn good (k x) db1 y db2"
  shows "txn good (m \<bind> k) db y db2"
  unfolding txn_def
proof
  fix past
  obtain dbs where m: "run_state m (conn db None past) = (x, conn (last (db # dbs)) None (past @ dbs))"
    "db1 = last (db # dbs)" "list_all good dbs"
    using assms(1) unfolding txn_def by blast
  obtain dbs' where k: "run_state (k x) (conn db1 None (past @ dbs)) = (y, conn (last (db1 # dbs')) None ((past @ dbs) @ dbs'))"
    "db2 = last (db1 # dbs')" "list_all good dbs'"
    using assms(2) unfolding txn_def by blast
  have "run_state (m \<bind> k) (conn db None past) = (y, conn (last (db # dbs @ dbs')) None (past @ dbs @ dbs'))"
    using m(1,2) k(1) last_more[of db dbs dbs'] by simp
  moreover have "db2 = last (db # dbs @ dbs')" unfolding k(2) m(2) by (rule last_more)
  ultimately show "\<exists>dbs. run_state (m \<bind> k) (conn db None past) = (y, conn (last (db # dbs)) None (past @ dbs)) \<and>
      db2 = last (db # dbs) \<and> list_all good dbs"
    using m(3) k(3) by (intro exI[of _ "dbs @ dbs'"]) simp
qed

lemma handles_txn: "txn good m db r db' \<Longrightarrow> handles good m db r db'"
  unfolding txn_def handles_def closes_def by (fastforce split: sum.split)

lemma handles_bind:
  assumes "txn good m db x db1" "handles good (k x) db1 y db2"
  shows "handles good (m \<bind> k) db y db2"
  unfolding handles_def
proof
  fix past
  obtain dbs where m: "run_state m (conn db None past) = (x, conn (last (db # dbs)) None (past @ dbs))"
    "db1 = last (db # dbs)" "list_all good dbs"
    using assms(1) unfolding txn_def by blast
  obtain w dbs' where k: "run_state (k x) (conn db1 None (past @ dbs)) = (y, conn (last (db1 # dbs')) w ((past @ dbs) @ dbs'))"
    "db2 = last (db1 # dbs' @ closes y w)" "list_all good (dbs' @ closes y w)"
    using assms(2) unfolding handles_def by blast
  have "run_state (m \<bind> k) (conn db None past) = (y, conn (last (db # dbs @ dbs')) w (past @ dbs @ dbs'))"
    using m(1,2) k(1) last_more[of db dbs dbs'] by simp
  moreover have "db2 = last (db # (dbs @ dbs') @ closes y w)"
    unfolding k(2) m(2) using last_more[of db dbs "dbs' @ closes y w"] by simp
  ultimately show "\<exists>w dbs. run_state (m \<bind> k) (conn db None past) = (y, conn (last (db # dbs)) w (past @ dbs)) \<and>
      db2 = last (db # dbs @ closes y w) \<and> list_all good (dbs @ closes y w)"
    using m(3) k(3) by (intro exI[of _ w] exI[of _ "dbs @ dbs'"]) simp
qed

lemma with_db_txn:
  assumes "handles good h db r db'"
  shows "txn good (with_db h) db r db'"
  unfolding txn_def
proof
  fix past
  obtain w dbs where h: "run_state h (conn db None past) = (r, conn (last (db # dbs)) w (past @ dbs))"
    "db' = last (db # dbs @ closes r w)" "list_all good (dbs @ closes r w)"
    using assms unfolding handles_def by blast
  have "run_state (with_db h) (conn db None past) = (r, conn db' None (past @ dbs @ closes r w))"
    using h(1,2) by (cases r; cases w) (simp_all add: with_db_def closes_def)
  then show "\<exists>dbs. run_state (with_db h) (conn db None past) = (r, conn (last (db # dbs)) None (past @ dbs)) \<and>
      db' = last (db # dbs) \<and> list_all good dbs"
    using h(2,3) by (intro exI[of _ "dbs @ closes r w"]) simp
qed

lemma txn_by:
  assumes "\<And>past. run_state m (conn db None past) = (x, conn (last (db # dbs)) None (past @ dbs))"
    and "db' = last (db # dbs)" "list_all good dbs"
  shows "txn good m db x db'"
  using assms unfolding txn_def by blast

lemma handles_by:
  assumes "\<And>past. run_state m (conn db None past) = (r, conn (last (db # dbs)) w (past @ dbs))"
    and "db' = last (db # dbs @ closes r w)" "list_all good (dbs @ closes r w)"
  shows "handles good m db r db'"
  using assms unfolding handles_def by blast

lemma handles_then:
  assumes "handles good m db r db'" "k r = State_Monad.return r'" "\<And>w. closes r' w = closes r w"
  shows "handles good (m \<bind> k) db r' db'"
  unfolding handles_def
proof
  fix past
  obtain w dbs where m: "run_state m (conn db None past) = (r, conn (last (db # dbs)) w (past @ dbs))"
    and ends: "db' = last (db # dbs @ closes r w)" "list_all good (dbs @ closes r w)"
    using assms(1) unfolding handles_def by blast
  have "run_state (m \<bind> k) (conn db None past) = (r', conn (last (db # dbs)) w (past @ dbs))"
    using assms(2) by (simp only: run_state_bind m prod.case run_state_return)
  then show "\<exists>w dbs. run_state (m \<bind> k) (conn db None past) = (r', conn (last (db # dbs)) w (past @ dbs)) \<and>
      db' = last (db # dbs @ closes r' w) \<and> list_all good (dbs @ closes r' w)"
    unfolding assms(3) using ends by blast
qed

lemma handles_raise:
  "handles good m db (Inl e) db' \<Longrightarrow> k (Inl e) = State_Monad.return (Inl e) \<Longrightarrow> handles good (m \<bind> k) db (Inl e) db'"
  by (erule handles_then) (simp_all add: closes_def)

lemma handles_map:
  "handles good m db (Inr x) db' \<Longrightarrow> handles good (m \<bind> (\<lambda>r. State_Monad.return (map_sum id f r))) db (Inr (f x)) db'"
  by (erule handles_then) (simp_all add: closes_def)

lemma handles_return: "handles good (State_Monad.return r) db r db"
  by (rule handles_txn[OF txn_return])

lemma txn_elsewhere: "good (snd (f db)) \<Longrightarrow> txn good (elsewhere f) db (Some (fst (f db))) (snd (f db))"
  by (rule txn_one) simp_all

definition finishes ::
  "(router_db \<Rightarrow> bool) \<Rightarrow> (connection, http_error + 'a) state \<Rightarrow> router_db \<Rightarrow> (http_error + 'a) \<times> router_db \<Rightarrow> bool" where
  "finishes good m db res \<longleftrightarrow> (case res of
     (Inl e, db') \<Rightarrow> handles good m db (Inl e) db' | (Inr x, db') \<Rightarrow> txn good m db (Inr x) db')"

lemma finishes_handles: "finishes good m db (r, db') \<Longrightarrow> handles good m db r db'"
  by (auto simp: finishes_def handles_txn split: sum.splits)

lemma finishes_txn: "txn good m db r db' \<Longrightarrow> finishes good m db (r, db')"
  by (auto simp: finishes_def handles_txn split: sum.splits)

context account_steps begin

lemma purge_tx: "good db \<Longrightarrow> txn good (purge_expired_tx t) db () (purge_expired t db)"
  by (rule txn_one) (simp_all add: purge)

lemma failure_tx: "good db \<Longrightarrow> txn good (record_failure_tx u now) db (fst (record_failure u now db)) (snd (record_failure u now db))"
proof (cases "find_user u db")
  case None
  then have "snd (record_failure u now db) = db" by (simp add: record_failure_def)
  then show ?thesis using None by (intro txn_by[where dbs = "[]"]) simp_all
next
  case (Some row)
  then show "good db \<Longrightarrow> ?thesis" by (intro txn_one) (simp_all add: failure)
qed

lemma replace_tx:
  assumes "good db" "allowed fresh"
  shows "finishes good (replace_session_tx env tm fresh u row rem) db (replace_session env tm fresh u row rem db)"
proof -
  let ?a = "snd (revoke_all_refresh_tokens u db)"
  let ?b = "bump_epoch u ?a"
  have ab: "good ?a" "good ?b" using assms(1) by (simp_all add: revoke_every bump)
  show ?thesis
  proof (cases rem)
    case False
    then show ?thesis using ab
      by (auto simp: finishes_def replace_session_def replace_session_tx_def Let_def intro!: txn_by[where dbs = "[?a, ?b]"])
  next
    case True
    show ?thesis
    proof (cases "issue_refresh_token env u (tm 5) fresh ?b")
      case None
      then show ?thesis using True ab
        by (auto simp: finishes_def replace_session_def replace_session_tx_def Let_def closes_def
            intro!: handles_by[where dbs = "[?a, ?b]" and w = "Some ?b"])
    next
      case (Some c)
      then have "good c" using issue[OF ab(2) assms(2)] by simp
      then show ?thesis using True ab Some
        by (auto simp: finishes_def replace_session_def replace_session_tx_def Let_def intro!: txn_by[where dbs = "[?a, ?b, c]"])
    qed
  qed
qed

lemma finishes_bind:
  assumes "txn good m db x db1" "finishes good (k x) db1 res"
  shows "finishes good (m \<bind> k) db res"
proof (cases res)
  case (Pair r db2)
  then show ?thesis using assms
    by (cases r) (auto simp: finishes_def intro: txn_bind handles_bind)
qed

lemma authenticate_tx:
  assumes "good db" "allowed fresh"
  shows "finishes good (authenticate_tx env tm fresh u p rem) db (authenticate env tm fresh u p rem db)"
proof -
  let ?db1 = "purge_expired (tm 0) db"
  let ?row = "find_user u ?db1"
  let ?remaining = "case ?row of Some x \<Rightarrow> check_lockout x (tm 1) | None \<Rightarrow> 0"
  let ?valid = "case ?row of Some x \<Rightarrow> if verify_password env p (salt x) (password_hash x) then Some x else None | None \<Rightarrow> None"
  let ?db2 = "?db1\<lparr>users := update_where (\<lambda>x. user_name x = u) (set_lock 0 0) (users ?db1)\<rparr>"
  have good1: "good ?db1" using assms(1) by (rule purge)
  have unlock: "txn good (update (\<lambda>db. db\<lparr>users := update_where (\<lambda>x. user_name x = u) (set_lock 0 0) (users db)\<rparr>) \<bind> (\<lambda>_. commit))
      ?db1 () ?db2"
    using clear_lock[OF good1, of "\<lambda>x. user_name x = u"] by (intro txn_one) simp_all
  consider "0 < ?remaining" | "\<not> 0 < ?remaining" "?valid = None" | x where "\<not> 0 < ?remaining" "?valid = Some x" by blast
  then have "finishes good (authenticate_tx env tm fresh u p rem) db (authenticate env tm fresh u p rem db)"
  proof cases
    case 1
    then show ?thesis unfolding authenticate_tx_def authenticate_def Let_def
      by (intro finishes_bind[OF purge_tx[OF assms(1)]] finishes_bind[OF txn_query(1)]) (simp add: finishes_txn txn_return)
  next
    case 2
    let ?f = "record_failure u (tm 2) ?db1"
    have "finishes good (record_failure_tx u (tm 2) \<bind> (\<lambda>n. State_Monad.return
        (if n \<noteq> 0 then Inl (too_many_attempts n) else Inr None))) ?db1
        ((if fst ?f \<noteq> 0 then Inl (too_many_attempts (fst ?f)) else Inr None), snd ?f)"
      by (rule finishes_txn, rule txn_bind[OF failure_tx[OF good1]], rule txn_return)
    then show ?thesis using 2 unfolding authenticate_tx_def authenticate_def Let_def
      by (intro finishes_bind[OF purge_tx[OF assms(1)]] finishes_bind[OF txn_query(1)]) (simp add: case_prod_unfold)
  next
    case 3
    have g2: "good ?db2" using good1 by (rule clear_lock)
    show ?thesis using 3 unfolding authenticate_tx_def authenticate_def Let_def
      by (intro finishes_bind[OF purge_tx[OF assms(1)]] finishes_bind[OF txn_query(1)])
        (use finishes_bind[OF unlock replace_tx[OF g2 assms(2), of tm u x rem]] in simp)
  qed
  then show ?thesis .
qed

end

lemma update_none: "row_count p rows = 0 \<Longrightarrow> update_where p f rows = rows"
  by (induction rows) (auto simp: row_count_def update_where_def split: if_splits)

lemma not_revoked: "row_count (live_hash h) (refresh_tokens db) = 0 \<Longrightarrow>
   db\<lparr>refresh_tokens := update_where (live_hash h) set_revoked (refresh_tokens db)\<rparr> = db"
  by (simp add: update_none)

context account_steps begin

lemma terminate_tx:
  assumes "good db"
  shows "txn good (elsewhere (terminate_whep_sessions u)) db (Some (fst (terminate_whep_sessions u db))) (snd (terminate_whep_sessions u db))"
  by (rule txn_elsewhere) (rule terminate[OF assms])

lemma login_tx:
  assumes "good db" "allowed fresh"
  shows "handles good (login_tx env tm fresh u p rem) db
    (case login env tm fresh u p rem db of (Inl e, _, _) \<Rightarrow> Inl e | (Inr out, _, ended) \<Rightarrow> Inr (out, ended))
    (fst (snd (login env tm fresh u p rem db)))"
proof -
  obtain r db1 where a: "authenticate env tm fresh u p rem db = (r, db1)" by fastforce
  have g1: "good db1" using authenticate_good[OF assms, of tm u p rem] a by simp
  have m: "finishes good (authenticate_tx env tm fresh u p rem) db (r, db1)" using authenticate_tx[OF assms] a by metis
  obtain ended db2 where w: "terminate_whep_sessions u db1 = (ended, db2)" by fastforce
  show ?thesis
  proof (cases r)
    case (Inl e)
    have "handles good (login_tx env tm fresh u p rem) db (Inl e) db1" unfolding login_tx_def
      by (rule handles_raise[where e = e]) (use m Inl in \<open>auto dest: finishes_handles\<close>)
    then show ?thesis using a Inl by (simp add: login_def)
  next
    case (Inr x)
    then have t: "txn good (authenticate_tx env tm fresh u p rem) db (Inr x) db1" using m by (simp add: finishes_def)
    show ?thesis
    proof (cases x)
      case None
      then show ?thesis using a Inr unfolding login_tx_def
        by (auto simp: login_def intro!: handles_bind[OF t] handles_return)
    next
      case (Some out)
      then show ?thesis using a Inr w terminate_tx[OF g1, of u] unfolding login_tx_def
        by (auto simp: login_def locked_def intro!: handles_bind[OF t] handles_bind[of good _ db1 "Some ended" db2] handles_return)
    qed
  qed
qed

lemma rotate_tx:
  assumes "good db" "allowed fresh"
  shows "case rotate_refresh_token env tm fresh t db of
     (None, db') \<Rightarrow> (\<forall>past. \<exists>w. run_state (rotate_refresh_token_tx env tm fresh t) (conn db None past) =
        (None, conn db' w (past @ [db']))) \<and> good db'
   | (Some x, db') \<Rightarrow> txn good (rotate_refresh_token_tx env tm fresh t) db (Some x) db'"
proof -
  let ?db1 = "purge_expired (tm 0) db" and ?h = "hash_refresh env t"
  let ?db2 = "?db1\<lparr>refresh_tokens := update_where (live_hash ?h) set_revoked (refresh_tokens ?db1)\<rparr>"
  have g1: "good ?db1" using assms(1) by (rule purge)
  have g2: "good ?db2" using revoke_one[OF g1, of t] by (simp add: revoke_refresh_token_def Let_def)
  have stop: "txn good (rotate_refresh_token_tx env tm fresh t) db (Some None) ?db1"
    if "find_refresh ?h ?db1 = None \<or> (\<exists>r. find_refresh ?h ?db1 = Some r \<and> (revoked r \<or> expires_at r < py_int_of_float (tm 1)))"
    using that g1 by (intro txn_by[where dbs = "[?db1]"]) (auto simp: rotate_refresh_token_tx_def Let_def)
  show ?thesis
  proof (cases "find_refresh ?h ?db1")
    case None
    then show ?thesis using stop by (simp add: rotate_refresh_token_def Let_def)
  next
    case (Some r)
    show ?thesis
    proof (cases "revoked r \<or> expires_at r < py_int_of_float (tm 1)")
      case True
      then show ?thesis using stop Some by (simp add: rotate_refresh_token_def Let_def)
    next
      case live: False
      show ?thesis
      proof (cases "row_count (live_hash ?h) (refresh_tokens ?db1) = 0")
        case True
        then have "txn good (rotate_refresh_token_tx env tm fresh t) db (Some None) ?db1"
          using live Some g1 not_revoked[OF True]
          by (intro txn_by[where dbs = "[?db1, ?db1]"]) (simp_all add: rotate_refresh_token_tx_def Let_def)
        then show ?thesis using live Some True by (simp add: rotate_refresh_token_def Let_def)
      next
        case False
        show ?thesis
        proof (cases "issue_refresh_token env (rt_username r) (tm 2) fresh ?db2")
          case None
          then show ?thesis using live Some False g1 by (simp add: rotate_refresh_token_def rotate_refresh_token_tx_def Let_def)
        next
          case issued: (Some db3)
          have "good db3" using issue[OF g2 assms(2) issued] .
          then have "txn good (rotate_refresh_token_tx env tm fresh t) db (Some (Some (rt_username r, fresh))) db3"
            using live Some False g1 issued
            by (intro txn_by[where dbs = "[?db1, db3]"]) (simp_all add: rotate_refresh_token_tx_def Let_def)
          then show ?thesis using live Some False issued by (simp add: rotate_refresh_token_def Let_def)
        qed
      qed
    qed
  qed
qed

lemma refresh_tx:
  assumes "good db" "allowed fresh"
  shows "handles good (refresh_tx env tm fresh t) db (fst (refresh env tm fresh t db)) (snd (refresh env tm fresh t db))"
proof -
  obtain r db1 where rot: "rotate_refresh_token env tm fresh t db = (r, db1)" by fastforce
  show ?thesis
  proof (cases r)
    case None
    then have raised: "\<And>past. \<exists>w. run_state (rotate_refresh_token_tx env tm fresh t) (conn db None past) = (None, conn db1 w (past @ [db1]))"
      and "good db1" using rotate_tx[OF assms, of tm t] rot by simp_all
    have "handles good (refresh_tx env tm fresh t) db (Inl internal_error) db1"
      unfolding handles_def
    proof
      fix past
      obtain w where "run_state (rotate_refresh_token_tx env tm fresh t) (conn db None past) = (None, conn db1 w (past @ [db1]))"
        using raised by blast
      then show "\<exists>w dbs. run_state (refresh_tx env tm fresh t) (conn db None past) =
          (Inl internal_error, conn (last (db # dbs)) w (past @ dbs)) \<and>
          db1 = last (db # dbs @ closes (Inl internal_error :: http_error + token_out) w) \<and>
          list_all good (dbs @ closes (Inl internal_error :: http_error + token_out) w)"
        using \<open>good db1\<close> by (intro exI[of _ w] exI[of _ "[db1]"]) (simp add: refresh_tx_def closes_def)
    qed
    then show ?thesis using rot None by (simp add: refresh_def)
  next
    case (Some x)
    then have t: "txn good (rotate_refresh_token_tx env tm fresh t) db (Some x) db1" using rotate_tx[OF assms, of tm t] rot by simp
    show ?thesis
      using rot Some unfolding refresh_tx_def
      by (cases x) (auto simp: refresh_def intro!: handles_bind[OF t] handles_bind[OF txn_query(1)] handles_return)
  qed
qed

end

context account_steps begin

lemma bump_tx: "good db \<Longrightarrow> txn good (bump_epoch_tx u) db () (bump_epoch u db)"
  by (rule txn_one) (simp_all add: bump)

lemma logout_tx:
  assumes "good db"
  shows "handles good (logout_tx env now h t) db (Inr (snd (logout env now h t db))) (fst (logout env now h t db))"
proof -
  let ?by = "case t of Some t \<Rightarrow> if t = [] then (None, db) else revoke_refresh_token env t db | None \<Rightarrow> (None, db)"
  let ?db1 = "snd ?by"
  have g1: "good ?db1" using assms revoke_one[OF assms] by (auto split: option.split)
  have by_refresh: "txn good (case t of Some t \<Rightarrow> if t = [] then State_Monad.return None else revoke_refresh_token_tx env t
      | None \<Rightarrow> State_Monad.return None) db (fst ?by) ?db1"
    by (auto split: option.split intro!: txn_return txn_one revoke_one assms)
  let ?k = "\<lambda>by_refresh. case by_refresh of
        Some u \<Rightarrow> State_Monad.return (if u = [] then None else Some u)
      | None \<Rightarrow>
          (case bearer_token h of
             None \<Rightarrow> State_Monad.return None
           | Some t \<Rightarrow>
               (case verify_token env now t of
                  None \<Rightarrow> State_Monad.return None
                | Some claims \<Rightarrow> query (\<lambda>db.
                    if claims \<noteq> [] \<and> epoch_current claims db \<and> claim_sub claims \<noteq> []
                    then Some (claim_sub claims) else None)))"
  let ?user = "logout_user env now h t db"
  have db1: "snd ?user = ?db1"
    by (cases ?by) (auto simp: logout_user_def split: option.split)
  have name: "txn good (?k (fst ?by)) ?db1 (fst ?user) ?db1"
    unfolding logout_user_def
    by (cases ?by) (auto split: option.split intro!: txn_return txn_none)
  have rest: "handles good (case username of
        None \<Rightarrow> State_Monad.return (Inr [])
      | Some u \<Rightarrow> bump_epoch_tx u \<bind> (\<lambda>_. elsewhere (terminate_whep_sessions u) \<bind> (\<lambda>ended. State_Monad.return (locked ended))))
      ?db1 (Inr (case username of None \<Rightarrow> [] | Some u \<Rightarrow> fst (terminate_whep_sessions u (bump_epoch u ?db1))))
      (case username of None \<Rightarrow> ?db1 | Some u \<Rightarrow> snd (terminate_whep_sessions u (bump_epoch u ?db1)))" for username
    by (cases username)
      (auto simp: locked_def intro!: handles_return handles_bind[OF bump_tx[OF g1]] handles_bind[OF terminate_tx[OF bump[OF g1]]])
  have "handles good (logout_tx env now h t) db
      (Inr (case fst ?user of None \<Rightarrow> [] | Some u \<Rightarrow> fst (terminate_whep_sessions u (bump_epoch u ?db1))))
      (case fst ?user of None \<Rightarrow> ?db1 | Some u \<Rightarrow> snd (terminate_whep_sessions u (bump_epoch u ?db1)))"
    unfolding logout_tx_def by (rule handles_bind[OF by_refresh], rule handles_bind[OF name], rule rest)
  moreover have "logout env now h t db = (case fst ?user of None \<Rightarrow> (?db1, [])
      | Some u \<Rightarrow> (snd (terminate_whep_sessions u (bump_epoch u ?db1)), fst (terminate_whep_sessions u (bump_epoch u ?db1))))"
    unfolding logout_def by (subst prod.collapse[of ?user, symmetric]) (simp add: db1 case_prod_unfold split: option.split)
  ultimately show ?thesis by (auto split: option.splits)
qed

lemma require_tx:
  assumes "\<And>user. require_auth env now h q db = Inr user \<Longrightarrow> handles good (k user) db (f user) (d user)"
  shows "handles good (require_auth_tx env now h q k) db
    (case require_auth env now h q db of Inl e \<Rightarrow> Inl e | Inr user \<Rightarrow> f user)
    (case require_auth env now h q db of Inl e \<Rightarrow> db | Inr user \<Rightarrow> d user)"
  unfolding require_auth_tx_def
  by (rule handles_bind[OF txn_query(1)]) (use assms in \<open>auto split: sum.split intro: handles_return\<close>)

lemma change_tx:
  assumes "good db"
  shows "txn good (change_password_tx env slt u cur new) db (fst (change_password env slt u cur new db))
    (snd (change_password env slt u cur new db))"
proof (cases "find_user u db")
  case None
  then show ?thesis by (intro txn_by[where dbs = "[]"]) (simp_all add: change_password_tx_def change_password_def)
next
  case (Some row)
  show ?thesis
  proof (cases "verify_password env cur (salt row) (password_hash row)")
    case False
    with Some show ?thesis by (intro txn_by[where dbs = "[]"]) (simp_all add: change_password_tx_def change_password_def)
  next
    case True
    let ?a = "db\<lparr>users := update_where (\<lambda>x. user_name x = u) (set_password (hash_password env new slt) slt) (users db)\<rparr>"
    have "good ?a" using assms by (rule new_password)
    then show ?thesis using Some True
      by (intro txn_by[where dbs = "[?a, snd (revoke_all_refresh_tokens u ?a), bump_epoch u (snd (revoke_all_refresh_tokens u ?a))]"])
        (simp_all add: change_password_tx_def change_password_def Let_def revoke_every bump)
  qed
qed

lemma api_change_tx:
  assumes "good db"
  shows "handles good (require_auth_tx env now h q (api_change_password_tx env slt cur new)) db
    (case api_change_password env now slt h q cur new db of (Inl e, _, _) \<Rightarrow> Inl e | (Inr _, _, ended) \<Rightarrow> Inr ended)
    (fst (snd (api_change_password env now slt h q cur new db)))"
proof -
  have "handles good (api_change_password_tx env slt cur new user) db
      (case user_sub user of Inl e \<Rightarrow> Inl e | Inr u \<Rightarrow>
        if fst (change_password env slt u cur new db)
        then Inr (fst (terminate_whep_sessions u (snd (change_password env slt u cur new db))))
        else Inl (HttpError 400 ''current password is incorrect'' None))
      (case user_sub user of Inl e \<Rightarrow> db | Inr u \<Rightarrow>
        if fst (change_password env slt u cur new db)
        then snd (terminate_whep_sessions u (snd (change_password env slt u cur new db)))
        else snd (change_password env slt u cur new db))" for user
  proof (cases "user_sub user")
    case (Inl e)
    then show ?thesis by (simp add: api_change_password_tx_def with_sub_def handles_return)
  next
    case (Inr u)
    have g: "good (snd (change_password env slt u cur new db))"
      using assms by (auto simp: change_password_def Let_def split: option.split intro: bump revoke_every new_password)
    show ?thesis
      using Inr unfolding api_change_password_tx_def with_sub_def
      by (auto simp: locked_def intro!: handles_bind[OF change_tx[OF assms]] handles_return handles_bind[OF terminate_tx[OF g]])
  qed
  from require_tx[where k = "api_change_password_tx env slt cur new", OF this, of now h q] show ?thesis
    by (auto simp: api_change_password_def case_prod_unfold split: sum.splits if_splits)
qed

lemma whep_close_tx:
  assumes "good db"
  shows "handles good (require_auth_tx env now h q (whep_close_tx session)) db
    (case fst (whep_close env now h q session db) of Some e \<Rightarrow> Inl e | None \<Rightarrow> Inr ())
    (snd (whep_close env now h q session db))"
proof -
  have "handles good (whep_close_tx session user) db (map_sum id (\<lambda>_. ()) (user_sub user))
      (case user_sub user of Inl e \<Rightarrow> db | Inr u \<Rightarrow> unregister_whep_session u (''/live/whep/'' @ session) db)" for user
    unfolding whep_close_tx_def with_sub_def
    by (auto simp: locked_def split: sum.split
        intro!: handles_return handles_bind[OF txn_elsewhere] unregister assms)
  from require_tx[where k = "whep_close_tx session", OF this, of now h q] show ?thesis
    by (auto simp: whep_close_def split: sum.splits)
qed

lemma register_tx:
  assumes "good db"
  shows "handles good (register_whep_and_recheck_tx u epoch path now) db
    (Inr (fst (register_whep_and_recheck u epoch path now db))) (snd (register_whep_and_recheck u epoch path now db))"
proof -
  let ?db1 = "register_whep_session u path now db"
  have g1: "good ?db1" using assms by (rule register)
  have reg: "txn good (elsewhere (\<lambda>db. ((), register_whep_session u path now db))) db (Some ()) ?db1"
    using txn_elsewhere[of good "\<lambda>db. ((), register_whep_session u path now db)" db] g1 by simp
  show ?thesis unfolding register_whep_and_recheck_tx_def register_whep_and_recheck_def
    by (rule handles_bind[OF reg])
      (auto simp: locked_def intro!: handles_bind[OF txn_query(2)] handles_bind[OF terminate_tx[OF g1]] handles_return)
qed

end

context account_steps begin

lemma whep_open_tx:
  assumes "good db"
  shows "handles good (require_auth_tx env (tm 0) h q (whep_open_tx tm answer)) db
    (case whep_open env tm h q answer db of (Inl e, _, _) \<Rightarrow> Inl e | (Inr status, _, ended) \<Rightarrow> Inr (status, ended))
    (fst (snd (whep_open env tm h q answer db)))"
proof -
  let ?r = "\<lambda>u epoch path. register_whep_and_recheck u epoch path (py_int_of_float (tm 1)) db"
  let ?go = "\<lambda>user. case answer of (status, Some location) \<Rightarrow>
       if status = 201 \<and> location \<noteq> [] then
         (case (user_sub user, map_of user ''epoch'') of
            (Inr u, Some epoch) \<Rightarrow> (Inr (status, fst (?r u epoch location)), snd (?r u epoch location))
          | _ \<Rightarrow> (Inl internal_error, db))
       else (Inr (status, []), db)
     | (status, None) \<Rightarrow> (Inr (status, []), db)"
  have "handles good (whep_open_tx tm answer user) db (fst (?go user)) (snd (?go user))" for user
  proof -
    obtain status location where a: "answer = (status, location)" by fastforce
    show ?thesis
    proof (cases "location \<noteq> None \<and> status = 201 \<and> the location \<noteq> [] \<and> (\<exists>u. user_sub user = Inr u) \<and> map_of user ''epoch'' \<noteq> None")
      case False
      then show ?thesis using a
        by (auto simp: whep_open_tx_def handles_return split: option.splits sum.splits)
    next
      case True
      then obtain u epoch path where eqs: "location = Some path" "status = 201" "path \<noteq> []" "user_sub user = Inr u"
        "map_of user ''epoch'' = Some epoch" by auto
      have "handles good (register_whep_and_recheck_tx u epoch path (py_int_of_float (tm 1)) \<bind>
          (\<lambda>r. State_Monad.return (map_sum id (\<lambda>ended. (status, ended)) r))) db
          (Inr (status, fst (?r u epoch path))) (snd (?r u epoch path))"
        using handles_map[OF register_tx[OF assms, of u epoch path "py_int_of_float (tm 1)"], of "\<lambda>ended. (status, ended)"] by simp
      then show ?thesis using a eqs by (simp add: whep_open_tx_def)
    qed
  qed
  from require_tx[where k = "whep_open_tx tm answer" and f = "\<lambda>user. fst (?go user)" and d = "\<lambda>user. snd (?go user)", OF this, of "tm 0" h q]
  show ?thesis
    by (auto simp: whep_open_def case_prod_unfold split: sum.splits option.splits if_splits)
qed

lemma put_tx:
  assumes "good db"
  shows "handles good (require_auth_tx env now h q (put_client_storage_tx rp k document)) db
    (fst (api_put_storage env rp now h q k document db)) (snd (api_put_storage env rp now h q k document db))"
proof -
  have "handles good (update (upsert_storage u k data) \<bind> (\<lambda>_. State_Monad.return (Inr ()))) db
      (Inr ()) (upsert_storage u k data db)" for u data
    by (rule handles_by[where dbs = "[]" and w = "Some (upsert_storage u k data db)"])
      (simp_all add: closes_def upsert assms)
  then have "handles good (put_client_storage_tx rp k document user) db
      (fst (put_client_storage rp k document user db)) (snd (put_client_storage rp k document user db))" for user
    by (auto simp: put_client_storage_tx_def put_client_storage_def with_sub_def Let_def split: sum.split intro: handles_return)
  from require_tx[where k = "put_client_storage_tx rp k document", OF this, of now h q] show ?thesis
    by (auto simp: api_put_storage_def split: sum.splits)
qed

lemma served:
  assumes "handles good m db r db'"
  shows "txn good (with_db m \<bind> (\<lambda>r. State_Monad.return (error_of r))) db (error_of r) db'"
  by (rule txn_bind[OF with_db_txn[OF assms] txn_return])

lemma serve_tx:
  assumes "good db" "allowed (cl_fresh c)"
  shows "txn good (serve_tx env rp c) db (refusal env rp c db) (serve env rp c db)"
proof (cases "cl_request c")
  case (Login u p m)
  show ?thesis using served[OF login_tx[OF assms, of "cl_clock c" u p m]] Login
    by (auto simp: serve_tx_def serve_def refusal_def Let_def error_of_def split: prod.splits sum.splits)
next
  case (Refresh t)
  show ?thesis using served[OF refresh_tx[OF assms, of "cl_clock c" t]] Refresh
    by (simp add: serve_tx_def serve_def refusal_def Let_def)
next
  case (Logout h t)
  show ?thesis using served[OF logout_tx[OF assms(1), of "cl_clock c 0" h t]] Logout
    by (simp add: serve_tx_def serve_def refusal_def Let_def error_of_def)
next
  case (ChangePassword h q cur new)
  show ?thesis using served[OF api_change_tx[OF assms(1), of "cl_clock c 0" h q "cl_fresh c" cur new]] ChangePassword
    by (auto simp: serve_tx_def serve_def refusal_def Let_def error_of_def split: prod.splits sum.splits)
next
  case (WhepOpen h q answer)
  show ?thesis using served[OF whep_open_tx[OF assms(1), of "cl_clock c" h q answer]] WhepOpen
    by (auto simp: serve_tx_def serve_def refusal_def Let_def error_of_def split: prod.splits sum.splits)
next
  case (WhepClose h q session)
  show ?thesis using served[OF whep_close_tx[OF assms(1), of "cl_clock c 0" h q session]] WhepClose
    by (auto simp: serve_tx_def serve_def refusal_def Let_def error_of_def split: prod.splits sum.splits option.splits)
next
  case (PutStorage h q k document)
  show ?thesis using served[OF put_tx[OF assms(1), of "cl_clock c 0" h q rp k document]] PutStorage
    by (simp add: serve_tx_def serve_def refusal_def Let_def)
qed

end

interpretation any: account_steps env "\<lambda>_. True" "\<lambda>_. True" for env
  by unfold_locales simp_all

section \<open>The handlers as functions\<close>


section \<open>A request cut off\<close>

text \<open>
  The databases the file holds while a request is served. A process that dies leaves one of them,
  and the next start seeds the default account (\<open>lifespan\<close> of \<open>router/main.py\<close>); the signing secret
  is read from its file again.
\<close>

definition held :: "auth_env \<Rightarrow> (real \<Rightarrow> string) \<Rightarrow> call \<Rightarrow> router_db \<Rightarrow> router_db list" where
  "held env rp c db =
     db # commits (snd (run_state (serve_tx env rp c) \<lparr>committed = db, pending = None, commits = []\<rparr>))"

text \<open>\<open>Died c n slt\<close>: the process died at the \<open>n\<close>-th database of \<open>c\<close>; \<open>slt\<close> is drawn at the restart.\<close>

datatype life = Served call | Died call nat string

fun live_on :: "auth_env \<Rightarrow> (real \<Rightarrow> string) \<Rightarrow> string \<Rightarrow> string \<Rightarrow> life \<Rightarrow> router_db \<Rightarrow> router_db" where
  "live_on env rp user pass (Served c) db = serve env rp c db"
| "live_on env rp user pass (Died c n slt) db =
     seed_default_user env user pass slt (let dbs = held env rp c db in dbs ! min n (length dbs - 1))"

context account_steps begin

lemma held_good:
  assumes "good db" "allowed (cl_fresh c)"
  shows "list_all good (held env rp c db)"
proof -
  obtain dbs where "run_state (serve_tx env rp c) (conn db None []) = (refusal env rp c db, conn (last (db # dbs)) None dbs)"
    "list_all good dbs"
    using serve_tx[OF assms, of rp, unfolded txn_def, THEN spec, of "[]"] by (auto simp del: last.simps)
  then show ?thesis using assms(1) by (simp add: held_def)
qed

lemma life_good:
  assumes "good db" "\<And>slt db. good db \<Longrightarrow> good (seed_default_user env user pass slt db)"
    and "case l of Served c \<Rightarrow> allowed (cl_fresh c) | Died c _ _ \<Rightarrow> allowed (cl_fresh c)"
  shows "good (live_on env rp user pass l db)"
proof (cases l)
  case (Served c)
  then show ?thesis using serve_good assms(1,3) by simp
next
  case (Died c n slt)
  have "list_all good (held env rp c db)" using held_good assms(1,3) Died by simp
  moreover have "min n (length (held env rp c db) - 1) < length (held env rp c db)" by (simp add: held_def)
  ultimately have "good (held env rp c db ! min n (length (held env rp c db) - 1))"
    unfolding list_all_length by blast
  then show ?thesis using Died assms(2) by (simp add: Let_def)
qed

end

lemma seed_find: "find_user u db = Some row \<Longrightarrow> find_user u (seed_default_user env user pass slt db) = Some row"
  by (auto simp: seed_default_user_def select_one_append split: option.split)

lemma seed_frame [frame_simps]:
  "refresh_tokens (seed_default_user env user pass slt db) = refresh_tokens db"
  "whep_sessions (seed_default_user env user pass slt db) = whep_sessions db"
  "client_storage (seed_default_user env user pass slt db) = client_storage db"
  by (simp_all add: seed_default_user_def split: option.split)

lemma seed_inv: "router_inv db \<Longrightarrow> router_inv (seed_default_user env user pass slt db)"
proof (cases "find_user user db")
  case None
  then have "user \<notin> user_name ` set (users db)" by (simp add: select_one_None)
  then show "router_inv db \<Longrightarrow> ?thesis" using None
    by (simp add: router_inv_def seed_default_user_def unique_by_def limiter_ok_def new_user_def lockout_threshold_def)
qed (simp add: seed_default_user_def)

lemma seed_epoch: "epoch_le db (seed_default_user env user pass slt db)"
  by (auto simp: epoch_le_def get_epoch_def dest: seed_find)

interpretation life_inv: keeps router_inv "live_on env rp user pass" for env rp user pass
  by unfold_locales (rule inv.life_good, auto intro: seed_inv split: life.split)

interpretation life_epoch: moves epoch_le "live_on env rp user pass" for env rp user pass
proof unfold_locales
  show "epoch_le s (live_on env rp user pass a s)" for a s
    by (rule epoch.life_good) (auto intro: epoch_le_trans seed_epoch split: life.split)
qed (auto intro: epoch_le_trans)

text \<open>
  C13. A crash revives no session: served or cut off after any of their commits, with restarts in
  between, requests keep the tables well formed, and an access token whose epoch is over
  stays refused.
\<close>

theorem crash_revives_nothing:
  assumes "router_inv db" "get_epoch u db = Some n" "e < n"
  shows "router_inv (fold (live_on env rp user pass) ls db) \<and>
    (\<exists>d. require_auth env now (bearer (create_token env t0 t1 u e)) q (fold (live_on env rp user pass) ls db) =
      Inl (HttpError 401 d None))"
proof
  show "router_inv (fold (live_on env rp user pass) ls db)" using assms(1) by (rule life_inv.run_keeps)
  have "epoch_le db (fold (live_on env rp user pass) ls db)" by (rule life_epoch.run_rel)
  with assms(2) obtain n' where "get_epoch u (fold (live_on env rp user pass) ls db) = Some n'" "n \<le> n'"
    by (auto simp: epoch_le_def)
  with assms(3) show "\<exists>d. require_auth env now (bearer (create_token env t0 t1 u e)) q
      (fold (live_on env rp user pass) ls db) = Inl (HttpError 401 d None)"
    by (auto simp: require_auth_minted)
qed

text \<open>
  A password change is three commits. When the process dies after the first, the new password
  is in force and the old sessions live on: the access token that asked for the change is
  accepted as before, and every refresh token is as it was.
\<close>

theorem crash_splits_password_change:
  assumes auth: "require_auth env (tm 0) h q db = Inr user" "user_sub user = Inr u"
    and row: "find_user u db = Some row" "verify_password env cur (salt row) (password_hash row)"
  shows "let db' = live_on env rp name pass
      (Died \<lparr>cl_clock = tm, cl_fresh = slt, cl_request = ChangePassword h q cur new\<rparr> 1 slt') db in
    (\<exists>row'. find_user u db' = Some row' \<and> verify_password env new (salt row') (password_hash row')) \<and>
    require_auth env (tm 0) h q db' = Inr user \<and> refresh_tokens db' = refresh_tokens db"
proof -
  let ?c = "\<lparr>cl_clock = tm, cl_fresh = slt, cl_request = ChangePassword h q cur new\<rparr>"
  define db' where "db' = live_on env rp name pass (Died ?c 1 slt') db"
  let ?f = "set_password (hash_password env new slt) slt"
  let ?a = "db\<lparr>users := update_where (\<lambda>x. user_name x = u) ?f (users db)\<rparr>"
  have "\<exists>more. held env rp ?c db = db # ?a # more"
    using auth row
    by (simp add: held_def serve_tx_def with_db_def require_auth_tx_def api_change_password_tx_def with_sub_def
        change_password_tx_def locked_def)
  then have db': "db' = seed_default_user env name pass slt' ?a" by (auto simp: db'_def Let_def)
  have name: "user_name row = u" using row(1) by (rule select_one_key)
  have a: "find_user u ?a = Some (?f row)" using row(1) name by (simp add: passwd.select_update)
  have found: "find_user u db' = Some (?f row)" unfolding db' using a by (rule seed_find)
  have sub: "claim_sub user = u" using auth(2) by (auto simp: user_sub_def claim_sub_def split: option.splits json.splits)
  have "get_epoch u db' = get_epoch u db" using found row(1) by (simp add: get_epoch_def set_password_def)
  then have "epoch_current user db' = epoch_current user db" by (simp add: epoch_current_def sub)
  then have "require_auth env (tm 0) h q db' = Inr user"
    using auth(1) by (auto simp: require_auth_def Let_def split: option.splits if_splits)
  moreover have "refresh_tokens db' = refresh_tokens db" by (simp add: db' seed_frame)
  ultimately show ?thesis unfolding db'_def[symmetric] Let_def using found by (simp add: verify_password_def set_password_def)
qed

section \<open>The properties on a concrete account\<close>

theorem crash_revives_nothing_witness:
  "router_inv (fold (live_on sample_env (\<lambda>_. []) ''admin'' ''admin'')
      [Died \<lparr>cl_clock = sample_clock, cl_fresh = ''r2'', cl_request = Login ''ann'' ''pw'' True\<rparr> 3 ''s2'',
       Served \<lparr>cl_clock = sample_clock, cl_fresh = ''r3'', cl_request = Login ''ann'' ''pw'' False\<rparr>] sample_db) \<and>
   (\<exists>d. require_auth sample_env 1001 (bearer (create_token sample_env 900 900 ''ann'' 3)) None
     (fold (live_on sample_env (\<lambda>_. []) ''admin'' ''admin'')
      [Died \<lparr>cl_clock = sample_clock, cl_fresh = ''r2'', cl_request = Login ''ann'' ''pw'' True\<rparr> 3 ''s2'',
       Served \<lparr>cl_clock = sample_clock, cl_fresh = ''r3'', cl_request = Login ''ann'' ''pw'' False\<rparr>] sample_db)
     = Inl (HttpError 401 d None))"
proof (rule crash_revives_nothing)
  show "router_inv sample_db"
    by (simp add: router_inv_def sample_db_def unique_by_def limiter_ok_def lockout_threshold_def)
  show "get_epoch ''ann'' sample_db = Some 4" by (simp add: get_epoch_def sample_db_def)
qed simp

theorem crash_splits_password_change_witness:
  "require_auth sample_env 1000 (bearer (create_token sample_env 900 900 ''ann'' 4)) None
     (live_on sample_env (\<lambda>_. []) ''admin'' ''admin'' (Died \<lparr>cl_clock = sample_clock, cl_fresh = ''t'',
       cl_request = ChangePassword (bearer (create_token sample_env 900 900 ''ann'' 4)) None ''pw'' ''new''\<rparr> 1 ''s2'') sample_db)
   = Inr (jwt_claims ''ann'' 900 1500 4)"
proof -
  let ?h = "bearer (create_token sample_env 900 900 ''ann'' 4)" and ?row = "hd (users sample_db)"
  have "get_epoch ''ann'' sample_db = Some 4" by (simp add: get_epoch_def sample_db_def)
  then have "require_auth sample_env (sample_clock 0) ?h None sample_db = Inr (jwt_claims ''ann'' 900 1500 4)"
    by (simp add: require_auth_minted sample_env_def py_int_of_float_def sample_clock_def)
  moreover have "user_sub (jwt_claims ''ann'' 900 1500 4) = Inr ''ann''" by (simp add: user_sub_def jwt_claims_def)
  moreover have "find_user ''ann'' sample_db = Some ?row" by (simp add: sample_db_def)
  moreover have "verify_password sample_env ''pw'' (salt ?row) (password_hash ?row)"
    by (simp add: sample_db_def verify_password_def hash_password_def sample_env_def)
  ultimately have "require_auth sample_env (sample_clock 0) ?h None
     (live_on sample_env (\<lambda>_. []) ''admin'' ''admin'' (Died \<lparr>cl_clock = sample_clock, cl_fresh = ''t'',
       cl_request = ChangePassword ?h None ''pw'' ''new''\<rparr> 1 ''s2'') sample_db) = Inr (jwt_claims ''ann'' 900 1500 4)"
    using crash_splits_password_change[of sample_env sample_clock ?h None sample_db] by (simp only: Let_def)
  then show ?thesis by (simp add: sample_clock_def)
qed

end
