(* ===== verification/Recorder_Races.thy ===== *)
theory Recorder_Races
  imports Recorder_Events
begin

text \<open>
  The threads of the recorder at the clip tree. A user's deletion (\<open>recorder/main.py\<close>), the
  capacity pruning of an event (\<open>recorder/clip_storage.py\<close>) and the publication of another
  event's clip (\<open>recorder/finalize.py\<close>) run at the same time, without a lock over the files: here
  each is cut at its file accesses.

  The first part is the clip counter, whose adjustments come after the file operations they
  count. The second is one thread against the others: \<open>other i\<close> is what the other threads do to
  the tree before its i-th access. A sidecar goes with its mp4, and the files a listing finds are
  those of one moment; the \<open>stat\<close> of each of them is an access of its own.
\<close>

section \<open>The counter and its pending adjustments\<close>

text \<open>
  \<open>adding\<close> are the clips in place that their thread has not counted yet, with their sizes;
  \<open>removing\<close> are the sizes of files unlinked and not yet uncounted.
\<close>

record clip_world =
  tree :: clip_tree
  adding :: "((string list \<times> string) \<times> nat) list"
  removing :: "nat list"

definition unlink_clip :: "clip \<Rightarrow> clip_tree \<Rightarrow> clip_tree" where
  "unlink_clip c t = t\<lparr>clips := filter (\<lambda>d. clip_path d \<noteq> clip_path c) (clips t)\<rparr>"

lemma drop_clip_steps: "drop_clip c t = count_removed_clip (cp_size c) (unlink_clip c t)"
  by (simp add: drop_clip_def unlink_clip_def)

text \<open>
  The steps of all threads. \<open>take_away\<close> is any deletion, by a user or by the pruning, of a clip
  that has been counted; the unlink succeeds in one thread only, which then adjusts the counter.
\<close>

inductive clip_world_step :: "clip_world \<Rightarrow> clip_world \<Rightarrow> bool" where
  replace: "clip_path c \<notin> clip_path ` set (clips (tree w)) \<Longrightarrow>
    clip_world_step w (w\<lparr>tree := place_clip c (tree w), adding := (clip_path c, cp_size c) # adding w\<rparr>)"
| describe: "clip_world_step w (w\<lparr>tree := set_sidecar path sc (tree w)\<rparr>)"
| count: "adding w = xs @ (path, sz) # ys \<Longrightarrow>
    clip_world_step w (w\<lparr>tree := count_added_clip sz (tree w), adding := xs @ ys\<rparr>)"
| take_away: "c \<in> set (clips (tree w)) \<Longrightarrow> clip_path c \<notin> fst ` set (adding w) \<Longrightarrow>
    clip_world_step w (w\<lparr>tree := unlink_clip c (tree w), removing := cp_size c # removing w\<rparr>)"
| uncount: "removing w = xs @ sz # ys \<Longrightarrow>
    clip_world_step w (w\<lparr>tree := count_removed_clip sz (tree w), removing := xs @ ys\<rparr>)"

definition counted :: "clip_world \<Rightarrow> clip list" where
  "counted w = filter (\<lambda>c. playable c \<and> clip_path c \<notin> fst ` set (adding w)) (clips (tree w))"

definition due :: "clip_world \<Rightarrow> nat list" where
  "due w = filter (\<lambda>sz. min_clip_size \<le> sz) (removing w)"

definition clip_world_inv :: "clip_world \<Rightarrow> bool" where
  "clip_world_inv w \<longleftrightarrow> distinct (map clip_path (clips (tree w))) \<and> distinct (map fst (adding w)) \<and>
     (\<forall>a\<in>set (adding w). \<exists>c\<in>set (clips (tree w)). clip_path c = fst a \<and> cp_size c = snd a) \<and>
     counter (tree w) = int (length (counted w) + length (due w))"

lemma clips_count [simp]: "clips (count_added_clip sz t) = clips t" "clips (count_removed_clip sz t) = clips t"
  by (simp_all add: count_added_clip_def count_removed_clip_def)

lemma clips_unlink [simp]: "clips (unlink_clip c t) = filter (\<lambda>d. clip_path d \<noteq> clip_path c) (clips t)"
  "counter (unlink_clip c t) = counter t"
  by (simp_all add: unlink_clip_def)

lemma sidecar_size [simp]: "cp_size (c\<lparr>cp_sidecar := sc\<rparr>) = cp_size c" "clip_path (c\<lparr>cp_sidecar := sc\<rparr>) = clip_path c"
  "playable (c\<lparr>cp_sidecar := sc\<rparr>) = playable c"
  by (simp_all add: clip_path_def playable_def)

lemma set_sidecar_paths [simp]: "map clip_path (clips (set_sidecar path sc t)) = map clip_path (clips t)"
  "counter (set_sidecar path sc t) = counter t"
  by (simp_all add: set_sidecar_def)

lemma set_sidecar_filter:
  "length (filter (\<lambda>c. playable c \<and> P (clip_path c)) (clips (set_sidecar path sc t))) =
   length (filter (\<lambda>c. playable c \<and> P (clip_path c)) (clips t))"
  by (simp add: set_sidecar_def filter_map comp_def if_distrib[of playable] if_distrib[of clip_path] cong: if_cong)

text \<open>Of a list with distinct keys, one element more passes when its key is let through.\<close>

lemma filter_one_more:
  assumes "distinct (map f cs)" "c \<in> set cs" "f c \<notin> K"
  shows "length (filter (\<lambda>d. P d \<and> f d \<notin> K) cs) =
    length (filter (\<lambda>d. P d \<and> f d \<notin> insert (f c) K) cs) + (if P c then 1 else 0)"
  using assms
proof (induction cs)
  case (Cons d cs)
  show ?case
  proof (cases "d = c")
    case True
    then have "f c \<notin> f ` set cs" using Cons.prems by simp
    then have "f x \<noteq> f c" if "x \<in> set cs" for x using that by (metis image_eqI)
    then have "filter (\<lambda>d. P d \<and> f d \<notin> K) cs = filter (\<lambda>d. P d \<and> f d \<notin> insert (f c) K) cs"
      by (intro filter_cong) auto
    then show ?thesis using True Cons.prems by simp
  next
    case False
    then have "f d \<noteq> f c" "c \<in> set cs" using Cons.prems by auto
    then show ?thesis using Cons by simp
  qed
qed simp

lemma adding_placed:
  assumes "clip_world_inv w" and "a \<in> set (adding w)"
  obtains c where "c \<in> set (clips (tree w))" "clip_path c = fst a" "cp_size c = snd a"
proof -
  have "\<exists>c\<in>set (clips (tree w)). clip_path c = fst a \<and> cp_size c = snd a"
    using assms by (simp add: clip_world_inv_def)
  then show thesis using that by blast
qed

lemma adding_path:
  assumes "clip_world_inv w" and "p \<in> fst ` set (adding w)"
  shows "p \<in> clip_path ` set (clips (tree w))"
proof -
  obtain a where a: "a \<in> set (adding w)" "p = fst a" using assms(2) by blast
  obtain c where "c \<in> set (clips (tree w))" "clip_path c = fst a" using assms(1) a(1) by (rule adding_placed)
  then show ?thesis using a(2) by force
qed

lemma inv_place:
  assumes inv: "clip_world_inv w" and fresh: "clip_path c \<notin> clip_path ` set (clips (tree w))"
  shows "clip_world_inv (w\<lparr>tree := place_clip c (tree w), adding := (clip_path c, cp_size c) # adding w\<rparr>)"
proof -
  note placed = place_fresh[OF fresh]
  have new: "clip_path c \<notin> fst ` set (adding w)" using inv fresh adding_path by blast
  have "filter (\<lambda>d. playable d \<and> clip_path d \<notin> insert (clip_path c) (fst ` set (adding w))) (clips (tree w)) = counted w"
    unfolding counted_def using image_neq[OF fresh] by (intro filter_cong) auto
  then show ?thesis
    using inv fresh new by (simp add: clip_world_inv_def counted_def due_def placed) (simp add: place_clip_def)
qed

lemma inv_sidecar: "clip_world_inv w \<Longrightarrow> clip_world_inv (w\<lparr>tree := set_sidecar path sc (tree w)\<rparr>)"
proof -
  assume inv: "clip_world_inv w"
  have "length (counted (w\<lparr>tree := set_sidecar path sc (tree w)\<rparr>)) = length (counted w)"
    using set_sidecar_filter[of "\<lambda>p. p \<notin> fst ` set (adding w)" path sc "tree w"] by (simp add: counted_def)
  moreover have "\<exists>d\<in>set (clips (set_sidecar path sc (tree w))). clip_path d = fst a \<and> cp_size d = snd a"
    if a: "a \<in> set (adding w)" for a
  proof -
    obtain d where d: "d \<in> set (clips (tree w))" "clip_path d = fst a" "cp_size d = snd a"
      using inv a by (rule adding_placed)
    let ?d = "if clip_path d = path then d\<lparr>cp_sidecar := sc\<rparr> else d"
    have "?d \<in> set (clips (set_sidecar path sc (tree w)))" using d(1) by (simp add: set_sidecar_def)
    then show ?thesis using d(2,3) by (intro bexI[of _ ?d]) auto
  qed
  ultimately show ?thesis using inv by (auto simp: clip_world_inv_def due_def)
qed

lemma inv_count:
  assumes inv: "clip_world_inv w" and add: "adding w = xs @ (path, sz) # ys"
  shows "clip_world_inv (w\<lparr>tree := count_added_clip sz (tree w), adding := xs @ ys\<rparr>)"
proof -
  have "(path, sz) \<in> set (adding w)" by (simp add: add)
  with inv obtain c where c: "c \<in> set (clips (tree w))" "clip_path c = path" "cp_size c = sz"
    using adding_placed by (metis fst_conv snd_conv)
  have dist: "distinct (map clip_path (clips (tree w)))" and left: "distinct (map fst (xs @ ys))"
    and other: "path \<notin> fst ` set (xs @ ys)"
    using inv by (auto simp: clip_world_inv_def add)
  have keys: "fst ` set (adding w) = insert (clip_path c) (fst ` set (xs @ ys))" by (simp add: add c(2))
  have n: "length (filter (\<lambda>d. playable d \<and> clip_path d \<notin> fst ` set (xs @ ys)) (clips (tree w))) =
      length (counted w) + (if playable c then 1 else 0)"
    unfolding counted_def keys by (rule filter_one_more[OF dist c(1)]) (simp only: c(2) other not_False_eq_True)
  have placed: "\<forall>a\<in>set (xs @ ys). \<exists>c\<in>set (clips (tree w)). clip_path c = fst a \<and> cp_size c = snd a"
    using inv by (simp add: clip_world_inv_def add ball_Un)
  have cnt: "counter (count_added_clip sz (tree w)) =
      int (length (filter (\<lambda>d. playable d \<and> clip_path d \<notin> fst ` set (xs @ ys)) (clips (tree w))) + length (due w))"
    using inv c(3) unfolding n by (simp add: clip_world_inv_def count_added_clip_def playable_def)
  show ?thesis
    unfolding clip_world_inv_def counted_def due_def
  proof (intro conjI)
  qed (use dist left placed cnt in \<open>simp_all add: due_def\<close>)
qed

lemma inv_unlink:
  assumes inv: "clip_world_inv w" and c: "c \<in> set (clips (tree w))" "clip_path c \<notin> fst ` set (adding w)"
  shows "clip_world_inv (w\<lparr>tree := unlink_clip c (tree w), removing := cp_size c # removing w\<rparr>)"
proof -
  have "distinct (map clip_path (clips (tree w)))" using inv by (simp add: clip_world_inv_def)
  from filter_one_more[OF this c(1), of "fst ` set (adding w)" playable] c
  have "length (counted w) = length (filter (\<lambda>d. playable d \<and> clip_path d \<notin> fst ` set (adding w))
      (clips (unlink_clip c (tree w)))) + (if playable c then 1 else 0)"
    by (simp add: counted_def conj_ac)
  moreover have "\<exists>d. d \<in> set (clips (tree w)) \<and> clip_path d \<noteq> clip_path c \<and> clip_path d = fst a \<and> cp_size d = snd a"
    if a: "a \<in> set (adding w)" for a
  proof -
    have "fst a \<noteq> clip_path c" using a c(2) by force
    then show ?thesis using adding_placed[OF inv a] by metis
  qed
  ultimately show ?thesis
    using inv by (simp add: clip_world_inv_def counted_def due_def distinct_map_filter playable_def)
qed

lemma inv_uncount:
  assumes inv: "clip_world_inv w" and rm: "removing w = xs @ sz # ys"
  shows "clip_world_inv (w\<lparr>tree := count_removed_clip sz (tree w), removing := xs @ ys\<rparr>)"
  using inv by (auto simp: clip_world_inv_def counted_def due_def rm count_removed_clip_def)

lemma clip_world_keeps: "clip_world_step w w' \<Longrightarrow> clip_world_inv w \<Longrightarrow> clip_world_inv w'"
  by (induction rule: clip_world_step.induct)
    (simp_all add: inv_place inv_sidecar inv_count inv_unlink inv_uncount)


section \<open>A clip deleted before it is counted\<close>

text \<open>
  The same tree with another counter: on a tree whose counter is exact, every operation but a
  recount carries a surplus along unchanged.
\<close>

definition surplus :: "int \<Rightarrow> clip_tree \<Rightarrow> clip_tree" where
  "surplus k t = t\<lparr>counter := counter t + k\<rparr>"

lemma clips_surplus [simp]: "clips (surplus k t) = clips t" "counter (surplus k t) = counter t + k"
  by (simp_all add: surplus_def)

lemma list_surplus [simp]: "list_clip_files (surplus k t) = list_clip_files t"
  by (simp add: list_clip_files_def)

lemma resolve_surplus [simp]: "resolve_clip n (surplus k t) = resolve_clip n t"
  by (simp only: resolve_clip_def clips_surplus)

lemma drop_surplus:
  assumes "tree_inv t" "c \<in> set (clips t)" "0 \<le> k"
  shows "drop_clip c (surplus k t) = surplus k (drop_clip c t)"
proof -
  have "0 < counter t" if "playable c"
  proof -
    have "c \<in> set (filter playable (clips t))" using that assms(2) by simp
    then have "filter playable (clips t) \<noteq> []" by force
    then show ?thesis using assms(1) by (simp add: tree_inv_def)
  qed
  then show ?thesis
    using assms(3) by (auto simp: drop_clip_def surplus_def count_removed_clip_def playable_def)
qed

lemma drop_all_surplus:
  "tree_inv t \<Longrightarrow> set cs \<subseteq> set (clips t) \<Longrightarrow> distinct cs \<Longrightarrow> 0 \<le> k \<Longrightarrow>
   fold drop_clip cs (surplus k t) = surplus k (fold drop_clip cs t)"
proof (induction cs arbitrary: t)
  case (Cons c cs)
  have c: "c \<in> set (clips t)" using Cons.prems by simp
  have d: "distinct (clips t)" using Cons.prems(1) by (auto simp: tree_inv_def distinct_map)
  have "set cs \<subseteq> set (clips (drop_clip c t))"
    using Cons.prems d by (auto simp: drop_clips[OF Cons.prems(1) c])
  from Cons.IH[OF drop_inv[OF Cons.prems(1) c] this] Cons.prems show ?case
    by (simp add: drop_surplus[OF Cons.prems(1) c])
qed simp

lemma delete_surplus:
  "tree_inv t \<Longrightarrow> 0 \<le> k \<Longrightarrow> delete_clips ns (surplus k t) = map_prod id (surplus k) (delete_clips ns t)"
proof (induction ns arbitrary: t)
  case (Cons n ns)
  show ?case
  proof (cases "resolve_clip n t")
    case (Some c)
    note c = resolve_in[OF Some]
    show ?thesis
      using Cons.IH[OF drop_inv[OF Cons.prems(1) c] Cons.prems(2)]
      by (simp add: Some drop_surplus[OF Cons.prems(1) c Cons.prems(2)] split: prod.split)
  qed (simp add: Cons)
qed simp

lemma prune_surplus:
  assumes "tree_inv t" "set cs \<subseteq> set (clips t)" "distinct cs" "0 \<le> k"
  shows "prune_loop target free n cur b cs (surplus k t) =
    (case prune_loop target free n cur b cs t of (cur', n', b', t') \<Rightarrow> (cur', n', b', surplus k t'))"
  using assms
proof (induction target free n cur b cs t rule: prune_loop.induct)
  case (2 target free n cur b c cs t)
  have c: "c \<in> set (clips t)" and d: "distinct (clips t)" using 2 by (auto simp: tree_inv_def distinct_map)
  note drop = drop_surplus[OF "2.prems"(1) c "2.prems"(4)]
  show ?case
  proof (cases "target \<le> free (Suc n)")
    case True
    then show ?thesis by (simp add: delete_clip_pair_def drop)
  next
    case False
    have "set cs \<subseteq> set (clips (drop_clip c t))"
      using "2.prems" d by (auto simp: drop_clips[OF "2.prems"(1) c])
    from "2.IH"[OF delete_clip_pair_def[symmetric] False drop_inv[OF "2.prems"(1) c] this] "2.prems" False
    show ?thesis by (simp add: delete_clip_pair_def drop)
  qed
qed simp

lemma step_surplus:
  assumes "tree_inv t" "0 \<le> k" "op \<noteq> Recount"
  shows "clip_step op (surplus k t) = surplus k (clip_step op t)"
proof -
  have d: "distinct (clips t)" using assms(1) by (auto simp: tree_inv_def distinct_map)
  show ?thesis
  proof (cases op)
    case (Publish c)
    then show ?thesis by (simp add: publish_clip_def place_clip_def count_added_clip_def surplus_def)
  next
    case (DeleteNames ns)
    then show ?thesis using delete_surplus[OF assms(1,2)] by (cases "delete_clips ns t") simp
  next
    case DeleteAll
    then show ?thesis using drop_all_surplus[OF assms(1) order_refl d assms(2)] by (simp add: delete_all_clips_def)
  next
    case (Prune free pol)
    have "set (list_clip_files t) \<subseteq> set (clips t)" "distinct (list_clip_files t)"
      using d by (simp_all add: list_clip_files_def)
    from prune_surplus[OF assms(1) this assms(2)] Prune show ?thesis
      by (auto simp: ensure_clip_capacity_def split: prod.split)
  qed (use assms(3) in simp)
qed

lemma run_surplus:
  "tree_inv t \<Longrightarrow> 0 \<le> k \<Longrightarrow> Recount \<notin> set ops \<Longrightarrow> fold clip_step ops (surplus k t) = surplus k (fold clip_step ops t)"
  by (induction ops arbitrary: t) (auto simp: step_surplus clip_step_inv)

text \<open>
  "Delete all" while an event publishes its clip: the clip is deleted in place but not
  counted, the counter stops at zero, and the late count leaves it at one over an empty tree.
  From then on it reports one clip too many, after any publications, deletions and prunings,
  until a restart recounts.
\<close>

theorem delete_all_during_publish_drifts:
  assumes inv: "tree_inv t" and fresh: "clip_path c \<notin> clip_path ` set (clips t)" and big: "playable c"
    and ops: "Recount \<notin> set ops"
  shows "let t1 = count_added_clip (cp_size c) (snd (delete_all_clips (place_clip c t))); t2 = fold clip_step ops t1 in
    clips t1 = [] \<and> counter t1 = 1 \<and> counter t2 = int (length (filter playable (clips t2))) + 1"
proof -
  let ?e = "\<lparr>clips = [], counter = 0\<rparr>"
  have placed: "clips (place_clip c t) = clips t @ [c]" by (rule place_fresh[OF fresh])
  have cnt: "counter (fold drop_clip cs u) = max 0 (counter u - int (length (filter playable cs)))" if "0 \<le> counter u" for cs u
    using that by (induction cs arbitrary: u) (auto simp: drop_clip_def count_removed_clip_def playable_def)
  have none: "clips (fold drop_clip cs u) = filter (\<lambda>d. clip_path d \<notin> clip_path ` set cs) (clips u)" for cs u
    by (induction cs arbitrary: u) (auto simp: drop_clip_def count_removed_clip_def intro: filter_cong)
  have "snd (delete_all_clips (place_clip c t)) = ?e"
  proof -
    have "counter (place_clip c t) = counter t" by (simp add: place_clip_def)
    moreover have "0 \<le> counter t" "counter t = int (length (filter playable (clips t)))" using inv by (simp_all add: tree_inv_def)
    moreover have "counter (snd (delete_all_clips (place_clip c t))) =
        max 0 (counter (place_clip c t) - int (length (filter playable (clips (place_clip c t)))))"
      unfolding delete_all_clips_def snd_conv by (rule cnt) (use calculation in simp)
    ultimately have "counter (snd (delete_all_clips (place_clip c t))) = 0" by (simp add: placed)
    moreover have "clips (snd (delete_all_clips (place_clip c t))) = []"
      by (simp add: delete_all_clips_def none filter_empty_conv)
    ultimately show ?thesis by (cases "snd (delete_all_clips (place_clip c t))") simp
  qed
  then have t1: "count_added_clip (cp_size c) (snd (delete_all_clips (place_clip c t))) = surplus 1 ?e"
    using big by (simp add: count_added_clip_def playable_def surplus_def)
  have e: "tree_inv ?e" by (simp add: tree_inv_def)
  then have "tree_inv (fold clip_step ops ?e)" by (rule tree.run_keeps)
  then show ?thesis
    unfolding t1 Let_def using run_surplus[OF e _ ops, of 1] by (simp add: tree_inv_def)
qed

section \<open>One thread against the others\<close>

type_synonym others = "nat \<Rightarrow> clip_tree \<Rightarrow> clip_tree"

abbreviation paths :: "clip_tree \<Rightarrow> (string list \<times> string) set" where
  "paths t \<equiv> clip_path ` set (clips t)"

text \<open>
  Each operation returns the index of the next access and the tree, and \<open>None\<close> when a file
  it had found is gone: FileNotFoundError, which the pruning does not catch.
\<close>

fun stats :: "others \<Rightarrow> nat \<Rightarrow> clip list \<Rightarrow> clip_tree \<Rightarrow> bool \<times> nat \<times> clip_tree" where
  "stats other i [] t = (True, i, t)"
| "stats other i (c # cs) t =
     (let t1 = other i t in
      if clip_path c \<in> paths t1 then stats other (Suc i) cs t1 else (False, Suc i, t1))"

definition list_clip_files_among :: "others \<Rightarrow> nat \<Rightarrow> clip_tree \<Rightarrow> clip list option \<times> nat \<times> clip_tree" where
  "list_clip_files_among other i t =
     (let t0 = other i t in
      case stats other (Suc i) (clips t0) t0 of
        (found, j, t1) \<Rightarrow> (if found then Some (sort_key cp_mtime (clips t0)) else None, j, t1))"

definition delete_clip_pair_among :: "others \<Rightarrow> nat \<Rightarrow> clip \<Rightarrow> clip_tree \<Rightarrow> nat option \<times> nat \<times> clip_tree" where
  "delete_clip_pair_among other i c t =
     (let exists = other i t in
      if clip_path c \<notin> paths exists then (Some 0, Suc i, exists)
      else let statted = other (i + 1) exists in
      if clip_path c \<notin> paths statted then (None, i + 2, statted)
      else let unlinked = other (i + 2) statted in
      if clip_path c \<notin> paths unlinked then (None, i + 3, unlinked)
      else (Some (pair_bytes c), i + 4, count_removed_clip (cp_size c) (other (i + 3) (unlink_clip c unlinked))))"

fun prune_loop_among ::
  "int \<Rightarrow> (nat \<Rightarrow> int) \<Rightarrow> others \<Rightarrow> nat \<Rightarrow> nat \<Rightarrow> int \<Rightarrow> nat \<Rightarrow> clip list \<Rightarrow> clip_tree \<Rightarrow>
     (int \<times> nat \<times> nat) option \<times> nat \<times> clip_tree" where
  "prune_loop_among target free other i n cur bytes [] t = (Some (cur, n, bytes), i, t)"
| "prune_loop_among target free other i n cur bytes (c # cs) t =
     (case delete_clip_pair_among other i c t of
        (None, j, t1) \<Rightarrow> (None, j, t1)
      | (Some b, j, t1) \<Rightarrow>
          (if target \<le> free (Suc n) then (Some (free (Suc n), Suc n, bytes + b), j, t1)
           else prune_loop_among target free other j (Suc n) (free (Suc n)) (bytes + b) cs t1))"

definition ensure_clip_capacity_among ::
  "(nat \<Rightarrow> int) \<Rightarrow> storage_policy \<Rightarrow> others \<Rightarrow> nat \<Rightarrow> clip_tree \<Rightarrow> storage_result option \<times> nat \<times> clip_tree" where
  "ensure_clip_capacity_among free pol other i t =
     (if min_free pol \<le> free 0 then
        (Some \<lparr>sr_ok = True, sr_reason = ''ok'', sr_free = free 0, sr_deleted_files = 0, sr_deleted_bytes = 0\<rparr>, i, t)
      else
        (case list_clip_files_among other i t of
           (None, j, t1) \<Rightarrow> (None, j, t1)
         | (Some cs, j, t1) \<Rightarrow>
             (case prune_loop_among (max (min_free pol) (target_free pol)) free other j 0 (free 0) 0 cs t1 of
                (None, k, t2) \<Rightarrow> (None, k, t2)
              | (Some (cur, n, bytes), k, t2) \<Rightarrow>
                  (Some (if min_free pol \<le> cur then
                      \<lparr>sr_ok = True, sr_reason = (if 0 < n then ''pruned_old_clips'' else ''ok''), sr_free = cur,
                       sr_deleted_files = n, sr_deleted_bytes = bytes\<rparr>
                    else \<lparr>sr_ok = False, sr_reason = ''low_disk_space'', sr_free = cur,
                       sr_deleted_files = n, sr_deleted_bytes = bytes\<rparr>), k, t2))))"

definition prune_with_history_among ::
  "(nat \<Rightarrow> int) \<Rightarrow> storage_policy \<Rightarrow> others \<Rightarrow> recorder \<Rightarrow> storage_result option \<times> recorder" where
  "prune_with_history_among free pol other r =
     (case list_clip_files_among other 0 (tree_of r) of
        (None, i, t) \<Rightarrow> (None, r\<lparr>tree_of := t\<rparr>)
      | (Some found, i, t) \<Rightarrow>
          (case ensure_clip_capacity_among free pol other i t of
             (None, j, t1) \<Rightarrow> (None, r\<lparr>tree_of := t1\<rparr>)
           | (Some res, j, t1) \<Rightarrow>
               (if 0 < sr_deleted_files res then
                  (case list_clip_files_among other j t1 of
                     (None, k, t2) \<Rightarrow> (None, r\<lparr>tree_of := t2\<rparr>)
                   | (Some left, k, t2) \<Rightarrow>
                       (Some res, r\<lparr>tree_of := t2, history_of := snd (delete_events_for_clips
                          (filter (\<lambda>n. n \<notin> cp_name ` set left) (map cp_name found)) (history_of r))\<rparr>))
                else (Some res, r\<lparr>tree_of := t1\<rparr>))))"

subsection \<open>With nobody else at the tree\<close>

definition idle_from :: "nat \<Rightarrow> others \<Rightarrow> bool" where
  "idle_from i other \<longleftrightarrow> (\<forall>j t. i \<le> j \<longrightarrow> other j t = t)"

lemma idle_at: "idle_from i other \<Longrightarrow> i \<le> j \<Longrightarrow> other j t = t"
  by (simp add: idle_from_def)

lemma idle_later: "idle_from i other \<Longrightarrow> i \<le> j \<Longrightarrow> idle_from j other"
  by (simp add: idle_from_def)

lemma stats_idle: "idle_from i other \<Longrightarrow> set cs \<subseteq> set (clips t) \<Longrightarrow> stats other i cs t = (True, i + length cs, t)"
proof (induction cs arbitrary: i)
  case (Cons c cs)
  have "clip_path c \<in> paths t" using Cons.prems(2) by auto
  then show ?case
    using Cons.IH[OF idle_later[OF Cons.prems(1), of "Suc i"]] Cons.prems by (simp add: idle_at[OF Cons.prems(1)])
qed simp

lemma list_idle: "idle_from i other \<Longrightarrow> list_clip_files_among other i t = (Some (list_clip_files t), i + Suc (length (clips t)), t)"
  using stats_idle[OF idle_later, of i other "Suc i" "clips t" t]
  by (simp add: list_clip_files_among_def list_clip_files_def idle_at)

lemma delete_idle:
  "idle_from i other \<Longrightarrow> c \<in> set (clips t) \<Longrightarrow> delete_clip_pair_among other i c t = (Some (pair_bytes c), i + 4, drop_clip c t)"
  by (simp add: delete_clip_pair_among_def idle_at drop_clip_steps)

lemma prune_loop_idle:
  assumes "idle_from i other" "tree_inv t" "set cs \<subseteq> set (clips t)" "distinct cs"
  shows "\<exists>j\<ge>i. prune_loop_among target free other i n cur b cs t =
    (case prune_loop target free n cur b cs t of (cur', n', b', t') \<Rightarrow> (Some (cur', n', b'), j, t'))"
  using assms
proof (induction target free n cur b cs t arbitrary: i rule: prune_loop.induct)
  case (2 target free n cur b c cs t)
  have c: "c \<in> set (clips t)" and d: "distinct (clips t)" using 2 by (auto simp: tree_inv_def distinct_map)
  note del = delete_idle[OF "2.prems"(1) c]
  show ?case
  proof (cases "target \<le> free (Suc n)")
    case True
    then show ?thesis by (intro exI[of _ "i + 4"]) (simp add: del delete_clip_pair_def)
  next
    case False
    have sub: "set cs \<subseteq> set (clips (drop_clip c t))" "distinct cs"
      using "2.prems" d by (auto simp: drop_clips[OF "2.prems"(2) c])
    obtain j where "i + 4 \<le> j" "prune_loop_among target free other (i + 4) (Suc n) (free (Suc n)) (b + pair_bytes c) cs (drop_clip c t) =
      (case prune_loop target free (Suc n) (free (Suc n)) (b + pair_bytes c) cs (drop_clip c t) of
        (cur', n', b', t') \<Rightarrow> (Some (cur', n', b'), j, t'))"
      using "2.IH"[OF delete_clip_pair_def[symmetric] False idle_later[OF "2.prems"(1), of "i + 4"]
          drop_inv[OF "2.prems"(2) c] sub] by auto
    then show ?thesis using False by (intro exI[of _ j]) (simp add: del delete_clip_pair_def)
  qed
qed auto

lemma ensure_idle:
  assumes "idle_from i other" "tree_inv t"
  shows "\<exists>j\<ge>i. ensure_clip_capacity_among free pol other i t =
    (case ensure_clip_capacity free pol t of (res, t') \<Rightarrow> (Some res, j, t'))"
proof -
  have cs: "set (list_clip_files t) \<subseteq> set (clips t)" "distinct (list_clip_files t)"
    using assms(2) by (auto simp: list_clip_files_def tree_inv_def distinct_map)
  obtain j where j: "i + Suc (length (clips t)) \<le> j"
    "prune_loop_among (max (min_free pol) (target_free pol)) free other (i + Suc (length (clips t))) 0 (free 0) 0 (list_clip_files t) t =
     (case prune_loop (max (min_free pol) (target_free pol)) free 0 (free 0) 0 (list_clip_files t) t of
       (cur', n', b', t') \<Rightarrow> (Some (cur', n', b'), j, t'))"
    using prune_loop_idle[OF idle_later[OF assms(1)] assms(2) cs, of "i + Suc (length (clips t))"] by fastforce
  show ?thesis
  proof (cases "min_free pol \<le> free 0")
    case True
    then show ?thesis by (auto simp: ensure_clip_capacity_among_def ensure_clip_capacity_def)
  next
    case False
    then show ?thesis using j
      by (intro exI[of _ j]) (simp add: ensure_clip_capacity_among_def ensure_clip_capacity_def list_idle[OF assms(1)] split: prod.split)
  qed
qed

text \<open>The cut pruning, undisturbed, is the pruning.\<close>

lemma prune_undisturbed:
  assumes "idle_from 0 other" "tree_inv (tree_of r)"
  shows "prune_with_history_among free pol other r = (case prune_with_history free pol r of (res, r') \<Rightarrow> (Some res, r'))"
proof -
  note l = list_idle[OF assms(1)]
  obtain res t where e: "ensure_clip_capacity free pol (tree_of r) = (res, t)" by (cases "ensure_clip_capacity free pol (tree_of r)")
  obtain j where "ensure_clip_capacity_among free pol other (Suc (length (clips (tree_of r)))) (tree_of r) = (Some res, j, t)"
    using ensure_idle[OF idle_later[OF assms(1), of "Suc (length (clips (tree_of r)))"] assms(2), of free pol] e by auto
  moreover have "list_clip_files_among other j t = (Some (list_clip_files t), j + Suc (length (clips t)), t)"
    by (rule list_idle[OF idle_later[OF assms(1)]]) simp
  moreover have "set (list_clip_files t) = set (clips t)" by (simp add: list_clip_files_def)
  ultimately show ?thesis
    by (simp add: prune_with_history_among_def prune_with_history_def l e)
qed

subsection \<open>A user deletes clips meanwhile\<close>

text \<open>One deletion by the user, just before the i-th access.\<close>

definition deleting :: "nat \<Rightarrow> clip \<Rightarrow> others" where
  "deleting k c = (\<lambda>i t. if i = k then drop_clip c t else t)"

lemma deleting_at [simp]: "deleting k c k t = drop_clip c t" "i \<noteq> k \<Longrightarrow> deleting k c i t = t"
  by (simp_all add: deleting_def)

lemma deleting_idle: "idle_from (Suc k) (deleting k c)"
  by (simp add: idle_from_def deleting_def)

lemma stats_miss: "idle_from i other \<Longrightarrow> c \<in> set cs \<Longrightarrow> clip_path c \<notin> paths t \<Longrightarrow> \<exists>j. stats other i cs t = (False, j, t)"
proof (induction cs arbitrary: i)
  case (Cons d cs)
  show ?case
  proof (cases "clip_path d \<in> paths t")
    case True
    then have "c \<in> set cs" using Cons.prems by auto
    then show ?thesis using Cons.IH[OF idle_later[OF Cons.prems(1), of "Suc i"]] Cons.prems True
      by (simp add: idle_at[OF Cons.prems(1)])
  qed (simp add: idle_at[OF Cons.prems(1)])
qed simp

lemma drop_path: "clip_path c \<notin> paths (drop_clip c t)"
  by (auto simp: drop_clip_def)

lemma list_disturbed:
  assumes "c \<in> set (clips t)"
  shows "\<exists>j. list_clip_files_among (deleting 1 c) 0 t = (None, j, drop_clip c t)"
proof -
  obtain d ds where ds: "clips t = d # ds" using assms by (cases "clips t") auto
  show ?thesis
  proof (cases "clip_path d \<in> paths (drop_clip c t)")
    case True
    then have "c \<in> set ds" using assms ds drop_path[of c t] by auto
    from stats_miss[OF _ this drop_path[of c t], of "Suc (Suc 0)" "deleting 1 c"] deleting_idle[of 1 c] True show ?thesis
      by (auto simp: list_clip_files_among_def ds numeral_2_eq_2)
  next
    case False
    then show ?thesis by (simp add: list_clip_files_among_def ds)
  qed
qed

lemma finalize_raises:
  assumes "prune r = (None, r1)"
  shows "fst (finalize_rollover_with env ei ca prune r) = Raised"
    "history_of r1 = history_of r \<Longrightarrow> history_of (snd (finalize_rollover_with env ei ca prune r)) = history_of r"
  using assms by (simp_all add: finalize_rollover_with_def Let_def split: option.split prod.split)

text \<open>
  A deletion by the user can cost the next event its clip. The pruning before every
  capture lists the clips, with or without space to spare; when the user deletes one of them between
  the listing and its \<open>stat\<close>, the exception ends the capture: neither the segments nor the direct
  recording are tried, and the event's history row has no clip.
\<close>

theorem deletion_costs_the_next_clip:
  assumes "c \<in> set (clips (tree_of r))"
    and "event_keywords (repr_of env) payload = Some ks" "event_clock (rd_float env) now payload = Some t"
  shows "history_of (process_event_with (\<lambda>ei. capture_with
        (finalize_rollover_with env ei ca1 (prune_with_history_among (ca_free ca1) (policy env) (deleting 1 c)))
        (record_direct_with env ei ca2 prune2)) env now payload r) =
      insert_event (join_with (CHR '','') ks) None (utc_text env t) (history_of r)"
proof -
  obtain j where "list_clip_files_among (deleting 1 c) 0 (tree_of r) = (None, j, drop_clip c (tree_of r))"
    using list_disturbed[OF assms(1)] by blast
  then have "prune_with_history_among (ca_free ca1) (policy env) (deleting 1 c) r = (None, r\<lparr>tree_of := drop_clip c (tree_of r)\<rparr>)"
    by (simp only: prune_with_history_among_def prod.case option.case)
  note raises = finalize_raises[where prune = "prune_with_history_among (ca_free ca1) (policy env) (deleting 1 c)", OF this]
  have h: "history_of (r\<lparr>tree_of := drop_clip c (tree_of r)\<rparr>) = history_of r" by simp
  have "fst (capture_with (finalize_rollover_with env ei ca1 (prune_with_history_among (ca_free ca1) (policy env) (deleting 1 c)))
        (record_direct_with env ei ca2 prune2) r) = None \<and>
      history_of (snd (capture_with (finalize_rollover_with env ei ca1 (prune_with_history_among (ca_free ca1) (policy env) (deleting 1 c)))
        (record_direct_with env ei ca2 prune2) r)) = history_of r" for ei
    using raises(1)[of env ei ca1] raises(2)[OF h, of env ei ca1] unfolding capture_with_def case_prod_unfold by simp
  then show ?thesis by (simp add: process_event_with_def assms(2,3) case_prod_unfold)
qed

lemma prune_some:
  assumes idle: "idle_from i other" and inv: "tree_inv t" and some: "clips t \<noteq> []"
  shows "\<exists>cur n b t2 j. i \<le> j \<and> prune_loop_among target free other i 0 cur0 0 (list_clip_files t) t = (Some (cur, n, b), j, t2) \<and>
    0 < n \<and> set (clips t2) \<subseteq> set (clips t)"
proof -
  let ?cs = "list_clip_files t"
  have cs: "set ?cs \<subseteq> set (clips t)" "distinct ?cs" using inv by (auto simp: list_clip_files_def tree_inv_def distinct_map)
  have len: "length ?cs = length (clips t)" by (simp add: list_clip_files_def)
  obtain cur n b t2 where loop: "prune_loop target free 0 cur0 0 ?cs t = (cur, n, b, t2)"
    by (cases "prune_loop target free 0 cur0 0 ?cs t")
  obtain k where "k \<le> length ?cs" "n = k" "k < length ?cs \<longrightarrow> 0 < k"
    using prune_loop_spec[OF inv cs, of target free 0 cur0 0] unfolding loop by auto
  then have "0 < n" using some len by (cases k) auto
  moreover have "set (clips t2) \<subseteq> set (clips t)"
    using prune_loop_subset[where target = target and free = free and n = 0 and cur = cur0 and bytes = 0 and cs = ?cs and t = t]
    unfolding loop by simp
  moreover obtain j where "i \<le> j" "prune_loop_among target free other i 0 cur0 0 ?cs t = (Some (cur, n, b), j, t2)"
    using prune_loop_idle[OF idle inv cs, of target free 0 cur0 0] by (simp only: loop prod.case) blast
  ultimately show ?thesis by blast
qed

lemma rows_deleted: "n \<in> set names \<Longrightarrow> \<forall>row\<in>set (events (snd (delete_events_for_clips names h))). ev_clip row \<noteq> Some n"
  by (cases "names = []") (auto simp: delete_events_for_clips_def delete_where_def Let_def)

text \<open>
  The user's deletion keeps the history (SDD 5.5), but not while an event prunes: a clip the user deletes
  between the pruning's two listings counts as pruned, and its history rows go with it.
\<close>

theorem pruning_takes_the_users_rows:
  assumes inv: "tree_inv (tree_of r)" and d: "d \<in> set (clips (tree_of r))"
    and own_name: "\<forall>c\<in>set (clips (tree_of r)). cp_name c = cp_name d \<longrightarrow> c = d"
    and low: "free 0 < min_free pol" and more: "1 < length (clips (tree_of r))"
  shows "let k = Suc (length (clips (tree_of r))); (res, r') = prune_with_history_among free pol (deleting k d) r in
    res \<noteq> None \<and> (\<forall>row\<in>set (events (history_of r')). ev_clip row \<noteq> Some (cp_name d))"
proof -
  let ?t = "tree_of r" and ?k = "Suc (length (clips (tree_of r)))"
  have first: "list_clip_files_among (deleting ?k d) 0 ?t = (Some (list_clip_files ?t), ?k, ?t)"
  proof -
    have st: "stats (deleting ?k d) i cs ?t = (True, i + length cs, ?t)" if "set cs \<subseteq> set (clips ?t)" "i + length cs \<le> ?k" for i cs
      using that by (induction cs arbitrary: i) (auto simp: Let_def)
    show ?thesis using st[of "clips ?t" 1] by (simp add: list_clip_files_among_def list_clip_files_def Let_def)
  qed
  let ?t1 = "drop_clip d ?t"
  have inv1: "tree_inv ?t1" by (rule drop_inv[OF inv d])
  have rest: "clips ?t1 = remove1 d (clips ?t)" by (rule drop_clips[OF inv d])
  have "clips ?t1 \<noteq> []" using more d by (auto simp: rest dest!: arg_cong[where f = length] simp: length_remove1)
  have second: "list_clip_files_among (deleting ?k d) ?k ?t =
      (Some (list_clip_files ?t1), ?k + Suc (length (clips ?t1)), ?t1)"
    using stats_idle[OF deleting_idle[of ?k d], of "clips ?t1" ?t1] by (simp add: list_clip_files_among_def list_clip_files_def Let_def)
  obtain cur n b t2 j where j: "?k + Suc (length (clips ?t1)) \<le> j" and
    among: "prune_loop_among (max (min_free pol) (target_free pol)) free (deleting ?k d) (?k + Suc (length (clips ?t1))) 0 (free 0) 0
      (list_clip_files ?t1) ?t1 = (Some (cur, n, b), j, t2)" and "0 < n" and left: "set (clips t2) \<subseteq> set (clips ?t1)"
    using prune_some[OF idle_later[OF deleting_idle[of ?k d]] inv1 \<open>clips ?t1 \<noteq> []\<close>] by (metis add_Suc_right le_add1 Suc_le_mono)
  have "list_clip_files_among (deleting ?k d) j t2 = (Some (list_clip_files t2), j + Suc (length (clips t2)), t2)"
    by (rule list_idle[OF idle_later[OF deleting_idle[of ?k d]]]) (use j in simp)
  moreover obtain res where "ensure_clip_capacity_among free pol (deleting ?k d) ?k ?t = (Some res, j, t2)" "sr_deleted_files res = n"
  proof
    show "ensure_clip_capacity_among free pol (deleting ?k d) ?k ?t = (Some (if min_free pol \<le> cur
        then \<lparr>sr_ok = True, sr_reason = (if 0 < n then ''pruned_old_clips'' else ''ok''), sr_free = cur,
              sr_deleted_files = n, sr_deleted_bytes = b\<rparr>
        else \<lparr>sr_ok = False, sr_reason = ''low_disk_space'', sr_free = cur, sr_deleted_files = n, sr_deleted_bytes = b\<rparr>), j, t2)"
      using low by (simp only: ensure_clip_capacity_among_def second among prod.case option.case not_le[symmetric] if_False)
  qed simp
  ultimately have run: "prune_with_history_among free pol (deleting ?k d) r =
      (Some res, r\<lparr>tree_of := t2, history_of := snd (delete_events_for_clips
        (filter (\<lambda>n. n \<notin> cp_name ` set (list_clip_files t2)) (map cp_name (list_clip_files ?t))) (history_of r))\<rparr>)"
    using \<open>0 < n\<close> by (simp only: prune_with_history_among_def first prod.case option.case if_True)
  have "distinct (clips ?t)" using inv by (auto simp: tree_inv_def distinct_map)
  then have "d \<notin> set (clips t2)" "set (clips t2) \<subseteq> set (clips ?t)" using left by (auto simp: rest)
  then have "cp_name d \<notin> cp_name ` set (clips t2)" using own_name by fastforce
  then have "cp_name d \<in> set (filter (\<lambda>n. n \<notin> cp_name ` set (list_clip_files t2)) (map cp_name (list_clip_files ?t)))"
    using d by (simp add: list_clip_files_def)
  from rows_deleted[OF this] show ?thesis by (simp only: run Let_def prod.case) simp
qed

section \<open>The properties on concrete trees\<close>


theorem delete_all_during_publish_drifts_witness:
  "let c = sample_clip ''new.mp4'' 9;
       t1 = count_added_clip (cp_size c) (snd (delete_all_clips (place_clip c sample_tree)));
       t2 = fold clip_step [Publish (sample_clip ''z.mp4'' 11), DeleteAll] t1 in
     clips t1 = [] \<and> counter t1 = 1 \<and> counter t2 = int (length (filter playable (clips t2))) + 1"
proof -
  have "clip_path (sample_clip ''new.mp4'' 9) \<notin> clip_path ` set (clips sample_tree)" "playable (sample_clip ''new.mp4'' 9)"
    "Recount \<notin> set [Publish (sample_clip ''z.mp4'' 11), DeleteAll]"
    by (simp_all add: sample_tree_def sample_clip_def clip_path_def playable_def min_clip_size_def)
  from delete_all_during_publish_drifts[OF sample_tree_inv this] show ?thesis by (simp only: Let_def)
qed

text \<open>Alone, the same event would have had its clip (\<open>clip_complete_or_absent_witness\<close>).\<close>

theorem deletion_costs_the_next_clip_witness:
  "events (history_of (process_event_with (\<lambda>ei. capture_with
      (finalize_rollover_with sample_env ei sample_capture
         (prune_with_history_among (ca_free sample_capture) (policy sample_env) (deleting 1 (hd (clips sample_tree)))))
      (record_direct_with sample_env ei sample_capture (prune_alone sample_env sample_capture)))
      sample_env 10 [(''keywords'', JList [JStr ''cat'']), (''event_time'', JFloat 10)] sample_recorder)) =
   [\<lparr>ev_id = 1, ev_trigger = ''cat'', ev_clip = None, ev_created = ''u''\<rparr>]"
proof -
  have "hd (clips sample_tree) \<in> set (clips (tree_of sample_recorder))"
    by (simp add: sample_recorder_def sample_tree_def)
  moreover have "event_keywords (repr_of sample_env) [(''keywords'', JList [JStr ''cat'']), (''event_time'', JFloat 10)] = Some [''cat'']"
    "event_clock (rd_float sample_env) 10 [(''keywords'', JList [JStr ''cat'']), (''event_time'', JFloat 10)] = Some 10"
    by (simp_all add: event_keywords_def event_clock_def get_null_def)
  ultimately show ?thesis
    by (subst deletion_costs_the_next_clip) (auto simp: insert_event_def sample_recorder_def sample_env_def)
qed

theorem pruning_takes_the_users_rows_witness:
  "let d = last (clips sample_tree);
       r = sample_recorder\<lparr>history_of := insert_event ''cat'' (Some (cp_name d)) ''u'' (history_of sample_recorder)\<rparr>;
       (res, r') = prune_with_history_among (\<lambda>_. 0) (policy sample_env) (deleting (Suc (length (clips (tree_of r)))) d) r in
     res \<noteq> None \<and> (\<forall>row\<in>set (events (history_of r')). ev_clip row \<noteq> Some (cp_name d))"
proof -
  let ?d = "last (clips sample_tree)"
  let ?r = "sample_recorder\<lparr>history_of := insert_event ''cat'' (Some (cp_name ?d)) ''u'' (history_of sample_recorder)\<rparr>"
  have "tree_inv (tree_of ?r)" by (simp add: sample_recorder_def sample_tree_inv)
  moreover have "?d \<in> set (clips (tree_of ?r))" "\<forall>c\<in>set (clips (tree_of ?r)). cp_name c = cp_name ?d \<longrightarrow> c = ?d"
    "(0 :: int) < min_free (policy sample_env)" "1 < length (clips (tree_of ?r))"
    by (simp_all add: sample_recorder_def sample_tree_def sample_clip_def sample_env_def)
  ultimately show ?thesis
    unfolding Let_def by (rule pruning_takes_the_users_rows[unfolded Let_def])
qed

end
