(* ===== verification/Recorder_Crash.thy ===== *)
theory Recorder_Crash
  imports Recorder_Races
begin

text \<open>
  A crash of the recorder while events are being recorded: \<open>_finalize_rollover_clip\<close> and
  \<open>_record_direct_clip\<close> of \<open>recorder/finalize.py\<close> as the steps they make on the disk (the \<open>.part\<close> file, its
  rename, the sidecar through its temporary file, the history row), cut off anywhere, with several
  events under way at once, and the sweep with which \<open>lifespan\<close> of \<open>recorder/main.py\<close> starts again.
  A crash is the end of the process; what it wrote before is on the disk.
\<close>

section \<open>One event on the disk\<close>

record event_write =
  ew_base :: string
  ew_video :: "string list"
  ew_meta :: "string list"

definition part_path :: "string \<Rightarrow> string" where "part_path b = b @ ''.mp4.part''"
definition mp4_path :: "string \<Rightarrow> string" where "mp4_path b = b @ ''.mp4''"
definition meta_path :: "string \<Rightarrow> string" where "meta_path b = b @ ''.json''"

text \<open>\<open>ew_video\<close> and \<open>ew_meta\<close> are the pieces in which ffmpeg writes the clip and \<open>json.dump\<close> its sidecar.\<close>

definition event_files :: "event_write \<Rightarrow> fs_step list" where
  "event_files e = staged_write (part_path (ew_base e)) (mp4_path (ew_base e)) (ew_video e) @
     atomic_write (meta_path (ew_base e)) (ew_meta e)"

text \<open>An ffmpeg that fails: what it wrote goes again (\<open>cleanup_partial_outputs\<close>).\<close>

definition failed_files :: "event_write \<Rightarrow> fs_step list" where
  "failed_files e = Truncate (part_path (ew_base e)) # map (Append (part_path (ew_base e))) (ew_video e) @
     [Unlink (part_path (ew_base e)), Unlink (meta_path (ew_base e))]"

text \<open>The start of the recorder: leftovers of a crash are removed below CLIP_DIR.\<close>

definition stale :: "string \<Rightarrow> bool" where
  "stale p \<longleftrightarrow> ends_with ''.part'' p \<or> ends_with ''.json.tmp'' p"

definition sweep :: "fs \<Rightarrow> fs" where
  "sweep fs = (\<lambda>p. if stale p then None else fs p)"

fun touched :: "fs_step \<Rightarrow> string set" where
  "touched (Truncate p) = {p}"
| "touched (Append p s) = {p}"
| "touched (Rename p q) = {p, q}"
| "touched (Unlink p) = {p}"

definition own :: "string \<Rightarrow> string set" where
  "own b = {part_path b, mp4_path b, meta_path b, tmp_path (meta_path b)}"

lemma own_neq [simp]:
  "part_path b \<noteq> mp4_path c" "mp4_path c \<noteq> part_path b" "part_path b \<noteq> meta_path c" "meta_path c \<noteq> part_path b"
  "mp4_path b \<noteq> meta_path c" "meta_path c \<noteq> mp4_path b" "tmp_path (meta_path b) \<noteq> part_path c" "part_path c \<noteq> tmp_path (meta_path b)"
  "tmp_path (meta_path b) \<noteq> mp4_path c" "mp4_path c \<noteq> tmp_path (meta_path b)"
  "tmp_path (meta_path b) \<noteq> meta_path c" "meta_path c \<noteq> tmp_path (meta_path b)"
  by (auto simp: part_path_def mp4_path_def meta_path_def tmp_path_def dest!: arg_cong[where f = last])

lemma own_disjoint: "b \<noteq> c \<Longrightarrow> own b \<inter> own c = {}"
  by (auto simp: own_def) (auto simp: part_path_def mp4_path_def meta_path_def tmp_path_def)

lemma stale_own [simp]: "stale (part_path b)" "stale (tmp_path (meta_path b))" "\<not> stale (mp4_path b)" "\<not> stale (meta_path b)"
  by (auto simp: stale_def part_path_def mp4_path_def meta_path_def tmp_path_def ends_with_def)

lemma event_touches: "s \<in> set (event_files e) \<union> set (failed_files e) \<Longrightarrow> touched s \<subseteq> own (ew_base e)"
  by (auto simp: event_files_def failed_files_def staged_write_def atomic_write_def own_def)

text \<open>What a crash of one event leaves.\<close>

lemma clip_after:
  "fold fs_exec (take n (event_files e)) fs (mp4_path (ew_base e)) =
     (if n < length (ew_video e) + 2 then fs (mp4_path (ew_base e)) else Some (concat (ew_video e)))"
  by (simp add: event_files_def staged_write_crash atomic_write_others)

lemma meta_after:
  "fold fs_exec (take n (event_files e)) fs (meta_path (ew_base e)) =
     (if n < length (ew_video e) + length (ew_meta e) + 4 then fs (meta_path (ew_base e)) else Some (concat (ew_meta e)))"
  by (auto simp: event_files_def staged_write_others atomic_write_crash)

lemma failed_after:
  "p \<notin> {part_path (ew_base e), meta_path (ew_base e)} \<Longrightarrow> fold fs_exec (take n (failed_files e)) fs p = fs p"
proof -
  assume p: "p \<notin> {part_path (ew_base e), meta_path (ew_base e)}"
  have "fold fs_exec ss fs p = fs p" if "set ss \<subseteq> set (failed_files e)" for ss
    using that p by (induction ss arbitrary: fs) (auto simp: failed_files_def)
  then show ?thesis by (simp add: set_take_subset)
qed

section \<open>Several events at once\<close>

lemma exec_other: "p \<notin> touched s \<Longrightarrow> fs_exec s fs p = fs p"
  by (cases s) (auto split: option.split)

lemma exec_cong: "\<forall>p\<in>touched s. fs p = fs' p \<Longrightarrow> p \<in> touched s \<Longrightarrow> fs_exec s fs p = fs_exec s fs' p"
  by (cases s) (auto split: option.split)

text \<open>The files of one event depend on its own steps only.\<close>

lemma own_steps:
  assumes "\<forall>s\<in>set ops. touched s \<subseteq> P \<or> touched s \<inter> P = {}" and "\<forall>q\<in>P. fs q = fs' q" and "p \<in> P"
  shows "fold fs_exec ops fs p = fold fs_exec (filter (\<lambda>s. touched s \<subseteq> P) ops) fs' p"
  using assms(1,2)
proof (induction ops arbitrary: fs fs')
  case (Cons s ops)
  show ?case
  proof (cases "touched s \<subseteq> P")
    case True
    have "\<forall>q\<in>P. fs_exec s fs q = fs_exec s fs' q"
    proof
      fix q assume "q \<in> P"
      then show "fs_exec s fs q = fs_exec s fs' q"
        using exec_cong[of s fs fs' q] exec_other[of q s] Cons.prems(2) True by (cases "q \<in> touched s") auto
    qed
    then show ?thesis using Cons.IH[of "fs_exec s fs" "fs_exec s fs'"] Cons.prems(1) True by simp
  next
    case False
    then have "touched s \<inter> P = {}" using Cons.prems(1) by simp
    then have "\<forall>q\<in>P. fs_exec s fs q = fs' q" using exec_other Cons.prems(2) by (metis IntI empty_iff)
    then show ?thesis using Cons.IH[of "fs_exec s fs" fs'] Cons.prems(1) False by simp
  qed
qed (use assms(3) in simp)

text \<open>
  A run cut off by a crash: every step is one of an event of \<open>good\<close> (whose ffmpeg succeeds) or
  \<open>bad\<close> (whose ffmpeg fails), interleaved in any way, and each event got through some of its steps.
  No two events share a base name.
\<close>

definition cut_off :: "event_write set \<Rightarrow> event_write set \<Rightarrow> fs_step list \<Rightarrow> bool" where
  "cut_off good bad ops \<longleftrightarrow> inj_on ew_base (good \<union> bad) \<and>
     (\<forall>s\<in>set ops. \<exists>e\<in>good \<union> bad. touched s \<subseteq> own (ew_base e)) \<and>
     (\<forall>e\<in>good. \<exists>n. filter (\<lambda>s. touched s \<subseteq> own (ew_base e)) ops = take n (event_files e)) \<and>
     (\<forall>e\<in>bad. \<exists>n. filter (\<lambda>s. touched s \<subseteq> own (ew_base e)) ops = take n (failed_files e))"

lemma touched_some: "touched s \<noteq> {}"
  by (cases s) simp_all

lemma cut_off_own:
  assumes "cut_off good bad ops" "e \<in> good \<union> bad" "p \<in> own (ew_base e)"
  shows "fold fs_exec ops fs p = fold fs_exec (filter (\<lambda>s. touched s \<subseteq> own (ew_base e)) ops) fs p"
proof (rule own_steps[OF _ _ assms(3)])
  have "touched s \<subseteq> own (ew_base e) \<or> touched s \<inter> own (ew_base e) = {}" if s: "s \<in> set ops" for s
  proof -
    have "\<forall>s\<in>set ops. \<exists>e\<in>good \<union> bad. touched s \<subseteq> own (ew_base e)" using assms(1) unfolding cut_off_def by (elim conjE)
    then obtain e' where e': "e' \<in> good \<union> bad" "touched s \<subseteq> own (ew_base e')" using s by blast
    show ?thesis
    proof (cases "ew_base e' = ew_base e")
      case False
      then show ?thesis using own_disjoint e'(2) by blast
    qed (use e' in simp)
  qed
  then show "\<forall>s\<in>set ops. touched s \<subseteq> own (ew_base e) \<or> touched s \<inter> own (ew_base e) = {}" by blast
qed simp

lemma cut_off_good:
  assumes "cut_off good bad ops" "e \<in> good" "p \<in> own (ew_base e)"
  obtains n where "fold fs_exec ops fs p = fold fs_exec (take n (event_files e)) fs p"
    "\<And>q. q \<in> own (ew_base e) \<Longrightarrow> fold fs_exec ops fs q = fold fs_exec (take n (event_files e)) fs q"
proof -
  obtain n where n: "filter (\<lambda>s. touched s \<subseteq> own (ew_base e)) ops = take n (event_files e)"
    using assms(1,2) by (auto simp: cut_off_def)
  have "fold fs_exec ops fs q = fold fs_exec (take n (event_files e)) fs q" if "q \<in> own (ew_base e)" for q
    using cut_off_own[OF assms(1) UnI1[OF assms(2)] that] by (simp add: n)
  with that assms(3) show thesis by blast
qed

lemma cut_off_other:
  assumes "cut_off good bad ops" "\<forall>e\<in>good \<union> bad. p \<notin> own (ew_base e)"
  shows "fold fs_exec ops fs p = fs p"
proof -
  have "\<forall>s\<in>set ops. p \<notin> touched s" using assms by (fastforce simp: cut_off_def)
  then show ?thesis by (induction ops arbitrary: fs) (simp_all add: exec_other)
qed

lemma mp4_own: "ends_with ''.mp4'' p \<Longrightarrow> p \<in> own b \<Longrightarrow> p = mp4_path b"
  by (auto simp: own_def ends_with_def part_path_def meta_path_def tmp_path_def)

lemma ends_last: "ends_with suf p \<Longrightarrow> suf \<noteq> [] \<Longrightarrow> last p = last suf"
  unfolding ends_with_def by (metis last_drop drop_all not_le)

lemma mp4_not_stale: "ends_with ''.mp4'' p \<Longrightarrow> \<not> stale p"
  by (auto simp: stale_def dest!: ends_last)


section \<open>The history row\<close>

text \<open>The steps of a successful event on disk and database; a row is one transaction.\<close>

datatype durable = OnDisk fs_step | Row string "string option" string

fun durable_exec :: "durable \<Rightarrow> fs \<times> history \<Rightarrow> fs \<times> history" where
  "durable_exec (OnDisk s) (fs, h) = (fs_exec s fs, h)"
| "durable_exec (Row trigger clip created) (fs, h) = (fs, insert_event trigger clip created h)"

definition event_steps :: "event_write \<Rightarrow> string \<Rightarrow> string \<Rightarrow> string \<Rightarrow> durable list" where
  "event_steps e trigger name created = map OnDisk (event_files e) @ [Row trigger (Some name) created]"

definition restart :: "fs \<times> history \<Rightarrow> fs \<times> history" where
  "restart d = (sweep (fst d), snd d)"

definition crashed_event :: "event_write \<Rightarrow> string \<Rightarrow> string \<Rightarrow> string \<Rightarrow> nat \<Rightarrow> fs \<times> history \<Rightarrow> fs \<times> history" where
  "crashed_event e trigger name created n d = restart (fold durable_exec (take n (event_steps e trigger name created)) d)"

lemma durable_disk: "fold durable_exec (map OnDisk ss) (fs, h) = (fold fs_exec ss fs, h)"
  by (induction ss arbitrary: fs) simp_all

text \<open>
  A crash and the history: a row is written only when its clip and sidecar are complete, so no row
  is left without its clip; but a crash between the sidecar and the row leaves the complete pair
  without a row, and the restart does not add one.
\<close>

theorem crash_can_lose_the_row:
  "(\<forall>n. case crashed_event e trigger name created n (fs, h) of (fs', h') \<Rightarrow>
      h' = h \<or> h' = insert_event trigger (Some name) created h \<and>
        fs' (mp4_path (ew_base e)) = Some (concat (ew_video e)) \<and> fs' (meta_path (ew_base e)) = Some (concat (ew_meta e))) \<and>
   (\<exists>n fs'. crashed_event e trigger name created n (fs, h) = (fs', h) \<and>
      fs' (mp4_path (ew_base e)) = Some (concat (ew_video e)) \<and> fs' (meta_path (ew_base e)) = Some (concat (ew_meta e)))"
proof -
  let ?k = "length (event_files e)"
  have len: "?k = length (ew_video e) + length (ew_meta e) + 4" by (simp add: event_files_def atomic_write_def)
  have whole: "fold fs_exec (event_files e) fs (mp4_path (ew_base e)) = Some (concat (ew_video e))"
    "fold fs_exec (event_files e) fs (meta_path (ew_base e)) = Some (concat (ew_meta e))"
    using clip_after[of ?k e fs] meta_after[of ?k e fs] by (simp_all add: len)
  have upto: "crashed_event e trigger name created m (fs, h) = (sweep (fold fs_exec (take m (event_files e)) fs), h)" if "m \<le> ?k" for m
    using that by (simp add: crashed_event_def event_steps_def restart_def take_map durable_disk)
  have full: "crashed_event e trigger name created m (fs, h) =
      (sweep (fold fs_exec (event_files e) fs), insert_event trigger (Some name) created h)" if "?k < m" for m
    using that by (simp add: crashed_event_def event_steps_def restart_def durable_disk)
  have "case crashed_event e trigger name created m (fs, h) of (fs', h') \<Rightarrow>
      h' = h \<or> h' = insert_event trigger (Some name) created h \<and>
        fs' (mp4_path (ew_base e)) = Some (concat (ew_video e)) \<and> fs' (meta_path (ew_base e)) = Some (concat (ew_meta e))" for m
    using upto[of m] full[of m] whole by (cases "m \<le> ?k") (simp_all add: sweep_def)
  moreover have "crashed_event e trigger name created ?k (fs, h) = (sweep (fold fs_exec (event_files e) fs), h)"
    using upto[of ?k] by simp
  ultimately show ?thesis using whole by (fastforce simp: sweep_def)
qed

section \<open>A concrete crash\<close>

definition sample_write :: event_write where
  "sample_write = \<lparr>ew_base = ''e'', ew_video = [''ab'', ''c''], ew_meta = [''{}'']\<rparr>"


end
