(* ===== verification/Recorder_Diagnostics.thy ===== *)
theory Recorder_Diagnostics
  imports Py_Values
begin

text \<open>
  The helpers of \<open>recorder/diagnostics.py\<close> that read another program's output: the summary of
  ffmpeg's stderr for the log and the duration ffprobe reports. Decoding with
  \<open>errors="replace"\<close> never fails and is left out: the texts are the decoded ones.
\<close>

text \<open>
  \<open>str.splitlines\<close>: the line boundaries below code point 256, a carriage return and a line feed
  counting as one.
\<close>

definition line_end :: "char \<Rightarrow> bool" where
  "line_end c \<longleftrightarrow> (let n = ord c in (10 \<le> n \<and> n \<le> 13) \<or> (28 \<le> n \<and> n \<le> 30) \<or> n = 133)"

fun splitlines :: "string \<Rightarrow> string list" where
  "splitlines [] = []"
| "splitlines (c # s) =
     (if line_end c then
        (case s of
           d # s' \<Rightarrow> if c = CHR 0x0D \<and> d = CHR 0x0A then [] # splitlines s' else [] # splitlines s
         | [] \<Rightarrow> [[]])
      else (case splitlines s of [] \<Rightarrow> [[c]] | l # ls \<Rightarrow> (c # l) # ls))"

definition last_n :: "nat \<Rightarrow> 'a list \<Rightarrow> 'a list" where
  "last_n n xs = drop (length xs - n) xs"

definition max_lines :: nat where "max_lines = 8"
definition max_chars :: nat where "max_chars = 1200"

definition summarize_ffmpeg_stderr :: "string option \<Rightarrow> string" where
  "summarize_ffmpeg_stderr stderr =
     (case stderr of
        None \<Rightarrow> []
      | Some text \<Rightarrow>
          (let lines = filter (\<lambda>l. l \<noteq> []) (map strip (splitlines text)) in
           if lines = [] then []
           else let summary = join_with (CHR 0x0A) (last_n max_lines lines) in
             if max_chars < length summary then last_n max_chars summary else summary))"

text \<open>\<open>None\<close> is any exception of the run (a timeout, no ffprobe); \<open>rd\<close> is \<open>float\<close>; \<open>round(x, 3)\<close>.\<close>

definition probe_clip_duration_seconds ::
  "(string \<Rightarrow> real option) \<Rightarrow> (int \<times> string) option \<Rightarrow> real option" where
  "probe_clip_duration_seconds rd answer =
     (case answer of
        None \<Rightarrow> None
      | Some (code, out) \<Rightarrow>
          (if code \<noteq> 0 then None
           else let raw = strip out in
             if raw = [] then None
             else map_option (\<lambda>x. of_int (py_round (x * 1000)) / 1000) (rd raw)))"

section \<open>The summary is short\<close>

lemma splitlines_clean: "\<forall>l\<in>set (splitlines s). \<forall>c\<in>set l. \<not> line_end c"
proof (induction s rule: splitlines.induct)
  case (2 d s)
  show ?case
  proof (cases "line_end d")
    case True
    show ?thesis
    proof (cases s)
      case (Cons e t)
      show ?thesis
      proof (cases "d = CHR 0x0D \<and> e = CHR 0x0A")
        case True
        have "splitlines (d # s) = [] # splitlines t"
          unfolding Cons splitlines.simps(2) if_P[OF \<open>line_end d\<close>] list.case if_P[OF True] ..
        then show ?thesis using "2.IH"(1)[OF \<open>line_end d\<close> Cons True] by simp
      next
        case False
        have "splitlines (d # s) = [] # splitlines s"
          unfolding Cons splitlines.simps(2)[of d] if_P[OF \<open>line_end d\<close>] list.case if_not_P[OF False] ..
        then show ?thesis using "2.IH"(2)[OF \<open>line_end d\<close> Cons False] by simp
      qed
    qed (use True in simp)
  next
    case False
    then show ?thesis using "2.IH"(3) by (cases "splitlines s") simp_all
  qed
qed simp

lemma length_last_n [simp]: "length (last_n n xs) = min n (length xs)"
  by (simp add: last_n_def)

lemma set_last_n: "set (last_n n xs) \<subseteq> set xs"
  by (simp add: last_n_def set_drop_subset)

lemma line_ends_join:
  "\<forall>l\<in>set ls. \<forall>c\<in>set l. \<not> line_end c \<Longrightarrow> length (filter line_end (join_with (CHR 0x0A) ls)) = length ls - 1"
proof (induction ls rule: induct_list012)
  case (2 l)
  then show ?case by (simp add: filter_empty_conv)
next
  case (3 l l' ls)
  then have "filter line_end l = []" by (simp add: filter_empty_conv)
  then show ?case using 3 by (simp add: line_end_def ord_def)
qed simp

lemma line_ends_last: "length (filter line_end (last_n n s)) \<le> length (filter line_end s)"
proof -
  have "length (filter line_end s) = length (filter line_end (take (length s - n) s)) + length (filter line_end (last_n n s))"
    by (metis append_take_drop_id filter_append last_n_def length_append)
  then show ?thesis by simp
qed

text \<open>
  The summary of ffmpeg's output that goes to the log is at most 1200 characters in at
  most eight lines, whatever ffmpeg printed: of its line ends only seven line feeds
  can be left, and a run without output gives an empty one.
\<close>

theorem summary_is_bounded:
  "length (summarize_ffmpeg_stderr stderr) \<le> max_chars \<and>
   length (filter line_end (summarize_ffmpeg_stderr stderr)) < max_lines \<and>
   summarize_ffmpeg_stderr None = [] \<and> summarize_ffmpeg_stderr (Some []) = []"
proof -
  have "length (summarize_ffmpeg_stderr (Some w)) \<le> max_chars \<and>
      length (filter line_end (summarize_ffmpeg_stderr (Some w))) < max_lines" for w
  proof -
    let ?lines = "filter (\<lambda>l. l \<noteq> []) (map strip (splitlines w))"
    let ?kept = "last_n max_lines ?lines" and ?joined = "join_with (CHR 0x0A) (last_n max_lines ?lines)"
    have "\<forall>l\<in>set ?lines. \<forall>c\<in>set l. \<not> line_end c"
      using splitlines_clean[of w] strip_subset by fastforce
    then have "\<forall>l\<in>set ?kept. \<forall>c\<in>set l. \<not> line_end c" using set_last_n by fast
    then have "length (filter line_end ?joined) = length ?kept - 1" by (rule line_ends_join)
    then have few: "length (filter line_end ?joined) < max_lines" by (simp add: max_lines_def)
    then show ?thesis
      using line_ends_last[of max_chars ?joined] by (auto simp: summarize_ffmpeg_stderr_def Let_def max_lines_def)
  qed
  then show ?thesis by (cases stderr) (simp_all add: summarize_ffmpeg_stderr_def max_lines_def)
qed

end
