(* ===== verification/Py_Calendar.thy ===== *)
theory Py_Calendar
  imports Py_Values "HOL-Library.List_Lexorder"
begin

text \<open>
  The Gregorian calendar of Python's \<open>datetime\<close>, as far as the recorder uses it (\<open>ord2ymd\<close> and
  \<open>ymd2ord\<close> are \<open>_ord2ymd\<close> and \<open>_ymd2ord\<close>). Times are whole seconds since 1970, civil times are
  lists of year, month, day, hour, minute and second. The main facts: the two conversions are
  inverse, and the civil times of two instants compare as the instants do.
\<close>

section \<open>The calendar\<close>

definition leap :: "int \<Rightarrow> bool" where
  "leap y \<longleftrightarrow> y mod 4 = 0 \<and> (y mod 100 \<noteq> 0 \<or> y mod 400 = 0)"

definition days_before_year :: "int \<Rightarrow> int" where
  "days_before_year year = (let y = year - 1 in y * 365 + y div 4 - y div 100 + y div 400)"

definition month_start :: "bool \<Rightarrow> int \<Rightarrow> int" where
  "month_start lp m =
     (if m \<le> 1 then 0 else if m = 2 then 31 else if m = 3 then 59 else if m = 4 then 90 else if m = 5 then 120
      else if m = 6 then 151 else if m = 7 then 181 else if m = 8 then 212 else if m = 9 then 243 else if m = 10 then 273
      else if m = 11 then 304 else if m = 12 then 334 else 365) + (if 2 < m \<and> lp then 1 else 0)"

definition month_days :: "bool \<Rightarrow> int \<Rightarrow> int" where
  "month_days lp m = (if m = 2 then if lp then 29 else 28 else if m = 4 \<or> m = 6 \<or> m = 9 \<or> m = 11 then 30 else 31)"

definition ymd2ord :: "int \<Rightarrow> int \<Rightarrow> int \<Rightarrow> int" where
  "ymd2ord y m d = days_before_year y + month_start (leap y) m + d"

definition valid_date :: "int \<Rightarrow> int \<Rightarrow> int \<Rightarrow> bool" where
  "valid_date y m d \<longleftrightarrow> 1 \<le> y \<and> 1 \<le> m \<and> m \<le> 12 \<and> 1 \<le> d \<and> d \<le> month_days (leap y) m"

definition day_of_year :: "bool \<Rightarrow> int \<Rightarrow> int \<times> int" where
  "day_of_year lp n =
     (let month = (n + 50) div 32; preceding = month_start lp month in
      if n < preceding then (month - 1, n - (preceding - month_days lp (month - 1)) + 1)
      else (month, n - preceding + 1))"

definition ord2ymd :: "int \<Rightarrow> int \<times> int \<times> int" where
  "ord2ymd ordinal =
     (let n = ordinal - 1;
          n400 = n div 146097; n = n mod 146097;
          n100 = n div 36524; n = n mod 36524;
          n4 = n div 1461; n = n mod 1461;
          n1 = n div 365; n = n mod 365;
          year = n400 * 400 + 1 + n100 * 100 + n4 * 4 + n1
      in if n1 = 4 \<or> n100 = 4 then (year - 1, 12, 31)
         else (year, day_of_year (n1 = 3 \<and> (n4 \<noteq> 24 \<or> n100 = 3)) n))"

lemma month_cases:
  assumes "1 \<le> m" "m \<le> 12"
  obtains "m = 1" | "m = 2" | "m = 3" | "m = 4" | "m = 5" | "m = 6" | "m = 7" | "m = 8" | "m = 9" | "m = 10" | "m = 11"
    | "m = (12 :: int)"
proof -
  have "m \<in> set [1..12]" using assms by simp
  moreover have "[1..12] = [1, 2, 3, 4, 5, 6, 7, 8, 9, 10, 11, 12 :: int]" by code_simp
  ultimately show thesis using that by (simp only: list.set insert_iff empty_iff simp_thms) blast
qed

lemma day_of_year:
  assumes "0 \<le> n" "n < (if lp then 366 else 365)"
  shows "case day_of_year lp n of (m, d) \<Rightarrow>
    1 \<le> m \<and> m \<le> 12 \<and> 1 \<le> d \<and> d \<le> month_days lp m \<and> month_start lp m + d = n + 1"
proof -
  define k where "k = (n + 50) div 32"
  have k: "32 * k \<le> n + 50" "n + 50 < 32 * k + 32"
    using mult_div_mod_eq[of 32 "n + 50"] pos_mod_bound[of 32 "n + 50"] pos_mod_sign[of 32 "n + 50"] unfolding k_def by linarith+
  have "n < 366" using assms(2) by (simp split: if_splits)
  with k assms(1) have "1 \<le> k" "k \<le> 12" by linarith+
  then show ?thesis
    by (elim month_cases)
      (use k assms in \<open>auto simp: day_of_year_def Let_def k_def[symmetric] month_start_def month_days_def split: if_splits\<close>)
qed

lemma year_digits:
  assumes "0 \<le> b" "b \<le> 3" "0 \<le> c" "c \<le> 24" "0 \<le> e" "e \<le> 3"
  shows "days_before_year (400 * a + 100 * b + 4 * c + e + 1) = 146097 * a + 36524 * b + 1461 * c + 365 * e"
    and "leap (400 * a + 100 * b + 4 * c + e + 1) \<longleftrightarrow> e = 3 \<and> (c \<noteq> 24 \<or> b = 3)"
proof -
  let ?z = "400 * a + 100 * b + 4 * c + e"
  have "?z div 4 = 100 * a + 25 * b + c" by (rule int_div_pos_eq[where r = e]) (use assms in simp_all)
  moreover have "?z div 100 = 4 * a + b" by (rule int_div_pos_eq[where r = "4 * c + e"]) (use assms in simp_all)
  moreover have "?z div 400 = a" by (rule int_div_pos_eq[where r = "100 * b + 4 * c + e"]) (use assms in simp_all)
  ultimately show "days_before_year (?z + 1) = 146097 * a + 36524 * b + 1461 * c + 365 * e"
    by (simp add: days_before_year_def Let_def)
  have wrap: "(q * k + r + 1) mod k = (if r + 1 = k then 0 else r + 1)" if "0 \<le> r" "r < k" for q k r :: int
  proof (cases "r + 1 = k")
    case True
    then have "q * k + r + 1 = (q + 1) * k" by (simp add: algebra_simps)
    then show ?thesis using True by simp
  next
    case False
    then have "(q * k + r + 1) mod k = r + 1" by (intro int_mod_pos_eq[where q = q]) (use that in simp_all)
    then show ?thesis using False by simp
  qed
  have "(?z + 1) mod 4 = (if e = 3 then 0 else e + 1)"
    using wrap[of e 4 "100 * a + 25 * b + c"] assms by (simp add: algebra_simps)
  moreover have "(?z + 1) mod 100 = (if 4 * c + e = 99 then 0 else 4 * c + e + 1)"
    using wrap[of "4 * c + e" 100 "4 * a + b"] assms by (simp add: algebra_simps)
  moreover have "(?z + 1) mod 400 = (if 100 * b + 4 * c + e = 399 then 0 else 100 * b + 4 * c + e + 1)"
    using wrap[of "100 * b + 4 * c + e" 400 a] assms by (simp add: algebra_simps)
  moreover have "4 * c + e = 99 \<longleftrightarrow> c = 24 \<and> e = 3" "100 * b + 4 * c + e = 399 \<longleftrightarrow> b = 3 \<and> c = 24 \<and> e = 3"
    using assms by linarith+
  ultimately show "leap (?z + 1) \<longleftrightarrow> e = 3 \<and> (c \<noteq> 24 \<or> b = 3)" using assms by (auto simp: leap_def)
qed

lemma div_next: "y div k = (y - 1) div k + (if y mod k = 0 then 1 else 0)" if "0 < k" for y k :: int
proof (cases "y mod k = 0")
  case True
  then have y: "y = y div k * k" using mult_div_mod_eq[of k y] by (simp add: mult.commute)
  have "(y - 1) div k = y div k - 1"
    by (rule int_div_pos_eq[where r = "k - 1"]) (use that y in \<open>simp_all add: algebra_simps\<close>)
  then show ?thesis using True by simp
next
  case False
  have y: "y = k * (y div k) + y mod k" by simp
  have "0 \<le> y mod k" "y mod k < k" using that by simp_all
  then have "(y - 1) div k = y div k"
    by (intro int_div_pos_eq[where r = "y mod k - 1"]) (use y False in linarith)+
  then show ?thesis using False by simp
qed

lemma leap_sum: "(C \<Longrightarrow> B) \<Longrightarrow> (B \<Longrightarrow> A) \<Longrightarrow>
   365 + (if A then 1 else 0) - (if B then 1 else 0) + (if C then 1 else 0 :: int) = 365 + (if A \<and> (\<not> B \<or> C) then 1 else 0)"
  by (cases A; cases B; cases C) simp_all

lemma diffs: "a = a' + i \<Longrightarrow> b = b' + j \<Longrightarrow> c = c' + k \<Longrightarrow> 365 + (a - a') - (b - b') + (c - c') = 365 + i - j + k"
  for a :: int
  by (simp only: add_diff_cancel_left' add.assoc[symmetric])

lemma year_diff: "(y * 365 + a - b + c) - ((y - 1) * 365 + a' - b' + c') = 365 + (a - a') - (b - b') + (c - c')"
  for a :: int
  by (simp add: algebra_simps)

lemma days_before_next: "days_before_year (y + 1) = days_before_year y + (if leap y then 366 else 365)"
proof -
  have mods: "y mod 400 mod 100 = y mod 100" "y mod 100 mod 4 = y mod 4" by (rule mod_mod_cancel; simp)+
  have down: "y mod 100 = 0" if "y mod 400 = 0" using mods(1) unfolding that by simp
  have down': "y mod 4 = 0" if "y mod 100 = 0" using mods(2) unfolding that by simp
  have "days_before_year (y + 1) - days_before_year y =
      365 + (y div 4 - (y - 1) div 4) - (y div 100 - (y - 1) div 100) + (y div 400 - (y - 1) div 400)"
    unfolding days_before_year_def Let_def add_diff_cancel_right' by (rule year_diff)
  also have "\<dots> = 365 + (if y mod 4 = 0 then 1 else 0) - (if y mod 100 = 0 then 1 else 0) + (if y mod 400 = 0 then 1 else 0)"
    by (rule diffs; rule div_next; simp)
  also have "\<dots> = 365 + (if leap y then 1 else 0)"
    unfolding leap_def by (rule leap_sum; fact down down')
  finally have d: "days_before_year (y + 1) - days_before_year y = 365 + (if leap y then 1 else 0)" .
  show ?thesis using d by (cases "leap y") simp_all
qed

lemma ord2ymd_digits:
  obtains a b c e f where "n - 1 = 146097 * a + 36524 * b + 1461 * c + 365 * e + f"
    "0 \<le> b" "b \<le> 4" "0 \<le> c" "c \<le> 24" "0 \<le> e" "e \<le> 4" "0 \<le> f" "f < 365" "b = 4 \<Longrightarrow> c = 0 \<and> e = 0 \<and> f = 0"
    "e = 4 \<Longrightarrow> f = 0 \<and> (c \<noteq> 24 \<or> b = 3)"
    "ord2ymd n = (if e = 4 \<or> b = 4 then (400 * a + 100 * b + 4 * c + e, 12, 31)
      else (400 * a + 100 * b + 4 * c + e + 1, day_of_year (e = 3 \<and> (c \<noteq> 24 \<or> b = 3)) f))"
proof -
  define a where "a = (n - 1) div 146097"
  define r1 where "r1 = (n - 1) mod 146097"
  define b where "b = r1 div 36524"
  define r2 where "r2 = r1 mod 36524"
  define c where "c = r2 div 1461"
  define r3 where "r3 = r2 mod 1461"
  define e where "e = r3 div 365"
  define f where "f = r3 mod 365"
  have n: "n - 1 = 146097 * a + r1" "r1 = 36524 * b + r2" "r2 = 1461 * c + r3" "r3 = 365 * e + f"
    unfolding a_def r1_def b_def r2_def c_def r3_def e_def f_def by (simp_all only: mult_div_mod_eq)
  have r: "0 \<le> r1" "r1 < 146097" "0 \<le> r2" "r2 < 36524" "0 \<le> r3" "r3 < 1461" "0 \<le> f" "f < 365"
    unfolding r1_def r2_def r3_def f_def by (simp_all only: pos_mod_sign pos_mod_bound zero_less_numeral)
  have run: "ord2ymd n = (if e = 4 \<or> b = 4 then (400 * a + 100 * b + 4 * c + e, 12, 31)
      else (400 * a + 100 * b + 4 * c + e + 1, day_of_year (e = 3 \<and> (c \<noteq> 24 \<or> b = 3)) f))"
    unfolding ord2ymd_def Let_def a_def[symmetric] r1_def[symmetric] b_def[symmetric] r2_def[symmetric]
      c_def[symmetric] r3_def[symmetric] e_def[symmetric] f_def[symmetric]
    by (simp add: mult.commute)
  have b: "0 \<le> b" "b \<le> 4" using n(2) r(1-4) by linarith+
  have c: "0 \<le> c" "c \<le> 24" using n(3) r(3-6) by linarith+
  have e: "0 \<le> e" "e \<le> 4" using n(4) r(5-8) by linarith+
  have b4: "c = 0 \<and> e = 0 \<and> f = 0" if "b = 4"
  proof -
    have "r2 = 0" using n(2) r(2,3) that by linarith
    then have "c = 0" "r3 = 0" using n(3) r(5) c(1) by linarith+
    then show ?thesis using n(4) r(7) e(1) by linarith
  qed
  have e4: "f = 0 \<and> (c \<noteq> 24 \<or> b = 3)" if "e = 4"
  proof
    show "f = 0" using n(4) r(6,7) that by linarith
    show "c \<noteq> 24 \<or> b = 3" using n(3,4) r(4,7) that by linarith
  qed
  have "n - 1 = 146097 * a + 36524 * b + 1461 * c + 365 * e + f" using n by linarith
  from that[OF this b c e r(7,8) b4 e4 run] show thesis .
qed

theorem ord2ymd_ymd2ord:
  assumes "ord2ymd n = (y, m, d)"
  shows "ymd2ord y m d = n" and "1 \<le> n \<Longrightarrow> valid_date y m d"
proof -
  obtain a b c e f where n: "n - 1 = 146097 * a + 36524 * b + 1461 * c + 365 * e + f"
    and r: "0 \<le> b" "b \<le> 4" "0 \<le> c" "c \<le> 24" "0 \<le> e" "e \<le> 4" "0 \<le> f" "f < 365"
    and b4: "b = 4 \<Longrightarrow> c = 0 \<and> e = 0 \<and> f = 0" and e4: "e = 4 \<Longrightarrow> f = 0 \<and> (c \<noteq> 24 \<or> b = 3)"
    and run: "ord2ymd n = (if e = 4 \<or> b = 4 then (400 * a + 100 * b + 4 * c + e, 12, 31)
      else (400 * a + 100 * b + 4 * c + e + 1, day_of_year (e = 3 \<and> (c \<noteq> 24 \<or> b = 3)) f))"
    by (rule ord2ymd_digits[of n]) blast
  have pos: "0 \<le> a" if "1 \<le> n"
  proof (rule ccontr)
    assume "\<not> 0 \<le> a"
    then have "146097 * a \<le> - 146097" by linarith
    moreover have "36524 * b + 1461 * c + 365 * e + f < 146097"
    proof (cases "b = 4")
      case True
      then show ?thesis using b4 by simp
    next
      case False
      then show ?thesis using r e4 by (cases "e = 4") linarith+
    qed
    ultimately show False using n that by linarith
  qed
  have last_day: "ymd2ord y' 12 31 = n \<and> (1 \<le> n \<longrightarrow> valid_date y' 12 31)"
    if "y' = 400 * a + 100 * b' + 4 * c' + 3 + 1" "n - 1 = 146097 * a + 36524 * b' + 1461 * c' + 365 * 4"
      "0 \<le> b'" "b' \<le> 3" "0 \<le> c'" "c' \<le> 24" "c' \<noteq> 24 \<or> b' = 3" for y' b' c'
  proof -
    have l: "days_before_year y' = 146097 * a + 36524 * b' + 1461 * c' + 365 * 3" "leap y'"
      unfolding that(1) using year_digits[of b' c' 3 a] that(3-7) by simp_all
    have "ymd2ord y' 12 31 = n" unfolding ymd2ord_def l(1) using l(2) that(2) by (simp add: month_start_def)
    moreover have "valid_date y' 12 31" if "1 \<le> n"
      using pos[OF that] \<open>y' = _\<close> \<open>0 \<le> b'\<close> \<open>0 \<le> c'\<close> unfolding valid_date_def month_days_def by simp
    ultimately show ?thesis by blast
  qed
  have "ymd2ord y m d = n \<and> (1 \<le> n \<longrightarrow> valid_date y m d)"
  proof (cases "e = 4 \<or> b = 4")
    case True
    then have y: "y = 400 * a + 100 * b + 4 * c + e" "m = 12" "d = 31" using assms run by simp_all
    show ?thesis
    proof (cases "b = 4")
      case True
      then show ?thesis unfolding y(2,3) using b4 n y(1) by (intro last_day[where b' = 3 and c' = 24]) simp_all
    next
      case False
      then have "e = 4" "b \<le> 3" using True r(2) by simp_all
      then show ?thesis unfolding y(2,3) using e4 n y(1) r by (intro last_day[where b' = b and c' = c]) simp_all
    qed
  next
    case False
    let ?lp = "e = 3 \<and> (c \<noteq> 24 \<or> b = 3)"
    have y: "y = 400 * a + 100 * b + 4 * c + e + 1" "day_of_year ?lp f = (m, d)" using assms run False by simp_all
    have "b \<le> 3" "e \<le> 3" using False r by linarith+
    note l = year_digits[OF r(1) this(1) r(3,4,5) this(2), of a, folded y(1)]
    have "f < (if ?lp then 366 else 365)" using r(8) by simp
    from day_of_year[OF r(7) this] have md: "1 \<le> m" "m \<le> 12" "1 \<le> d" "d \<le> month_days (leap y) m" "month_start (leap y) m + d = f + 1"
      unfolding l(2) y(2) by simp_all
    have "ymd2ord y m d = n" unfolding ymd2ord_def l(1) using md(5) n by linarith
    moreover have "valid_date y m d" if "1 \<le> n"
      using pos[OF that] y(1) r md unfolding valid_date_def by simp
    ultimately show ?thesis by blast
  qed
  then show "ymd2ord y m d = n" "1 \<le> n \<Longrightarrow> valid_date y m d" by simp_all
qed

lemma month_start_next: "1 \<le> m \<Longrightarrow> m \<le> 12 \<Longrightarrow> month_start lp (m + 1) = month_start lp m + month_days lp m"
  by (elim month_cases) (simp_all add: month_start_def month_days_def)

lemma month_days_pos: "0 < month_days lp m"
  by (simp add: month_days_def)

lemma month_start_mono: "m \<le> m' \<Longrightarrow> 1 \<le> m \<Longrightarrow> m' \<le> 13 \<Longrightarrow> month_start lp m \<le> month_start lp m'"
proof (induction m' rule: int_ge_induct)
  case (step i)
  then show ?case using month_start_next[of i lp] month_days_pos[of lp i] by simp
qed simp

lemma month_start_before: "1 \<le> m \<Longrightarrow> m < m' \<Longrightarrow> m' \<le> 13 \<Longrightarrow> month_start lp m + month_days lp m \<le> month_start lp m'"
  using month_start_mono[of "m + 1" m' lp] month_start_next[of m lp] by simp

lemma date_in_year:
  assumes "valid_date y m d"
  shows "days_before_year y < ymd2ord y m d" "ymd2ord y m d \<le> days_before_year (y + 1)"
proof -
  have v: "1 \<le> m" "m \<le> 12" "1 \<le> d" "d \<le> month_days (leap y) m" using assms by (simp_all add: valid_date_def)
  have "0 \<le> month_start (leap y) m" by (simp add: month_start_def)
  then show "days_before_year y < ymd2ord y m d" using v(3) by (simp add: ymd2ord_def)
  have "month_start (leap y) m + month_days (leap y) m \<le> month_start (leap y) 13"
    using v by (intro month_start_before) simp_all
  also have "\<dots> = (if leap y then 366 else 365)" by (simp add: month_start_def)
  finally show "ymd2ord y m d \<le> days_before_year (y + 1)"
    using v(4) unfolding ymd2ord_def days_before_next by linarith
qed

lemma days_before_mono: "y \<le> y' \<Longrightarrow> days_before_year y \<le> days_before_year y'"
proof (induction y' rule: int_ge_induct)
  case (step i)
  then show ?case using days_before_next[of i] by (simp split: if_splits)
qed simp

text \<open>Days count up as dates do.\<close>

lemma ymd2ord_less:
  assumes "valid_date y m d" "valid_date y' m' d'"
    and "y < y' \<or> y = y' \<and> (m < m' \<or> m = m' \<and> d < d')"
  shows "ymd2ord y m d < ymd2ord y' m' d'"
proof -
  consider "y < y'" | "y = y'" "m < m'" | "y = y'" "m = m'" "d < d'" using assms(3) by blast
  then show ?thesis
  proof cases
    case 1
    then have "days_before_year (y + 1) \<le> days_before_year y'" by (intro days_before_mono) simp
    then show ?thesis using date_in_year(2)[OF assms(1)] date_in_year(1)[OF assms(2)] by linarith
  next
    case 2
    then have "month_start (leap y) m + month_days (leap y) m \<le> month_start (leap y) m'"
      using assms(1,2) by (intro month_start_before) (simp_all add: valid_date_def)
    then show ?thesis using 2 assms(1,2) unfolding ymd2ord_def valid_date_def by simp
  next
    case 3
    then show ?thesis by (simp add: ymd2ord_def)
  qed
qed

lemma ymd2ord_inj:
  assumes "valid_date y m d" "valid_date y' m' d'" "ymd2ord y m d = ymd2ord y' m' d'"
  shows "y = y' \<and> m = m' \<and> d = d'"
  using ymd2ord_less[OF assms(1,2)] ymd2ord_less[OF assms(2,1)] assms(3) by force

lemma ymd2ord_pos: "valid_date y m d \<Longrightarrow> 1 \<le> ymd2ord y m d"
  using date_in_year(1)[of y m d] days_before_mono[of 1 y] by (simp add: valid_date_def days_before_year_def)

theorem ymd2ord_ord2ymd: "valid_date y m d \<Longrightarrow> ord2ymd (ymd2ord y m d) = (y, m, d)"
proof -
  assume v: "valid_date y m d"
  obtain y' m' d' where r: "ord2ymd (ymd2ord y m d) = (y', m', d')" by (metis prod_cases3)
  show ?thesis
    using ymd2ord_inj[OF ord2ymd_ymd2ord(2)[OF r ymd2ord_pos[OF v]] v] ord2ymd_ymd2ord(1)[OF r] r by simp
qed

section \<open>Civil times\<close>

text \<open>\<open>719163\<close> is the ordinal of 1970-01-01.\<close>

definition civil :: "int \<Rightarrow> nat list" where
  "civil t =
     (case ord2ymd (t div 86400 + 719163) of
        (y, m, d) \<Rightarrow> (let s = t mod 86400 in map nat [y, m, d, s div 3600, s mod 3600 div 60, s mod 60]))"

definition day_second :: "nat \<Rightarrow> nat \<Rightarrow> nat \<Rightarrow> int" where
  "day_second h mi s = int h * 3600 + int mi * 60 + int s"

text \<open>\<open>None\<close>: \<open>datetime\<close> refuses the fields (ValueError).\<close>

fun instant :: "nat list \<Rightarrow> int option" where
  "instant [y, m, d, h, mi, s] =
     (if valid_date (int y) (int m) (int d) \<and> h < 24 \<and> mi < 60 \<and> s < 60
      then Some ((ymd2ord (int y) (int m) (int d) - 719163) * 86400 + day_second h mi s) else None)"
| "instant vs = None"

fun_cases instantE: "instant vs = Some t"

text \<open>The years \<open>strftime\<close> prints with four digits.\<close>

definition era :: "int \<Rightarrow> bool" where
  "era t \<longleftrightarrow> - 30610224000 \<le> t \<and> t < 253402300800"

lemma era_years:
  assumes "era t" "ord2ymd (t div 86400 + 719163) = (y, m, d)"
  shows "1000 \<le> y" "y \<le> 9999" "valid_date y m d"
proof -
  let ?n = "t div 86400 + 719163"
  have n: "364878 \<le> ?n" "?n \<le> 3652059" using assms(1) unfolding era_def by linarith+
  note o = ord2ymd_ymd2ord[OF assms(2)]
  show v: "valid_date y m d" using o(2) n(1) by linarith
  note inside = date_in_year[OF v, unfolded o(1)]
  show "1000 \<le> y"
  proof (rule ccontr)
    assume "\<not> 1000 \<le> y"
    then have "days_before_year (y + 1) \<le> days_before_year 1000" by (intro days_before_mono) simp
    also have "days_before_year 1000 = 364877" by (simp add: days_before_year_def)
    finally show False using inside n by linarith
  qed
  show "y \<le> 9999"
  proof (rule ccontr)
    assume "\<not> y \<le> 9999"
    then have "days_before_year 10000 \<le> days_before_year y" by (intro days_before_mono) simp
    moreover have "days_before_year 10000 = 3652059" by (simp add: days_before_year_def)
    ultimately show False using inside n by linarith
  qed
qed

lemma civil_fields:
  assumes "era t"
  obtains y m d h mi s where "civil t = [y, m, d, h, mi, s]" "1000 \<le> y" "y \<le> 9999" "valid_date (int y) (int m) (int d)"
    "h < 24" "mi < 60" "s < 60" "ymd2ord (int y) (int m) (int d) = t div 86400 + 719163" "day_second h mi s = t mod 86400"
proof -
  obtain y m d where r: "ord2ymd (t div 86400 + 719163) = (y, m, d)" by (metis prod_cases3)
  note e = era_years[OF assms r]
  define sec where "sec = t mod 86400"
  define hh where "hh = sec div 3600"
  define rest where "rest = sec mod 3600"
  define mm where "mm = rest div 60"
  define ss where "ss = rest mod 60"
  have same: "ss = sec mod 60" unfolding ss_def rest_def by (rule mod_mod_cancel) simp
  have sec: "0 \<le> sec" "sec < 86400" "0 \<le> rest" "rest < 3600" "0 \<le> ss" "ss < 60"
    unfolding sec_def rest_def ss_def by simp_all
  have split: "sec = 3600 * hh + rest" "rest = 60 * mm + ss" by (simp_all add: hh_def rest_def mm_def ss_def)
  have h: "0 \<le> hh" "hh < 24" "0 \<le> mm" "mm < 60" using sec split by linarith+
  have pos: "0 \<le> m" "0 \<le> d" "0 \<le> y" using e(1,3) by (simp_all add: valid_date_def)
  show thesis
  proof (rule that)
    show "civil t = [nat y, nat m, nat d, nat hh, nat mm, nat ss]"
      unfolding civil_def r Let_def hh_def mm_def same rest_def sec_def by simp
    show "1000 \<le> nat y" "nat y \<le> 9999" using e by simp_all
    show "valid_date (int (nat y)) (int (nat m)) (int (nat d))" using e(3) pos by simp
    show "nat hh < 24" "nat mm < 60" "nat ss < 60" using h sec by simp_all
    show "ymd2ord (int (nat y)) (int (nat m)) (int (nat d)) = t div 86400 + 719163"
      using ord2ymd_ymd2ord(1)[OF r] pos by simp
    show "day_second (nat hh) (nat mm) (nat ss) = t mod 86400"
      using h sec(5) split unfolding day_second_def sec_def[symmetric] by simp
  qed
qed

lemma instant_civil: "era t \<Longrightarrow> instant (civil t) = Some t"
proof -
  assume "era t"
  then obtain y m d h mi s where "civil t = [y, m, d, h, mi, s]" "valid_date (int y) (int m) (int d)"
    "h < 24" "mi < 60" "s < 60" "ymd2ord (int y) (int m) (int d) = t div 86400 + 719163" "day_second h mi s = t mod 86400"
    by (rule civil_fields) blast
  then show ?thesis using div_mult_mod_eq[of t 86400] by simp
qed

section \<open>The order of civil times\<close>

lemma date_lex:
  assumes "valid_date (int y) (int m) (int d)" "valid_date (int y') (int m') (int d')"
  shows "ymd2ord (int y) (int m) (int d) < ymd2ord (int y') (int m') (int d') \<longleftrightarrow> [y, m, d] < [y', m', d']"
proof -
  consider "[y, m, d] < [y', m', d']" | "[y, m, d] = [y', m', d']" | "[y', m', d'] < [y, m, d]" by (rule linorder_cases)
  then show ?thesis
  proof cases
    case 1
    then show ?thesis using ymd2ord_less[OF assms] by simp
  next
    case 3
    then show ?thesis using ymd2ord_less[OF assms(2,1)] by fastforce
  qed simp
qed

lemma second_lex:
  assumes "mi < 60" "s < 60" "mi' < 60" "s' < 60"
  shows "day_second h mi s < day_second h' mi' s' \<longleftrightarrow> [h, mi, s] < [h', mi', s']"
  using assms unfolding day_second_def by auto

lemma lex_append: "length a = length b \<Longrightarrow> a @ c < b @ d \<longleftrightarrow> a < b \<or> a = b \<and> c < d"
  for a :: "'a :: linorder list"
  by (induction a b rule: list_induct2) auto

lemma days_then_seconds:
  fixes t t' :: int
  assumes "t = D * 86400 + R" "t' = D' * 86400 + R'" "0 \<le> R" "R < 86400" "0 \<le> R'" "R' < 86400"
  shows "D < D' \<or> D = D' \<and> R < R' \<longleftrightarrow> t < t'"
  using assms by auto

text \<open>Civil times compare as the instants they name.\<close>

lemma civil_less:
  assumes "era t" "era t'"
  shows "civil t < civil t' \<longleftrightarrow> t < t'"
proof -
  obtain y m d h mi s where c: "civil t = [y, m, d, h, mi, s]" "valid_date (int y) (int m) (int d)" "mi < 60" "s < 60"
    "ymd2ord (int y) (int m) (int d) = t div 86400 + 719163" "day_second h mi s = t mod 86400"
    by (rule civil_fields[OF assms(1)]) blast
  obtain y' m' d' h' mi' s' where c': "civil t' = [y', m', d', h', mi', s']" "valid_date (int y') (int m') (int d')" "mi' < 60"
    "s' < 60" "ymd2ord (int y') (int m') (int d') = t' div 86400 + 719163" "day_second h' mi' s' = t' mod 86400"
    by (rule civil_fields[OF assms(2)]) blast
  have "civil t < civil t' \<longleftrightarrow> [y, m, d] < [y', m', d'] \<or> [y, m, d] = [y', m', d'] \<and> [h, mi, s] < [h', mi', s']"
    using lex_append[of "[y, m, d]" "[y', m', d']" "[h, mi, s]" "[h', mi', s']"] c(1) c'(1) by simp
  also have "\<dots> \<longleftrightarrow> t div 86400 < t' div 86400 \<or> t div 86400 = t' div 86400 \<and> t mod 86400 < t' mod 86400"
    using date_lex[OF c(2) c'(2)] second_lex[OF c(3,4) c'(3,4), of h h'] ymd2ord_inj[OF c(2) c'(2)] c(5,6) c'(5,6) by auto
  also have "\<dots> \<longleftrightarrow> t < t'"
    by (rule days_then_seconds; simp)
  finally show ?thesis .
qed

end
