(* ===== verification/Py_Time.thy ===== *)
theory Py_Time
  imports Py_Calendar "HOL-Library.Char_ord"
begin

text \<open>
  Python's \<open>strftime\<close> and \<open>strptime\<close> for the directives the recorder uses. The main facts: the texts
  one format gives to two civil times compare as the times do, and a text is read back.
\<close>

section \<open>Directives\<close>

datatype directive = Year | Month | Day | Hour | Minute | Second | Lit char

text \<open>\<open>%Y\<close> is printed without padding, as the C library of the containers does.\<close>

fun strftime :: "directive list \<Rightarrow> nat list \<Rightarrow> string" where
  "strftime (Lit c # fs) vs = c # strftime fs vs"
| "strftime (Year # fs) (v # vs) = nat_str v @ strftime fs vs"
| "strftime (f # fs) (v # vs) = pad_str 2 v @ strftime fs vs"
| "strftime fs vs = []"

text \<open>
  The alternatives of a directive in the order of its regular expression (\<open>%m\<close> is
  \<open>1[0-2]|0[1-9]|[1-9]\<close>), each with the value it reads and the rest of the text.
\<close>

fun two :: "nat \<Rightarrow> nat \<Rightarrow> string \<Rightarrow> (nat \<times> string) list" where
  "two lo hi (a # b # r) =
     (let v = 10 * digit_val a + digit_val b in
      if is_decimal a \<and> is_decimal b \<and> lo \<le> v \<and> v \<le> hi then [(v, r)] else [])"
| "two lo hi s = []"

fun one :: "nat \<Rightarrow> string \<Rightarrow> (nat \<times> string) list" where
  "one lo (a # r) = (if is_decimal a \<and> lo \<le> digit_val a then [(digit_val a, r)] else [])"
| "one lo [] = []"

fun spaced :: "string \<Rightarrow> (nat \<times> string) list" where
  "spaced (c # r) = (if c = CHR '' '' then one 1 r else [])"
| "spaced [] = []"

fun alternatives :: "directive \<Rightarrow> string \<Rightarrow> (nat \<times> string) list" where
  "alternatives Year s = concat (map (\<lambda>(v, r). map (\<lambda>(w, r). (100 * v + w, r)) (two 0 99 r)) (two 0 99 s))"
| "alternatives Month s = two 10 12 s @ two 1 9 s @ one 1 s"
| "alternatives Day s = two 30 31 s @ two 10 29 s @ two 1 9 s @ one 1 s @ spaced s"
| "alternatives Hour s = two 20 23 s @ two 0 19 s @ one 0 s"
| "alternatives Minute s = two 0 59 s @ one 0 s"
| "alternatives Second s = two 60 61 s @ two 0 59 s @ one 0 s"
| "alternatives (Lit c) s = []"

text \<open>All ways to match, in the order backtracking finds them.\<close>

fun matches :: "directive list \<Rightarrow> string \<Rightarrow> (nat list \<times> string) list" where
  "matches [] s = [([], s)]"
| "matches (Lit c # fs) s = (case s of a # r \<Rightarrow> if a = c then matches fs r else [] | [] \<Rightarrow> [])"
| "matches (f # fs) s = concat (map (\<lambda>(v, r). map (\<lambda>(vs, q). (v # vs, q)) (matches fs r)) (alternatives f s))"

text \<open>\<open>strptime\<close> takes the first match and refuses a text it leaves unread.\<close>

definition strptime :: "directive list \<Rightarrow> string \<Rightarrow> nat list option" where
  "strptime fs s = (case matches fs s of (vs, []) # _ \<Rightarrow> Some vs | _ \<Rightarrow> None)"

fun in_range :: "directive \<Rightarrow> nat \<Rightarrow> bool" where
  "in_range Year v = (1000 \<le> v \<and> v \<le> 9999)"
| "in_range Month v = (1 \<le> v \<and> v \<le> 12)"
| "in_range Day v = (1 \<le> v \<and> v \<le> 31)"
| "in_range Hour v = (v \<le> 23)"
| "in_range Minute v = (v \<le> 59)"
| "in_range Second v = (v \<le> 59)"
| "in_range (Lit c) v = False"

fun fits :: "directive list \<Rightarrow> nat list \<Rightarrow> bool" where
  "fits [] vs = (vs = [])"
| "fits (Lit c # fs) vs = fits fs vs"
| "fits (f # fs) (v # vs) = (in_range f v \<and> fits fs vs)"
| "fits fs vs = False"

section \<open>Texts compare as the times they print\<close>

lemma char_less_ord: "c < d \<longleftrightarrow> ord c < ord d"
  by (simp add: less_char_def ord_def)

lemma digit_char_less: "a < 10 \<Longrightarrow> b < 10 \<Longrightarrow> digit_char a < digit_char b \<longleftrightarrow> a < b"
  by (simp add: digit_char_def char_less_ord)

lemma digit_char_eq: "a < 10 \<Longrightarrow> b < 10 \<Longrightarrow> digit_char a = digit_char b \<longleftrightarrow> a = b"
  using digit_char_less[of a b] digit_char_less[of b a] by (metis less_irrefl linorder_neqE_nat)

lemma zero_digit: "CHR ''0'' = digit_char 0"
  by code_simp

lemma nat_str_step: "10 \<le> n \<Longrightarrow> nat_str n = nat_str (n div 10) @ [digit_char (n mod 10)]"
  by (subst nat_str.simps) simp

lemma nat_str_digit: "n < 10 \<Longrightarrow> nat_str n = [digit_char n]"
  by (subst nat_str.simps) simp

lemma pad_two: "n < 100 \<Longrightarrow> pad_str 2 n = [digit_char (n div 10), digit_char (n mod 10)]"
  by (cases "n < 10") (simp_all add: pad_str_def Let_def nat_str_digit nat_str_step zero_digit)

lemma year_text:
  assumes "1000 \<le> n" "n \<le> 9999"
  shows "nat_str n = map digit_char [n div 1000, n div 100 mod 10, n div 10 mod 10, n mod 10]"
proof -
  have parts: "n div 10 div 10 = n div 100" "n div 100 div 10 = n div 1000" by (simp_all add: div_mult2_eq[symmetric])
  have "10 \<le> n" "10 \<le> n div 10" "10 \<le> n div 100" "n div 1000 < 10" using assms by simp_all
  then show ?thesis by (simp add: nat_str_step[of n] nat_str_step[of "n div 10"] nat_str_step[of "n div 100"] nat_str_digit parts)
qed

lemma digits_less:
  assumes "m < 10" "m' < (10 :: nat)"
  shows "10 * n + m < 10 * n' + m' \<longleftrightarrow> n < n' \<or> n = n' \<and> m < m'"
  using assms by auto

lemma last_digit_less: "n < n' \<longleftrightarrow> n div 10 < n' div 10 \<or> n div 10 = n' div 10 \<and> n mod 10 < n' mod 10" for n n' :: nat
  using digits_less[of "n mod 10" "n' mod 10" "n div 10" "n' div 10"] by simp

text \<open>The text of a field has the width of the directive and compares as its value.\<close>

fun width :: "directive \<Rightarrow> nat" where
  "width Year = 4"
| "width (Lit c) = 1"
| "width f = 2"

definition field_text :: "directive \<Rightarrow> nat \<Rightarrow> string" where
  "field_text f v = (if f = Year then nat_str v else pad_str 2 v)"

lemma field_pad: "in_range f v \<Longrightarrow> f \<noteq> Year \<Longrightarrow> v < 100"
  by (cases f) auto

lemma field_width: "in_range f v \<Longrightarrow> length (field_text f v) = width f"
  using field_pad[of f v] by (cases f) (auto simp: field_text_def year_text pad_two)

text \<open>Decimal numerals of one length compare as the numbers.\<close>

lemma nat_str_less: "length (nat_str n) = length (nat_str m) \<Longrightarrow> nat_str n < nat_str m \<longleftrightarrow> n < m"
proof (induction n arbitrary: m rule: less_induct)
  case (less n)
  show ?case
  proof (cases "n < 10")
    case True
    have "m < 10" using less.prems True by (cases "m < 10") (simp_all add: nat_str_digit nat_str_step)
    then show ?thesis using True by (simp add: nat_str_digit digit_char_less)
  next
    case False
    then have m: "10 \<le> m" using less.prems by (cases "m < 10") (simp_all add: nat_str_digit nat_str_step)
    define a b where "a = n div 10" and "b = m div 10"
    define x y where "x = n mod 10" and "y = m mod 10"
    have s: "nat_str n = nat_str a @ [digit_char x]" "nat_str m = nat_str b @ [digit_char y]"
      using nat_str_step False m unfolding a_def b_def x_def y_def by simp_all
    have l: "length (nat_str a) = length (nat_str b)" using less.prems unfolding s by simp
    have "a < n" using False unfolding a_def by simp
    have IH: "nat_str a < nat_str b \<longleftrightarrow> a < b" by (rule less.IH[OF \<open>a < n\<close> l])
    have eq: "nat_str a = nat_str b \<longleftrightarrow> a = b"
      by (metis digits_val_nat_str)
    have d: "digit_char x < digit_char y \<longleftrightarrow> x < y" unfolding x_def y_def by (rule digit_char_less; simp)
    have "n < m \<longleftrightarrow> a < b \<or> a = b \<and> x < y" unfolding a_def b_def x_def y_def by (rule last_digit_less)
    then show ?thesis unfolding s lex_append[OF l] IH eq using d by simp
  qed
qed

lemma field_less: "in_range f v \<Longrightarrow> in_range f w \<Longrightarrow> field_text f v < field_text f w \<longleftrightarrow> v < w"
proof (cases "f = Year")
  case True
  assume r: "in_range f v" "in_range f w"
  then have "length (nat_str v) = length (nat_str w)" using True by (simp add: year_text)
  then show ?thesis using True nat_str_less by (simp add: field_text_def)
next
  case False
  assume r: "in_range f v" "in_range f w"
  have hundred: "v < 100" "w < 100" using r False field_pad by blast+
  define a b x y where "a = v div 10" and "b = w div 10" and "x = v mod 10" and "y = w mod 10"
  have "a < 10" "b < 10" "x < 10" "y < 10" using hundred unfolding a_def b_def x_def y_def by simp_all
  moreover have "v < w \<longleftrightarrow> a < b \<or> a = b \<and> x < y" unfolding a_def b_def x_def y_def by (rule last_digit_less)
  moreover have "field_text f v = [digit_char a, digit_char x]" "field_text f w = [digit_char b, digit_char y]"
    using False hundred pad_two unfolding field_text_def a_def b_def x_def y_def by simp_all
  ultimately show ?thesis by (simp add: digit_char_less digit_char_eq)
qed

lemma field_eq: "in_range f v \<Longrightarrow> in_range f w \<Longrightarrow> field_text f v = field_text f w \<longleftrightarrow> v = w"
  using field_less[of f v w] field_less[of f w v] by (metis less_irrefl linorder_neqE_nat)

lemma strftime_field: "\<forall>c. f \<noteq> Lit c \<Longrightarrow> strftime (f # fs) (v # vs) = field_text f v @ strftime fs vs"
  by (cases f) (simp_all add: field_text_def)

lemma strftime_less:
  "fits fs vs \<Longrightarrow> fits fs ws \<Longrightarrow> strftime fs vs < strftime fs ws \<longleftrightarrow> vs < ws"
proof (induction fs arbitrary: vs ws)
  case (Cons f fs)
  show ?case
  proof (cases "\<exists>c. f = Lit c")
    case True
    then show ?thesis using Cons by auto
  next
    case False
    then obtain v vs' w ws' where l: "vs = v # vs'" "ws = w # ws'" "in_range f v" "in_range f w" "fits fs vs'" "fits fs ws'"
      using Cons.prems by (cases f; cases vs; cases ws) auto
    have "strftime (f # fs) vs < strftime (f # fs) ws \<longleftrightarrow> field_text f v @ strftime fs vs' < field_text f w @ strftime fs ws'"
      using False l(1,2) strftime_field[of f fs] by simp
    also have "\<dots> \<longleftrightarrow> v < w \<or> v = w \<and> vs' < ws'"
      using lex_append[of "field_text f v" "field_text f w"] field_width l field_less[OF l(3,4)] field_eq[OF l(3,4)] Cons.IH[OF l(5,6)]
      by simp
    finally show ?thesis using l by simp
  qed
qed simp

section \<open>A text is read back\<close>

lemma two_digits:
  assumes "v < 100"
  shows "two lo hi (pad_str 2 v @ r) = (if lo \<le> v \<and> v \<le> hi then [(v, r)] else [])"
proof -
  define a b where "a = v div 10" and "b = v mod 10"
  have "a < 10" "b < 10" "10 * a + b = v" using assms unfolding a_def b_def by simp_all
  moreover have "pad_str 2 v = [digit_char a, digit_char b]" using pad_two[OF assms] unfolding a_def b_def .
  ultimately show ?thesis by simp
qed

lemma year_halves:
  assumes "1000 \<le> n" "n \<le> 9999"
  obtains a b where "nat_str n = pad_str 2 a @ pad_str 2 b" "a < 100" "b < 100" "n = 100 * a + b"
proof -
  define x where "x = n div 100"
  define b where "b = n mod 100"
  have n: "n = 100 * x + b" unfolding x_def b_def by simp
  have b: "b < 100" unfolding b_def by simp
  have x: "10 \<le> x" "x < 100" using assms n b by linarith+
  have d: "n div 10 = 10 * x + b div 10" "n mod 10 = b mod 10" unfolding n by (simp_all add: mod_add_eq[symmetric])
  have e: "(10 * x + b div 10) div 10 = x" "(10 * x + b div 10) mod 10 = b div 10" using b by simp_all
  have "nat_str n = nat_str x @ [digit_char (b div 10), digit_char (b mod 10)]"
    using nat_str_step[of n] nat_str_step[of "n div 10"] assms x unfolding d e by simp
  also have "nat_str x = pad_str 2 x" using x by (simp add: pad_two nat_str_step nat_str_digit)
  finally show thesis using that[of x b] n x b pad_two[OF b] by simp
qed

lemma alternatives_text:
  assumes "in_range f v"
  obtains more where "alternatives f (field_text f v @ r) = (v, r) # more"
proof (cases "f = Year")
  case True
  then obtain a b where h: "nat_str v = pad_str 2 a @ pad_str 2 b" "a < 100" "b < 100" "v = 100 * a + b"
    using assms by (auto elim: year_halves)
  then show thesis using that True by (simp add: field_text_def two_digits)
next
  case False
  have v: "v < 100" using assms False by (rule field_pad)
  have "\<exists>more. alternatives f (pad_str 2 v @ r) = (v, r) # more"
    using assms False v by (cases f) (auto simp: two_digits)
  then show thesis using that False by (auto simp: field_text_def)
qed

lemma matches_text: "fits fs vs \<Longrightarrow> \<exists>more. matches fs (strftime fs vs) = (vs, []) # more"
proof (induction fs arbitrary: vs)
  case (Cons f fs)
  show ?case
  proof (cases "\<exists>c. f = Lit c")
    case True
    then show ?thesis using Cons by auto
  next
    case False
    then obtain v vs' where l: "vs = v # vs'" "in_range f v" "fits fs vs'"
      using Cons.prems by (cases f; cases vs) auto
    obtain m1 where m1: "matches fs (strftime fs vs') = (vs', []) # m1" using Cons.IH[OF l(3)] by blast
    obtain m2 where m2: "alternatives f (field_text f v @ strftime fs vs') = (v, strftime fs vs') # m2"
      by (rule alternatives_text[OF l(2)])
    have t: "strftime (f # fs) vs = field_text f v @ strftime fs vs'" using False l(1) strftime_field by blast
    have "matches (f # fs) s = concat (map (\<lambda>(v, r). map (\<lambda>(vs, q). (v # vs, q)) (matches fs r)) (alternatives f s))" for s
      using False by (cases f) auto
    then show ?thesis unfolding t m2 using m1 l(1) m2 by simp
  qed
qed simp

lemma strptime_strftime: "fits fs vs \<Longrightarrow> strptime fs (strftime fs vs) = Some vs"
  using matches_text[of fs vs] by (auto simp: strptime_def)

section \<open>Instants\<close>

abbreviation date_format :: "directive list" where
  "date_format \<equiv> [Year, Lit (CHR ''-''), Month, Lit (CHR ''-''), Day]"

abbreviation clock_format :: "directive list" where
  "clock_format \<equiv> [Hour, Lit (CHR '':''), Minute, Lit (CHR '':''), Second]"

abbreviation utc_format :: "directive list" where
  "utc_format \<equiv> date_format @ Lit (CHR ''T'') # clock_format @ [Lit (CHR ''Z'')]"

abbreviation segment_format :: "directive list" where
  "segment_format \<equiv> [Year, Month, Day, Lit (CHR ''_''), Hour, Minute, Second]"

lemma month_days_bound: "month_days lp m \<le> 31"
  by (simp add: month_days_def)

lemma civil_fits:
  assumes "era t"
  shows "fits utc_format (civil t)" and "fits segment_format (civil t)" and "fits date_format (take 3 (civil t))"
proof -
  obtain y m d h mi s where c: "civil t = [y, m, d, h, mi, s]" "1000 \<le> y" "y \<le> 9999" "valid_date (int y) (int m) (int d)"
    "h < 24" "mi < 60" "s < 60"
    by (rule civil_fields[OF assms]) blast
  have "1 \<le> m" "m \<le> 12" "1 \<le> d" "d \<le> 31"
    using c(4) month_days_bound[of "leap (int y)" "int m"] by (simp_all add: valid_date_def)
  then show "fits utc_format (civil t)" "fits segment_format (civil t)" "fits date_format (take 3 (civil t))"
    using c by simp_all
qed

definition stamp :: "directive list \<Rightarrow> int \<Rightarrow> string" where
  "stamp fs t = strftime fs (civil t)"

definition read_stamp :: "directive list \<Rightarrow> string \<Rightarrow> int option" where
  "read_stamp fs s = (case strptime fs s of None \<Rightarrow> None | Some vs \<Rightarrow> instant vs)"

lemma read_stamp:
  assumes "era t"
  shows "read_stamp utc_format (stamp utc_format t) = Some t" and "read_stamp segment_format (stamp segment_format t) = Some t"
  using civil_fits[OF assms] instant_civil[OF assms] by (simp_all only: read_stamp_def stamp_def strptime_strftime option.case)

lemma stamp_less:
  assumes "era t" "era t'"
  shows "stamp utc_format t < stamp utc_format t' \<longleftrightarrow> t < t'" and "stamp segment_format t < stamp segment_format t' \<longleftrightarrow> t < t'"
  using civil_fits[OF assms(1)] civil_fits[OF assms(2)] civil_less[OF assms]
  by (simp_all only: stamp_def strftime_less)

end
