(* ===== verification/Recorder_Calendar.thy ===== *)
theory Recorder_Calendar
  imports Recorder_History Py_Time
begin

text \<open>
  The calendar of the recorder in a zone with a fixed offset, such as the Asia/Seoul of its
  container: \<open>zone_calendar off\<close> gives the date queries, the local-day filters, the summary and the
  clip listing of \<open>recorder/main.py\<close> their \<open>strptime\<close>, \<open>strftime\<close> and \<open>astimezone\<close>, \<open>utc_second\<close> is the text of
  the history rows, and \<open>zone_segment\<close> and \<open>zone_stem\<close> are the segment names of \<open>recorder/rollover.py\<close> and
  how they are read. The locale \<open>local_days\<close> states what the history relies on; \<open>zone_calendar\<close> meets it
  for every offset, over the years that print with four digits.
\<close>

section \<open>A zone with a fixed offset\<close>

definition read_date :: "string \<Rightarrow> int option" where
  "read_date d = (case strptime date_format d of Some vs \<Rightarrow> instant (vs @ [0, 0, 0]) | None \<Rightarrow> None)"

definition date_text :: "int \<Rightarrow> string" where
  "date_text t = strftime date_format (take 3 (civil t))"

definition zone_midnight :: "int \<Rightarrow> string \<Rightarrow> int" where
  "zone_midnight off d = (case read_date d of Some n \<Rightarrow> n - off | None \<Rightarrow> 0)"

definition zone_calendar :: "int \<Rightarrow> calendar" where
  "zone_calendar off =
     \<lparr>norm_date = (\<lambda>d. case read_date d of Some n \<Rightarrow> Some (date_text n) | None \<Rightarrow> None),
      day_start = (\<lambda>d. stamp utc_format (zone_midnight off d)),
      day_end = (\<lambda>d. stamp utc_format (zone_midnight off d + 86399)),
      local_date = (\<lambda>t. date_text (t + off)),
      parse_utc = read_stamp utc_format,
      midnight = zone_midnight off,
      utc_offset = (\<lambda>t. off)\<rparr>"

lemma before_iff: "before s t \<longleftrightarrow> s \<le> t"
proof (induction s t rule: before.induct)
  case (3 c r d s)
  then show ?case by (auto simp: char_less_ord)
qed simp_all

definition zone_time :: "int \<Rightarrow> int \<Rightarrow> bool" where
  "zone_time off t \<longleftrightarrow> era t \<and> era (t + off)"

definition zone_day :: "int \<Rightarrow> string \<Rightarrow> bool" where
  "zone_day off d \<longleftrightarrow>
     (case read_date d of
        Some n \<Rightarrow> date_text n = d \<and> era n \<and> era (n - off) \<and> era (n - off + 86399)
      | None \<Rightarrow> False)"

lemma civil_day:
  assumes "era s"
  obtains y m d where "take 3 (civil s) = [y, m, d]" "valid_date (int y) (int m) (int d)"
    "ymd2ord (int y) (int m) (int d) = s div 86400 + 719163"
  by (rule civil_fields[OF assms]) (use that in fastforce)

lemma date_text_le:
  assumes "era s" "era t"
  shows "date_text s \<le> date_text t \<longleftrightarrow> s div 86400 \<le> t div 86400"
proof -
  obtain y m d where c: "take 3 (civil s) = [y, m, d]" "valid_date (int y) (int m) (int d)"
    "ymd2ord (int y) (int m) (int d) = s div 86400 + 719163" by (rule civil_day[OF assms(1)])
  obtain y' m' d' where c': "take 3 (civil t) = [y', m', d']" "valid_date (int y') (int m') (int d')"
    "ymd2ord (int y') (int m') (int d') = t div 86400 + 719163" by (rule civil_day[OF assms(2)])
  have "date_text t < date_text s \<longleftrightarrow> [y', m', d'] < [y, m, d]"
    using strftime_less[OF civil_fits(3)[OF assms(2)] civil_fits(3)[OF assms(1)]] unfolding date_text_def c(1) c'(1) .
  also have "\<dots> \<longleftrightarrow> t div 86400 < s div 86400"
    using date_lex[OF c'(2) c(2)] unfolding c(3) c'(3) by simp
  finally show ?thesis by (simp add: not_less[symmetric])
qed

lemma instant_length: "instant vs = Some n \<Longrightarrow> length vs = 6"
  by (elim instantE) simp

lemma read_date_fields:
  assumes "read_date d = Some n"
  obtains y m dd where "strptime date_format d = Some [y, m, dd]" "valid_date (int y) (int m) (int dd)"
    "n = (ymd2ord (int y) (int m) (int dd) - 719163) * 86400"
proof -
  obtain vs where vs: "strptime date_format d = Some vs" "instant (vs @ [0, 0, 0]) = Some n"
    using assms by (auto simp: read_date_def split: option.splits)
  have "length vs = 3" using instant_length[OF vs(2)] by simp
  then obtain y m dd where l: "vs = [y, m, dd]" by (auto simp: numeral_3_eq_3 length_Suc_conv)
  show thesis using that[of y m dd] vs unfolding l by (simp add: day_second_def split: if_splits)
qed

lemma read_date_whole: "read_date d = Some n \<Longrightarrow> 86400 dvd n"
  by (elim read_date_fields) simp

lemma whole_day_le:
  fixes n t :: int
  assumes "86400 dvd n"
  shows "n div 86400 \<le> t div 86400 \<longleftrightarrow> n \<le> t" and "t div 86400 \<le> n div 86400 \<longleftrightarrow> t < n + 86400"
proof -
  define k q r where "k = n div 86400" and "q = t div 86400" and "r = t mod 86400"
  have "n = 86400 * k" "t = 86400 * q + r" "0 \<le> r" "r < 86400"
    using assms unfolding k_def q_def r_def by simp_all
  then show "n div 86400 \<le> t div 86400 \<longleftrightarrow> n \<le> t" "t div 86400 \<le> n div 86400 \<longleftrightarrow> t < n + 86400"
    unfolding k_def[symmetric] q_def[symmetric] by linarith+
qed

text \<open>What a date reads as prints as the date; the text is canonical when its year has four digits.\<close>

lemma civil_midnight: "valid_date (int y) (int m) (int d) \<Longrightarrow> civil ((ymd2ord (int y) (int m) (int d) - 719163) * 86400) = [y, m, d, 0, 0, 0]"
  by (simp add: civil_def ymd2ord_ord2ymd)

lemma read_date_text:
  assumes "read_date d = Some n" "era n"
  shows "read_date (date_text n) = Some n"
proof -
  obtain y m dd where f: "valid_date (int y) (int m) (int dd)" "n = (ymd2ord (int y) (int m) (int dd) - 719163) * 86400"
    using read_date_fields[OF assms(1)] by metis
  have c: "take 3 (civil n) = [y, m, dd]" using civil_midnight[OF f(1)] unfolding f(2)[symmetric] by simp
  have "strptime date_format (date_text n) = Some [y, m, dd]"
    unfolding date_text_def using strptime_strftime[OF civil_fits(3)[OF assms(2)]] c by simp
  then show ?thesis using f by (simp add: read_date_def day_second_def)
qed

text \<open>The laws the history relies on.\<close>

locale local_days =
  fixes cal :: calendar and utc :: "int \<Rightarrow> string" and ok :: "int \<Rightarrow> bool" and day :: "string \<Rightarrow> bool" and off :: int
  assumes sorts: "ok s \<Longrightarrow> ok t \<Longrightarrow> before (utc s) (utc t) \<longleftrightarrow> s \<le> t"
    and reads: "ok t \<Longrightarrow> parse_utc cal (utc t) = Some t"
    and normal: "day d \<Longrightarrow> norm_date cal d = Some d"
    and starts: "day d \<Longrightarrow> day_start cal d = utc (midnight cal d) \<and> ok (midnight cal d)"
    and ends: "day d \<Longrightarrow> day_end cal d = utc (midnight cal d + 86399) \<and> ok (midnight cal d + 86399)"
    and from_date: "day d \<Longrightarrow> ok t \<Longrightarrow> before d (local_date cal t) \<longleftrightarrow> midnight cal d \<le> t"
    and to_date: "day d \<Longrightarrow> ok t \<Longrightarrow> before (local_date cal t) d \<longleftrightarrow> t < midnight cal d + 86400"
    and whole: "day d \<Longrightarrow> 86400 dvd midnight cal d + off"
    and fixed: "utc_offset cal t = off"
begin

lemma in_days_iff:
  assumes "ok t" "pred_option day a" "pred_option day b"
  shows "in_days cal a b (utc t) \<longleftrightarrow>
    (case a of Some d \<Rightarrow> midnight cal d \<le> t | None \<Rightarrow> True) \<and> (case b of Some d \<Rightarrow> t < midnight cal d + 86400 | None \<Rightarrow> True)"
proof -
  have "before (day_start cal d) (utc t) \<longleftrightarrow> midnight cal d \<le> t" if "day d" for d
    using starts[OF that] sorts assms(1) by simp
  moreover have "before (utc t) (day_end cal d) \<longleftrightarrow> t < midnight cal d + 86400" if "day d" for d
    using ends[OF that] sorts assms(1) by auto
  ultimately show ?thesis using assms(2,3) by (auto simp: in_days_def split: option.splits)
qed

lemma in_days_local:
  assumes "ok t" "pred_option day a" "pred_option day b"
  shows "in_days cal a b (utc t) \<longleftrightarrow>
    (case a of Some d \<Rightarrow> before d (local_date cal t) | None \<Rightarrow> True) \<and>
    (case b of Some d \<Rightarrow> before (local_date cal t) d | None \<Rightarrow> True)"
  using in_days_iff[OF assms] assms from_date to_date by (auto split: option.splits)

lemma clip_filter_agrees:
  assumes "number (clip_stamp c) = Some x" "ok (timestamp_second x)" "pred_option day a" "pred_option day b"
  shows "date_matches cal a b c = Some (in_days cal a b (utc (timestamp_second x)))"
  using in_days_local[OF assms(2-4)] assms(1) by (auto simp: date_matches_def in_days_def Let_def)

text \<open>A bucket holds the rows of its hour or day.\<close>

lemma bucket_interval:
  assumes "0 < step" "step dvd s"
  shows "c - c mod step = s \<longleftrightarrow> s \<le> c \<and> c < s + (step :: int)"
proof
  assume "c - c mod step = s"
  then show "s \<le> c \<and> c < s + step" using pos_mod_bound[OF assms(1), of c] pos_mod_sign[OF assms(1), of c] by linarith
next
  assume c: "s \<le> c \<and> c < s + step"
  obtain q where q: "s = step * q" using assms(2) by blast
  have "c div step = q" by (rule int_div_pos_eq[where r = "c - s"]) (use c q in auto)
  then show "c - c mod step = s" using q by (simp add: minus_mod_eq_mult_div)
qed

lemma rows_of_bucket:
  assumes "day x" "day y" "0 < step" "step dvd 86400" "s \<in> set (bucket_starts step (midnight cal x) (midnight cal y + 86400))"
    and "\<forall>r\<in>set rows. ok (moment r) \<and> inf_created r = utc (moment r)"
  shows "bucket_rows cal step (s + off, off)
      (map (\<lambda>r. (inf_created r, inf_labels r)) (filter (\<lambda>r. in_days cal (Some x) (Some y) (inf_created r)) rows)) =
    map (\<lambda>r. (inf_created r, inf_labels r)) (filter (\<lambda>r. s + off \<le> moment r + off \<and> moment r + off < s + off + step) rows)"
proof -
  let ?lo = "midnight cal x" and ?hi = "midnight cal y + 86400"
  have s: "?lo \<le> s" "s < ?hi" "step dvd s - ?lo" using assms(5) by (simp_all add: bucket_starts_set[OF assms(3)])
  have wx: "step dvd ?lo + off" and wy: "step dvd ?hi + off"
    using dvd_trans[OF assms(4) whole[OF assms(1)]] dvd_add[OF dvd_trans[OF assms(4) whole[OF assms(2)]] assms(4)]
    by (simp_all add: algebra_simps)
  have so: "step dvd s + off" using dvd_add[OF s(3) wx] by simp
  have "step dvd ?hi - s" using dvd_diff[OF wy so] by simp
  then have room: "s + step \<le> ?hi" using zdvd_imp_le[of step "?hi - s"] s(2) by linarith
  have row: "in_days cal (Some x) (Some y) (inf_created r) \<and>
      map_option (row_bucket cal step) (parse_utc cal (inf_created r)) = Some (s + off, off) \<longleftrightarrow>
      s + off \<le> moment r + off \<and> moment r + off < s + off + step" if r: "r \<in> set rows" for r
  proof -
    have "in_days cal (Some x) (Some y) (inf_created r) \<longleftrightarrow> ?lo \<le> moment r \<and> moment r < ?hi"
      using assms(6) r in_days_iff[of "moment r" "Some x" "Some y"] assms(1,2) by simp
    moreover have "map_option (row_bucket cal step) (parse_utc cal (inf_created r)) = Some (s + off, off) \<longleftrightarrow>
        moment r + off - (moment r + off) mod step = s + off"
      using assms(6) r by (simp add: reads row_bucket_def Let_def fixed)
    ultimately show ?thesis
      using bucket_interval[OF assms(3) so, of "moment r + off"] s(1) room by auto
  qed
  have "filter (\<lambda>r. in_days cal (Some x) (Some y) (inf_created r) \<and>
      map_option (row_bucket cal step) (parse_utc cal (inf_created r)) = Some (s + off, off)) rows =
    filter (\<lambda>r. s + off \<le> moment r + off \<and> moment r + off < s + off + step) rows"
    by (rule filter_cong[OF refl row])
  then show ?thesis
    by (simp only: bucket_rows_def filter_map comp_def filter_filter fst_conv conj_commute)
qed

lemma summary_by_time:
  assumes "b = ''hour'' \<or> b = ''day''" "day x" "day y" "midnight cal x < midnight cal y + 86400"
    and rows: "\<forall>r\<in>set (inferences h). ok (moment r) \<and> inf_created r = utc (moment r) \<and> summary_labels (stored_labels (inf_labels r)) \<noteq> None"
  shows "\<exists>bs. summary cal x y b h = Inr bs \<and>
    map bk_start bs = map (\<lambda>s. (s + off, off)) (bucket_starts (step_of b) (midnight cal x) (midnight cal y + 86400)) \<and>
    (\<forall>k\<in>set bs. let slot = filter (\<lambda>r. fst (bk_start k) \<le> moment r + off \<and> moment r + off < fst (bk_start k) + step_of b) (inferences h) in
       bk_total k = length slot \<and>
       (\<forall>l. label_count l (bk_counts k) = (\<Sum>r\<leftarrow>slot. count_list (row_labels (inf_created r, inf_labels r)) l)))"
proof -
  let ?step = "step_of b" and ?lo = "midnight cal x" and ?hi = "midnight cal y + 86400" and ?rows = "rows_of_days cal x y h"
  have step: "0 < ?step" "?step dvd 86400" by (simp_all add: step_of_def)
  have "parse_utc cal (fst r) \<noteq> None \<and> summary_labels (stored_labels (snd r)) \<noteq> None" if "r \<in> set ?rows" for r
    using that rows reads by (auto simp: rows_of_days_def)
  then obtain bs where bs: "add_rows cal ?step ?rows (empty_buckets off ?step ?lo ?hi) = Some bs"
    using add_rows_total[of ?rows cal ?step] by blast
  note parts = summary_buckets[OF bs]
  have run: "summary cal x y b h = Inr bs"
    using summary_run[OF assms(1) normal[OF assms(2)] normal[OF assms(3)] assms(4)] bs by (simp add: fixed)
  have slot: "bucket_rows cal ?step (bk_start k) ?rows =
      map (\<lambda>r. (inf_created r, inf_labels r))
        (filter (\<lambda>r. fst (bk_start k) \<le> moment r + off \<and> moment r + off < fst (bk_start k) + ?step) (inferences h))" if "k \<in> set bs" for k
  proof -
    have "bk_start k \<in> set (map bk_start bs)" using that by simp
    then obtain s where s: "s \<in> set (bucket_starts ?step ?lo ?hi)" "bk_start k = (s + off, off)" unfolding parts(1) by auto
    show ?thesis
      using rows_of_bucket[OF assms(2,3) step s(1), of "inferences h" moment] rows unfolding s(2) rows_of_days_def by simp
  qed
  have "let sl = filter (\<lambda>r. fst (bk_start k) \<le> moment r + off \<and> moment r + off < fst (bk_start k) + ?step) (inferences h) in
       bk_total k = length sl \<and>
       (\<forall>l. label_count l (bk_counts k) = (\<Sum>r\<leftarrow>sl. count_list (row_labels (inf_created r, inf_labels r)) l))" if "k \<in> set bs" for k
    using parts(2,3)[OF that] unfolding slot[OF that] by (simp add: comp_def)
  then show ?thesis using run parts(1) by blast
qed

end

lemma zone_day_fields:
  assumes "zone_day off d"
  obtains n where "read_date d = Some n" "date_text n = d" "era n" "zone_midnight off d = n - off" "era (n - off)" "era (n - off + 86399)"
    "86400 dvd n"
  using assms read_date_whole by (auto simp: zone_day_def zone_midnight_def split: option.splits)

interpretation zone: local_days "zone_calendar off" "stamp utc_format" "zone_time off" "zone_day off" off for off
proof
  fix s t d
  show "zone_time off s \<Longrightarrow> zone_time off t \<Longrightarrow> before (stamp utc_format s) (stamp utc_format t) \<longleftrightarrow> s \<le> t"
    using stamp_less(1)[of t s] by (simp add: before_iff zone_time_def not_less[symmetric])
  show "zone_time off t \<Longrightarrow> parse_utc (zone_calendar off) (stamp utc_format t) = Some t"
    using read_stamp(1) by (simp only: zone_calendar_def calendar.simps zone_time_def)
  show "utc_offset (zone_calendar off) t = off"
    by (simp add: zone_calendar_def)
  assume day: "zone_day off d"
  then obtain n where n: "read_date d = Some n" "date_text n = d" "era n" "zone_midnight off d = n - off" "era (n - off)"
    "era (n - off + 86399)" "86400 dvd n"
    by (rule zone_day_fields)
  have last: "era (n + 86399)"
  proof -
    obtain k where k: "n = 86400 * k" using n(7) by blast
    then have "n < 253402300800" using n(3) by (simp add: era_def)
    then have "k < 2932897" unfolding k by simp
    then have "k \<le> 2932896" by simp
    then show ?thesis using n(3) unfolding k era_def by simp
  qed
  show "norm_date (zone_calendar off) d = Some d" using n by (simp add: zone_calendar_def)
  show "day_start (zone_calendar off) d = stamp utc_format (midnight (zone_calendar off) d) \<and> zone_time off (midnight (zone_calendar off) d)"
    using n by (simp add: zone_calendar_def zone_time_def)
  show "day_end (zone_calendar off) d = stamp utc_format (midnight (zone_calendar off) d + 86399) \<and>
      zone_time off (midnight (zone_calendar off) d + 86399)"
    using n(4,6) last unfolding zone_calendar_def zone_time_def by simp
  show "86400 dvd midnight (zone_calendar off) d + off" using n by (simp add: zone_calendar_def)
  assume t: "zone_time off t"
  then show "before d (local_date (zone_calendar off) t) \<longleftrightarrow> midnight (zone_calendar off) d \<le> t"
    using date_text_le[OF n(3), of "t + off"] whole_day_le(1)[OF n(7), of "t + off"] n(2,4)
    by (auto simp: zone_calendar_def zone_time_def before_iff)
  show "before (local_date (zone_calendar off) t) d \<longleftrightarrow> t < midnight (zone_calendar off) d + 86400"
    using date_text_le[OF _ n(3), of "t + off"] whole_day_le(2)[OF n(7), of "t + off"] n(2,4) t
    by (auto simp: zone_calendar_def zone_time_def before_iff)
qed

section \<open>Clocks and segment names\<close>

text \<open>\<open>time.gmtime\<close> drops the fraction of a second downwards.\<close>

definition utc_second :: "seconds \<Rightarrow> string" where
  "utc_second t = stamp utc_format \<lfloor>t\<rfloor>"

text \<open>\<open>time.strptime\<close> checks the date, \<open>mktime\<close> takes any second its pattern reads, 60 and 61 too.\<close>

fun mktime :: "int \<Rightarrow> nat list \<Rightarrow> int option" where
  "mktime off [y, m, d, h, mi, s] =
     (if valid_date (int y) (int m) (int d)
      then Some ((ymd2ord (int y) (int m) (int d) - 719163) * 86400 + day_second h mi s - off) else None)"
| "mktime off vs = None"

definition zone_stem :: "int \<Rightarrow> string \<Rightarrow> seconds option" where
  "zone_stem off stem =
     (case strptime segment_format stem of Some vs \<Rightarrow> map_option of_int (mktime off vs) | None \<Rightarrow> None)"

definition zone_segment :: "int \<Rightarrow> int \<Rightarrow> string" where
  "zone_segment off t = segment_name_for_time (\<lambda>x. stamp segment_format (\<lfloor>x\<rfloor> + off)) (of_int t)"

lemma mktime_instant: "instant vs = Some n \<Longrightarrow> mktime off vs = Some (n - off)"
  by (cases "(off, vs)" rule: mktime.cases) (auto split: if_splits)

lemma ends_with_append: "ends_with q (p @ q)"
  by (simp add: ends_with_def)

lemma zone_segment_start:
  assumes "era (t + off)"
  shows "parse_segment_start (zone_stem off) (zone_segment off t) = Some (of_int t)"
proof -
  have "strptime segment_format (stamp segment_format (t + off)) = Some (civil (t + off))"
    using strptime_strftime[OF civil_fits(2)[OF assms]] by (simp only: stamp_def)
  moreover have "mktime off (civil (t + off)) = Some t" using mktime_instant[OF instant_civil[OF assms]] by simp
  ultimately show ?thesis
    by (simp add: parse_segment_start_def zone_segment_def segment_name_for_time_def ends_with_append zone_stem_def
        del: strftime.simps)
qed

lemma append_less_same: "length a = length b \<Longrightarrow> a @ c < b @ c \<longleftrightarrow> a < b" for a :: "'a :: linorder list"
  by (simp add: lex_append)

lemma strftime_length: "fits fs vs \<Longrightarrow> length (strftime fs vs) = sum_list (map width fs)"
proof (induction fs arbitrary: vs)
  case (Cons f fs)
  show ?case
  proof (cases "\<exists>c. f = Lit c")
    case True
    then show ?thesis using Cons by auto
  next
    case False
    then obtain v vs' where l: "vs = v # vs'" "in_range f v" "fits fs vs'" using Cons.prems by (cases f; cases vs) auto
    then show ?thesis using Cons.IH[OF l(3)] field_width[OF l(2)] strftime_field[of f fs v vs'] False by simp
  qed
qed simp

lemma zone_segment_less:
  assumes "era (s + off)" "era (t + off)"
  shows "zone_segment off s < zone_segment off t \<longleftrightarrow> s < t"
proof -
  have "length (stamp segment_format (s + off)) = length (stamp segment_format (t + off))"
    using strftime_length[OF civil_fits(2)[OF assms(1)]] strftime_length[OF civil_fits(2)[OF assms(2)]] by (simp only: stamp_def)
  then show ?thesis
    using stamp_less(2)[OF assms] by (simp add: zone_segment_def segment_name_for_time_def append_less_same)
qed

lemma insert_name_insort: "insert_name = insort"
proof (intro ext)
  fix x ys show "insert_name x ys = insort x ys" by (induction ys) (simp_all add: before_iff)
qed

lemma list_segments_sort: "list_segments dir = sort (filter (ends_with segment_suffix) dir)"
  by (simp add: list_segments_def insert_name_insort sort_key_def)

lemma sort_map_mono:
  fixes f :: "'a :: linorder \<Rightarrow> 'b :: linorder"
  shows "(\<And>x y. x \<in> set xs \<Longrightarrow> y \<in> set xs \<Longrightarrow> f x \<le> f y \<longleftrightarrow> x \<le> y) \<Longrightarrow> sort (map f xs) = map f (sort xs)"
proof (induction xs)
  case (Cons x xs)
  have "insort (f x) (map f ys) = map f (insort x ys)" if "set ys \<subseteq> set (x # xs)" for ys
    using that Cons.prems by (induction ys) simp_all
  from this[of "sort xs"] have "insort (f x) (map f (sort xs)) = map f (insort x (sort xs))" by (simp add: subset_insertI)
  then show ?case using Cons by simp
qed simp

lemma last_Max: "sorted ts \<Longrightarrow> ts \<noteq> [] \<Longrightarrow> last ts = Max (set ts)" for ts :: "'a :: linorder list"
proof (induction ts rule: rev_induct)
  case (snoc t ts)
  then show ?case by (intro Max_eqI[symmetric]) (auto simp: sorted_append)
qed simp

lemma zone_entries:
  assumes "filter (ends_with segment_suffix) dir = map (zone_segment off) ts" "\<forall>t\<in>set ts. era (t + off)"
  shows "list_segments dir = map (zone_segment off) (sort ts)"
    and "segment_entries (zone_stem off) dir = map (\<lambda>t. (zone_segment off t, of_int t)) (sort ts)"
proof -
  have range_less: "zone_segment off s \<le> zone_segment off t \<longleftrightarrow> s \<le> t" if "s \<in> set ts" "t \<in> set ts" for s t
    using zone_segment_less[of t off s] assms(2) that by (simp add: not_less[symmetric])
  show l: "list_segments dir = map (zone_segment off) (sort ts)"
    unfolding list_segments_sort assms(1)
    by (rule sort_map_mono) (use range_less in blast)
  have "concat (map (\<lambda>t. case parse_segment_start (zone_stem off) (zone_segment off t) of Some u \<Rightarrow> [(zone_segment off t, u)] | None \<Rightarrow> [])
      us) = map (\<lambda>t. (zone_segment off t, of_int t)) us" if "\<forall>t\<in>set us. era (t + off)" for us
    using that by (induction us) (simp_all add: zone_segment_start)
  then show "segment_entries (zone_stem off) dir = map (\<lambda>t. (zone_segment off t, of_int t)) (sort ts)"
    unfolding segment_entries_def l map_map comp_def using assms(2) by simp
qed

text \<open>
  C24. Segments named by the clock of the recorder's zone: sorted by name they are sorted by the time
  they start, each name reads as that time, the age of the buffer is that of the latest one,
  and the segments chosen for a clip are consecutive, exactly those that meet the window.
\<close>

theorem segments_in_time_order:
  assumes "filter (ends_with segment_suffix) dir = map (zone_segment off) ts" "\<forall>t\<in>set ts. era (t + off) \<and> of_int t \<le> now"
    and "ts \<noteq> []" "0 \<le> retention"
  shows "segment_entries (zone_stem off) dir = map (\<lambda>t. (zone_segment off t, of_int t)) (sort ts) \<and>
    latest_segment_age (zone_stem off) now dir = Some (now - of_int (Max (set ts))) \<and>
    (\<exists>as bs cs. segment_spans now retention (map (\<lambda>t. (zone_segment off t, of_int t)) (sort ts)) = as @ bs @ cs \<and>
      select_segments (zone_stem off) now retention ws we dir = map fst bs \<and>
      (\<forall>p t u. (p, t, u) \<in> set bs \<longrightarrow> ws < u \<and> t < we) \<and>
      (\<forall>p t u. (p, t, u) \<in> set (as @ cs) \<longrightarrow> u \<le> ws \<or> we \<le> t))"
proof (intro conjI)
  have range: "\<forall>t\<in>set ts. era (t + off)" using assms(2) by simp
  note e = zone_entries[OF assms(1) range]
  show "segment_entries (zone_stem off) dir = map (\<lambda>t. (zone_segment off t, of_int t)) (sort ts)" by (rule e(2))
  have last: "last (sort ts) = Max (set ts)" using last_Max[OF sorted_sort, of ts] assms(3) by (metis set_empty set_sort)
  have "last (sort ts) \<in> set ts" using assms(3) by (metis last_in_set set_empty set_sort)
  then show "latest_segment_age (zone_stem off) now dir = Some (now - of_int (Max (set ts)))"
    using assms(2,3) zone_segment_start by (simp add: latest_segment_age_def e(1) last_map set_empty[symmetric] last del: set_empty)
  show "\<exists>as bs cs. segment_spans now retention (map (\<lambda>t. (zone_segment off t, of_int t)) (sort ts)) = as @ bs @ cs \<and>
      select_segments (zone_stem off) now retention ws we dir = map fst bs \<and>
      (\<forall>p t u. (p, t, u) \<in> set bs \<longrightarrow> ws < u \<and> t < we) \<and>
      (\<forall>p t u. (p, t, u) \<in> set (as @ cs) \<longrightarrow> u \<le> ws \<or> we \<le> t)"
    using selected_segments_contiguous[of "zone_stem off" dir now retention ws we] assms(2,4)
    unfolding e(2) by (simp add: comp_def sorted_map)
qed

section \<open>The history by local days\<close>

text \<open>
  The history and the clip listing mean the same days: for the time \<open>t\<close> of an event whose row
  was written by the clock and whose clip carries \<open>int(t)\<close> in its sidecar, the row is among the
  events of a range of local dates exactly when the clip is listed for that range, and both hold
  exactly when the local date of the event lies in the range.
\<close>

theorem event_and_clip_share_days:
  assumes "0 \<le> t" "zone_time off \<lfloor>t\<rfloor>" "pred_option (zone_day off) a" "pred_option (zone_day off) b"
    and "r \<in> set (events h)" "ev_created r = utc_second t"
    and "map_of (read_clip_meta c) ''timestamp'' = Some (JInt (py_int_of_float t))"
  shows "(r \<in> set (matching_events (zone_calendar off) None a b h) \<longleftrightarrow> in_days (zone_calendar off) a b (utc_second t)) \<and>
    date_matches (zone_calendar off) a b c = Some (r \<in> set (matching_events (zone_calendar off) None a b h)) \<and>
    (r \<in> set (matching_events (zone_calendar off) None a b h) \<longleftrightarrow>
       (case a of Some d \<Rightarrow> before d (date_text (\<lfloor>t\<rfloor> + off)) | None \<Rightarrow> True) \<and>
       (case b of Some d \<Rightarrow> before (date_text (\<lfloor>t\<rfloor> + off)) d | None \<Rightarrow> True))"
proof -
  have n: "number (clip_stamp c) = Some (of_int \<lfloor>t\<rfloor>)"
    using assms(1,7) by (simp add: clip_stamp_def get_default_def py_int_of_float_def)
  have s: "timestamp_second (of_int k) = k" for k
  proof -
    have "of_int k * (1000000 :: real) = of_int (k * 1000000)" by simp
    then have "round (of_int k * (1000000 :: real)) = k * 1000000" by (simp only: round_of_int)
    then show ?thesis by (simp add: timestamp_second_def)
  qed
  have "r \<in> set (matching_events (zone_calendar off) None a b h) \<longleftrightarrow> in_days (zone_calendar off) a b (utc_second t)"
    using assms(5,6) by (simp add: matching_events_def like_clause_def)
  moreover have "date_matches (zone_calendar off) a b c = Some (in_days (zone_calendar off) a b (utc_second t))"
    using zone.clip_filter_agrees[OF n _ assms(3,4)] assms(2) by (simp only: s utc_second_def)
  moreover have l: "local_date (zone_calendar off) \<lfloor>t\<rfloor> = date_text (\<lfloor>t\<rfloor> + off)" by (simp add: zone_calendar_def)
  note zone.in_days_local[OF assms(2-4), unfolded l]
  ultimately show ?thesis by (simp only: utc_second_def)
qed


lemma insert_one_rows:
  assumes "r \<in> set (inferences (snd (insert_one utc days x ph)))"
  shows "r \<in> set (inferences (snd ph)) \<or> inf_created r = utc (fst x)"
  using assms
  by (cases x; cases ph)
    (auto simp: insert_one_def insert_inference_def prune_inferences_def delete_where_def Let_def split: if_splits)

lemma inserted_rows:
  "r \<in> set (inferences (snd (fold (insert_one utc days) xs ph))) \<Longrightarrow>
   r \<in> set (inferences (snd ph)) \<or> (\<exists>x\<in>set xs. inf_created r = utc (fst x))"
proof (induction xs arbitrary: ph)
  case (Cons x xs)
  then show ?case using insert_one_rows[of r utc days x ph] by fastforce
qed simp

text \<open>
  C39. Retention by the clock: over any sequence of insertions in time order after a start, the
  table holds only rows at most an hour older than the retention window, those from before the
  start included, and every row inserted within the window, as long as the clock stays in the
  years that print with four digits.
\<close>

theorem retention_by_time:
  assumes "sorted (map fst (xs @ [x]))" "3600 \<le> fst (hd (xs @ [x]))" "fst x < 253402300800" "days \<le> 354285"
    and "\<forall>r\<in>set (inferences h). \<exists>t. era t \<and> inf_created r = stamp utc_format t"
  shows "case fold (insert_one utc_second days) (xs @ [x]) (0, h) of (pruned, h') \<Rightarrow>
    (\<forall>r\<in>set (inferences h'). \<exists>t. era t \<and> inf_created r = stamp utc_format t \<and> \<lfloor>fst x\<rfloor> - int days * 86400 - 3600 \<le> t) \<and>
    (\<forall>y\<in>set (xs @ [x]). fst x - real days * 86400 \<le> fst y \<longrightarrow>
       (\<exists>r\<in>set (inferences h'). inf_created r = utc_second (fst y) \<and> inf_text r = fst (snd y)))"
proof -
  have range: "era \<lfloor>t\<rfloor>" if "- 30610224000 \<le> t" "t < 253402300800" for t :: real
    using that unfolding era_def by (simp add: le_floor_iff floor_less_iff)
  have mono: "before (utc_second s) (utc_second t)" if "- 30610224000 \<le> s" "s \<le> t" "t < 253402300800" for s t
    using stamp_less(1)[OF range range, of t s] that floor_mono[of s t]
    by (simp only: utc_second_def before_iff not_less[symmetric]) simp
  have window: "real days * 86400 \<le> 30610224000" using assms(4) by simp
  have from_first: "fst (hd (xs @ [x])) \<le> fst y \<and> fst y \<le> fst x" if "y \<in> set (xs @ [x])" for y
    using assms(1) that by (cases xs) (auto simp: sorted_append)
  obtain pruned h' where f: "fold (insert_one utc_second days) (xs @ [x]) (0, h) = (pruned, h')"
    by (cases "fold (insert_one utc_second days) (xs @ [x]) (0, h)")
  have kept: "(\<forall>r\<in>set (inferences h'). before (utc_second (fst x - real days * 86400 - 3600)) (inf_created r)) \<and>
    (\<forall>y\<in>set (xs @ [x]). fst x - real days * 86400 \<le> fst y \<longrightarrow>
       (\<exists>r\<in>set (inferences h'). inf_created r = utc_second (fst y) \<and> inf_text r = fst (snd y)))"
    using inference_retention[of "- 30610224000" 253402300800 utc_second xs x days h] mono assms(1-3) window unfolding f by simp
  have "\<exists>t. era t \<and> inf_created r = stamp utc_format t \<and> \<lfloor>fst x\<rfloor> - int days * 86400 - 3600 \<le> t"
    if r: "r \<in> set (inferences h')" for r
  proof -
    have "r \<in> set (inferences h) \<or> (\<exists>y\<in>set (xs @ [x]). inf_created r = utc_second (fst y))"
      using inserted_rows[of r utc_second days "xs @ [x]" "(0, h)"] r unfolding f by simp
    moreover have "era \<lfloor>fst y\<rfloor>" if "y \<in> set (xs @ [x])" for y using from_first[OF that] assms(2,3) by (intro range) linarith+
    ultimately obtain t where t: "era t" "inf_created r = stamp utc_format t"
      using assms(5) unfolding utc_second_def by blast
    have cut: "\<lfloor>fst x - real days * 86400 - 3600\<rfloor> = \<lfloor>fst x\<rfloor> - int days * 86400 - 3600"
      by linarith
    have "era (\<lfloor>fst x\<rfloor> - int days * 86400 - 3600)"
      unfolding cut[symmetric] using window assms(2,3) from_first[of x] by (intro range) simp_all
    then have "\<lfloor>fst x\<rfloor> - int days * 86400 - 3600 \<le> t"
      using bspec[OF conjunct1[OF kept] r] stamp_less(1)[OF t(1), of "\<lfloor>fst x\<rfloor> - int days * 86400 - 3600"]
      unfolding t(2) utc_second_def cut before_iff by (simp add: not_less[symmetric])
    then show ?thesis using t by blast
  qed
  then show ?thesis using kept unfolding f by simp
qed

text \<open>
  A date filter in the years before 1000: the normalised text loses its leading zero (\<open>strftime\<close> of
  the C library does not pad), so it no longer compares as a date. \<open>date_from=0999-01-01\<close>, before
  every clip, hides them all.
\<close>

lemma early_date: "norm_date (zone_calendar off) ''0999-01-01'' = Some ''999-01-01''" "before ''999-01-01'' ''2100-01-01'' = False"
  "date_text 4102444800 = ''2100-01-01''"
  by (simp_all only: zone_calendar_def calendar.simps) code_simp+

theorem early_date_hides_clips:
  assumes "\<forall>c\<in>set (clips t). \<exists>x. number (clip_stamp c) = Some x \<and> era (timestamp_second x + off) \<and>
      timestamp_second x + off < 4102444800"
  shows "list_clips (zone_calendar off) utc q (Some ''0999-01-01'') None limit offset t = Inr ([], 0)"
proof -
  have "date_matches (zone_calendar off) (Some ''999-01-01'') None c = Some False" if c: "c \<in> set (clips t)" for c
  proof -
    obtain x where x: "number (clip_stamp c) = Some x" "era (timestamp_second x + off)" "timestamp_second x + off \<le> 4102444800"
      using assms c by fastforce
    have "era 4102444800" by (simp add: era_def)
    then have "date_text (timestamp_second x + off) \<le> ''2100-01-01''"
      unfolding early_date(3)[symmetric] using x(2,3) by (intro iffD2[OF date_text_le] zdiv_mono1) simp_all
    then have later: "before (date_text (timestamp_second x + off)) ''2100-01-01''" by (simp only: before_iff)
    have "\<not> before ''999-01-01'' (date_text (timestamp_second x + off))"
      using before_trans[OF _ later] early_date(2) by blast
    then show ?thesis using x(1) by (simp add: date_matches_def zone_calendar_def)
  qed
  then have "listed (zone_calendar off) utc q (Some ''999-01-01'') None cs = Some []" if "set cs \<subseteq> set (clips t)" for cs
    using that by (induction cs) auto
  moreover have "set (newest_first t) \<subseteq> set (clips t)" by (auto simp: newest_first_def)
  ultimately have "listed (zone_calendar off) utc q (Some ''999-01-01'') None (newest_first t) = Some []" by blast
  then show ?thesis
    by (simp add: list_clips_def with_dates_def normalize_date_query_def early_date(1) page_def)
qed

section \<open>Concrete days in Seoul\<close>

abbreviation seoul :: int where "seoul \<equiv> 32400"

lemma seoul_day: "zone_day seoul ''2026-11-05''" "zone_midnight seoul ''2026-11-05'' = 1793804400"
  "date_text 1793847600 = ''2026-11-05''"
  by code_simp+

definition seoul_clip :: clip where
  "seoul_clip = \<lparr>cp_dir = [''2026'', ''11''], cp_name = ''20261105_030000_500.mp4'', cp_size = 10, cp_mtime = 1793815210,
     cp_sidecar = Some (5, Some [(''timestamp'', JInt 1793815200)])\<rparr>"

definition seoul_history :: history where
  "seoul_history = \<lparr>events = [\<lparr>ev_id = 1, ev_trigger = ''cat'', ev_clip = None, ev_created = utc_second (1793815200 + 1 / 2)\<rparr>],
     event_seq = 1,
     inferences = [\<lparr>inf_id = 1, inf_created = stamp utc_format 1793815200, inf_text = ''t'',
        inf_labels = dumps (\<lambda>_. []) False (JList (map JStr [''cat''])), inf_preset = [], inf_model = [], inf_elapsed_ms = None\<rparr>],
     inference_seq = 1\<rparr>"

theorem event_and_clip_share_days_witness:
  "date_matches (zone_calendar seoul) (Some ''2026-11-05'') (Some ''2026-11-05'') seoul_clip = Some True"
proof -
  let ?t = "1793815200 + 1 / 2 :: real"
  have f: "\<lfloor>?t\<rfloor> = 1793815200" by linarith
  have "(0 :: real) \<le> ?t" "zone_time seoul \<lfloor>?t\<rfloor>" "pred_option (zone_day seoul) (Some ''2026-11-05'')"
    "events seoul_history ! 0 \<in> set (events seoul_history)" "ev_created (events seoul_history ! 0) = utc_second ?t"
    "map_of (read_clip_meta seoul_clip) ''timestamp'' = Some (JInt (py_int_of_float ?t))"
    using seoul_day(1)
    by (simp_all add: f zone_time_def era_def seoul_history_def read_clip_meta_def seoul_clip_def py_int_of_float_def)
  note share = event_and_clip_share_days[OF this(1,2,3,3,4-6)]
  have "date_text (\<lfloor>?t\<rfloor> + seoul) = ''2026-11-05''" using seoul_day(3) by (simp add: f)
  then have "events seoul_history ! 0 \<in> set (matching_events (zone_calendar seoul) None (Some ''2026-11-05'') (Some ''2026-11-05'') seoul_history)"
    by (intro iffD2[OF conjunct2[OF conjunct2[OF share]]]) (simp only: option.case before_refl simp_thms)
  then show ?thesis using conjunct1[OF conjunct2[OF share]] by (simp only: simp_thms)
qed


theorem retention_by_time_witness:
  "case fold (insert_one utc_second 90) [(1793815200, ''a'', [], [], [], None), (1793815300, ''b'', [], [], [], None)]
      (0, seoul_history\<lparr>inferences := []\<rparr>) of
     (pruned, h') \<Rightarrow> \<exists>r\<in>set (inferences h'). inf_created r = utc_second 1793815200 \<and> inf_text r = ''a''"
  using retention_by_time[of "[(1793815200, ''a'', [], [], [], None)]" "(1793815300, ''b'', [], [], [], None)" 90
      "seoul_history\<lparr>inferences := []\<rparr>"]
  by (simp add: split_beta)

theorem segments_in_time_order_witness:
  "segment_entries (zone_stem seoul) [zone_segment seoul 1793815201, ''x.tmp'', zone_segment seoul 1793815200] =
     [(zone_segment seoul 1793815200, 1793815200), (zone_segment seoul 1793815201, 1793815201)]"
proof -
  have "filter (ends_with segment_suffix) [zone_segment seoul 1793815201, ''x.tmp'', zone_segment seoul 1793815200] =
      map (zone_segment seoul) [1793815201, 1793815200]"
    by (simp add: zone_segment_def segment_name_for_time_def ends_with_append del: strftime.simps)
      (simp add: ends_with_def segment_suffix_def)
  from segments_in_time_order[OF this, of 1793815210 30] show ?thesis by (simp add: era_def)
qed

end
