(* ===== verification/Recorder_Timeline.thy ===== *)
theory Recorder_Timeline
  imports Recorder_Calendar
begin

text \<open>
  One event or judgment on its way through the recorder, with the clock and the zone of
  \<open>Recorder_Calendar\<close>: the names the clip gets, the file a history row leads to, the days both are
  found under, and the hour or day of the summary in which a judgment is counted. \<open>zone_env\<close> puts
  the concrete texts into the environment of \<open>Recorder_Events\<close>.
\<close>

section \<open>Texts of local times\<close>

fun directives :: "string \<Rightarrow> directive list" where
  "directives [] = []"
| "directives [c] = [Lit c]"
| "directives (c # d # s) =
     (if c \<noteq> CHR ''%'' then Lit c # directives (d # s)
      else if d = CHR ''Y'' then Year # directives s
      else if d = CHR ''m'' then Month # directives s
      else if d = CHR ''d'' then Day # directives s
      else if d = CHR ''H'' then Hour # directives s
      else if d = CHR ''M'' then Minute # directives s
      else if d = CHR ''S'' then Second # directives s
      else Lit d # directives s)"

fun civil_field :: "directive \<Rightarrow> nat list \<Rightarrow> nat list" where
  "civil_field Year c = take 1 c"
| "civil_field Month c = take 1 (drop 1 c)"
| "civil_field Day c = take 1 (drop 2 c)"
| "civil_field Hour c = take 1 (drop 3 c)"
| "civil_field Minute c = take 1 (drop 4 c)"
| "civil_field Second c = take 1 (drop 5 c)"
| "civil_field (Lit x) c = []"

text \<open>\<open>time.strftime(fmt, time.localtime(t))\<close>.\<close>

definition zone_text :: "int \<Rightarrow> string \<Rightarrow> seconds \<Rightarrow> string" where
  "zone_text off fmt t =
     (let fs = directives fmt in strftime fs (concat (map (\<lambda>f. civil_field f (civil (\<lfloor>t\<rfloor> + off))) fs)))"

definition zone_env :: "int \<Rightarrow> recorder_env \<Rightarrow> recorder_env" where
  "zone_env off env = env\<lparr>local_text := zone_text off, utc_text := utc_second, seg_time := zone_stem off\<rparr>"

lemma formats:
  "directives ''%Y%m%d_%H%M%S'' = segment_format" "directives ''%Y'' = [Year]" "directives ''%m'' = [Month]"
  by code_simp+

lemma pad_str_decimal: "c \<in> set (pad_str w n) \<Longrightarrow> is_decimal c"
proof -
  have "is_decimal (CHR ''0'')" by code_simp
  then show "c \<in> set (pad_str w n) \<Longrightarrow> is_decimal c"
    using nat_str_decimal by (auto simp: pad_str_def Let_def)
qed

lemma pad_two_length: "n < 100 \<Longrightarrow> length (pad_str 2 n) = 2"
  by (simp add: pad_two)

text \<open>A base name starts with year, month and day, and its directory is the year and the month.\<close>

lemma base_name:
  assumes "0 \<le> t" "era (\<lfloor>t\<rfloor> + off)"
  obtains y m d rest where
    "event_base_name (zone_env off env) t = (y @ m @ d @ rest, [y, m])" "length y = 4" "length m = 2" "length d = 2"
    "\<forall>c\<in>set (y @ m @ d). is_decimal c" "\<forall>c\<in>set rest. is_decimal c \<or> c = CHR ''_''"
    "y @ CHR ''-'' # m @ CHR ''-'' # d = date_text (\<lfloor>t\<rfloor> + off)"
proof -
  obtain y m d h mi s where c: "civil (\<lfloor>t\<rfloor> + off) = [y, m, d, h, mi, s]" "1000 \<le> y" "y \<le> 9999" "valid_date (int y) (int m) (int d)"
    by (rule civil_fields[OF assms(2)]) blast
  have md: "m < 100" "d < 100"
    using c(4) month_days_bound[of "leap (int y)" "int m"] by (simp_all add: valid_date_def)
  define ms where "ms = py_int_of_float ((t - of_int (py_int_of_float t)) * 1000)"
  have "0 \<le> t - of_int (py_int_of_float t)" using assms(1) by (simp add: py_int_of_float_def)
  then have "0 \<le> ms" unfolding ms_def by (intro py_int_of_float_nonneg) simp
  show thesis
  proof (rule that)
    show "event_base_name (zone_env off env) t =
        (nat_str y @ pad_str 2 m @ pad_str 2 d @ (CHR ''_'' # pad_str 2 h @ pad_str 2 mi @ pad_str 2 s @ CHR ''_'' # pad3 ms),
         [nat_str y, pad_str 2 m])"
      unfolding event_base_name_def zone_env_def zone_text_def Let_def recorder_env.simps formats
      by (simp add: c(1) ms_def)
    show "length (nat_str y) = 4" using c(2,3) by (simp add: year_text)
    show "length (pad_str 2 m) = 2" "length (pad_str 2 d) = 2" using md pad_two_length by simp_all
    show "\<forall>c\<in>set (nat_str y @ pad_str 2 m @ pad_str 2 d). is_decimal c" using pad_str_decimal nat_str_decimal by auto
    show "\<forall>c\<in>set (CHR ''_'' # pad_str 2 h @ pad_str 2 mi @ pad_str 2 s @ CHR ''_'' # pad3 ms). is_decimal c \<or> c = CHR ''_''"
      using pad_str_decimal \<open>0 \<le> ms\<close> by (auto simp: pad3_def)
    show "nat_str y @ CHR ''-'' # pad_str 2 m @ CHR ''-'' # pad_str 2 d = date_text (\<lfloor>t\<rfloor> + off)"
      by (simp add: date_text_def c(1))
  qed
qed

section \<open>The file behind a history row\<close>

lemma find_unique: "distinct (map f xs) \<Longrightarrow> x \<in> set xs \<Longrightarrow> find (\<lambda>c. f c = f x) xs = Some x"
  by (induction xs) (auto simp: image_iff)

lemma one_dot: "sublist ''..'' s \<Longrightarrow> 2 \<le> length (filter (\<lambda>c. c = CHR ''.'') s)"
  by (auto simp: sublist_def)

lemma dated_clip_resolves:
  assumes "tree_inv tr" "c \<in> set (clips tr)" "clip_path c = ([y, m], y @ m @ d @ rest @ ''.mp4'')"
    and "length y = 4" "length m = 2" "length d = 2"
    and "\<forall>c\<in>set (y @ m @ d). is_decimal c" "\<forall>c\<in>set rest. is_decimal c \<or> c = CHR ''_''"
  shows "resolve_clip (cp_name c) tr = Some c"
proof -
  let ?n = "y @ m @ d @ rest @ ''.mp4''"
  have name: "cp_name c = ?n" using assms(3) by (simp add: clip_path_def)
  have no: "\<not> is_decimal (CHR ''/'')" "\<not> is_decimal (CHR 92)" "\<not> is_decimal (CHR ''.'')" by code_simp+
  have ends: "ends_with ''.mp4'' ?n" using ends_with_append[of "''.mp4''" "y @ m @ d @ rest"] by simp
  have "CHR ''/'' \<notin> set ?n" "CHR 92 \<notin> set ?n" using assms(7,8) no by auto
  moreover have "filter (\<lambda>c. c = CHR ''.'') (y @ m @ d @ rest) = []"
    using assms(7,8) no by (auto simp: filter_empty_conv)
  then have "\<not> contains ''..'' ?n" unfolding contains_sublist using one_dot[of ?n] by auto
  moreover have "take 8 ?n = y @ m @ d" using assms(4-6) by simp
  then have "8 \<le> length ?n \<and> list_all is_digit_char (take 8 ?n)"
    using assms(4-7) by (auto simp: is_digit_char_def list_all_iff)
  moreover have "take 4 ?n = y" "take 2 (drop 4 ?n) = m" using assms(4,5) by simp_all
  moreover have "find (\<lambda>x. clip_path x = clip_path c) (clips tr) = Some c"
    using assms(1,2) by (intro find_unique) (simp_all add: tree_inv_def)
  ultimately show ?thesis unfolding resolve_clip_def name using ends by (simp add: assms(3))
qed

definition event_of :: "(json \<Rightarrow> string) \<Rightarrow> dict \<Rightarrow> string list \<Rightarrow> seconds \<Rightarrow> event_info" where
  "event_of rp payload ks t =
     \<lparr>ei_keywords = ks, ei_text = str_or rp [] (get_null payload ''vlm_text''), ei_time = t,
      ei_frame = get_null payload ''last_frame_time'', ei_started = get_null payload ''inference_started_at'',
      ei_elapsed = get_null payload ''inference_elapsed_ms''\<rparr>"

text \<open>
  C35. The row of an event leads to its clip, by name and by day. For an event at time \<open>t\<close> under a new
  name, whatever ffmpeg and the disk answer: the last row of the history carries the text of \<open>t\<close>;
  if it names a clip, a request for that name reaches exactly the clip this event made, described
  by the event (when the sidecar could be written), stored under the local date of \<open>t\<close>; and then the
  date filter of the clip listing takes the clip for exactly the ranges of local dates for which
  the date filter of the history takes the row.
\<close>

theorem event_row_opens_its_clip:
  assumes "tree_inv (tree_of r)" "0 \<le> t" "zone_time off \<lfloor>t\<rfloor>"
    and "event_keywords (repr_of env) payload = Some ks" "event_clock (rd_float env) now payload = Some t"
    and "well_timed (event_of (repr_of env) payload ks t)" "event_base_name (zone_env off env) t = (base, dir)"
    and "(dir, clip_name_of base) \<notin> clip_path ` set (clips (tree_of r))"
    and "process_event (zone_env off env) now ca1 ca2 payload r = r'"
  shows "\<exists>kept x. events (history_of r') = kept @ [x] \<and> ev_created x = utc_second t \<and>
    (\<forall>n. ev_clip x = Some n \<longrightarrow> (\<exists>c. resolve_clip n (tree_of r') = Some c \<and> cp_name c = n \<and>
       describes (event_of (repr_of env) payload ks t) (cp_sidecar c) \<and>
       (\<exists>y m d rest. n = y @ m @ d @ rest \<and> cp_dir c = [y, m] \<and> y @ CHR ''-'' # m @ CHR ''-'' # d = date_text (\<lfloor>t\<rfloor> + off)) \<and>
       (cp_sidecar c \<noteq> None \<longrightarrow> (\<forall>a b. pred_option (zone_day off) a \<and> pred_option (zone_day off) b \<longrightarrow>
          date_matches (zone_calendar off) a b c = Some (x \<in> set (matching_events (zone_calendar off) None a b (history_of r')))))))"
proof -
  let ?env = "zone_env off env" and ?ei = "event_of (repr_of env) payload ks t"
  have e: "repr_of ?env = repr_of env" "rd_float ?env = rd_float env" "utc_text ?env = utc_second" by (simp_all add: zone_env_def)
  obtain res r1 where run: "capture_clip ?env ?ei ca1 ca2 r = (res, r1)" by fastforce
  have r': "r' = r1\<lparr>history_of := insert_event (join_with (CHR '','') ks) res (utc_second t) (history_of r1)\<rparr>"
    using assms(4,5,9) run by (simp add: process_event_eq e event_of_def)
  define x where "x = \<lparr>ev_id = Suc (event_seq (history_of r1)), ev_trigger = join_with (CHR '','') ks, ev_clip = res, ev_created = utc_second t\<rparr>"
  have rows: "events (history_of r') = events (history_of r1) @ [x]" by (simp add: r' insert_event_def x_def)
  have base: "event_base_name ?env (ei_time ?ei) = (base, dir)" using assms(7) by (simp add: event_of_def)
  note whole = capture_complete[OF assms(1,6) base assms(8) run]
  have linked: "\<exists>c. resolve_clip n (tree_of r') = Some c \<and> cp_name c = n \<and> describes ?ei (cp_sidecar c) \<and>
       (\<exists>y m d rest. n = y @ m @ d @ rest \<and> cp_dir c = [y, m] \<and> y @ CHR ''-'' # m @ CHR ''-'' # d = date_text (\<lfloor>t\<rfloor> + off)) \<and>
       (cp_sidecar c \<noteq> None \<longrightarrow> (\<forall>a b. pred_option (zone_day off) a \<and> pred_option (zone_day off) b \<longrightarrow>
          date_matches (zone_calendar off) a b c = Some (x \<in> set (matching_events (zone_calendar off) None a b (history_of r')))))"
    if n: "ev_clip x = Some n" for n
  proof -
    have res: "res = Some n" using n by (simp add: x_def)
    obtain old c where c: "n = clip_name_of base" "tree_inv (tree_of r1)" "clips (tree_of r1) = old @ [c]" "clip_path c = (dir, n)"
      "describes ?ei (cp_sidecar c)"
      using whole unfolding res by auto
    obtain y m d rest where b: "event_base_name ?env t = (y @ m @ d @ rest, [y, m])" "length y = 4" "length m = 2" "length d = 2"
      "\<forall>c\<in>set (y @ m @ d). is_decimal c" "\<forall>c\<in>set rest. is_decimal c \<or> c = CHR ''_''"
      "y @ CHR ''-'' # m @ CHR ''-'' # d = date_text (\<lfloor>t\<rfloor> + off)"
      using base_name[OF assms(2)] assms(3) unfolding zone_time_def by metis
    have nm: "n = y @ m @ d @ rest @ ''.mp4''" "dir = [y, m]" using b(1) assms(7) c(1) by (simp_all add: clip_name_of_def)
    have tree: "tree_of r' = tree_of r1" by (simp add: r')
    have "resolve_clip (cp_name c) (tree_of r1) = Some c"
      by (rule dated_clip_resolves[OF c(2) _ _ b(2-6)]) (use c(3,4) nm in simp_all)
    moreover have name: "cp_name c = n" "cp_dir c = [y, m]" using c(4) nm(2) by (simp_all add: clip_path_def)
    moreover have "date_matches (zone_calendar off) a b c = Some (x \<in> set (matching_events (zone_calendar off) None a b (history_of r')))"
      if sc: "cp_sidecar c \<noteq> None" and days: "pred_option (zone_day off) a" "pred_option (zone_day off) b" for a b
    proof -
      obtain k dct where s: "cp_sidecar c = Some (k, Some dct)" "map_of dct ''timestamp'' = Some (JInt (py_int_of_float t))"
        using c(5) sc by (auto simp: describes_def event_of_def split: option.splits prod.splits)
      have "map_of (read_clip_meta c) ''timestamp'' = Some (JInt (py_int_of_float t))" using s by (simp add: read_clip_meta_def)
      moreover have "x \<in> set (events (history_of r'))" by (simp add: rows)
      ultimately show ?thesis
        using event_and_clip_share_days[OF assms(2,3) days] by (simp add: x_def)
    qed
    ultimately show ?thesis using c(5) b(7) nm(1) by (auto simp: tree)
  qed
  show ?thesis using rows linked by (intro exI[of _ "events (history_of r1)"] exI[of _ x]) (simp add: x_def)
qed

section \<open>The bucket a judgment is counted in\<close>

text \<open>A row the service wrote: the text of its own time, and labels that can be read.\<close>

definition clocked :: "int \<Rightarrow> inference_row \<Rightarrow> bool" where
  "clocked off r \<longleftrightarrow>
     (case read_stamp utc_format (inf_created r) of
        Some k \<Rightarrow> zone_time off k \<and> inf_created r = stamp utc_format k \<and> summary_labels (stored_labels (inf_labels r)) \<noteq> None
      | None \<Rightarrow> False)"

definition row_time :: "inference_row \<Rightarrow> int" where
  "row_time r = (case read_stamp utc_format (inf_created r) of Some k \<Rightarrow> k | None \<Rightarrow> 0)"

lemma clocked_time:
  "clocked off r \<Longrightarrow> zone_time off (row_time r) \<and> inf_created r = stamp utc_format (row_time r) \<and>
    summary_labels (stored_labels (inf_labels r)) \<noteq> None"
  by (auto simp: clocked_def row_time_def split: option.splits)

lemma clocked_row:
  assumes "zone_time off k" "inf_created r = stamp utc_format k" "summary_labels (stored_labels (inf_labels r)) \<noteq> None"
  shows "clocked off r \<and> row_time r = k"
  using assms read_stamp(1) unfolding clocked_def row_time_def zone_time_def by (simp only: option.case simp_thms)

lemma posted_rows:
  assumes "get_null payload ''vlm_text'' = JStr vlm" "number (get_null payload ''judged_at'') = Some t"
  obtains row where
    "inf_created row = utc_text env t" "inf_labels row = dumps (\<lambda>_. []) False (JList (map JStr (label_list (get_null payload ''labels''))))"
    "set (inferences (history_of (store_of (snd (post_inference env days now prune_now (Some (JObj payload)) s)))))
       \<subseteq> insert row (set (inferences (history_of (store_of s))))"
    "before (utc_text env (prune_now - real days * 86400)) (utc_text env t) \<longrightarrow>
       row \<in> set (inferences (history_of (store_of (snd (post_inference env days now prune_now (Some (JObj payload)) s)))))"
proof -
  let ?row = "\<lparr>inf_id = Suc (inference_seq (history_of (store_of s))), inf_created = utc_text env t, inf_text = vlm,
     inf_labels = dumps (\<lambda>_. []) False (JList (map JStr (label_list (get_null payload ''labels'')))),
     inf_preset = str_or (repr_of env) ''default'' (get_null payload ''preset''),
     inf_model = str_or (repr_of env) [] (get_null payload ''model''),
     inf_elapsed_ms = as_elapsed (get_null payload ''inference_elapsed_ms'')\<rparr>"
  have h: "history_of (store_of (snd (post_inference env days now prune_now (Some (JObj payload)) s))) =
      snd (insert_inference (utc_text env) days prune_now (utc_text env t) vlm
        (dumps (\<lambda>_. []) False (JList (map JStr (label_list (get_null payload ''labels'')))))
        (str_or (repr_of env) ''default'' (get_null payload ''preset'')) (str_or (repr_of env) [] (get_null payload ''model''))
        (as_elapsed (get_null payload ''inference_elapsed_ms'')) (pruned_at s) (history_of (store_of s)))"
    using assms by (simp add: post_inference_def Let_def split: prod.split)
  have sub': "set (inferences (snd (prune_inferences utc days now p g))) \<subseteq> set (inferences g)" for utc now p g
    by (auto simp: prune_inferences_def delete_where_def)
  have kept: "x \<in> set (inferences (snd (prune_inferences utc days now p g)))"
    if "x \<in> set (inferences g)" "before (utc (now - real days * 86400)) (inf_created x)" for utc p g x now
    using that by (auto simp: prune_inferences_def delete_where_def)
  show thesis
  proof (rule that[of ?row])
    show "set (inferences (history_of (store_of (snd (post_inference env days now prune_now (Some (JObj payload)) s)))))
       \<subseteq> insert ?row (set (inferences (history_of (store_of s))))"
      unfolding h insert_inference_def by (rule order_trans[OF sub']) simp
    show "before (utc_text env (prune_now - real days * 86400)) (utc_text env t) \<longrightarrow>
       ?row \<in> set (inferences (history_of (store_of (snd (post_inference env days now prune_now (Some (JObj payload)) s)))))"
      unfolding h insert_inference_def by (intro impI kept) simp_all
  qed simp_all
qed

lemma stored_summary_labels:
  "summary_labels (stored_labels (dumps rp False (JList (map JStr ls)))) = Some ls"
  by (simp only: stored_labels_dumps) (simp add: summary_labels_def comp_def)

lemma sum_at_least: "x \<in> set xs \<Longrightarrow> f x \<le> (\<Sum>y\<leftarrow>xs. f y :: nat)"
  by (induction xs) auto

lemma counted_in_slot:
  assumes "r \<in> set rows" "lo \<le> moment r + off" "moment r + off < hi" "row_labels (inf_created r, inf_labels r) = ls"
  shows "let slot = filter (\<lambda>r. lo \<le> moment r + off \<and> moment r + off < hi) rows in
    0 < length slot \<and> (\<forall>l\<in>set ls. 0 < (\<Sum>r\<leftarrow>slot. count_list (row_labels (inf_created r, inf_labels r)) l))"
proof -
  let ?slot = "filter (\<lambda>r. lo \<le> moment r + off \<and> moment r + off < hi) rows"
  have r: "r \<in> set ?slot" using assms by simp
  have "0 < (\<Sum>r\<leftarrow>?slot. count_list (row_labels (inf_created r, inf_labels r)) l)" if "l \<in> set ls" for l
  proof -
    have "0 < count_list (row_labels (inf_created r, inf_labels r)) l" using assms(4) that by (metis count_list_0_iff neq0_conv)
    then show ?thesis using sum_at_least[OF r, of "\<lambda>r. count_list (row_labels (inf_created r, inf_labels r)) l"] by simp
  qed
  moreover have "0 < length ?slot" using r by (rule length_pos_if_in_set)
  ultimately show ?thesis unfolding Let_def by blast
qed


section \<open>A day in Seoul\<close>

definition seoul_payload :: dict where
  "seoul_payload = [(''keywords'', JList [JStr ''cat'']), (''event_time'', JFloat 1793815200), (''vlm_text'', JStr ''a cat'')]"

lemma seoul_name: "event_base_name (zone_env seoul sample_env) 1793815200 = (''20261105_030000_000'', [''2026'', ''11''])"
proof -
  have "civil 1793847600 = [2026, 11, 5, 3, 0, 0]" by code_simp
  then show ?thesis
    unfolding event_base_name_def zone_env_def zone_text_def Let_def recorder_env.simps formats
    by (simp add: py_int_of_float_def pad3_def) code_simp
qed

theorem event_row_opens_its_clip_witness:
  "\<exists>x c. last (events (history_of (process_event (zone_env seoul sample_env) 1793815201 sample_capture sample_capture seoul_payload sample_recorder))) = x \<and>
     ev_clip x = Some ''20261105_030000_000.mp4'' \<and>
     resolve_clip ''20261105_030000_000.mp4''
       (tree_of (process_event (zone_env seoul sample_env) 1793815201 sample_capture sample_capture seoul_payload sample_recorder)) = Some c"
proof -
  let ?env = "zone_env seoul sample_env" and ?ei = "event_of (repr_of sample_env) seoul_payload [''cat''] 1793815200"
  let ?r' = "process_event ?env 1793815201 sample_capture sample_capture seoul_payload sample_recorder"
  have ks: "event_keywords (repr_of sample_env) seoul_payload = Some [''cat'']"
    by (simp add: event_keywords_def seoul_payload_def get_null_def)
  have clock: "event_clock (rd_float sample_env) 1793815201 seoul_payload = Some 1793815200"
    by (simp add: event_clock_def seoul_payload_def get_null_def)
  have ei: "?ei = \<lparr>ei_keywords = [''cat''], ei_text = ''a cat'', ei_time = 1793815200, ei_frame = JNull, ei_started = JNull, ei_elapsed = JNull\<rparr>"
    by (simp add: event_of_def seoul_payload_def get_null_def str_or_def)
  have wt: "well_timed ?ei" by (simp add: ei well_timed_def)
  have inv: "tree_inv (tree_of sample_recorder)" by (simp add: sample_recorder_def sample_tree_inv)
  have zt: "zone_time seoul \<lfloor>1793815200 :: real\<rfloor>" by (simp add: zone_time_def era_def)
  have fresh: "([''2026'', ''11''], clip_name_of ''20261105_030000_000'') \<notin> clip_path ` set (clips (tree_of sample_recorder))"
    by (simp add: sample_recorder_def sample_tree_def sample_clip_def clip_path_def)
  define r1 where "r1 = note_storage ''error'' ''segment_window_empty'' 0 sample_recorder"
  have roll: "finalize_rollover_clip ?env ?ei sample_capture sample_recorder = (Made None, r1)"
    unfolding finalize_rollover_clip_eq r1_def ei
    by (simp add: seoul_name) (simp add: prune_plenty zone_env_def sample_capture_def sample_env_def select_segments_def
        segment_entries_def list_segments_def bytes_to_mb_def)
  have "\<exists>r2. record_direct_clip ?env ?ei sample_capture r1 = (Made (Some ''20261105_030000_000.mp4''), r2)"
    unfolding record_direct_clip_eq ei
    by (simp add: seoul_name) (simp add: zone_env_def sample_capture_def sample_env_def prune_plenty publish_def Let_def clip_name_of_def
        event_meta_def build_trigger_clip_meta_def opt_items_def)
  then obtain r2 where direct: "record_direct_clip ?env ?ei sample_capture r1 = (Made (Some ''20261105_030000_000.mp4''), r2)" by blast
  have cap: "capture_clip ?env ?ei sample_capture sample_capture sample_recorder = (Some ''20261105_030000_000.mp4'', r2)"
    by (simp add: capture_clip_def capture_with_def roll direct)
  have e: "repr_of ?env = repr_of sample_env" "rd_float ?env = rd_float sample_env" by (simp_all add: zone_env_def)
  have "?r' = r2\<lparr>history_of := insert_event (join_with (CHR '','') [''cat'']) (Some ''20261105_030000_000.mp4'')
      (utc_text ?env 1793815200) (history_of r2)\<rparr>"
    using ks clock cap by (simp add: process_event_eq e event_of_def[symmetric])
  then have clip: "ev_clip (last (events (history_of ?r'))) = Some ''20261105_030000_000.mp4''" by (simp add: insert_event_def)
  from event_row_opens_its_clip[OF inv _ zt ks clock wt seoul_name fresh refl] obtain kept x where
    x: "events (history_of ?r') = kept @ [x]" "\<forall>n. ev_clip x = Some n \<longrightarrow> (\<exists>c. resolve_clip n (tree_of ?r') = Some c)"
    by auto blast
  then show ?thesis using clip by auto
qed


end
