(* ===== verification/Analyzer_Streams.thy ===== *)
theory Analyzer_Streams
  imports Analyzer_Server
begin

text \<open>
  The two stream handlers of \<open>analyzer/server.py\<close> and the model list of \<open>analyzer/holder.py\<close>. Every
  connection has a thread. A thread of the event stream waits on its queue for a second, takes
  the snapshot and writes it until a write fails; the other threads change the state under
  \<open>_lock\<close> and put a token into every queue under \<open>_sse_lock\<close>, a section of its own. The step relation
  runs these sections in any order. The MJPEG loop is a function of the rounds it makes.
\<close>

section \<open>Calls in two sections\<close>

datatype call = Event app_event | Models "string list" string | Current string | Stopped string
| Source string string | Config dict

fun made :: "call \<Rightarrow> app \<Rightarrow> app" where
  "made (Event e) a = app_step e a"
| "made (Models ms m) a = set_vlm_models ms m a"
| "made (Current m) a = set_vlm_current_model m a"
| "made (Stopped r) a = mark_pipeline_stopped r a"
| "made (Source p t) a = set_source p t a"
| "made (Config c) a = set_config c a"

text \<open>The calls that end in \<open>_sse_push\<close>, in the state in which they take the lock.\<close>

fun pushes :: "call \<Rightarrow> app \<Rightarrow> bool" where
  "pushes (Event (Frame now f w h)) a = (ap_active a \<and> ap_pipeline a \<noteq> ''streaming'')"
| "pushes (Event (Setting p ks ls ps)) a = False"
| "pushes (Event (Preset i)) a = False"
| "pushes (Source p t) a = False"
| "pushes (Config c) a = False"
| "pushes c a = True"

fun setter :: "call \<Rightarrow> bool" where
  "setter (Event (Subscribe i)) = False"
| "setter (Event (Unsubscribe i)) = False"
| "setter (Event (Get i)) = False"
| "setter c = True"

text \<open>The section under \<open>_lock\<close>: the call without the tokens.\<close>

definition held :: "call \<Rightarrow> app \<Rightarrow> app" where
  "held c a = (made c a)\<lparr>ap_queues := ap_queues a\<rparr>"

lemmas made_defs = app_defs set_vlm_models_def set_vlm_current_model_def mark_pipeline_stopped_def set_source_def set_config_def

lemma made_sections: "setter c \<Longrightarrow> made c a = (if pushes c a then sse_push (held c a) else held c a)"
  by (cases c rule: setter.cases) (simp_all add: held_def made_defs)

text \<open>What a client is told at once: everything but the settings, the source and the frame's numbers.\<close>

definition told :: "app \<Rightarrow> string \<times> real \<times> bool \<times> bool \<times> string \<times> string \<times> nat \<times> string \<times> string \<times> string list \<times> string" where
  "told a = (ap_infer_raw a, ap_infer_ms a, ap_event a, ap_active a, ap_pipeline a, ap_detail a, ap_restarts a,
     ap_vlm_state a, ap_vlm_error a, ap_vlm_models a, ap_vlm_current a)"

definition streaming_clear :: "app \<Rightarrow> bool" where
  "streaming_clear a \<longleftrightarrow> (ap_pipeline a = ''streaming'' \<longrightarrow> ap_detail a = [])"

lemma held_clear: "setter c \<Longrightarrow> streaming_clear a \<Longrightarrow> streaming_clear (held c a)"
  by (cases c rule: setter.cases) (simp_all add: held_def made_defs streaming_clear_def current_detail_def)

lemma held_quiet: "setter c \<Longrightarrow> \<not> pushes c a \<Longrightarrow> streaming_clear a \<Longrightarrow> told (held c a) = told a"
  by (cases c rule: setter.cases) (simp_all add: held_def made_defs streaming_clear_def told_def)

lemma held_queues [simp]: "ap_queues (held c a) = ap_queues a"
  by (simp add: held_def)

section \<open>The threads of the event stream\<close>

datatype phase = Waiting | Woken | Sending app

record hub =
  hb_app :: app
  hb_pending :: nat
  hb_clients :: "nat \<Rightarrow> (phase \<times> app option) option"

definition on_client :: "nat \<Rightarrow> phase \<Rightarrow> app option \<Rightarrow> hub \<Rightarrow> hub" where
  "on_client i p s h = h\<lparr>hb_clients := (hb_clients h)(i \<mapsto> (p, s))\<rparr>"

text \<open>
  One round of \<open>_serve_sse\<close> is \<open>wake\<close>, \<open>look\<close> and \<open>deliver\<close> or \<open>gone\<close>: the queue is emptied or the
  second is over, the snapshot is taken, the write succeeds or raises.
\<close>

inductive hub_step :: "hub \<Rightarrow> hub \<Rightarrow> bool" where
  change: "setter c \<Longrightarrow>
     hub_step h (h\<lparr>hb_app := held c (hb_app h), hb_pending := (if pushes c (hb_app h) then Suc (hb_pending h) else hb_pending h)\<rparr>)"
| push: "hb_pending h = Suc n \<Longrightarrow> hub_step h (h\<lparr>hb_app := sse_push (hb_app h), hb_pending := n\<rparr>)"
| connect: "hb_clients h i = None \<Longrightarrow> hub_step h (on_client i Waiting None (h\<lparr>hb_app := sse_subscribe i (hb_app h)\<rparr>))"
| wake: "hb_clients h i = Some (Waiting, s) \<Longrightarrow> hub_step h (on_client i Woken s (h\<lparr>hb_app := sse_get i (hb_app h)\<rparr>))"
| look: "hb_clients h i = Some (Woken, s) \<Longrightarrow> hub_step h (on_client i (Sending (hb_app h)) s h)"
| deliver: "hb_clients h i = Some (Sending v, s) \<Longrightarrow> hub_step h (on_client i Waiting (Some v) h)"
| gone: "hb_clients h i = Some (Sending v, s) \<Longrightarrow>
     hub_step h (h\<lparr>hb_app := sse_unsubscribe i (hb_app h), hb_clients := (hb_clients h)(i := None)\<rparr>)"

definition hub_start :: hub where
  "hub_start = \<lparr>hb_app = initial_app, hb_pending = 0, hb_clients = (\<lambda>_. None)\<rparr>"

definition queues_match :: "hub \<Rightarrow> bool" where
  "queues_match h \<longleftrightarrow> distinct (map fst (ap_queues (hb_app h))) \<and> set (map fst (ap_queues (hb_app h))) = dom (hb_clients h)"

fun up_to_date :: "app \<Rightarrow> phase \<times> app option \<Rightarrow> bool" where
  "up_to_date a (Waiting, Some v) = (told v = told a)"
| "up_to_date a (Waiting, None) = True"
| "up_to_date a (Woken, s) = True"
| "up_to_date a (Sending v, s) = (told v = told a)"

definition hub_inv :: "hub \<Rightarrow> bool" where
  "hub_inv h \<longleftrightarrow> queues_match h \<and> streaming_clear (hb_app h) \<and>
     (hb_pending h = 0 \<longrightarrow> (\<forall>i c. hb_clients h i = Some c \<longrightarrow> (i, True) \<notin> set (ap_queues (hb_app h)) \<longrightarrow> up_to_date (hb_app h) c))"

lemma told_queue [simp]:
  "told (sse_push a) = told a" "told (sse_get i a) = told a" "told (sse_subscribe i a) = told a" "told (sse_unsubscribe i a) = told a"
  by (simp_all add: told_def sse_push_def sse_get_def sse_subscribe_def sse_unsubscribe_def)

lemma clear_queue [simp]:
  "streaming_clear (sse_push a) = streaming_clear a" "streaming_clear (sse_get i a) = streaming_clear a"
  "streaming_clear (sse_subscribe i a) = streaming_clear a" "streaming_clear (sse_unsubscribe i a) = streaming_clear a"
  by (simp_all add: streaming_clear_def sse_push_def sse_get_def sse_subscribe_def sse_unsubscribe_def)

lemma queue_names [simp]:
  "map fst (ap_queues (sse_push a)) = map fst (ap_queues a)" "map fst (ap_queues (sse_get i a)) = map fst (ap_queues a)"
  "map fst (ap_queues (sse_subscribe i a)) = map fst (ap_queues a) @ [i]"
  "map fst (ap_queues (sse_unsubscribe i a)) = filter (\<lambda>j. j \<noteq> i) (map fst (ap_queues a))"
  by (simp_all add: sse_push_def sse_get_def sse_subscribe_def sse_unsubscribe_def comp_def filter_map)

lemma up_to_date_told: "told a = told b \<Longrightarrow> up_to_date a c = up_to_date b c"
  by (cases "(a, c)" rule: up_to_date.cases) simp_all

lemma token_of_others: "j \<noteq> i \<Longrightarrow> (j, True) \<in> set (ap_queues (sse_get i a)) \<longleftrightarrow> (j, True) \<in> set (ap_queues a)"
  by (force simp: sse_get_def)

lemma token_of_pushed: "i \<in> fst ` set (ap_queues a) \<Longrightarrow> (i, True) \<in> set (ap_queues (sse_push a))"
  by (force simp: sse_push_def)

lemma token_subscribed: "(j, True) \<in> set (ap_queues (sse_subscribe i a)) \<longleftrightarrow> (j, True) \<in> set (ap_queues a)"
  by (auto simp: sse_subscribe_def)

lemma token_unsubscribed: "j \<noteq> i \<Longrightarrow> (j, True) \<in> set (ap_queues (sse_unsubscribe i a)) \<longleftrightarrow> (j, True) \<in> set (ap_queues a)"
  by (auto simp: sse_unsubscribe_def)

lemma hub_step_inv: "hub_step h h' \<Longrightarrow> hub_inv h \<Longrightarrow> hub_inv h'"
proof (induction rule: hub_step.induct)
  case (change c h)
  then show ?case
    using held_clear[OF change(1)] held_quiet[OF change(1)] up_to_date_told[of "held c (hb_app h)" "hb_app h"]
    by (auto simp: hub_inv_def queues_match_def)
next
  case (push h n)
  have "(i, True) \<in> set (ap_queues (sse_push (hb_app h)))" if "hb_clients h i = Some c" for i c
    using push that by (intro token_of_pushed) (auto simp: hub_inv_def queues_match_def)
  then show ?case using push by (auto simp: hub_inv_def queues_match_def)
next
  case (connect h i)
  then show ?case
    using up_to_date_told[of "sse_subscribe i (hb_app h)" "hb_app h"]
    by (auto simp: hub_inv_def queues_match_def on_client_def token_subscribed)
next
  case (wake h i s)
  then show ?case
    using up_to_date_told[of "sse_get i (hb_app h)" "hb_app h"]
    by (auto simp: hub_inv_def queues_match_def on_client_def token_of_others)
next
  case (look h i s)
  then show ?case by (auto simp: hub_inv_def queues_match_def on_client_def)
next
  case (deliver h i v s)
  then show ?case by (fastforce simp: hub_inv_def queues_match_def on_client_def)
next
  case (gone h i v s)
  then show ?case
    using up_to_date_told[of "sse_unsubscribe i (hb_app h)" "hb_app h"]
    by (auto simp: hub_inv_def queues_match_def token_unsubscribed)
qed

lemma hub_reachable: "hub_step\<^sup>*\<^sup>* hub_start h \<Longrightarrow> hub_inv h"
proof (induction rule: rtranclp_induct)
  case base
  show ?case by (simp add: hub_inv_def queues_match_def hub_start_def streaming_clear_def initial_app_def)
next
  case (step h h')
  then show ?case using hub_step_inv by blast
qed

text \<open>The own steps of a connected thread.\<close>

fun own_step :: "nat \<Rightarrow> hub \<Rightarrow> hub" where
  "own_step i h =
     (case hb_clients h i of
        Some (Waiting, s) \<Rightarrow> on_client i Woken s (h\<lparr>hb_app := sse_get i (hb_app h)\<rparr>)
      | Some (Woken, s) \<Rightarrow> on_client i (Sending (hb_app h)) s h
      | Some (Sending v, s) \<Rightarrow> on_client i Waiting (Some v) h
      | None \<Rightarrow> h)"

lemma own_step_is_step: "hb_clients h i \<noteq> None \<Longrightarrow> hub_step h (own_step i h)"
  by (cases "hb_clients h i")
    (auto split: phase.splits intro: hub_step.wake hub_step.look hub_step.deliver)

lemma own_round:
  assumes "hb_clients h i = Some c"
  shows "\<exists>n\<le>4. \<exists>v. hb_clients ((own_step i ^^ n) h) i = Some (Waiting, Some v) \<and> told v = told (hb_app h)"
proof -
  obtain p s where c: "c = (p, s)" by (cases c)
  have waiting: "\<exists>v. hb_clients ((own_step i ^^ 3) k) i = Some (Waiting, Some v) \<and> told v = told (hb_app k)"
    if "hb_clients k i = Some (Waiting, s)" for k s
    using that by (simp add: numeral_3_eq_3 on_client_def)
  show ?thesis
  proof (cases p)
    case Waiting
    then show ?thesis using waiting[of h s] assms c by (intro exI[of _ 3]) simp
  next
    case Woken
    then have "\<exists>v. hb_clients ((own_step i ^^ 2) h) i = Some (Waiting, Some v) \<and> told v = told (hb_app h)"
      using assms c by (simp add: numeral_2_eq_2 on_client_def)
    then show ?thesis by (intro exI[of _ 2]) simp
  next
    case (Sending v)
    then have k: "hb_clients (own_step i h) i = Some (Waiting, Some v)" "hb_app (own_step i h) = hb_app h"
      using assms c by (simp_all add: on_client_def)
    have "(own_step i ^^ 4) h = (own_step i ^^ 3) (own_step i h)" by (simp add: funpow_swap1 numeral_3_eq_3 eval_nat_numeral)
    then show ?thesis using waiting[OF k(1)] k(2) by (intro exI[of _ 4]) simp
  qed
qed


section \<open>The frame stream\<close>

text \<open>
  The rounds of \<open>_serve_mjpeg\<close>: the state each finds, and \<open>Some k\<close> when the client has left and a write
  raises, with the last \<open>k + 1\<close> bytes of the part undelivered.
\<close>

fun mjpeg_loop :: "(nat \<Rightarrow> string) \<Rightarrow> (app \<times> nat option) list \<Rightarrow> string \<times> bool" where
  "mjpeg_loop jpeg [] = ([], False)"
| "mjpeg_loop jpeg ((a, left) # rounds) =
     (case (ap_frame a, left) of
        (Some f, Some k) \<Rightarrow> (let part = mjpeg_part jpeg a in (take (length part - Suc k) part, True))
      | _ \<Rightarrow> (case mjpeg_loop jpeg rounds of (s, ended) \<Rightarrow> (mjpeg_part jpeg a @ s, ended)))"

fun frames_shown :: "(app \<times> nat option) list \<Rightarrow> nat list" where
  "frames_shown [] = []"
| "frames_shown ((a, left) # rounds) =
     (case (ap_frame a, left) of
        (Some f, Some k) \<Rightarrow> []
      | (Some f, None) \<Rightarrow> f # frames_shown rounds
      | (None, _) \<Rightarrow> frames_shown rounds)"

text \<open>A reader of the stream that trusts \<open>Content-Length\<close>, so an image may hold any bytes.\<close>

definition part_head :: string where
  "part_head = ''--frame'' @ [CHR 0x0D, CHR 0x0A] @ ''Content-Type: image/jpeg'' @ [CHR 0x0D, CHR 0x0A] @ ''Content-Length: ''"

definition read_part :: "string \<Rightarrow> (string \<times> string) option" where
  "read_part s =
     (if \<not> prefix part_head s then None
      else let r = drop (length part_head) s; ds = takeWhile is_decimal r; q = drop (length ds) r; n = digits_val ds; b = drop 4 q in
        if prefix [CHR 0x0D, CHR 0x0A, CHR 0x0D, CHR 0x0A] q \<and> take 2 (drop n b) = [CHR 0x0D, CHR 0x0A]
        then Some (take n b, drop (n + 2) b) else None)"

lemma read_part_shorter: "read_part s = Some (j, r) \<Longrightarrow> length r < length s"
proof -
  assume "read_part s = Some (j, r)"
  moreover obtain p where p: "p = part_head" by blast
  ultimately have "length r \<le> length s - length p" "prefix p s" by (auto simp: read_part_def Let_def split: if_splits)
  moreover from this have "length p \<le> length s" by (blast intro: prefix_length_le)
  moreover have "0 < length p" unfolding p part_head_def by simp
  ultimately show ?thesis by linarith
qed

function read_parts :: "string \<Rightarrow> string list" where
  "read_parts s = (case read_part s of None \<Rightarrow> [] | Some (j, r) \<Rightarrow> j # read_parts r)"
  by pat_completeness auto
termination
  by (relation "measure length") (auto intro: read_part_shorter)

declare read_parts.simps [simp del]

lemma part_layout:
  "ap_frame a = Some f \<Longrightarrow> mjpeg_part jpeg a =
    part_head @ nat_str (length (jpeg f)) @ [CHR 0x0D, CHR 0x0A, CHR 0x0D, CHR 0x0A] @ jpeg f @ [CHR 0x0D, CHR 0x0A]"
  by (simp add: mjpeg_part_def part_head_def Let_def)

lemma takeWhile_digits: "takeWhile is_decimal (nat_str n @ CHR 0x0D # w) = nat_str n"
proof -
  have "\<not> is_decimal (CHR 0x0D)" by code_simp
  then show ?thesis using nat_str_decimal by (subst takeWhile_append2) auto
qed

lemma read_part_of_part: "ap_frame a = Some f \<Longrightarrow> read_part (mjpeg_part jpeg a @ s) = Some (jpeg f, s)"
  unfolding part_layout read_part_def Let_def by (simp add: takeWhile_digits)

lemma digits_only: "takeWhile is_decimal (take n (nat_str m)) = take n (nat_str m)"
  using nat_str_decimal by (auto simp: takeWhile_eq_all_conv dest: in_set_takeD)

text \<open>A part that is cut short is not taken for a part.\<close>

lemma read_part_cut:
  assumes "ap_frame a = Some f"
  shows "read_part (take (length (mjpeg_part jpeg a) - Suc k) (mjpeg_part jpeg a)) = None"
proof -
  let ?j = "jpeg f" and ?nl = "[CHR 0x0D, CHR 0x0A]" and ?nls = "[CHR 0x0D, CHR 0x0A, CHR 0x0D, CHR 0x0A]"
  define ds where "ds = nat_str (length ?j)"
  define t where "t = part_head @ ds @ ?nls @ ?j @ ?nl"
  define n where "n = length t - Suc k"
  have n: "n < length part_head + length ds + 4 + length ?j + 2" unfolding n_def t_def by simp
  show ?thesis
  proof (cases "prefix part_head (take n t)")
    case True
    then have l: "length part_head \<le> n" using prefix_length_le by fastforce
    define m where "m = n - length part_head"
    have drop_head: "drop (length part_head) (take n t) = take m (ds @ ?nls @ ?j @ ?nl)"
    proof -
      have "take n t = part_head @ take m (ds @ ?nls @ ?j @ ?nl)" unfolding t_def take_append[of n part_head] m_def using l by simp
      then show ?thesis by simp
    qed
    have none: "\<not> (prefix ?nls q \<and> take 2 (drop (length ?j) (drop 4 q)) = ?nl)"
      if q: "q = take (m - length ds) (?nls @ ?j @ ?nl)" for q
    proof
      assume c: "prefix ?nls q \<and> take 2 (drop (length ?j) (drop 4 q)) = ?nl"
      then have "length (take 2 (drop (length ?j) (drop 4 q))) = 2" by simp
      then have "length ?j + 6 \<le> length q" by simp
      then show False using n l unfolding q m_def by simp
    qed
    show ?thesis
    proof (cases "m \<le> length ds")
      case True
      then have r: "take m (ds @ ?nls @ ?j @ ?nl) = take m ds" by simp
      show ?thesis
        using part_layout[OF assms, of jpeg] True
        unfolding n_def[symmetric] t_def[symmetric] ds_def[symmetric] read_part_def Let_def
        by (simp add: n_def[symmetric] drop_head r digits_only[of m "length ?j", folded ds_def])
    next
      case False
      then obtain w where w: "take m (ds @ ?nls @ ?j @ ?nl) = ds @ CHR 0x0D # w"
        by (cases "m - length ds") simp_all
      have tw: "takeWhile is_decimal (take m (ds @ ?nls @ ?j @ ?nl)) = ds"
        unfolding w unfolding ds_def by (rule takeWhile_digits)
      have q: "drop (length ds) (take m (ds @ ?nls @ ?j @ ?nl)) = take (m - length ds) (?nls @ ?j @ ?nl)"
        using False by (simp add: take_append[of m ds])
      have v: "digits_val ds = length ?j" unfolding ds_def by simp
      show ?thesis
        using part_layout[OF assms, of jpeg] none[OF refl]
        unfolding n_def[symmetric] t_def[symmetric] ds_def[symmetric] read_part_def Let_def
        by (simp only: n_def[symmetric] drop_head tw q v if_False if_True simp_thms split: if_splits)
    qed
  next
    case False
    then show ?thesis
      using part_layout[OF assms, of jpeg] unfolding n_def t_def ds_def read_part_def by simp
  qed
qed

text \<open>
  C37. The frame stream carries the frames: whatever the rounds of a connection find and wherever its
  last write is cut off, a reader that goes by \<open>Content-Length\<close> gets back from the bytes delivered
  exactly the encoded frames of the rounds until the client left, in order, whatever bytes the
  images hold.
\<close>

theorem mjpeg_read_back: "read_parts (fst (mjpeg_loop jpeg rounds)) = map jpeg (frames_shown rounds)"
proof (induction jpeg rounds rule: mjpeg_loop.induct)
  case (1 jpeg)
  show ?case by (subst read_parts.simps) (simp add: read_part_def part_head_def)
next
  case (2 jpeg a left rounds)
  consider "ap_frame a = None" | f where "ap_frame a = Some f" "left = None" | f k where "ap_frame a = Some f" "left = Some k" by fast
  then show ?case
  proof cases
    case 1
    then show ?thesis using "2.IH" by (simp add: mjpeg_part_def split_beta)
  next
    case 2
    have "fst (mjpeg_loop jpeg ((a, left) # rounds)) = mjpeg_part jpeg a @ fst (mjpeg_loop jpeg rounds)"
      using 2 by (simp add: split_beta)
    then show ?thesis
      using "2.IH" 2 read_part_of_part[OF 2(1)] by (simp only:, subst read_parts.simps) simp
  next
    case 3
    then show ?thesis by (simp add: Let_def, subst read_parts.simps) (simp add: read_part_cut)
  qed
qed

text \<open>As long as there is no frame the loop writes nothing, so it never learns that its client left.\<close>

theorem frame_stream_waits_for_the_gone:
  "\<forall>r\<in>set rounds. ap_frame (fst r) = None \<Longrightarrow> mjpeg_loop jpeg rounds = ([], False)"
  by (induction rounds) (auto simp: mjpeg_part_def)

section \<open>The configured models\<close>

definition default_model_id :: string where
  "default_model_id = ''Efficient-Large-Model/VILA1.5-3b''"

text \<open>\<open>VLM_MODELS\<close> of the environment, or its default.\<close>

definition configured_models :: "string option \<Rightarrow> string list" where
  "configured_models env =
     (let ms = filter (\<lambda>m. m \<noteq> []) (map strip (split_on (CHR '','') (case env of Some s \<Rightarrow> s | None \<Rightarrow> default_model_id)))
      in if ms = [] then [default_model_id] else ms)"

lemma configured_models_ok: "configured_models env \<noteq> [] \<and> (\<forall>m\<in>set (configured_models env). m \<noteq> [] \<and> strip m = m)"
proof -
  have "strip default_model_id = default_model_id" "default_model_id \<noteq> []" by code_simp+
  then show ?thesis by (auto simp: configured_models_def Let_def)
qed

text \<open>
  Model switches after a start-up that succeeded, for any text of \<open>VLM_MODELS\<close>: a request is
  accepted for exactly the configured models that had a compiled cache or were compiled now, and
  the model that is loaded is one of them.
\<close>

theorem switches_offered:
  assumes "mc_models mc = configured_models env" "sv_available sv = []" "sv_holder sv = None" "bring_up mc sv = (None, sv')"
  shows "\<exists>h. sv_holder sv' = Some h \<and> hd_name h = hd (configured_models env) \<and> hd_name h \<in> set (sv_available sv') \<and>
    (\<forall>name. fst (fst (request_switch (sv_available sv') name (sv_holder sv'))) \<longleftrightarrow>
       name \<in> set (configured_models env) \<and> (mc_exists mc (so_path name) \<or> mc_compiles mc name))"
proof -
  let ?d = "hd (configured_models env)" and ?u = "\<lambda>m. mc_exists mc (so_path m) \<or> mc_compiles mc m"
  have ne: "configured_models env \<noteq> []" using configured_models_ok by blast
  obtain r a1 where pre: "precompile_all (mc_exists mc) (mc_compiles mc) (configured_models env)
      (set_vlm_models (configured_models env) ?d (sv_app sv)) = (r, a1)" by fastforce
  obtain av where av: "r = Inr av" using assms(1,4) pre by (cases r) (simp_all add: bring_up_def Let_def)
  have d: "?u ?d" and avs: "av = filter ?u (configured_models env)"
    using precompiled_models[OF ne, of "mc_exists mc" "mc_compiles mc" "set_vlm_models (configured_models env) ?d (sv_app sv)"]
    by (cases "?u ?d"; simp add: Let_def pre av)+
  have "sv_available sv' = av \<and> sv_holder sv' = Some \<lparr>hd_name = ?d, hd_pending = None\<rparr>"
    using assms(1,4) pre unfolding av by (auto simp: bring_up_def Let_def split: prod.splits option.splits sum.splits)
  moreover have mem: "name \<in> set av \<longleftrightarrow> name \<in> set (configured_models env) \<and> ?u name" for name unfolding avs by simp
  moreover have "?d \<in> set av" unfolding mem using d ne by simp
  moreover from this have "av \<noteq> []" by auto
  ultimately show ?thesis by (simp add: request_switch_def mem)
qed

text \<open>The path of the cache drops the owner of a model, so one cache counts for two models.\<close>

theorem cache_of_another_owner: "so_path (a @ CHR ''/'' # m) = so_path (b @ CHR ''/'' # m)" if "CHR ''/'' \<notin> set m"
proof -
  have parts: "\<exists>ws. ws \<noteq> [] \<and> split_on (CHR ''/'') (a @ CHR ''/'' # m) = ws @ [m]" for a
  proof (induction a)
    case Nil
    then show ?case using split_on_free[OF that] by simp
  next
    case (Cons x a)
    then obtain w ws where "split_on (CHR ''/'') (a @ CHR ''/'' # m) = (w # ws) @ [m]" by (metis list.exhaust)
    then show ?case by simp
  qed
  have "List.last (split_on (CHR ''/'') (a @ CHR ''/'' # m)) = m" for a
    using parts[of a] by auto
  then show ?thesis by (simp add: so_path_def)
qed

section \<open>Concrete streams\<close>

lemma one_client_reached: "hub_step\<^sup>*\<^sup>* hub_start ((own_step 0 ^^ 3) (on_client 0 Waiting None (hub_start\<lparr>hb_app := sse_subscribe 0 initial_app\<rparr>)))"
proof -
  let ?h = "on_client 0 Waiting None (hub_start\<lparr>hb_app := sse_subscribe 0 initial_app\<rparr>)"
  have "hub_step hub_start ?h" using hub_step.connect[of hub_start 0] by (simp add: hub_start_def)
  moreover have "hub_step ?h (own_step 0 ?h)" "hub_step (own_step 0 ?h) (own_step 0 (own_step 0 ?h))"
    "hub_step (own_step 0 (own_step 0 ?h)) (own_step 0 (own_step 0 (own_step 0 ?h)))"
    by (intro own_step_is_step; simp add: on_client_def)+
  ultimately show ?thesis by (simp only: numeral_3_eq_3 funpow.simps comp_def id_def)
qed


theorem switches_offered_witness:
  "fst (fst (request_switch (sv_available (snd (bring_up (orin\<lparr>mc_models := configured_models (Some '' x/a, ,y/b'')\<rparr>) (fresh_server sample_settings saved))))
     ''y/b'' (sv_holder (snd (bring_up (orin\<lparr>mc_models := configured_models (Some '' x/a, ,y/b'')\<rparr>) (fresh_server sample_settings saved))))))"
proof -
  let ?mc = "orin\<lparr>mc_models := configured_models (Some '' x/a, ,y/b'')\<rparr>" and ?sv = "fresh_server sample_settings saved"
  have m: "configured_models (Some '' x/a, ,y/b'') = [''x/a'', ''y/b'']" by code_simp
  have "fst (bring_up ?mc ?sv) = None"
    by (simp add: bring_up_def orin_def m precompile_all_def fresh_server_def spawn_def no_child_def Let_def split: prod.splits sum.splits)
  then obtain sv' where b: "bring_up ?mc ?sv = (None, sv')" by (metis prod.collapse)
  have "sv_available ?sv = []" "sv_holder ?sv = None" by (simp_all add: fresh_server_def)
  from switches_offered[OF _ this b, of "Some '' x/a, ,y/b''"] show ?thesis unfolding b by (auto simp: m orin_def)
qed

end
