(* ===== verification/Spec2Isabelle.thy ===== *)
theory Spec2Isabelle
  imports Router_Races Router_Storage Router_Streams Streamer_Service Streamer_Onvif Streamer_Mediamtx
    Analyzer_Races Analyzer_Child Analyzer_Worker Analyzer_Server Analyzer_Notify Event_Stream
    Session_Spec Router_Transactions Recorder_Crash Recorder_Diagnostics Recorder_Timeline
    Analyzer_Streams
begin

text \<open>
  Babycat: a camera that watches, judges what it sees with a visual language model (VLM), and
  keeps clips and a history of the events. Four containers; this development models the Python
  code of all four, in the order a frame and a request travel.

  \<^bold>\<open>Router\<close> (\<open>src/router\<close>), the only entry point. It owns the accounts, checks every request,
  relays it to its owner, and merges the monitoring data of the others.
    \<^item> \<open>Router_Tokens\<close>, \<open>Router_Auth\<close>: \<open>auth.py\<close>; tokens, the four tables of \<open>database.py\<close> as lists
      of rows, login limiter, epochs, refresh rotation. Every function takes the database and
      returns it as committed.
    \<^item> \<open>Router_Storage\<close>, \<open>Router_Sessions\<close>: the handlers of \<open>main.py\<close> over accounts, WHEP sessions and
      per-account documents, and runs of any requests (\<open>serve\<close>).
    \<^item> \<open>Session_Spec\<close>: the abstract session machine (an epoch and the set of live refresh tokens per
      account) that the tables implement.
    \<^item> \<open>Router_Races\<close>: where handlers interleave below a request (WHEP set-up, failure counter, a login
      and a password change).
    \<^item> \<open>Router_Transactions\<close>: the same handlers by execute and commit on the connection of \<open>get_db\<close>
      (\<open>database.py\<close>), in the state monad; they implement the functions, and are cut off at any commit.
    \<^item> \<open>Router_Relay\<close>, \<open>Router_Streams\<close>: \<open>proxy.py\<close> and the relaying handlers; fan-out, guarded
      streams, allowed origins, access-log masking, the signing secret at start.
    \<^item> \<open>Router_Monitor\<close>: \<open>monitor.py\<close>.

  \<^bold>\<open>Streamer\<close> (\<open>src/streamer\<close>), beside MediaMTX: camera profile, connection, PTZ.
    \<^item> \<open>Streamer_Ptz\<close>, \<open>Streamer_Onvif\<close>: \<open>ptz.py\<close>; presets, patrol and flags, and the SOAP requests,
      the patterns that read the answers, the cached profile token, polling.
    \<^item> \<open>Atomic_File\<close>, \<open>Streamer_Camera\<close>, \<open>Streamer_Service\<close>: \<open>camera.py\<close> and the endpoints of \<open>main.py\<close>.
    \<^item> \<open>Streamer_Mediamtx\<close>: the supervised child and its shutdown.

  \<^bold>\<open>Analyzer\<close> (\<open>src/analyzer\<close>): frames in, judgments out.
    \<^item> \<open>Analyzer_Settings\<close>, \<open>Analyzer_State\<close>: \<open>settings.py\<close> and \<open>state.py\<close>.
    \<^item> \<open>Analyzer_Pipeline\<close>, \<open>Analyzer_Races\<close>: \<open>main.py\<close> and \<open>pipeline_lifecycle.py\<close>; ring, frame callback,
      watchdog, and every interleaving of starts, stops, watchdog, start-up and frames, one
      program counter per thread.
    \<^item> \<open>Analyzer_Vlm\<close>, \<open>Analyzer_Child\<close>, \<open>Analyzer_Worker\<close>: \<open>vlm_worker.py\<close>, \<open>holder.py\<close> and the worker loop
      of \<open>main.py\<close>; process manager, the child and the channel to it, switch with rollback, one
      round of the worker.
    \<^item> \<open>Analyzer_Server\<close>, \<open>Analyzer_Notify\<close>: \<open>server.py\<close>, \<open>main()\<close> and \<open>notify.py\<close>; the last one follows a
      judgment into the recorder's history. \<open>Analyzer_Streams\<close>: the threads of the two streams against
      the setters of the state, each in the sections its locks make, and the model list of \<open>holder.py\<close>.

  \<^bold>\<open>Recorder\<close> (\<open>src/recorder\<close>): clips, history, hardware.
    \<^item> \<open>Recorder_Clips\<close>: \<open>clip_storage.py\<close> and clip names; \<open>Recorder_Segments\<close>: \<open>rollover.py\<close>, \<open>segments.py\<close>,
      \<open>status.py\<close>; \<open>Recorder_Events\<close>: \<open>finalize.py\<close>, \<open>events_db.py\<close>, \<open>state_store.py\<close>, with
      \<open>Recorder_Diagnostics\<close> for the ffmpeg side of \<open>diagnostics.py\<close>; \<open>Recorder_History\<close>: \<open>main.py\<close>;
      \<open>Recorder_Hardware\<close>: \<open>hardware.py\<close>.
    \<^item> \<open>Recorder_Races\<close>: user deletions, pruning and publications at the clip tree at the same time.
      \<open>Recorder_Crash\<close>: the same code as steps on the disk (\<open>Atomic_File\<close>), cut off anywhere, and the
      sweep of the next start.
    \<^item> \<open>Recorder_Calendar\<close>: the dates, time stamps and segment names of the recorder in a zone with a
      fixed offset, over \<open>Py_Calendar\<close> (the Gregorian calendar) and \<open>Py_Time\<close> (\<open>strftime\<close>, \<open>strptime\<close>);
      \<open>Recorder_Timeline\<close> follows one event and one judgment through names, rows, days and buckets.

  \<open>Monitoring\<close> puts the three status sources and the router's merge together, and \<open>Event_Stream\<close> follows
  the printed events from the analyzer through the router to the client. \<open>Prelude\<close>, \<open>Py_Values\<close> and
  \<open>Py_Json\<close> hold what all share: rows of a table, Python's conversions, strings, dicts and JSON, and
  the locales: \<open>keyed_update\<close> (an UPDATE that keeps the key), \<open>keeps\<close> and \<open>moves\<close> (what every step
  keeps or moves along, a run does too), \<open>simulation\<close> (a run seen through an abstraction is a run of
  the abstract machine), \<open>backoff\<close> (the retry delays), \<open>float_text\<close> (the decimal texts that are read
  back) and \<open>local_days\<close> (what the history needs of a calendar). Each is interpreted on the operations of the components; \<open>account_steps\<close> in
  \<open>Router_Sessions\<close> carries the router's invariants through its handlers.

  \<^bold>\<open>Correspondence.\<close> Records are the module or object state, datatypes its tagged values; a handler is
  one function from inputs and state to answer and state, with every early return. Errors are
  values: \<open>http_error + 'a\<close>, or \<open>option\<close> where the code returns \<open>None\<close> or an exception is caught. Clock
  readings, random texts, file contents, process exits and answers of other services are
  arguments. Threads are program counters over the shared state; a step is what runs under one
  lock or between two visible effects. In \<open>Recorder_Races\<close> one thread runs against a function
  that says what the others did to the tree before each of its file accesses; the recorder's
  operations take the pruning as an argument, so the same definitions run alone and disturbed.
  A crash is the death of a process: what it wrote is on the disk, the rest of its steps is not.

  \<^bold>\<open>What is shown.\<close>
    \<^item> Sessions: an ended session is refused for ever, on requests and on open streams; a refresh token
      works once; what the tables keep; no WHEP session outlives its replacement; every run of
      requests is a run of the abstract machine, with at most one kept login per account; the
      statements on the database implement the handlers, and a crash between them revives nothing.
    \<^item> Analyzer: after all starts and stops are answered a pipeline runs exactly when analysis is on;
      requests are always answered; the ring holds frames of the current pipeline (and the one
      overlap where it does not); one VLM child; an answer belongs to its job; the settings file
      follows the state.
    \<^item> Recorder: cooldown across restarts; a clip is complete or absent and counted; pruning removes
      the oldest; contiguous segments; segment names, history filters, summary and
      retention mean the times of the clock; no lost start of the
      buffer; after a crash and restart every clip and sidecar left is whole; the counter is
      exact in every interleaving once the adjustments are made.
    \<^item> Streamer: a start connects the registered profile; restarts restore presets and patrol; no
      password leaves; one MediaMTX.
    \<^item> Streams: no change of the state is missed by a client of the event stream, and the frame stream
      can be read back.
    \<^item> Across: a judgment is found in the history under its words and counted in its hour; its event
      row names its keywords and opens its clip;
      the event texts carry every field of every source to the client; a polling client sees the
      last state.
  Where the code does not do what it means to, the theorem that shows it stands beside the ones
  that hold (\<open>old_password_outlives_its_change\<close>, \<open>crash_splits_password_change\<close>,
  \<open>deletion_costs_the_next_clip\<close>, \<open>crash_can_lose_the_row\<close>, \<open>unreadable_answer_ends_polling\<close> and theorems
  named in the theories and in the findings).

  \<^bold>\<open>Bounds and fuel.\<close> The ring keeps the last frames of its capacity; the watchdog waits 15 seconds and
  doubles to at most 60; \<open>recv\<close> needs at most timeout + 1 polls of a second, \<open>connect\<close> 601 of a tenth.
  Two functions carry fuel: the JSON scanner, with the length of the text, which every \<open>dumps\<close> text
  is read back with, and the glob matcher with length of pattern and name plus one, which shrinks
  one of the two at each step. All other loops are structural or have a measure.

  \<^bold>\<open>Not modelled.\<close> GStreamer, NanoLLM, ffmpeg, MediaMTX, SQLite's engine, Starlette and urllib are not
  in the repository: their documented answers are inputs. Floats are reals (no NaN, no rounding of
  arithmetic); text is Latin-1, one character per code point; logging, process start-up flags and
  the pipeline description strings are left out. The web client is JavaScript. A loss
  of power, which may also undo what a process wrote, is not modelled. Event texts are followed
  for values that print without a fraction or with one decimal, which are the ones the sources
  send. \<open>Recorder_History\<close> takes any calendar; the concrete one has no daylight saving, like the
  zone of the containers (the theorem on a changing offset is \<open>summary_drops_rows_after_offset_change\<close>),
  and its theorems cover the years that print with four digits.
\<close>

end
